(* ===== verification/Prelude.thy ===== *)
theory Prelude
  imports Main "HOL-Library.Word" "HOL-Library.List_Lexorder"
begin

text \<open>
  Shared vocabulary of the development.

  \<^item> Integers. Rust's unsigned integers are natural numbers with their width written out: a
    \<open>u64\<close> is a \<open>nat\<close> below \<open>2 ^ 64\<close>, \<open>saturating_add\<close> is
    \<open>sat_add 64\<close>, \<open>checked_add\<close> is \<open>checked_add 64\<close>, a narrowing
    \<open>try_from\<close> is \<open>try_into_u 32\<close>. \<open>saturating_sub\<close> on naturals is HOL's
    own \<open>-\<close>.
  \<^item> Bytes are \<open>8 word\<close>s, a \<open>[u8; 32]\<close> digest is a list of 32 of them, and
    digests are compared and sorted lexicographically, as Rust's array order does.
  \<^item> Fallible code returns a sum, \<open>Inl\<close> the error; \<open>ensure\<close>, \<open>rbind\<close>,
    \<open>ok_or\<close> and \<open>map_err\<close> are Rust's \<open>ensure!\<close>, \<open>?\<close>,
    \<open>ok_or\<close> and \<open>map_err\<close>.
  \<^item> A Goldilocks field element is a natural below the prime, as a type of its own.
  \<^item> \<open>poseidon\<close> collects the functions of the third-party crate \<open>qp_poseidon_core\<close>
    that the sources call; every definition that hashes takes it as an argument.
\<close>

named_theorems width_defs \<open>definitions of the fixed-width integer operations\<close>

section \<open>Results\<close>

type_synonym ('e, 'a) result = "'e + 'a"

definition ensure :: "bool \<Rightarrow> 'e \<Rightarrow> ('e, 'a) result \<Rightarrow> ('e, 'a) result" where
  "ensure c e k = (if c then k else Inl e)"

definition rbind :: "('e, 'a) result \<Rightarrow> ('a \<Rightarrow> ('e, 'b) result) \<Rightarrow> ('e, 'b) result" where
  "rbind r f = (case r of Inl e \<Rightarrow> Inl e | Inr x \<Rightarrow> f x)"

definition ok_or :: "'a option \<Rightarrow> 'e \<Rightarrow> ('e, 'a) result" where
  "ok_or x e = (case x of None \<Rightarrow> Inl e | Some y \<Rightarrow> Inr y)"

definition map_err :: "('e \<Rightarrow> 'f) \<Rightarrow> ('e, 'a) result \<Rightarrow> ('f, 'a) result" where
  "map_err f r = (case r of Inl e \<Rightarrow> Inl (f e) | Inr x \<Rightarrow> Inr x)"

definition is_ok :: "('e, 'a) result \<Rightarrow> bool" where
  "is_ok r = (case r of Inl _ \<Rightarrow> False | Inr _ \<Rightarrow> True)"

lemma ensure_simps [simp]:
  "ensure True e k = k"
  "ensure False e k = Inl e"
  by (simp_all add: ensure_def)

lemma ensure_eq_Inr [simp]: "ensure c e k = Inr x \<longleftrightarrow> c \<and> k = Inr x"
  by (simp add: ensure_def)

lemma ensure_eq_Inl [simp]: "ensure c e k = Inl x \<longleftrightarrow> (\<not> c \<and> e = x) \<or> (c \<and> k = Inl x)"
  by (auto simp: ensure_def)

lemma rbind_simps [simp]:
  "rbind (Inl e) f = Inl e"
  "rbind (Inr x) f = f x"
  by (simp_all add: rbind_def)

lemma rbind_eq_Inr [simp]: "rbind r f = Inr y \<longleftrightarrow> (\<exists>x. r = Inr x \<and> f x = Inr y)"
  by (cases r) simp_all

lemma rbind_eq_Inl: "rbind r f = Inl e \<longleftrightarrow> r = Inl e \<or> (\<exists>x. r = Inr x \<and> f x = Inl e)"
  by (cases r) simp_all

lemma ok_or_simps [simp]:
  "ok_or None e = Inl e"
  "ok_or (Some x) e = Inr x"
  by (simp_all add: ok_or_def)

lemma ok_or_eq_Inr [simp]: "ok_or x e = Inr y \<longleftrightarrow> x = Some y"
  by (cases x) simp_all

lemma ok_or_eq_Inl [simp]: "ok_or x e = Inl f \<longleftrightarrow> x = None \<and> e = f"
  by (cases x) simp_all

lemma map_err_simps [simp]:
  "map_err f (Inl e) = Inl (f e)"
  "map_err f (Inr x) = Inr x"
  by (simp_all add: map_err_def)

lemma map_err_eq_Inr [simp]: "map_err f r = Inr x \<longleftrightarrow> r = Inr x"
  by (cases r) simp_all

lemma is_ok_simps [simp]:
  "is_ok (Inl e) = False"
  "is_ok (Inr x) = True"
  by (simp_all add: is_ok_def)

lemma is_ok_iff: "is_ok r \<longleftrightarrow> (\<exists>x. r = Inr x)"
  by (cases r) simp_all

section \<open>Fixed-width integers\<close>

definition max_u :: "nat \<Rightarrow> nat" where
  "max_u w = 2 ^ w - 1"

definition sat_add :: "nat \<Rightarrow> nat \<Rightarrow> nat \<Rightarrow> nat" where
  [width_defs]: "sat_add w a b = min (a + b) (2 ^ w - 1)"

definition sat_mul :: "nat \<Rightarrow> nat \<Rightarrow> nat \<Rightarrow> nat" where
  [width_defs]: "sat_mul w a b = min (a * b) (2 ^ w - 1)"

definition checked_add :: "nat \<Rightarrow> nat \<Rightarrow> nat \<Rightarrow> nat option" where
  [width_defs]: "checked_add w a b = (if a + b < 2 ^ w then Some (a + b) else None)"

definition checked_sub :: "nat \<Rightarrow> nat \<Rightarrow> nat option" where
  [width_defs]: "checked_sub a b = (if b \<le> a then Some (a - b) else None)"

definition checked_mul :: "nat \<Rightarrow> nat \<Rightarrow> nat \<Rightarrow> nat option" where
  [width_defs]: "checked_mul w a b = (if a * b < 2 ^ w then Some (a * b) else None)"

definition try_into_u :: "nat \<Rightarrow> nat \<Rightarrow> nat option" where
  [width_defs]: "try_into_u w a = (if a < 2 ^ w then Some a else None)"

definition div_ceil :: "nat \<Rightarrow> nat \<Rightarrow> nat" where
  "div_ceil a b = (if a mod b = 0 then a div b else a div b + 1)"

lemma two_pow_pos: "(0::nat) < 2 ^ w"
  by simp

lemma checked_add_Some [simp]: "checked_add w a b = Some c \<longleftrightarrow> c = a + b \<and> a + b < 2 ^ w"
  by (auto simp: checked_add_def)

lemma checked_sub_Some [simp]: "checked_sub a b = Some c \<longleftrightarrow> b \<le> a \<and> c = a - b"
  by (auto simp: checked_sub_def)

lemma checked_mul_Some [simp]: "checked_mul w a b = Some c \<longleftrightarrow> c = a * b \<and> a * b < 2 ^ w"
  by (auto simp: checked_mul_def)

lemma try_into_u_Some [simp]: "try_into_u w a = Some b \<longleftrightarrow> a = b \<and> a < 2 ^ w"
  by (auto simp: try_into_u_def)

lemma sat_add_exact: "a + b < 2 ^ w \<Longrightarrow> sat_add w a b = a + b"
  by (simp add: sat_add_def)

lemma sat_add_bound: "sat_add w a b < 2 ^ w"
  using two_pow_pos [of w] unfolding sat_add_def by linarith

lemma sat_add_le: "sat_add w a b \<le> a + b"
  by (simp add: sat_add_def)

lemma sat_mul_exact: "a * b < 2 ^ w \<Longrightarrow> sat_mul w a b = a * b"
  by (simp add: sat_mul_def)

lemma sat_mul_le: "sat_mul w a b \<le> a * b"
  by (simp add: sat_mul_def)

lemma div_ceil_zero [simp]: "div_ceil 0 b = 0"
  by (simp add: div_ceil_def)

lemma div_ceil_le_iff:
  assumes "0 < b"
  shows "div_ceil a b \<le> k \<longleftrightarrow> a \<le> k * b"
proof (cases "a mod b = 0")
  case True
  then have "a = (a div b) * b" by auto
  with True assms show ?thesis
    by (metis div_ceil_def mult_le_cancel2)
next
  case False
  have split: "a = (a div b) * b + a mod b" by simp
  have "a mod b < b" using assms by simp
  show ?thesis
  proof
    assume "div_ceil a b \<le> k"
    with False have "a div b + 1 \<le> k" by (simp add: div_ceil_def)
    then have "(a div b + 1) * b \<le> k * b" by (rule mult_le_mono1)
    with split \<open>a mod b < b\<close> show "a \<le> k * b"
      unfolding add_mult_distrib by linarith
  next
    assume le: "a \<le> k * b"
    have "a div b < k"
    proof (rule ccontr)
      assume "\<not> a div b < k"
      then have "k * b \<le> (a div b) * b" by simp
      with le split False show False by linarith
    qed
    with False show "div_ceil a b \<le> k" by (simp add: div_ceil_def)
  qed
qed

lemma div_ceil_mult_ge: "0 < b \<Longrightarrow> a \<le> div_ceil a b * b"
  using div_ceil_le_iff [of b a "div_ceil a b"] by simp

lemma div_ceil_add_le:
  assumes "0 < q"
  shows "div_ceil (a + b) q \<le> div_ceil a q + div_ceil b q"
  using div_ceil_mult_ge [OF assms, of a] div_ceil_mult_ge [OF assms, of b]
  by (simp add: div_ceil_le_iff [OF assms] algebra_simps)

lemma div_ceil_sum_list_le:
  assumes "0 < q"
  shows "div_ceil (sum_list xs) q \<le> sum_list (map (\<lambda>x. div_ceil x q) xs)"
proof (induction xs)
  case Nil
  then show ?case by simp
next
  case (Cons x xs)
  have "div_ceil (x + sum_list xs) q \<le> div_ceil x q + div_ceil (sum_list xs) q"
    by (rule div_ceil_add_le [OF assms])
  with Cons show ?case by simp
qed

lemma div_ceil_mono: "a \<le> b \<Longrightarrow> 0 < q \<Longrightarrow> div_ceil a q \<le> div_ceil b q"
  using div_ceil_mult_ge [of q b] by (simp add: div_ceil_le_iff)

section \<open>Lists read by index\<close>

text \<open>Rust's \<open>slice::get\<close>.\<close>

definition list_get :: "'a list \<Rightarrow> nat \<Rightarrow> 'a option" where
  "list_get xs i = (if i < length xs then Some (xs ! i) else None)"

lemma list_get_Some [simp]: "list_get xs i = Some x \<longleftrightarrow> i < length xs \<and> x = xs ! i"
  by (auto simp: list_get_def)

lemma list_get_None [simp]: "list_get xs i = None \<longleftrightarrow> length xs \<le> i"
  by (auto simp: list_get_def)

section \<open>Bytes and little-endian integers\<close>

type_synonym byte = "8 word"
type_synonym hash256 = "byte list"

fun le_bytes :: "nat \<Rightarrow> nat \<Rightarrow> byte list" where
  "le_bytes 0 x = []"
| "le_bytes (Suc n) x = word_of_nat x # le_bytes n (x div 256)"

fun of_le_bytes :: "byte list \<Rightarrow> nat" where
  "of_le_bytes [] = 0"
| "of_le_bytes (b # bs) = unat b + 256 * of_le_bytes bs"

function chunks_exact :: "nat \<Rightarrow> 'a list \<Rightarrow> 'a list list" where
  "chunks_exact n xs =
     (if n = 0 \<or> length xs < n then [] else take n xs # chunks_exact n (drop n xs))"
  by pat_completeness auto
termination
  by (relation "measure (\<lambda>(n, xs). length xs)") auto

declare chunks_exact.simps [simp del]

lemma length_le_bytes [simp]: "length (le_bytes n x) = n"
  by (induction n arbitrary: x) auto

lemma unat_byte_of_nat: "unat (word_of_nat x :: byte) = x mod 256"
  by (simp add: unat_of_nat)

lemma unat_byte_lt: "unat (b :: byte) < 256"
  using unsigned_less [of b, where ?'a = nat] by simp

lemma of_le_le_bytes: "of_le_bytes (le_bytes n x) = x mod 256 ^ n"
proof (induction n arbitrary: x)
  case 0
  then show ?case by simp
next
  case (Suc n)
  show ?case
    by (simp add: Suc unat_byte_of_nat mod_mult2_eq)
qed

lemma of_le_le_bytes_id: "x < 256 ^ n \<Longrightarrow> of_le_bytes (le_bytes n x) = x"
  by (simp add: of_le_le_bytes)

lemma of_le_bytes_bound: "of_le_bytes bs < 256 ^ length bs"
proof (induction bs)
  case Nil
  then show ?case by simp
next
  case (Cons b bs)
  have "unat b < 256" by (rule unat_byte_lt)
  moreover have "of_le_bytes bs + 1 \<le> 256 ^ length bs" using Cons by simp
  then have "256 * (of_le_bytes bs + 1) \<le> 256 * 256 ^ length bs" by (rule mult_le_mono2)
  ultimately show ?case by simp
qed

lemma le_bytes_of_le: "le_bytes (length bs) (of_le_bytes bs) = bs"
proof (induction bs)
  case Nil
  then show ?case by simp
next
  case (Cons b bs)
  have small: "unat b < 256" by (rule unat_byte_lt)
  have "(256 :: byte) = 0" by simp
  then have "256 * (word_of_nat (of_le_bytes bs) :: byte) = 0" by (simp only: mult_zero_left)
  then have "word_of_nat (unat b + 256 * of_le_bytes bs) = b" by simp
  moreover have "(unat b + 256 * of_le_bytes bs) div 256 = of_le_bytes bs"
    using small by simp
  ultimately show ?case using Cons by simp
qed

lemma of_le_bytes_inject: "length as = length bs \<Longrightarrow> of_le_bytes as = of_le_bytes bs \<Longrightarrow> as = bs"
  by (metis le_bytes_of_le)

lemma le_bytes_inject: "x < 256 ^ n \<Longrightarrow> y < 256 ^ n \<Longrightarrow> le_bytes n x = le_bytes n y \<Longrightarrow> x = y"
  by (metis of_le_le_bytes_id)

lemma chunks_exact_Nil [simp]: "0 < n \<Longrightarrow> chunks_exact n [] = []"
  by (simp add: chunks_exact.simps)

lemma chunks_exact_append:
  "0 < n \<Longrightarrow> length xs = n \<Longrightarrow> chunks_exact n (xs @ ys) = xs # chunks_exact n ys"
  by (subst chunks_exact.simps) simp

lemma chunks_exact_short: "length xs < n \<Longrightarrow> chunks_exact n xs = []"
  by (subst chunks_exact.simps) simp

lemma chunks_exact_concat:
  "0 < n \<Longrightarrow> \<forall>x\<in>set xss. length x = n \<Longrightarrow> chunks_exact n (concat xss) = xss"
  by (induction xss) (simp_all add: chunks_exact_append)

lemma chunks_exact_lengths: "c \<in> set (chunks_exact n xs) \<Longrightarrow> length c = n"
  by (induction n xs rule: chunks_exact.induct)
    (subst (asm) (2) chunks_exact.simps, auto split: if_splits)

lemma concat_chunks_exact: "0 < n \<Longrightarrow> n dvd length xs \<Longrightarrow> concat (chunks_exact n xs) = xs"
proof (induction n xs rule: chunks_exact.induct)
  case (1 n xs)
  show ?case
  proof (cases "length xs < n")
    case True
    with "1.prems" have "xs = []" by (auto dest: dvd_imp_le)
    with "1.prems" show ?thesis by simp
  next
    case False
    with "1.prems" have "n dvd length (drop n xs)" by (auto simp: dvd_diff_nat)
    with "1.IH" False "1.prems" have "concat (chunks_exact n (drop n xs)) = drop n xs" by simp
    with False "1.prems" show ?thesis
      by (subst chunks_exact.simps) simp
  qed
qed

lemma length_chunks_exact: "0 < n \<Longrightarrow> length (chunks_exact n xs) = length xs div n"
proof (induction n xs rule: chunks_exact.induct)
  case (1 n xs)
  show ?case
  proof (cases "length xs < n")
    case True
    then show ?thesis by (simp add: chunks_exact_short)
  next
    case False
    with "1" have "length (chunks_exact n (drop n xs)) = (length xs - n) div n" by simp
    with False "1.prems" show ?thesis
      by (subst chunks_exact.simps) (simp add: le_div_geq)
  qed
qed

section \<open>The Goldilocks field and 32-byte digests\<close>

definition GOLDILOCKS_P :: nat where
  "GOLDILOCKS_P = 0xFFFFFFFF00000001"

lemma GOLDILOCKS_P_bounds: "0 < GOLDILOCKS_P" "GOLDILOCKS_P < 2 ^ 64" "2 ^ 64 < 2 * GOLDILOCKS_P"
  by (simp_all add: GOLDILOCKS_P_def)

typedef goldilocks = "{n :: nat. n < GOLDILOCKS_P}"
  morphisms to_canonical_u64 goldilocks_of
  using GOLDILOCKS_P_bounds(1) by blast

setup_lifting type_definition_goldilocks

lift_definition felt_from_u64 :: "nat \<Rightarrow> goldilocks" is "\<lambda>n. n mod GOLDILOCKS_P"
  using GOLDILOCKS_P_bounds(1) by simp

instantiation goldilocks :: equal
begin

definition equal_goldilocks :: "goldilocks \<Rightarrow> goldilocks \<Rightarrow> bool" where
  "equal_goldilocks a b \<longleftrightarrow> to_canonical_u64 a = to_canonical_u64 b"

instance
  by standard (simp add: equal_goldilocks_def to_canonical_u64_inject)

end

lemma to_canonical_felt_from [simp]: "to_canonical_u64 (felt_from_u64 n) = n mod GOLDILOCKS_P"
  by transfer simp

lemma to_canonical_lt: "to_canonical_u64 x < GOLDILOCKS_P"
  using to_canonical_u64 [of x] by simp

lemma to_canonical_lt_2_64: "to_canonical_u64 x < 2 ^ 64"
  using to_canonical_lt [of x] GOLDILOCKS_P_bounds(2) by (rule less_trans)

lemma felt_from_to_canonical [simp]: "felt_from_u64 (to_canonical_u64 x) = x"
  by transfer simp

lemma felt_eq_iff: "x = y \<longleftrightarrow> to_canonical_u64 x = to_canonical_u64 y"
  by (simp add: to_canonical_u64_inject)

definition limbs :: "byte list \<Rightarrow> nat list" where
  "limbs bs = map of_le_bytes (chunks_exact 8 bs)"

definition canonical_limbs :: "byte list \<Rightarrow> bool" where
  "canonical_limbs bs \<longleftrightarrow> list_all (\<lambda>l. l < GOLDILOCKS_P) (limbs bs)"

definition digest_of_limbs :: "nat list \<Rightarrow> hash256" where
  "digest_of_limbs ls = concat (map (le_bytes 8) ls)"

definition zero_hash :: hash256 where
  "zero_hash = replicate 32 0"

lemma length_digest_of_limbs [simp]: "length (digest_of_limbs ls) = 8 * length ls"
  by (induction ls) (simp_all add: digest_of_limbs_def)

lemma le_bytes_zero: "le_bytes n 0 = replicate n 0"
  by (induction n) simp_all

lemma zero_hash_limbs: "zero_hash = digest_of_limbs [0, 0, 0, 0]"
  by (simp add: zero_hash_def digest_of_limbs_def le_bytes_zero flip: replicate_add)

lemma limbs_digest_of_limbs: "\<forall>l\<in>set ls. l < 2 ^ 64 \<Longrightarrow> limbs (digest_of_limbs ls) = ls"
proof -
  assume small: "\<forall>l\<in>set ls. l < 2 ^ 64"
  have "map (of_le_bytes \<circ> le_bytes 8) ls = ls"
    using small by (intro map_idI) (simp add: of_le_le_bytes)
  then show ?thesis
    unfolding limbs_def digest_of_limbs_def by (subst chunks_exact_concat) auto
qed

lemma digest_of_limbs_limbs: "8 dvd length bs \<Longrightarrow> digest_of_limbs (limbs bs) = bs"
proof -
  assume dvd: "8 dvd length bs"
  have "map (le_bytes 8 \<circ> of_le_bytes) (chunks_exact 8 bs) = chunks_exact 8 bs"
  proof (rule map_idI)
    fix c :: "byte list" assume "c \<in> set (chunks_exact 8 bs)"
    then have "length c = 8" by (rule chunks_exact_lengths)
    then show "(le_bytes 8 \<circ> of_le_bytes) c = c" using le_bytes_of_le [of c] by simp
  qed
  then show ?thesis
    using dvd by (simp add: limbs_def digest_of_limbs_def concat_chunks_exact)
qed

lemma digest_of_limbs_inject:
  "\<forall>l\<in>set ls. l < 2 ^ 64 \<Longrightarrow> \<forall>l\<in>set ms. l < 2 ^ 64 \<Longrightarrow>
   digest_of_limbs ls = digest_of_limbs ms \<Longrightarrow> ls = ms"
  by (metis limbs_digest_of_limbs)

section \<open>The third-party hash crate\<close>

text \<open>
  \<open>qp_poseidon_core\<close> is not part of the repository. \<open>hash_to_bytes\<close> hashes field
  elements, \<open>hash_bytes\<close> hashes bytes, \<open>bytes_to_digest\<close> is the strict decoder
  that refuses a non-canonical limb, \<open>bytes_to_u64s_compact\<close> splits bytes into 8-byte
  limbs, and \<open>u64_to_felts\<close> splits an integer into two 32-bit limbs.
\<close>

record poseidon =
  hash_to_bytes :: "goldilocks list \<Rightarrow> hash256"
  hash_bytes :: "byte list \<Rightarrow> hash256"
  bytes_to_digest :: "hash256 \<Rightarrow> goldilocks list option"
  bytes_to_u64s_compact :: "byte list \<Rightarrow> nat list"
  u64_to_felts :: "nat \<Rightarrow> goldilocks list"

text \<open>
  The documented behaviour the sources rely on. A hash is 32 bytes of canonical limbs (a Poseidon2
  output is four field elements), the compact splitter reads 8-byte little-endian limbs, the strict
  decoder accepts exactly the canonical 32-byte digests, and an integer is split high limb first.
\<close>

definition poseidon_ok :: "poseidon \<Rightarrow> bool" where
  "poseidon_ok pc \<longleftrightarrow>
     (\<forall>fs. length (hash_to_bytes pc fs) = 32 \<and> canonical_limbs (hash_to_bytes pc fs)) \<and>
     (\<forall>bs. length (hash_bytes pc bs) = 32 \<and> canonical_limbs (hash_bytes pc bs)) \<and>
     (\<forall>bs. 8 dvd length bs \<longrightarrow> bytes_to_u64s_compact pc bs = limbs bs) \<and>
     (\<forall>bs. bytes_to_digest pc bs =
        (if length bs = 32 \<and> canonical_limbs bs then Some (map felt_from_u64 (limbs bs)) else None)) \<and>
     (\<forall>n. n < 2 ^ 64 \<longrightarrow>
        u64_to_felts pc n = [felt_from_u64 (n div 2 ^ 32), felt_from_u64 (n mod 2 ^ 32)])"

text \<open>A concrete instance of the contract, used where an example has to be evaluated.\<close>

definition sample_hash :: "nat list \<Rightarrow> hash256" where
  "sample_hash ns = digest_of_limbs [foldl (\<lambda>acc n. (acc * 31 + n) mod GOLDILOCKS_P) 7 ns, 0, 0, 1]"

definition sample_poseidon :: poseidon where
  "sample_poseidon =
     \<lparr>hash_to_bytes = (\<lambda>fs. sample_hash (map to_canonical_u64 fs)),
      hash_bytes = (\<lambda>bs. sample_hash (map unat bs)),
      bytes_to_digest = (\<lambda>bs. if length bs = 32 \<and> canonical_limbs bs
                                then Some (map felt_from_u64 (limbs bs)) else None),
      bytes_to_u64s_compact = limbs,
      u64_to_felts = (\<lambda>n. [felt_from_u64 (n div 2 ^ 32), felt_from_u64 (n mod 2 ^ 32)])\<rparr>"

lemma length_limbs: "length (limbs bs) = length bs div 8"
  by (simp add: limbs_def length_chunks_exact)

lemma limbs_append: "8 dvd length xs \<Longrightarrow> limbs (xs @ ys) = limbs xs @ limbs ys"
proof -
  assume "8 dvd length xs"
  then have xs: "concat (chunks_exact 8 xs) = xs" by (simp add: concat_chunks_exact)
  have "chunks_exact 8 (concat cs @ ys) = cs @ chunks_exact 8 ys"
    if "\<forall>c\<in>set cs. length c = 8" for cs :: "byte list list"
    using that by (induction cs) (simp_all add: chunks_exact_append)
  from this [of "chunks_exact 8 xs"] xs show ?thesis
    by (simp add: limbs_def chunks_exact_lengths)
qed

lemma dvd_length_concat: "\<forall>x\<in>set xss. n dvd length x \<Longrightarrow> n dvd length (concat xss)"
  by (induction xss) simp_all

lemma limbs_concat: "\<forall>x\<in>set xss. 8 dvd length x \<Longrightarrow> limbs (concat xss) = concat (map limbs xss)"
  by (induction xss) (simp_all add: limbs_append, simp add: limbs_def)

lemma limbs_inject: "8 dvd length a \<Longrightarrow> 8 dvd length b \<Longrightarrow> limbs a = limbs b \<Longrightarrow> a = b"
  by (metis digest_of_limbs_limbs)

lemma map_felt_inject:
  "list_all (\<lambda>l. l < GOLDILOCKS_P) xs \<Longrightarrow> list_all (\<lambda>l. l < GOLDILOCKS_P) ys \<Longrightarrow>
   map felt_from_u64 xs = map felt_from_u64 ys \<Longrightarrow> xs = ys"
proof (induction xs arbitrary: ys)
  case Nil
  then show ?case by simp
next
  case (Cons x xs)
  then obtain y ys' where ys: "ys = y # ys'" by (cases ys) auto
  with Cons.prems have "felt_from_u64 x = felt_from_u64 y" by simp
  then have "x mod GOLDILOCKS_P = y mod GOLDILOCKS_P"
    using to_canonical_felt_from [of x] to_canonical_felt_from [of y] by simp
  then have "x = y" using Cons.prems ys by simp
  moreover have "xs = ys'" using Cons.prems ys by (intro Cons.IH) simp_all
  ultimately show ?case using ys by simp
qed

lemma canonical_digest_inject:
  assumes "length a = 32" "length b = 32" "canonical_limbs a" "canonical_limbs b"
    and "map felt_from_u64 (limbs a) = map felt_from_u64 (limbs b)"
  shows "a = b"
proof -
  have "limbs a = limbs b"
    using assms by (intro map_felt_inject) (simp_all add: canonical_limbs_def)
  then show ?thesis using assms by (intro limbs_inject) simp_all
qed

lemma canonical_digest_of_limbs:
  assumes "\<forall>l\<in>set ls. l < GOLDILOCKS_P"
  shows "canonical_limbs (digest_of_limbs ls)"
proof -
  have "\<forall>l\<in>set ls. l < 2 ^ 64" using assms GOLDILOCKS_P_bounds(2) by auto
  then show ?thesis
    using assms by (simp add: canonical_limbs_def limbs_digest_of_limbs list_all_iff)
qed

lemma sample_hash_canonical: "length (sample_hash ns) = 32 \<and> canonical_limbs (sample_hash ns)"
proof -
  have "foldl (\<lambda>acc n. (acc * 31 + n) mod GOLDILOCKS_P) a ns < GOLDILOCKS_P" if "a < GOLDILOCKS_P" for a
    using that by (induction ns arbitrary: a) (simp_all add: GOLDILOCKS_P_def)
  then have "foldl (\<lambda>acc n. (acc * 31 + n) mod GOLDILOCKS_P) 7 ns < GOLDILOCKS_P"
    by (simp add: GOLDILOCKS_P_def)
  then show ?thesis
    by (simp add: sample_hash_def canonical_digest_of_limbs GOLDILOCKS_P_def)
qed

lemma sample_hash_nonzero: "sample_hash ns \<noteq> zero_hash"
proof
  assume "sample_hash ns = zero_hash"
  then have "le_bytes 8 1 = le_bytes 8 0" by (simp add: sample_hash_def zero_hash_limbs digest_of_limbs_def)
  then show False using le_bytes_inject [of 1 8 0] by simp
qed

lemma sample_poseidon_ok: "poseidon_ok sample_poseidon"
  unfolding poseidon_ok_def sample_poseidon_def by (simp add: sample_hash_canonical)

lemma poseidon_okD:
  assumes "poseidon_ok pc"
  shows "length (hash_to_bytes pc fs) = 32" "canonical_limbs (hash_to_bytes pc fs)"
    "length (hash_bytes pc bs) = 32" "canonical_limbs (hash_bytes pc bs)"
    "8 dvd length bs \<Longrightarrow> bytes_to_u64s_compact pc bs = limbs bs"
    "bytes_to_digest pc bs =
       (if length bs = 32 \<and> canonical_limbs bs then Some (map felt_from_u64 (limbs bs)) else None)"
    "n < 2 ^ 64 \<Longrightarrow> u64_to_felts pc n = [felt_from_u64 (n div 2 ^ 32), felt_from_u64 (n mod 2 ^ 32)]"
  using assms by (simp_all add: poseidon_ok_def)

end
