(* ===== verification/Interfaces.thy ===== *)
theory Interfaces
  imports Prelude
begin

text \<open>
  The seams between the pallets, one locale per Rust trait: the functions a client calls, and what
  the provider promises about them. The provider's theory interprets the locale on the model of the
  pallet; clients prove their lemmas inside the locale.
\<close>

section \<open>Appending note commitments\<close>

text \<open>
  \<open>ZkCommitmentRecorder\<close> of \<open>chain/pallets/zk-tree/src/lib.rs\<close>: an append is accepted
  exactly when the commitment is not the absence sentinel, is canonical, and there is room; it takes
  the next index and uses up one leaf of the remaining capacity.
\<close>

locale commitment_recorder =
  fixes insert :: "'t \<Rightarrow> hash256 \<Rightarrow> ('e, 't \<times> nat) result"
    and remaining :: "'t \<Rightarrow> nat"
    and leaf_total :: "'t \<Rightarrow> nat"
    and leaves :: "'t \<Rightarrow> hash256 list"
    and rinv :: "'t \<Rightarrow> bool"
  assumes insert_total:
      "rinv t \<Longrightarrow> 0 < remaining t \<Longrightarrow> c \<noteq> zero_hash \<Longrightarrow> canonical_limbs c \<Longrightarrow> \<exists>t' i. insert t c = Inr (t', i)"
    and insert_accepts: "insert t c = Inr r \<Longrightarrow> c \<noteq> zero_hash \<and> canonical_limbs c"
    and insert_inv: "rinv t \<Longrightarrow> insert t c = Inr (t', i) \<Longrightarrow> rinv t'"
    and insert_index: "rinv t \<Longrightarrow> insert t c = Inr (t', i) \<Longrightarrow> i = leaf_total t"
    and insert_leaf_total: "rinv t \<Longrightarrow> insert t c = Inr (t', i) \<Longrightarrow> leaf_total t' = Suc (leaf_total t)"
    and insert_remaining: "rinv t \<Longrightarrow> insert t c = Inr (t', i) \<Longrightarrow> Suc (remaining t') = remaining t"
    and insert_leaves: "rinv t \<Longrightarrow> insert t c = Inr (t', i) \<Longrightarrow> leaves t' = leaves t @ [c]"

section \<open>Reading and verifying a proof\<close>

text \<open>
  The two calls of a batch verifier (\<open>crates/qnero-verifier/src/batch.rs\<close>) that a runtime uses.
  Whatever verification accepts, parsing reads to the same public inputs, and public inputs that were
  read have the shape of the layout.
\<close>

record ('e, 'i) proof_verifier =
  parse_proof_bytes :: "byte list \<Rightarrow> ('e, 'i) result"
  verify_proof_bytes :: "byte list \<Rightarrow> ('e, 'i) result"

locale verifier_agreement =
  fixes v :: "('e, 'i) proof_verifier"
    and well_shaped :: "'i \<Rightarrow> bool"
  assumes verify_parse: "verify_proof_bytes v bytes = Inr i \<Longrightarrow> parse_proof_bytes v bytes = Inr i"
    and parse_shape: "parse_proof_bytes v bytes = Inr i \<Longrightarrow> well_shaped i"

section \<open>Burning from an account\<close>

text \<open>
  \<open>Mutate::burn_from\<close> with \<open>Precision::Exact\<close>: on success at least the amount leaves
  the total issuance (an account left below the existential deposit loses its dust as well).
\<close>

locale burnable_currency =
  fixes burn :: "'b \<Rightarrow> 'acc \<Rightarrow> nat \<Rightarrow> ('e, 'b) result"
    and issuance :: "'b \<Rightarrow> nat"
    and binv :: "'b \<Rightarrow> bool"
  assumes burn_inv: "binv b \<Longrightarrow> burn b who amount = Inr b' \<Longrightarrow> binv b'"
    and burn_issuance: "binv b \<Longrightarrow> burn b who amount = Inr b' \<Longrightarrow> issuance b' + amount \<le> issuance b"

section \<open>Paying the block reward\<close>

text \<open>
  \<open>CoinbaseSink\<close> of \<open>chain/primitives/coinbase/src/lib.rs\<close>: a deposit is taken whole
  into the supply behind the sink, or comes back whole with that supply unchanged.
\<close>

locale coinbase_sink =
  fixes deposit :: "'w \<Rightarrow> nat \<Rightarrow> 'w \<times> (nat, unit) result"
    and sink_supply :: "'w \<Rightarrow> nat"
    and sinv :: "'w \<Rightarrow> bool"
  assumes deposit_inv: "sinv w \<Longrightarrow> sink_supply w + amount < 2 ^ 128 \<Longrightarrow> sinv (fst (deposit w amount))"
    and deposit_taken:
      "sinv w \<Longrightarrow> sink_supply w + amount < 2 ^ 128 \<Longrightarrow> deposit w amount = (w', Inr ()) \<Longrightarrow>
       sink_supply w' = sink_supply w + amount"
    and deposit_refused:
      "sinv w \<Longrightarrow> deposit w amount = (w', Inl back) \<Longrightarrow> back = amount \<and> sink_supply w' = sink_supply w"

end
