(* ===== verification/ZkTree.thy ===== *)
theory ZkTree
  imports Interfaces "HOL-Library.Multiset"
begin

text \<open>
  The commitment tree: \<open>chain/pallets/zk-tree\<close>, that is \<open>tree.rs\<close> (hashing, the
  batched fold, proofs) and the pallet of \<open>lib.rs\<close> (storage, inserts, \<open>on_finalize\<close>).

  \<open>zk_tree\<close> is the pallet's storage with the header root of \<open>frame_system\<close> and the
  deposited events. \<open>ref_node\<close> is the specification: the hash of the node at a level and an
  index, as a function of the list of leaves alone. \<open>tree_inv\<close> says that the storage is
  exactly that specification of the settled leaves; every operation keeps it, and the fold, the
  generated proofs and the soundness of verification are read off it.
\<close>

section \<open>Constants and data\<close>

definition CIRCUIT_MAX_TREE_DEPTH :: nat where
  "CIRCUIT_MAX_TREE_DEPTH = 20"

definition ARITY :: nat where
  "ARITY = 4"

definition AMOUNT_SCALE_DOWN_FACTOR :: nat where
  "AMOUNT_SCALE_DOWN_FACTOR = 10000000000"

record ZkLeaf =
  leaf_to :: "byte list"
  transfer_count :: nat
  asset_id :: nat
  leaf_amount :: nat

record ZkMerkleProof =
  leaf_index :: nat
  siblings :: "(hash256 \<times> hash256 \<times> hash256) list"

datatype zk_event = LeafInserted nat | TreeGrew nat

datatype zk_error =
    LeafIndexOutOfBounds
  | LeafNotFound
  | LeafNotYetSettled
  | NonCanonicalCommitment
  | ZeroCommitment
  | TreeFull

record zk_tree =
  Leaves :: "nat \<rightharpoonup> hash256"
  Nodes :: "nat \<times> nat \<rightharpoonup> hash256"
  LeafCount :: nat
  Depth :: nat
  Root :: hash256
  UnprocessedLeaves :: nat
  zk_tree_root :: hash256
  zk_events :: "zk_event list"

section \<open>Hashing\<close>

definition capacity_at_depth :: "nat \<Rightarrow> nat" where
  "capacity_at_depth depth = (if depth = 0 then 0 else min (ARITY ^ depth) (2 ^ 64 - 1))"

definition canonicalize_account_bytes :: "byte list \<Rightarrow> byte list" where
  "canonicalize_account_bytes bytes =
     digest_of_limbs
       (map (\<lambda>value. if GOLDILOCKS_P \<le> value then value - GOLDILOCKS_P else value) (limbs bytes))"

definition bytes_to_felts_compact_lossy :: "poseidon \<Rightarrow> byte list \<Rightarrow> goldilocks list" where
  "bytes_to_felts_compact_lossy pc input = map felt_from_u64 (bytes_to_u64s_compact pc input)"

definition hash_leaf_felts :: "poseidon \<Rightarrow> ZkLeaf \<Rightarrow> goldilocks list" where
  "hash_leaf_felts pc leaf =
     (let asset_id_u32 = (case try_into_u 32 (asset_id leaf) of None \<Rightarrow> 2 ^ 32 - 1 | Some a \<Rightarrow> a);
          amount_quantized =
            (case try_into_u 32 (leaf_amount leaf div AMOUNT_SCALE_DOWN_FACTOR) of
               None \<Rightarrow> 2 ^ 32 - 1 | Some a \<Rightarrow> a)
      in bytes_to_felts_compact_lossy pc (leaf_to leaf)
         @ u64_to_felts pc (transfer_count leaf)
         @ bytes_to_felts_compact_lossy pc (le_bytes 8 asset_id_u32)
         @ bytes_to_felts_compact_lossy pc (le_bytes 8 amount_quantized))"

definition hash_leaf :: "poseidon \<Rightarrow> ZkLeaf \<Rightarrow> hash256" where
  "hash_leaf pc leaf = hash_to_bytes pc (hash_leaf_felts pc leaf)"

definition node_felts :: "poseidon \<Rightarrow> hash256 list \<Rightarrow> goldilocks list" where
  "node_felts pc children = bytes_to_felts_compact_lossy pc (concat (sort children))"

definition hash_node :: "poseidon \<Rightarrow> hash256 list \<Rightarrow> hash256" where
  "hash_node pc children = hash_to_bytes pc (node_felts pc children)"

definition empty_hash :: hash256 where
  "empty_hash = zero_hash"

definition get_leaf_hash :: "zk_tree \<Rightarrow> nat \<Rightarrow> hash256" where
  "get_leaf_hash t index = (case Leaves t index of None \<Rightarrow> empty_hash | Some h \<Rightarrow> h)"

definition get_node_hash :: "zk_tree \<Rightarrow> nat \<Rightarrow> nat \<Rightarrow> hash256" where
  "get_node_hash t level index = (case Nodes t (level, index) of None \<Rightarrow> empty_hash | Some h \<Rightarrow> h)"

section \<open>The batched fold\<close>

definition range_child ::
  "zk_tree \<Rightarrow> nat \<Rightarrow> nat \<Rightarrow> nat \<Rightarrow> hash256 list \<Rightarrow> nat \<Rightarrow> hash256" where
  "range_child t level lo hi dirty index =
     (if lo \<le> index \<and> index \<le> hi then dirty ! (index - lo)
      else if hi < index then empty_hash
      else if level = 1 then get_leaf_hash t index
      else get_node_hash t (level - 1) index)"

fun fold_parents ::
  "poseidon \<Rightarrow> zk_tree \<Rightarrow> nat \<Rightarrow> nat \<Rightarrow> nat \<Rightarrow> nat \<Rightarrow> hash256 list \<Rightarrow> nat list \<Rightarrow> zk_tree \<times> hash256 list"
where
  "fold_parents pc t level depth lo hi dirty [] = (t, [])"
| "fold_parents pc t level depth lo hi dirty (parent # parents) =
     (let children = map (\<lambda>i. range_child t level lo hi dirty (parent * ARITY + i)) [0..<ARITY];
          hash = hash_node pc children;
          t' = (if level < depth then t\<lparr>Nodes := (Nodes t)((level, parent) \<mapsto> hash)\<rparr> else t);
          (t'', hashes) = fold_parents pc t' level depth lo hi dirty parents
      in (t'', hash # hashes))"

fun fold_levels ::
  "poseidon \<Rightarrow> zk_tree \<Rightarrow> nat \<Rightarrow> nat \<Rightarrow> nat \<Rightarrow> hash256 list \<Rightarrow> nat list \<Rightarrow> zk_tree \<times> hash256 list"
where
  "fold_levels pc t depth lo hi dirty [] = (t, dirty)"
| "fold_levels pc t depth lo hi dirty (level # levels) =
     (let parent_lo = lo div ARITY;
          parent_hi = hi div ARITY;
          (t', parents) = fold_parents pc t level depth lo hi dirty [parent_lo..<Suc parent_hi]
      in fold_levels pc t' depth parent_lo parent_hi parents levels)"

definition update_range ::
  "poseidon \<Rightarrow> zk_tree \<Rightarrow> nat \<Rightarrow> nat \<Rightarrow> nat \<Rightarrow> (zk_tree \<times> hash256) option" where
  "update_range pc t start end depth =
     (let (t', dirty) =
        fold_levels pc t depth start (end - 1) (map (get_leaf_hash t) [start..<end]) [1..<Suc depth]
      in case dirty of [] \<Rightarrow> None | h # _ \<Rightarrow> Some (t', h))"

definition grow_tree :: "zk_tree \<Rightarrow> nat \<Rightarrow> zk_tree" where
  "grow_tree t old_depth =
     (if old_depth = 0 then t else t\<lparr>Nodes := (Nodes t)((old_depth, 0) \<mapsto> Root t)\<rparr>)"

section \<open>Proofs\<close>

definition level_siblings :: "zk_tree \<Rightarrow> nat \<Rightarrow> nat \<Rightarrow> hash256 list" where
  "level_siblings t level current_index =
     (let base_index = (current_index div ARITY) * ARITY
      in map (\<lambda>child_index. if level = 1 then get_leaf_hash t child_index
                             else get_node_hash t (level - 1) child_index)
           (filter (\<lambda>child_index. child_index \<noteq> current_index)
              (map (\<lambda>i. base_index + i) [0..<ARITY])))"

definition triple_of :: "hash256 list \<Rightarrow> hash256 \<times> hash256 \<times> hash256" where
  "triple_of hs = (hs ! 0, hs ! 1, hs ! 2)"

fun generate_levels ::
  "zk_tree \<Rightarrow> nat \<Rightarrow> nat list \<Rightarrow> (hash256 \<times> hash256 \<times> hash256) list" where
  "generate_levels t current_index [] = []"
| "generate_levels t current_index (level # levels) =
     triple_of (level_siblings t level current_index)
       # generate_levels t (current_index div ARITY) levels"

definition generate_proof :: "zk_tree \<Rightarrow> nat \<Rightarrow> nat \<Rightarrow> (zk_error, ZkMerkleProof) result" where
  "generate_proof t index depth =
     (if depth = 0 then Inl LeafNotFound
      else Inr \<lparr>leaf_index = index, siblings = generate_levels t index [1..<Suc depth]\<rparr>)"

fun proof_root :: "poseidon \<Rightarrow> hash256 \<Rightarrow> (hash256 \<times> hash256 \<times> hash256) list \<Rightarrow> hash256" where
  "proof_root pc current_hash [] = current_hash"
| "proof_root pc current_hash ((s0, s1, s2) # levels) =
     proof_root pc (hash_node pc [current_hash, s0, s1, s2]) levels"

definition verify_proof :: "poseidon \<Rightarrow> hash256 \<Rightarrow> ZkMerkleProof \<Rightarrow> hash256 \<Rightarrow> bool" where
  "verify_proof pc leaf_hash prf expected_root \<longleftrightarrow>
     proof_root pc leaf_hash (siblings prf) = expected_root"

section \<open>The pallet\<close>

definition genesis_tree :: zk_tree where
  "genesis_tree =
     \<lparr>Leaves = Map.empty, Nodes = Map.empty, LeafCount = 0, Depth = 0, Root = zero_hash,
      UnprocessedLeaves = 0, zk_tree_root = zero_hash, zk_events = []\<rparr>"

definition append_leaf_hash :: "zk_tree \<Rightarrow> hash256 \<Rightarrow> zk_tree \<times> nat" where
  "append_leaf_hash t leaf_hash =
     (let index = LeafCount t
      in (t\<lparr>Leaves := (Leaves t)(index \<mapsto> leaf_hash),
            LeafCount := sat_add 64 index 1,
            UnprocessedLeaves := sat_add 64 (UnprocessedLeaves t) 1,
            zk_events := zk_events t @ [LeafInserted index]\<rparr>, index))"

definition insert_leaf :: "poseidon \<Rightarrow> zk_tree \<Rightarrow> byte list \<Rightarrow> nat \<Rightarrow> nat \<Rightarrow> nat \<Rightarrow> zk_tree \<times> nat" where
  "insert_leaf pc t to cnt asset amount =
     append_leaf_hash t
       (hash_leaf pc \<lparr>leaf_to = to, transfer_count = cnt, asset_id = asset, leaf_amount = amount\<rparr>)"

definition remaining_capacity :: "zk_tree \<Rightarrow> nat" where
  "remaining_capacity t = capacity_at_depth CIRCUIT_MAX_TREE_DEPTH - LeafCount t"

definition insert_commitment :: "zk_tree \<Rightarrow> hash256 \<Rightarrow> (zk_error, zk_tree \<times> nat) result" where
  "insert_commitment t commitment =
     ensure (commitment \<noteq> empty_hash) ZeroCommitment
       (ensure (canonical_limbs commitment) NonCanonicalCommitment
         (ensure (0 < remaining_capacity t) TreeFull
           (Inr (append_leaf_hash t commitment))))"

function grown_depth :: "nat \<Rightarrow> nat \<Rightarrow> nat" where
  "grown_depth leaf_count depth =
     (if capacity_at_depth depth < leaf_count \<and> depth < CIRCUIT_MAX_TREE_DEPTH
      then grown_depth leaf_count (depth + 1) else depth)"
  by pat_completeness auto
termination
  by (relation "measure (\<lambda>(leaf_count, depth). CIRCUIT_MAX_TREE_DEPTH - depth)") auto

declare grown_depth.simps [simp del]

definition process_pending_leaves :: "poseidon \<Rightarrow> zk_tree \<Rightarrow> zk_tree option" where
  "process_pending_leaves pc t =
     (let pending = UnprocessedLeaves t;
          t0 = t\<lparr>UnprocessedLeaves := 0\<rparr>
      in if pending = 0 then Some t0
         else
           let leaf_count = LeafCount t0;
               start = leaf_count - pending;
               old_depth = Depth t0;
               depth = grown_depth leaf_count old_depth;
               t1 = (if old_depth < depth
                     then (grow_tree t0 old_depth)
                            \<lparr>Depth := depth, zk_events := zk_events t0 @ [TreeGrew depth]\<rparr>
                     else t0)
           in map_option (\<lambda>(t2, new_root). t2\<lparr>Root := new_root\<rparr>)
                (update_range pc t1 start leaf_count depth))"

definition zk_on_finalize :: "poseidon \<Rightarrow> zk_tree \<Rightarrow> zk_tree option" where
  "zk_on_finalize pc t = map_option (\<lambda>t'. t'\<lparr>zk_tree_root := Root t'\<rparr>) (process_pending_leaves pc t)"

definition get_merkle_proof :: "zk_tree \<Rightarrow> nat \<Rightarrow> (zk_error, ZkMerkleProof) result" where
  "get_merkle_proof t index =
     ensure (index < LeafCount t) LeafIndexOutOfBounds
       (ensure (index < LeafCount t - UnprocessedLeaves t) LeafNotYetSettled
         (generate_proof t index (Depth t)))"

definition pallet_verify_proof :: "poseidon \<Rightarrow> zk_tree \<Rightarrow> hash256 \<Rightarrow> ZkMerkleProof \<Rightarrow> bool" where
  "pallet_verify_proof pc t leaf_hash prf = verify_proof pc leaf_hash prf (Root t)"

section \<open>The reference tree and the invariant\<close>

fun ref_node :: "poseidon \<Rightarrow> hash256 list \<Rightarrow> nat \<Rightarrow> nat \<Rightarrow> hash256" where
  "ref_node pc ls 0 i = (if i < length ls then ls ! i else empty_hash)"
| "ref_node pc ls (Suc l) i =
     (if i * ARITY ^ Suc l < length ls
      then hash_node pc (map (\<lambda>j. ref_node pc ls l (i * ARITY + j)) [0..<ARITY])
      else empty_hash)"

definition all_leaves :: "zk_tree \<Rightarrow> hash256 list" where
  "all_leaves t = map (get_leaf_hash t) [0..<LeafCount t]"

definition settled_leaves :: "zk_tree \<Rightarrow> hash256 list" where
  "settled_leaves t = take (LeafCount t - UnprocessedLeaves t) (all_leaves t)"

definition tree_inv :: "poseidon \<Rightarrow> zk_tree \<Rightarrow> bool" where
  "tree_inv pc t \<longleftrightarrow>
     dom (Leaves t) = {..<LeafCount t} \<and>
     UnprocessedLeaves t \<le> LeafCount t \<and>
     LeafCount t \<le> capacity_at_depth CIRCUIT_MAX_TREE_DEPTH \<and>
     Depth t \<le> CIRCUIT_MAX_TREE_DEPTH \<and>
     length (settled_leaves t) \<le> capacity_at_depth (Depth t) \<and>
     (\<forall>d < Depth t. capacity_at_depth d < length (settled_leaves t)) \<and>
     Root t = ref_node pc (settled_leaves t) (Depth t) 0 \<and>
     (\<forall>l i. 1 \<le> l \<longrightarrow>
        get_node_hash t l i = (if l < Depth t then ref_node pc (settled_leaves t) l i else empty_hash))"

section \<open>Properties of the reference tree\<close>

lemma ARITY_upt: "[0..<ARITY] = [0, 1, 2, 3]"
  by (simp add: ARITY_def upt_rec)

lemma capacity_CIRCUIT: "capacity_at_depth CIRCUIT_MAX_TREE_DEPTH = 4 ^ 20"
  by (simp add: capacity_at_depth_def CIRCUIT_MAX_TREE_DEPTH_def ARITY_def)

lemma capacity_le_pow: "capacity_at_depth d \<le> ARITY ^ d"
  by (simp add: capacity_at_depth_def)

lemma ARITY_pow_pos [simp]: "0 < ARITY ^ d"
  by (simp add: ARITY_def)

lemma div_ARITY_Suc: "n div ARITY ^ Suc l = n div ARITY ^ l div ARITY"
  by (metis div_mult2_eq power_Suc2)

lemma empty_hash_length [simp]: "length empty_hash = 32"
  by (simp add: empty_hash_def zero_hash_def)

lemma ref_node_empty: "length ls \<le> i * ARITY ^ l \<Longrightarrow> ref_node pc ls l i = empty_hash"
  by (cases l) auto

lemma ref_node_append:
  "Suc i * ARITY ^ l \<le> length ls \<Longrightarrow> ref_node pc (ls @ zs) l i = ref_node pc ls l i"
proof (induction l arbitrary: i)
  case 0
  then show ?case by (simp add: nth_append)
next
  case (Suc l)
  have bound: "Suc (i * ARITY + j) * ARITY ^ l \<le> length ls" if "j < ARITY" for j
  proof -
    have "Suc (i * ARITY + j) \<le> Suc i * ARITY" using that by simp
    then have "Suc (i * ARITY + j) * ARITY ^ l \<le> Suc i * ARITY * ARITY ^ l"
      by (rule mult_le_mono1)
    also have "\<dots> \<le> length ls" using Suc.prems by (simp add: algebra_simps)
    finally show ?thesis .
  qed
  have "i * ARITY ^ Suc l < Suc i * ARITY ^ Suc l"
    using ARITY_pow_pos [of "Suc l"] by (simp only: mult_less_cancel2) simp
  then have "i * ARITY ^ Suc l < length ls" using Suc.prems by (rule less_le_trans)
  moreover have "map (\<lambda>j. ref_node pc (ls @ zs) l (i * ARITY + j)) [0..<ARITY]
      = map (\<lambda>j. ref_node pc ls l (i * ARITY + j)) [0..<ARITY]"
    using Suc.IH bound by (intro map_cong) auto
  ultimately show ?case by (simp del: map_eq_conv)
qed

lemma ref_node_take:
  assumes "Suc i * ARITY ^ l \<le> n" and "n \<le> length ls"
  shows "ref_node pc (take n ls) l i = ref_node pc ls l i"
  using ref_node_append [of i l "take n ls" pc "drop n ls"] assms by simp

lemma hash_node_mset: "mset cs = mset ds \<Longrightarrow> hash_node pc cs = hash_node pc ds"
  unfolding hash_node_def node_felts_def by (metis sorted_list_of_multiset_mset)

section \<open>The fold computes the reference tree\<close>

text \<open>
  What the fold of the leaves \<open>[start, length ls)\<close> may rely on: the leaves of storage are
  \<open>ls\<close>, and the nodes left of the dirty range are already those of the reference tree.
\<close>

definition range_pre :: "poseidon \<Rightarrow> hash256 list \<Rightarrow> nat \<Rightarrow> nat \<Rightarrow> zk_tree \<Rightarrow> bool" where
  "range_pre pc ls start depth t \<longleftrightarrow>
     (\<forall>i < length ls. get_leaf_hash t i = ls ! i) \<and>
     (\<forall>k i. 1 \<le> k \<and> k < depth \<and> i < start div ARITY ^ k \<longrightarrow> get_node_hash t k i = ref_node pc ls k i)"

definition write_level ::
  "poseidon \<Rightarrow> hash256 list \<Rightarrow> nat \<Rightarrow> nat \<Rightarrow> nat set \<Rightarrow> zk_tree \<Rightarrow> zk_tree" where
  "write_level pc ls level depth I t =
     t\<lparr>Nodes := (\<lambda>ki. if fst ki = level \<and> level < depth \<and> snd ki \<in> I
                          then Some (ref_node pc ls level (snd ki)) else Nodes t ki)\<rparr>"

lemma write_level_empty: "write_level pc ls level depth {} t = t"
  by (simp add: write_level_def)

lemma write_level_insert:
  "write_level pc ls level depth I
     (if level < depth then t\<lparr>Nodes := (Nodes t)((level, p) \<mapsto> ref_node pc ls level p)\<rparr> else t)
   = write_level pc ls level depth (insert p I) t"
  by (auto simp: write_level_def fun_eq_iff)

lemma get_leaf_write_level [simp]:
  "get_leaf_hash (write_level pc ls level depth I t) i = get_leaf_hash t i"
  by (simp add: write_level_def get_leaf_hash_def)

lemma get_node_write_level:
  "get_node_hash (write_level pc ls level depth I t) k i =
     (if k = level \<and> level < depth \<and> i \<in> I then ref_node pc ls level i else get_node_hash t k i)"
  by (simp add: write_level_def get_node_hash_def)

lemma range_pre_write_level:
  "range_pre pc ls start depth t \<Longrightarrow> range_pre pc ls start depth (write_level pc ls level depth I t)"
  by (auto simp: range_pre_def get_node_write_level)

lemma range_child_ref:
  assumes pre: "range_pre pc ls start depth t"
    and l: "l < depth" and start: "start < length ls"
    and lo: "lo = start div ARITY ^ l" and hi: "hi = (length ls - 1) div ARITY ^ l"
    and dirty: "dirty = map (ref_node pc ls l) [lo..<Suc hi]"
  shows "range_child t (Suc l) lo hi dirty index = ref_node pc ls l index"
proof -
  consider (dirty) "lo \<le> index" "index \<le> hi" | (right) "hi < index" | (left) "index < lo"
    by linarith
  then show ?thesis
  proof cases
    case dirty
    then show ?thesis by (simp add: range_child_def assms(6) nth_append del: upt_Suc)
  next
    case right
    then have "length ls - 1 < index * ARITY ^ l"
      unfolding hi by (metis ARITY_pow_pos div_less_iff_less_mult)
    then have "length ls \<le> index * ARITY ^ l" by linarith
    then show ?thesis using right by (simp add: range_child_def ref_node_empty)
  next
    case left
    have "lo \<le> hi" unfolding lo hi using start by (intro div_le_mono) linarith
    have "index < length ls" if "l = 0" using left that start unfolding lo by simp
    then show ?thesis
      using left \<open>lo \<le> hi\<close> pre l unfolding lo
      by (cases "l = 0") (auto simp: range_child_def range_pre_def)
  qed
qed

lemma fold_parents_ref:
  assumes "range_pre pc ls start depth t"
    and "l < depth" and "start < length ls"
    and "lo = start div ARITY ^ l" and hi: "hi = (length ls - 1) div ARITY ^ l"
    and "dirty = map (ref_node pc ls l) [lo..<Suc hi]"
    and "\<forall>p\<in>set ps. p \<le> hi div ARITY"
  shows "fold_parents pc t (Suc l) depth lo hi dirty ps =
           (write_level pc ls (Suc l) depth (set ps) t, map (ref_node pc ls (Suc l)) ps)"
  using assms(1,7)
proof (induction ps arbitrary: t)
  case Nil
  then show ?case by (simp add: write_level_empty)
next
  case (Cons p ps)
  have "p \<le> (length ls - 1) div ARITY ^ Suc l"
    using Cons.prems(2) unfolding hi div_ARITY_Suc by simp
  then have "p * ARITY ^ Suc l \<le> length ls - 1"
    by (metis ARITY_pow_pos less_eq_div_iff_mult_less_eq)
  then have "p * ARITY ^ Suc l < length ls" using assms(3) by linarith
  then have hash: "hash_node pc (map (\<lambda>i. range_child t (Suc l) lo hi dirty (p * ARITY + i)) [0..<ARITY])
                   = ref_node pc ls (Suc l) p"
    by (simp add: range_child_ref [OF Cons.prems(1) assms(2-6)])
  let ?t' = "write_level pc ls (Suc l) depth {p} t"
  have t': "(if Suc l < depth then t\<lparr>Nodes := (Nodes t)((Suc l, p) \<mapsto> ref_node pc ls (Suc l) p)\<rparr> else t) = ?t'"
    using write_level_insert [of pc ls "Suc l" depth "{}" t p] by (simp add: write_level_empty)
  have "fold_parents pc ?t' (Suc l) depth lo hi dirty ps =
          (write_level pc ls (Suc l) depth (set ps) ?t', map (ref_node pc ls (Suc l)) ps)"
    using Cons.prems by (intro Cons.IH range_pre_write_level) auto
  moreover have "write_level pc ls (Suc l) depth (set ps) ?t' = write_level pc ls (Suc l) depth (set (p # ps)) t"
    by (rule zk_tree.equality) (auto simp: write_level_def fun_eq_iff)
  ultimately show ?case
    by (simp add: hash t' del: ref_node.simps)
qed

text \<open>The nodes the fold of \<open>[start, length ls)\<close> writes at levels \<open>l < k < depth\<close>.\<close>

definition dirty_node :: "hash256 list \<Rightarrow> nat \<Rightarrow> nat \<Rightarrow> nat \<Rightarrow> nat \<Rightarrow> nat \<Rightarrow> bool" where
  "dirty_node ls start depth l k i \<longleftrightarrow>
     l < k \<and> k < depth \<and> start div ARITY ^ k \<le> i \<and> i \<le> (length ls - 1) div ARITY ^ k"

lemma fold_levels_ref:
  assumes "range_pre pc ls start depth t"
    and "l \<le> depth" and "start < length ls"
    and "lo = start div ARITY ^ l" and "hi = (length ls - 1) div ARITY ^ l"
    and "dirty = map (ref_node pc ls l) [lo..<Suc hi]"
  shows "\<exists>t'. fold_levels pc t depth lo hi dirty [Suc l..<Suc depth] =
           (t', map (ref_node pc ls depth)
                  [start div ARITY ^ depth..<Suc ((length ls - 1) div ARITY ^ depth)])
         \<and> (\<exists>N. t' = t\<lparr>Nodes := N\<rparr>)
         \<and> (\<forall>k i. get_node_hash t' k i =
               (if dirty_node ls start depth l k i then ref_node pc ls k i else get_node_hash t k i))"
  using assms
proof (induction "depth - l" arbitrary: l t lo hi dirty)
  case 0
  then have "l = depth" by simp
  moreover have "\<exists>N. t = t\<lparr>Nodes := N\<rparr>" by (rule exI [of _ "Nodes t"]) simp
  ultimately show ?case using 0 by (auto simp: dirty_node_def simp del: upt_Suc)
next
  case (Suc n)
  then have l: "l < depth" by linarith
  let ?P = "[lo div ARITY..<Suc (hi div ARITY)]"
  let ?t = "write_level pc ls (Suc l) depth (set ?P) t"
  have fp: "fold_parents pc t (Suc l) depth lo hi dirty ?P = (?t, map (ref_node pc ls (Suc l)) ?P)"
    using Suc.prems l by (intro fold_parents_ref) auto
  have "\<exists>t'. fold_levels pc ?t depth (lo div ARITY) (hi div ARITY) (map (ref_node pc ls (Suc l)) ?P)
              [Suc (Suc l)..<Suc depth] =
           (t', map (ref_node pc ls depth)
                  [start div ARITY ^ depth..<Suc ((length ls - 1) div ARITY ^ depth)])
         \<and> (\<exists>N. t' = ?t\<lparr>Nodes := N\<rparr>)
         \<and> (\<forall>k i. get_node_hash t' k i =
               (if dirty_node ls start depth (Suc l) k i then ref_node pc ls k i else get_node_hash ?t k i))"
    using Suc.hyps(2) Suc.prems l
    by (intro Suc.hyps(1) range_pre_write_level) (auto simp: div_ARITY_Suc simp del: upt_Suc power_Suc)
  then obtain t' N where t': "fold_levels pc ?t depth (lo div ARITY) (hi div ARITY)
       (map (ref_node pc ls (Suc l)) ?P) [Suc (Suc l)..<Suc depth] =
           (t', map (ref_node pc ls depth)
                  [start div ARITY ^ depth..<Suc ((length ls - 1) div ARITY ^ depth)])"
    and N: "t' = ?t\<lparr>Nodes := N\<rparr>"
    and nodes: "\<And>k i. get_node_hash t' k i =
               (if dirty_node ls start depth (Suc l) k i then ref_node pc ls k i else get_node_hash ?t k i)"
    by blast
  have levels: "[Suc l..<Suc depth] = Suc l # [Suc (Suc l)..<Suc depth]"
    using l by (simp add: upt_rec)
  have P: "i \<in> set ?P \<longleftrightarrow> start div ARITY ^ Suc l \<le> i \<and> i \<le> (length ls - 1) div ARITY ^ Suc l" for i
    unfolding div_ARITY_Suc Suc.prems(4,5) by auto
  have "get_node_hash t' k i =
          (if dirty_node ls start depth l k i then ref_node pc ls k i else get_node_hash t k i)" for k i
    unfolding nodes get_node_write_level P dirty_node_def by (cases "k = Suc l") auto
  moreover have "\<exists>N. t' = t\<lparr>Nodes := N\<rparr>" unfolding N write_level_def by auto
  ultimately show ?case
    unfolding levels using fp t' by (simp del: upt_Suc)
qed

lemma update_range_ref:
  assumes pre: "range_pre pc ls start depth t"
    and start: "start < length ls" and cap: "length ls \<le> ARITY ^ depth"
  shows "\<exists>t' N. update_range pc t start (length ls) depth = Some (t', ref_node pc ls depth 0)
         \<and> t' = t\<lparr>Nodes := N\<rparr>
         \<and> (\<forall>k i. get_node_hash t' k i =
               (if dirty_node ls start depth 0 k i then ref_node pc ls k i else get_node_hash t k i))"
proof -
  have leaves: "map (get_leaf_hash t) [start..<length ls] = map (ref_node pc ls 0) [start..<Suc (length ls - 1)]"
  proof -
    have "Suc (length ls - 1) = length ls" using start by simp
    then show ?thesis using pre by (simp add: range_pre_def del: upt_Suc)
  qed
  have top: "start div ARITY ^ depth = 0" "(length ls - 1) div ARITY ^ depth = 0"
    using start cap by simp_all
  have "\<exists>t'. fold_levels pc t depth start (length ls - 1) (map (get_leaf_hash t) [start..<length ls])
              [Suc 0..<Suc depth] =
           (t', map (ref_node pc ls depth)
                  [start div ARITY ^ depth..<Suc ((length ls - 1) div ARITY ^ depth)])
         \<and> (\<exists>N. t' = t\<lparr>Nodes := N\<rparr>)
         \<and> (\<forall>k i. get_node_hash t' k i =
               (if dirty_node ls start depth 0 k i then ref_node pc ls k i else get_node_hash t k i))"
    by (rule fold_levels_ref [OF pre]) (use start leaves in auto)
  then obtain t' N where
    "fold_levels pc t depth start (length ls - 1) (map (get_leaf_hash t) [start..<length ls])
       [Suc 0..<Suc depth] = (t', [ref_node pc ls depth 0])"
    and t': "t' = t\<lparr>Nodes := N\<rparr>"
    and nodes: "\<forall>k i. get_node_hash t' k i =
       (if dirty_node ls start depth 0 k i then ref_node pc ls k i else get_node_hash t k i)"
    unfolding top by auto
  then have "update_range pc t start (length ls) depth = Some (t', ref_node pc ls depth 0)"
    by (simp add: update_range_def del: upt_Suc)
  with t' nodes show ?thesis by blast
qed

section \<open>Invariant preservation\<close>

lemma length_all_leaves [simp]: "length (all_leaves t) = LeafCount t"
  by (simp add: all_leaves_def)

lemma length_settled_leaves [simp]: "length (settled_leaves t) = LeafCount t - UnprocessedLeaves t"
  by (simp add: settled_leaves_def)

lemma get_leaf_hash_absent: "dom (Leaves t) = {..<LeafCount t} \<Longrightarrow> LeafCount t \<le> i \<Longrightarrow> get_leaf_hash t i = empty_hash"
  by (metis domIff get_leaf_hash_def lessThan_iff not_le option.simps(4))

lemma get_leaf_hash_nth: "i < LeafCount t \<Longrightarrow> get_leaf_hash t i = all_leaves t ! i"
  by (simp add: all_leaves_def)

lemma tree_inv_genesis: "tree_inv pc genesis_tree"
  by (simp add: tree_inv_def genesis_tree_def settled_leaves_def all_leaves_def get_node_hash_def
      empty_hash_def)

lemma append_leaf_hash_fields:
  assumes "tree_inv pc t" and "LeafCount t < 4 ^ 20"
  shows "snd (append_leaf_hash t h) = LeafCount t"
    and "LeafCount (fst (append_leaf_hash t h)) = LeafCount t + 1"
    and "UnprocessedLeaves (fst (append_leaf_hash t h)) = UnprocessedLeaves t + 1"
    and "all_leaves (fst (append_leaf_hash t h)) = all_leaves t @ [h]"
    and "settled_leaves (fst (append_leaf_hash t h)) = settled_leaves t"
    and "Root (fst (append_leaf_hash t h)) = Root t"
    and "Depth (fst (append_leaf_hash t h)) = Depth t"
    and "Nodes (fst (append_leaf_hash t h)) = Nodes t"
proof -
  have small: "LeafCount t + 1 < 2 ^ 64" "UnprocessedLeaves t + 1 < 2 ^ 64"
    using assms by (simp_all add: tree_inv_def)
  have un: "UnprocessedLeaves t \<le> LeafCount t" using assms by (simp add: tree_inv_def)
  show "snd (append_leaf_hash t h) = LeafCount t"
    and lc: "LeafCount (fst (append_leaf_hash t h)) = LeafCount t + 1"
    and up: "UnprocessedLeaves (fst (append_leaf_hash t h)) = UnprocessedLeaves t + 1"
    and "Root (fst (append_leaf_hash t h)) = Root t"
    and "Depth (fst (append_leaf_hash t h)) = Depth t"
    and "Nodes (fst (append_leaf_hash t h)) = Nodes t"
    using small by (simp_all add: append_leaf_hash_def Let_def sat_add_exact)
  have g: "get_leaf_hash (fst (append_leaf_hash t h)) i = (if i = LeafCount t then h else get_leaf_hash t i)" for i
    by (simp add: append_leaf_hash_def Let_def get_leaf_hash_def)
  show al: "all_leaves (fst (append_leaf_hash t h)) = all_leaves t @ [h]"
    unfolding all_leaves_def lc by (simp add: g)
  show "settled_leaves (fst (append_leaf_hash t h)) = settled_leaves t"
    unfolding settled_leaves_def al lc up using un by simp
qed

lemma tree_inv_append:
  assumes "tree_inv pc t" and "LeafCount t < 4 ^ 20"
  shows "tree_inv pc (fst (append_leaf_hash t h))"
proof -
  note fields = append_leaf_hash_fields [OF assms]
  have "dom (Leaves (fst (append_leaf_hash t h))) = insert (LeafCount t) (dom (Leaves t))"
    by (simp add: append_leaf_hash_def Let_def)
  also have "\<dots> = {..<LeafCount t + 1}" using assms(1) by (auto simp: tree_inv_def)
  finally have "dom (Leaves (fst (append_leaf_hash t h))) = {..<LeafCount t + 1}" .
  then show ?thesis
    using assms unfolding tree_inv_def get_node_hash_def fields length_settled_leaves capacity_CIRCUIT
    by simp
qed

lemma grown_depth_ge: "d \<le> grown_depth n d"
  by (induction n d rule: grown_depth.induct) (subst grown_depth.simps, auto)

lemma grown_depth_le: "d \<le> CIRCUIT_MAX_TREE_DEPTH \<Longrightarrow> grown_depth n d \<le> CIRCUIT_MAX_TREE_DEPTH"
  by (induction n d rule: grown_depth.induct) (subst grown_depth.simps, auto)

lemma grown_depth_fits:
  "d \<le> CIRCUIT_MAX_TREE_DEPTH \<Longrightarrow> n \<le> capacity_at_depth CIRCUIT_MAX_TREE_DEPTH \<Longrightarrow>
   n \<le> capacity_at_depth (grown_depth n d)"
  by (induction n d rule: grown_depth.induct) (subst grown_depth.simps, auto)

lemma grown_depth_minimal: "d \<le> k \<Longrightarrow> k < grown_depth n d \<Longrightarrow> capacity_at_depth k < n"
proof (induction n d rule: grown_depth.induct)
  case (1 n d)
  then show ?case
    by (subst (asm) (2) grown_depth.simps) (cases "k = d"; auto split: if_splits)
qed

definition grown_tree :: "zk_tree \<Rightarrow> zk_tree" where
  "grown_tree t =
     (let t0 = t\<lparr>UnprocessedLeaves := 0\<rparr>;
          depth = grown_depth (LeafCount t) (Depth t)
      in if Depth t < depth
         then (grow_tree t0 (Depth t))\<lparr>Depth := depth, zk_events := zk_events t @ [TreeGrew depth]\<rparr>
         else t0)"

lemma process_pending_leaves_alt:
  "UnprocessedLeaves t \<noteq> 0 \<Longrightarrow>
   process_pending_leaves pc t =
     map_option (\<lambda>(t2, new_root). t2\<lparr>Root := new_root\<rparr>)
       (update_range pc (grown_tree t) (LeafCount t - UnprocessedLeaves t) (LeafCount t)
          (grown_depth (LeafCount t) (Depth t)))"
  by (simp add: process_pending_leaves_def grown_tree_def Let_def)

lemma grown_tree_fields [simp]:
  "Leaves (grown_tree t) = Leaves t"
  "LeafCount (grown_tree t) = LeafCount t"
  "UnprocessedLeaves (grown_tree t) = 0"
  by (simp_all add: grown_tree_def grow_tree_def Let_def)

lemma Depth_grown_tree [simp]: "Depth (grown_tree t) = grown_depth (LeafCount t) (Depth t)"
  using grown_depth_ge [of "Depth t" "LeafCount t"]
  by (auto simp: grown_tree_def grow_tree_def Let_def)

lemma get_leaf_grown_tree [simp]: "get_leaf_hash (grown_tree t) i = get_leaf_hash t i"
  by (simp add: get_leaf_hash_def)

lemma get_node_grown_tree:
  "get_node_hash (grown_tree t) l i =
     (if l = Depth t \<and> i = 0 \<and> 0 < Depth t \<and> Depth t < grown_depth (LeafCount t) (Depth t)
      then Root t else get_node_hash t l i)"
  by (auto simp: get_node_hash_def grown_tree_def grow_tree_def Let_def)

lemma div_pow_bound:
  assumes "i < n div ARITY ^ k"
  shows "Suc i * ARITY ^ k \<le> n"
  using assms by (metis ARITY_pow_pos Suc_le_eq less_eq_div_iff_mult_less_eq)

lemma range_pre_grown_tree:
  assumes inv: "tree_inv pc t"
  shows "range_pre pc (all_leaves t) (LeafCount t - UnprocessedLeaves t)
           (grown_depth (LeafCount t) (Depth t)) (grown_tree t)"
proof -
  let ?n = "LeafCount t - UnprocessedLeaves t" and ?d = "grown_depth (LeafCount t) (Depth t)"
  have "get_node_hash (grown_tree t) k i = ref_node pc (all_leaves t) k i"
    if k: "1 \<le> k" "k < ?d" and i: "i < ?n div ARITY ^ k" for k i
  proof -
    have full: "Suc i * ARITY ^ k \<le> ?n" using i by (rule div_pow_bound)
    then have same: "ref_node pc (settled_leaves t) k i = ref_node pc (all_leaves t) k i"
      unfolding settled_leaves_def by (rule ref_node_take) simp
    show ?thesis
    proof (cases "k < Depth t")
      case True
      then show ?thesis using inv k same by (simp add: get_node_grown_tree tree_inv_def)
    next
      case False
      have cap: "?n \<le> capacity_at_depth (Depth t)" using inv by (simp add: tree_inv_def)
      then have "Suc i * ARITY ^ k \<le> ARITY ^ Depth t"
        using full capacity_le_pow [of "Depth t"] by linarith
      moreover have "ARITY ^ Depth t \<le> ARITY ^ k"
        using False by (intro power_increasing) (simp_all add: ARITY_def)
      ultimately have "Suc i * ARITY ^ k \<le> 1 * ARITY ^ k" by linarith
      then have "i = 0" by (simp only: mult_le_cancel2 ARITY_pow_pos) simp
      then have "ARITY ^ k \<le> ARITY ^ Depth t"
        using \<open>Suc i * ARITY ^ k \<le> ARITY ^ Depth t\<close> by simp
      then have "k = Depth t"
        using False by (simp add: ARITY_def)
      then show ?thesis
        using inv k same \<open>i = 0\<close> by (simp add: get_node_grown_tree tree_inv_def)
    qed
  qed
  then show ?thesis
    by (simp add: range_pre_def get_leaf_hash_nth)
qed

lemma process_pending_leaves_fold:
  assumes inv: "tree_inv pc t" and pending: "UnprocessedLeaves t \<noteq> 0"
  shows "\<exists>t' N. process_pending_leaves pc t = Some t'
         \<and> t' = (grown_tree t)\<lparr>Nodes := N, Root := ref_node pc (all_leaves t) (Depth t') 0\<rparr>
         \<and> (\<forall>l i. 1 \<le> l \<longrightarrow> get_node_hash t' l i =
               (if l < Depth t' then ref_node pc (all_leaves t) l i else empty_hash))"
proof -
  let ?n = "LeafCount t - UnprocessedLeaves t" and ?d = "grown_depth (LeafCount t) (Depth t)"
  let ?ls = "all_leaves t" and ?g = "grown_tree t"
  have start: "?n < length ?ls" using inv pending by (simp add: tree_inv_def)
  have "length ?ls \<le> capacity_at_depth ?d"
    using inv grown_depth_fits by (simp add: tree_inv_def)
  then have cap: "length ?ls \<le> ARITY ^ ?d" using capacity_le_pow le_trans by blast
  have pre: "range_pre pc ?ls ?n ?d ?g" by (rule range_pre_grown_tree [OF inv])
  from update_range_ref [OF pre start cap] obtain t2 N where
    up: "update_range pc ?g ?n (LeafCount t) ?d = Some (t2, ref_node pc ?ls ?d 0)"
    and t2: "t2 = ?g\<lparr>Nodes := N\<rparr>"
    and nodes: "\<And>k i. get_node_hash t2 k i =
        (if dirty_node ?ls ?n ?d 0 k i then ref_node pc ?ls k i else get_node_hash ?g k i)"
    by auto
  have "get_node_hash t2 l i = (if l < ?d then ref_node pc ?ls l i else empty_hash)" if l: "1 \<le> l" for l i
  proof (cases "l < ?d")
    case False
    then show ?thesis
      using inv l grown_depth_ge [of "Depth t" "LeafCount t"]
      by (auto simp: nodes dirty_node_def get_node_grown_tree tree_inv_def)
  next
    case True
    consider "dirty_node ?ls ?n ?d 0 l i" | "i < ?n div ARITY ^ l" | "(length ?ls - 1) div ARITY ^ l < i"
      using l True unfolding dirty_node_def by linarith
    then show ?thesis
    proof cases
      case 1
      then show ?thesis using True by (simp add: nodes)
    next
      case 2
      then show ?thesis using pre l True by (simp add: nodes range_pre_def)
    next
      case 3
      then have "length ?ls - 1 < i * ARITY ^ l" by (metis ARITY_pow_pos div_less_iff_less_mult)
      then have "length ?ls \<le> i * ARITY ^ l" by linarith
      moreover have "get_node_hash ?g l i = empty_hash"
        using inv l 3 calculation
        by (auto simp: get_node_grown_tree tree_inv_def ref_node_empty)
      ultimately show ?thesis using True by (simp add: nodes ref_node_empty)
    qed
  qed
  then show ?thesis
    using pending up t2 by (auto simp: process_pending_leaves_alt get_node_hash_def)
qed

lemma process_pending_leaves_ok:
  assumes inv: "tree_inv pc t"
  shows "\<exists>t'. process_pending_leaves pc t = Some t' \<and> tree_inv pc t' \<and> UnprocessedLeaves t' = 0
         \<and> Leaves t' = Leaves t \<and> LeafCount t' = LeafCount t
         \<and> Depth t' = grown_depth (LeafCount t) (Depth t)"
proof (cases "UnprocessedLeaves t = 0")
  case True
  then have "process_pending_leaves pc t = Some t"
    by (auto simp: process_pending_leaves_def intro: zk_tree.equality)
  moreover have "grown_depth (LeafCount t) (Depth t) = Depth t"
    using inv True by (subst grown_depth.simps) (simp add: tree_inv_def)
  ultimately show ?thesis using inv True by simp
next
  case False
  from process_pending_leaves_fold [OF inv False] obtain t' N where
    some: "process_pending_leaves pc t = Some t'"
    and t': "t' = (grown_tree t)\<lparr>Nodes := N, Root := ref_node pc (all_leaves t) (Depth t') 0\<rparr>"
    and nodes: "\<forall>l i. 1 \<le> l \<longrightarrow> get_node_hash t' l i =
               (if l < Depth t' then ref_node pc (all_leaves t) l i else empty_hash)" by blast
  have fields: "Leaves t' = Leaves t" "LeafCount t' = LeafCount t" "UnprocessedLeaves t' = 0"
    "Depth t' = grown_depth (LeafCount t) (Depth t)" "Root t' = ref_node pc (all_leaves t) (Depth t') 0"
    by (subst t'; simp)+
  have settled: "settled_leaves t' = all_leaves t"
    unfolding settled_leaves_def all_leaves_def get_leaf_hash_def fields by simp
  have "capacity_at_depth d < LeafCount t" if "d < Depth t'" for d
  proof (cases "d < Depth t")
    case True
    then have "capacity_at_depth d < LeafCount t - UnprocessedLeaves t"
      using inv by (simp add: tree_inv_def)
    then show ?thesis by simp
  next
    case False
    then show ?thesis using that fields(4) by (intro grown_depth_minimal [of "Depth t"]) auto
  qed
  moreover have "LeafCount t \<le> capacity_at_depth (Depth t')" "Depth t' \<le> CIRCUIT_MAX_TREE_DEPTH"
    using inv grown_depth_fits grown_depth_le by (auto simp: tree_inv_def fields(4))
  ultimately have "tree_inv pc t'"
    using inv nodes fields unfolding tree_inv_def settled by simp
  then show ?thesis using some fields by blast
qed

lemma process_pending_leaves_None:
  "process_pending_leaves pc t = None \<Longrightarrow> tree_inv pc t \<Longrightarrow> False"
  using process_pending_leaves_ok by fastforce

lemma zk_on_finalize_ok:
  assumes inv: "tree_inv pc t"
  shows "\<exists>t'. zk_on_finalize pc t = Some t' \<and> tree_inv pc t' \<and> UnprocessedLeaves t' = 0
         \<and> all_leaves t' = all_leaves t \<and> zk_tree_root t' = Root t' \<and> LeafCount t' = LeafCount t
         \<and> Root t' = ref_node pc (all_leaves t) (Depth t') 0
         \<and> Depth t' = grown_depth (LeafCount t) (Depth t)"
proof -
  obtain t1 where t1: "process_pending_leaves pc t = Some t1" "tree_inv pc t1" "UnprocessedLeaves t1 = 0"
    "Leaves t1 = Leaves t" "LeafCount t1 = LeafCount t" "Depth t1 = grown_depth (LeafCount t) (Depth t)"
    using process_pending_leaves_ok [OF inv] by blast
  have leaves: "all_leaves t1 = all_leaves t" "settled_leaves t1 = all_leaves t"
    unfolding settled_leaves_def all_leaves_def get_leaf_hash_def t1(3-5) by simp_all
  let ?t' = "t1\<lparr>zk_tree_root := Root t1\<rparr>"
  have "get_leaf_hash ?t' = get_leaf_hash t1" by (simp add: get_leaf_hash_def fun_eq_iff)
  then have same: "all_leaves ?t' = all_leaves t1" "settled_leaves ?t' = settled_leaves t1"
    by (simp_all add: all_leaves_def settled_leaves_def)
  have "tree_inv pc ?t'"
    using t1(2) unfolding tree_inv_def same by (simp add: get_node_hash_def)
  moreover have "Root t1 = ref_node pc (all_leaves t) (Depth t1) 0"
    using t1(2) leaves by (simp add: tree_inv_def)
  ultimately show ?thesis
    using t1 leaves same by (simp add: zk_on_finalize_def)
qed

section \<open>Proofs that the pallet generates\<close>

lemma siblings_mset:
  assumes "p = c div ARITY"
  shows "\<exists>a b d. map f (filter (\<lambda>x. x \<noteq> c) (map (\<lambda>i. p * ARITY + i) [0..<ARITY])) = [a, b, d]
         \<and> mset [f c, a, b, d] = mset (map (\<lambda>j. f (p * ARITY + j)) [0..<ARITY])"
proof -
  have "c mod 4 < 4" by simp
  then consider "c = p * 4" | "c = p * 4 + 1" | "c = p * 4 + 2" | "c = p * 4 + 3"
    using assms div_mult_mod_eq [of c 4] unfolding ARITY_def by linarith
  then show ?thesis
    unfolding ARITY_upt by cases (simp_all add: ARITY_def)
qed

lemma level_siblings_ref:
  assumes inv: "tree_inv pc t" and zero: "UnprocessedLeaves t = 0" and l: "l < Depth t"
  shows "level_siblings t (Suc l) c =
     map (ref_node pc (all_leaves t) l)
       (filter (\<lambda>x. x \<noteq> c) (map (\<lambda>i. c div ARITY * ARITY + i) [0..<ARITY]))"
proof -
  have settled: "settled_leaves t = all_leaves t" using zero by (simp add: settled_leaves_def)
  have dom: "dom (Leaves t) = {..<LeafCount t}" using inv by (simp add: tree_inv_def)
  have leaf: "get_leaf_hash t i = ref_node pc (all_leaves t) 0 i" for i
    using get_leaf_hash_absent [OF dom, of i] by (simp add: get_leaf_hash_nth)
  have node: "get_node_hash t l i = ref_node pc (all_leaves t) l i" if "l \<noteq> 0" for i
    using inv l that by (simp add: tree_inv_def settled)
  show ?thesis
    unfolding level_siblings_def Let_def
    by (cases "l = 0") (simp_all add: leaf node del: ref_node.simps)
qed

lemma generate_levels_root:
  assumes inv: "tree_inv pc t" and zero: "UnprocessedLeaves t = 0"
  shows "l \<le> Depth t \<Longrightarrow> c * ARITY ^ l < LeafCount t \<Longrightarrow>
     proof_root pc (ref_node pc (all_leaves t) l c) (generate_levels t c [Suc l..<Suc (Depth t)])
       = ref_node pc (all_leaves t) (Depth t) (c div ARITY ^ (Depth t - l))"
proof (induction "Depth t - l" arbitrary: l c)
  case 0
  then show ?case by simp
next
  case (Suc n)
  then have l: "l < Depth t" by linarith
  let ?p = "c div ARITY" and ?f = "ref_node pc (all_leaves t) l"
  obtain a b d where sib: "level_siblings t (Suc l) c = [a, b, d]"
    and ms: "mset [?f c, a, b, d] = mset (map (\<lambda>j. ?f (?p * ARITY + j)) [0..<ARITY])"
    using siblings_mset [of ?p c ?f] level_siblings_ref [OF inv zero l, of c] by auto
  have "?p * ARITY ^ Suc l = ?p * ARITY * ARITY ^ l" by simp
  also have "\<dots> \<le> c * ARITY ^ l" by (intro mult_le_mono1) simp
  finally have pos: "?p * ARITY ^ Suc l < LeafCount t" using Suc.prems(2) by (rule le_less_trans)
  then have parent: "hash_node pc [?f c, a, b, d] = ref_node pc (all_leaves t) (Suc l) ?p"
    by (simp add: hash_node_mset [OF ms])
  have levels: "[Suc l..<Suc (Depth t)] = Suc l # [Suc (Suc l)..<Suc (Depth t)]"
    using l by (simp add: upt_rec)
  have "proof_root pc (ref_node pc (all_leaves t) (Suc l) ?p)
          (generate_levels t ?p [Suc (Suc l)..<Suc (Depth t)])
        = ref_node pc (all_leaves t) (Depth t) (?p div ARITY ^ (Depth t - Suc l))"
    using Suc.hyps l pos by (intro Suc.hyps(1)) linarith+
  moreover have "?p div ARITY ^ (Depth t - Suc l) = c div ARITY ^ (Depth t - l)"
    using l by (metis Suc_diff_Suc div_mult2_eq power_Suc)
  ultimately show ?case
    unfolding levels by (simp add: sib triple_of_def parent del: ref_node.simps upt_Suc)
qed

lemma length_generate_levels [simp]: "length (generate_levels t c ls) = length ls"
  by (induction ls arbitrary: c) simp_all

lemma tree_inv_depth_pos: "tree_inv pc t \<Longrightarrow> i < LeafCount t - UnprocessedLeaves t \<Longrightarrow> 0 < Depth t"
  by (rule ccontr) (simp add: tree_inv_def capacity_at_depth_def)

section \<open>Soundness of verification\<close>

text \<open>The four children that verification hashes at each level, bottom up.\<close>

fun proof_chain :: "poseidon \<Rightarrow> hash256 \<Rightarrow> (hash256 \<times> hash256 \<times> hash256) list \<Rightarrow> hash256 list list" where
  "proof_chain pc h [] = []"
| "proof_chain pc h ((s0, s1, s2) # levels) =
     [h, s0, s1, s2] # proof_chain pc (hash_node pc [h, s0, s1, s2]) levels"

definition tree_children :: "poseidon \<Rightarrow> hash256 list \<Rightarrow> nat \<Rightarrow> nat \<Rightarrow> hash256 list" where
  "tree_children pc ls l i = map (\<lambda>j. ref_node pc ls l (i * ARITY + j)) [0..<ARITY]"

text \<open>
  A break of the hash that the proof exhibits at its level \<open>k\<close> (at level \<open>l + k\<close> of the
  tree): either the children of the proof are a preimage of the all-zero digest, or their sixteen
  field elements differ from those of a node of the tree and hash to that same node.
\<close>

definition chain_break :: "poseidon \<Rightarrow> hash256 list \<Rightarrow> nat \<Rightarrow> hash256 list list \<Rightarrow> bool" where
  "chain_break pc ls l chain \<longleftrightarrow>
     (\<exists>k < length chain. hash_node pc (chain ! k) = empty_hash \<or>
        (\<exists>i. i * ARITY ^ Suc (l + k) < length ls
           \<and> node_felts pc (chain ! k) \<noteq> node_felts pc (tree_children pc ls (l + k) i)
           \<and> hash_node pc (chain ! k) = hash_node pc (tree_children pc ls (l + k) i)))"

definition digest_ok :: "hash256 \<Rightarrow> bool" where
  "digest_ok h \<longleftrightarrow> length h = 32 \<and> canonical_limbs h"

definition triple_ok :: "hash256 \<times> hash256 \<times> hash256 \<Rightarrow> bool" where
  "triple_ok s \<longleftrightarrow> (case s of (a, b, c) \<Rightarrow> length a = 32 \<and> length b = 32 \<and> length c = 32)"

lemma chain_break_Cons: "chain_break pc ls (Suc l) chain \<Longrightarrow> chain_break pc ls l (cs # chain)"
  unfolding chain_break_def by (elim exE conjE) (rule_tac x = "Suc k" in exI, simp)

lemma chain_break_here:
  assumes "i * ARITY ^ Suc l < length ls" "node_felts pc cs \<noteq> node_felts pc (tree_children pc ls l i)"
    "hash_node pc cs = hash_node pc (tree_children pc ls l i)"
  shows "chain_break pc ls l (cs # chain)"
  unfolding chain_break_def using assms by (intro exI [of _ 0] conjI disjI2 exI [of _ i]) simp_all

lemma digest_ok_empty: "digest_ok empty_hash"
  unfolding digest_ok_def empty_hash_def zero_hash_limbs
  by (intro conjI canonical_digest_of_limbs) (simp_all add: GOLDILOCKS_P_bounds)

lemma digest_ok_hash_node: "poseidon_ok pc \<Longrightarrow> digest_ok (hash_node pc cs)"
  by (simp add: digest_ok_def hash_node_def poseidon_okD)

lemma digest_ok_ref_node: "poseidon_ok pc \<Longrightarrow> \<forall>h\<in>set ls. digest_ok h \<Longrightarrow> digest_ok (ref_node pc ls l i)"
  by (cases l) (auto simp: digest_ok_empty digest_ok_hash_node)

lemma node_felts_limbs:
  assumes "poseidon_ok pc" and "\<forall>c\<in>set cs. length c = 32"
  shows "node_felts pc cs = concat (map (\<lambda>c. map felt_from_u64 (limbs c)) (sort cs))"
proof -
  have len: "\<forall>c\<in>set (sort cs). 8 dvd length c" using assms(2) by simp
  then have "8 dvd length (concat (sort cs))" by (rule dvd_length_concat)
  then show ?thesis
    using len by (simp add: node_felts_def bytes_to_felts_compact_lossy_def poseidon_okD [OF assms(1)]
        limbs_concat map_concat comp_def)
qed

lemma node_felts_member:
  assumes ok: "poseidon_ok pc"
    and cs: "\<forall>c\<in>set cs. length c = 32" and ds: "\<forall>d\<in>set ds. digest_ok d"
    and len: "length cs = length ds"
    and eq: "node_felts pc cs = node_felts pc ds"
    and h: "h \<in> set cs" "digest_ok h"
  shows "h \<in> set ds"
proof -
  let ?e = "\<lambda>c. map felt_from_u64 (limbs c)"
  have ds': "\<forall>d\<in>set ds. length d = 32" using ds by (simp add: digest_ok_def)
  have "map ?e (sort cs) = chunks_exact 4 (concat (map ?e (sort cs)))"
    using cs by (subst chunks_exact_concat) (auto simp: length_limbs)
  also have "\<dots> = chunks_exact 4 (concat (map ?e (sort ds)))"
    using eq by (simp add: node_felts_limbs [OF ok cs] node_felts_limbs [OF ok ds'])
  also have "\<dots> = map ?e (sort ds)"
    using ds' by (subst chunks_exact_concat) (auto simp: length_limbs)
  finally have maps: "map ?e (sort cs) = map ?e (sort ds)" .
  obtain k where k: "k < length (sort cs)" "sort cs ! k = h"
    using h(1) by (metis in_set_conv_nth set_sort)
  have kd: "k < length (sort ds)" using k(1) len by simp
  have "?e h = ?e (sort ds ! k)"
    using maps k kd by (metis nth_map)
  moreover have mem: "sort ds ! k \<in> set ds" using kd by (metis nth_mem set_sort)
  ultimately have "h = sort ds ! k"
    using h(2) ds by (intro canonical_digest_inject) (auto simp: digest_ok_def)
  with mem show ?thesis by simp
qed

lemma proof_root_sound:
  assumes ok: "poseidon_ok pc" and ls: "\<forall>h\<in>set ls. digest_ok h"
  shows "digest_ok h \<Longrightarrow> list_all triple_ok sibs \<Longrightarrow>
     proof_root pc h sibs = ref_node pc ls (l + length sibs) i0 \<Longrightarrow>
     (\<exists>i. h = ref_node pc ls l i) \<or> chain_break pc ls l (proof_chain pc h sibs)"
proof (induction sibs arbitrary: h l)
  case Nil
  then show ?case by auto
next
  case (Cons s sibs)
  obtain a b c where s: "s = (a, b, c)" by (cases s)
  let ?cs = "[h, a, b, c]" and ?h' = "hash_node pc [h, a, b, c]"
  have chain: "proof_chain pc h (s # sibs) = ?cs # proof_chain pc ?h' sibs" by (simp add: s)
  have "(\<exists>i. ?h' = ref_node pc ls (Suc l) i) \<or> chain_break pc ls (Suc l) (proof_chain pc ?h' sibs)"
    using Cons.prems s by (intro Cons.IH digest_ok_hash_node [OF ok]) (simp_all del: ref_node.simps)
  then consider i where "?h' = ref_node pc ls (Suc l) i" | "chain_break pc ls l (proof_chain pc h (s # sibs))"
    using chain_break_Cons chain by auto
  then show ?case
  proof cases
    case 1
    show ?thesis
    proof (cases "i * ARITY ^ Suc l < length ls")
      case False
      with 1 have "hash_node pc ?cs = empty_hash" by simp
      then have "chain_break pc ls l (?cs # proof_chain pc ?h' sibs)"
        unfolding chain_break_def by (intro exI [of _ 0]) simp
      then show ?thesis using chain by simp
    next
      case True
      let ?ds = "tree_children pc ls l i"
      have same: "hash_node pc ?cs = hash_node pc ?ds" using 1 True by (simp add: tree_children_def)
      show ?thesis
      proof (cases "node_felts pc ?cs = node_felts pc ?ds")
        case False
        with same True have "chain_break pc ls l (?cs # proof_chain pc ?h' sibs)"
          unfolding chain_break_def by (intro exI [of _ 0]) auto
        then show ?thesis using chain by simp
      next
        case True
        have "\<forall>x\<in>set ?cs. length x = 32"
          using Cons.prems by (simp add: s triple_ok_def digest_ok_def)
        moreover have "\<forall>d\<in>set ?ds. digest_ok d"
          using digest_ok_ref_node [OF ok ls] by (auto simp: tree_children_def)
        moreover have "length ?cs = length ?ds" by (simp add: tree_children_def ARITY_def)
        ultimately have "h \<in> set ?ds"
          using True Cons.prems(1) by (intro node_felts_member [OF ok, of ?cs ?ds]) simp_all
        then show ?thesis by (auto simp: tree_children_def)
      qed
    qed
  next
    case 2
    then show ?thesis by blast
  qed
qed

section \<open>Proofs read while leaves are pending\<close>

definition leaves_ok :: "zk_tree \<Rightarrow> bool" where
  "leaves_ok t \<longleftrightarrow> (\<forall>h\<in>set (all_leaves t). digest_ok h)"

lemma node_felts_mset:
  assumes ok: "poseidon_ok pc" and cs: "\<forall>c\<in>set cs. digest_ok c" and ds: "\<forall>d\<in>set ds. digest_ok d"
    and eq: "node_felts pc cs = node_felts pc ds"
  shows "mset cs = mset ds"
proof -
  let ?e = "\<lambda>c. map felt_from_u64 (limbs c)"
  have len: "\<forall>c\<in>set cs. length c = 32" "\<forall>d\<in>set ds. length d = 32" using cs ds by (simp_all add: digest_ok_def)
  have "map ?e (sort cs) = chunks_exact 4 (concat (map ?e (sort cs)))"
    using len(1) by (subst chunks_exact_concat) (auto simp: length_limbs)
  also have "\<dots> = chunks_exact 4 (concat (map ?e (sort ds)))"
    using eq by (simp add: node_felts_limbs [OF ok len(1)] node_felts_limbs [OF ok len(2)])
  also have "\<dots> = map ?e (sort ds)"
    using len(2) by (subst chunks_exact_concat) (auto simp: length_limbs)
  finally have maps: "map ?e (sort cs) = map ?e (sort ds)" .
  have "inj_on ?e (set (sort cs) \<union> set (sort ds))"
    using cs ds by (intro inj_onI canonical_digest_inject) (auto simp: digest_ok_def)
  then have "sort cs = sort ds" using maps map_inj_on by blast
  then show ?thesis by (metis mset_sort)
qed

text \<open>Siblings above the leaves are nodes of the settled tree, whatever is pending.\<close>

lemma upper_siblings:
  assumes inv: "tree_inv pc t" and l: "0 < l" "l < Depth t"
  obtains a b d where "level_siblings t (Suc l) c = [a, b, d]"
    "mset [ref_node pc (settled_leaves t) l c, a, b, d] = mset (tree_children pc (settled_leaves t) l (c div ARITY))"
    "{a, b, d} \<subseteq> range (ref_node pc (settled_leaves t) l)"
proof -
  let ?f = "ref_node pc (settled_leaves t) l"
  have "get_node_hash t l i = ?f i" for i using inv l by (simp add: tree_inv_def)
  then have eq: "level_siblings t (Suc l) c = map ?f (filter (\<lambda>x. x \<noteq> c) (map (\<lambda>i. c div ARITY * ARITY + i) [0..<ARITY]))"
    using l(1) by (simp add: level_siblings_def Let_def del: ref_node.simps)
  obtain a b d where abd: "map ?f (filter (\<lambda>x. x \<noteq> c) (map (\<lambda>i. c div ARITY * ARITY + i) [0..<ARITY])) = [a, b, d]"
    "mset [?f c, a, b, d] = mset (map (\<lambda>j. ?f (c div ARITY * ARITY + j)) [0..<ARITY])"
    using siblings_mset [OF refl, of ?f c] by (elim exE conjE) (rule that)
  have "set [a, b, d] \<subseteq> range ?f" unfolding abd(1) [symmetric] by auto
  then show ?thesis using that [of a b d] eq abd by (simp add: tree_children_def del: ref_node.simps)
qed

lemma parent_settled:
  fixes c :: nat
  assumes "c * ARITY ^ l < n"
  shows "c div ARITY * ARITY ^ Suc l < n"
proof -
  have "c div ARITY * ARITY ^ Suc l = c div ARITY * ARITY * ARITY ^ l" by simp
  also have "\<dots> \<le> c * ARITY ^ l" by (intro mult_le_mono1) simp
  finally show ?thesis using assms by linarith
qed

text \<open>A running hash that differs from the node at its place reaches the root only through a break.\<close>

lemma wrong_hash_breaks:
  assumes ok: "poseidon_ok pc" and inv: "tree_inv pc t" and ls: "\<forall>h\<in>set (settled_leaves t). digest_ok h"
  shows "0 < l \<Longrightarrow> l \<le> Depth t \<Longrightarrow> c * ARITY ^ l < length (settled_leaves t) \<Longrightarrow> digest_ok h \<Longrightarrow>
    h \<noteq> ref_node pc (settled_leaves t) l c \<Longrightarrow> c div ARITY ^ (Depth t - l) = 0 \<Longrightarrow>
    proof_root pc h (generate_levels t c [Suc l..<Suc (Depth t)]) = Root t \<Longrightarrow>
    chain_break pc (settled_leaves t) l (proof_chain pc h (generate_levels t c [Suc l..<Suc (Depth t)]))"
proof (induction "Depth t - l" arbitrary: l c h)
  case 0
  then show ?case using inv by (simp add: tree_inv_def)
next
  case (Suc n)
  let ?ls = "settled_leaves t" and ?p = "c div ARITY"
  have l: "l < Depth t" using Suc.hyps(2) by linarith
  obtain a b d where sib: "level_siblings t (Suc l) c = [a, b, d]"
    "mset [ref_node pc ?ls l c, a, b, d] = mset (tree_children pc ?ls l ?p)" "{a, b, d} \<subseteq> range (ref_node pc ?ls l)"
    by (rule upper_siblings [OF inv Suc.prems(1) l])
  let ?h = "hash_node pc [h, a, b, d]" and ?rest = "generate_levels t ?p [Suc (Suc l)..<Suc (Depth t)]"
  have "[Suc l..<Suc (Depth t)] = Suc l # [Suc (Suc l)..<Suc (Depth t)]" using l by (simp add: upt_rec)
  then have split: "generate_levels t c [Suc l..<Suc (Depth t)] = (a, b, d) # ?rest" by (simp add: sib triple_of_def del: upt_Suc)
  have pos: "?p * ARITY ^ Suc l < length ?ls" by (rule parent_settled [OF Suc.prems(3)])
  show ?case
  proof (cases "?h = ref_node pc ?ls (Suc l) ?p")
    case True
    have oks: "digest_ok (ref_node pc ?ls l i)" for i by (rule digest_ok_ref_node [OF ok ls])
    have "mset [h, a, b, d] \<noteq> mset [ref_node pc ?ls l c, a, b, d]" using Suc.prems(5) by (simp del: ref_node.simps)
    then have "mset [h, a, b, d] \<noteq> mset (tree_children pc ?ls l ?p)" unfolding sib(2) .
    moreover have "\<forall>x\<in>set [h, a, b, d]. digest_ok x" using sib(3) Suc.prems(4) oks by auto
    moreover have "\<forall>x\<in>set (tree_children pc ?ls l ?p). digest_ok x" using oks by (auto simp: tree_children_def)
    ultimately have "node_felts pc [h, a, b, d] \<noteq> node_felts pc (tree_children pc ?ls l ?p)" using node_felts_mset [OF ok] by blast
    moreover have "?h = hash_node pc (tree_children pc ?ls l ?p)" using True pos by (simp add: tree_children_def)
    ultimately show ?thesis unfolding split proof_chain.simps using pos by (intro chain_break_here)
  next
    case False
    have "?p div ARITY ^ (Depth t - Suc l) = 0" using Suc.prems(6) l by (metis Suc_diff_Suc div_mult2_eq power_Suc)
    then have "chain_break pc ?ls (Suc l) (proof_chain pc ?h ?rest)"
      using Suc.hyps l pos False Suc.prems(7) digest_ok_hash_node [OF ok] unfolding split by (intro Suc.hyps(1)) simp_all
    then show ?thesis unfolding split using chain_break_Cons by simp
  qed
qed

text \<open>A pending leaf in the group leaves fewer empty children than the settled tree has there.\<close>

lemma pending_children:
  assumes "tree_inv pc t" "i < length (settled_leaves t)" "j div ARITY = i div ARITY" "length (settled_leaves t) \<le> j" "get_leaf_hash t j \<noteq> empty_hash"
  shows "mset (map (\<lambda>k. get_leaf_hash t (i div ARITY * ARITY + k)) [0..<ARITY]) \<noteq> mset (tree_children pc (settled_leaves t) 0 (i div ARITY))"
proof -
  let ?ks = "[0..<ARITY]" and ?f = "\<lambda>k. get_leaf_hash t (i div ARITY * ARITY + k)" and ?g = "\<lambda>k. ref_node pc (settled_leaves t) 0 (i div ARITY * ARITY + k)"
  have sub: "?f k = ?g k \<or> ?g k = empty_hash" for k
    by (simp add: settled_leaves_def get_leaf_hash_nth)
  define k where "k = j - i div ARITY * ARITY"
  have jk: "j = i div ARITY * ARITY + k" "k < ARITY"
    using assms(3) div_mult_mod_eq [of j ARITY] mod_less_divisor [of ARITY j] by (auto simp: k_def ARITY_def)
  have "length (filter (\<lambda>k. ?f k = empty_hash) ?ks) < length (filter (\<lambda>k. ?g k = empty_hash) ?ks)"
  proof -
    let ?A = "{x. ?f x = empty_hash} \<inter> set ?ks" and ?B = "{x. ?g x = empty_hash} \<inter> set ?ks"
    have "?A \<subseteq> ?B" using sub by (intro Int_mono subset_refl Collect_mono) metis
    moreover have "?g k = empty_hash" "?f k \<noteq> empty_hash" using jk assms(4,5) by simp_all
    ultimately have "?A \<subset> ?B" using jk(2) by (auto simp del: ref_node.simps)
    from psubset_card_mono [OF _ this] show ?thesis by (simp add: distinct_length_filter del: ref_node.simps)
  qed
  moreover have "count (mset (map f ks)) x = length (filter (\<lambda>k. f k = x) ks)" for f :: "nat \<Rightarrow> hash256" and ks x
    by (induction ks) auto
  ultimately have "count (mset (map ?f ?ks)) empty_hash \<noteq> count (mset (map ?g ?ks)) empty_hash" by (simp only:)
  then show ?thesis unfolding tree_children_def by metis
qed

lemma pending_first_level:
  assumes ok: "poseidon_ok pc" and inv: "tree_inv pc t" "leaves_ok t" and i: "i < length (settled_leaves t)"
    and j: "j div ARITY = i div ARITY" "length (settled_leaves t) \<le> j" "j < LeafCount t" "get_leaf_hash t j \<noteq> empty_hash"
    and root: "proof_root pc (get_leaf_hash t i) (generate_levels t i [Suc 0..<Suc (Depth t)]) = Root t"
  shows "chain_break pc (settled_leaves t) 0 (proof_chain pc (get_leaf_hash t i) (generate_levels t i [Suc 0..<Suc (Depth t)]))"
proof -
  let ?ls = "settled_leaves t" and ?p = "i div ARITY" and ?f = "get_leaf_hash t"
  have ls: "\<forall>h\<in>set ?ls. digest_ok h" using inv(2) by (auto simp: leaves_ok_def settled_leaves_def dest: in_set_takeD)
  have depth: "0 < Depth t" using tree_inv_depth_pos [OF inv(1), of i] i by simp
  obtain a b d where abd: "level_siblings t (Suc 0) i = [a, b, d]" "mset [?f i, a, b, d] = mset (map (\<lambda>k. ?f (?p * ARITY + k)) [0..<ARITY])"
    using siblings_mset [OF refl, of ?f i] by (auto simp: level_siblings_def Let_def)
  let ?h = "hash_node pc [?f i, a, b, d]" and ?rest = "generate_levels t ?p [Suc (Suc 0)..<Suc (Depth t)]"
  have "[Suc 0..<Suc (Depth t)] = Suc 0 # [Suc (Suc 0)..<Suc (Depth t)]" using depth by (simp add: upt_rec)
  then have split: "generate_levels t i [Suc 0..<Suc (Depth t)] = (a, b, d) # ?rest" by (simp add: abd triple_of_def del: upt_Suc)
  have pos: "?p * ARITY ^ Suc 0 < length ?ls" using parent_settled [of i 0] i by simp
  have leaf_ok: "digest_ok (?f k)" for k
  proof (cases "k < LeafCount t")
    case True
    then show ?thesis using inv(2) by (simp add: leaves_ok_def get_leaf_hash_nth)
  next
    case False
    then have "?f k = empty_hash" using inv(1) get_leaf_hash_absent by (simp add: tree_inv_def)
    then show ?thesis by (simp add: digest_ok_empty)
  qed
  show ?thesis
  proof (cases "?h = ref_node pc ?ls (Suc 0) ?p")
    case True
    have "set [?f i, a, b, d] \<subseteq> range ?f" using arg_cong [OF abd(2), of set_mset] by auto
    then have "\<forall>x\<in>set [?f i, a, b, d]. digest_ok x" using leaf_ok by auto
    moreover have "\<forall>x\<in>set (tree_children pc ?ls 0 ?p). digest_ok x" using digest_ok_ref_node [OF ok ls] by (auto simp: tree_children_def simp del: ref_node.simps)
    ultimately have "node_felts pc [?f i, a, b, d] \<noteq> node_felts pc (tree_children pc ?ls 0 ?p)"
      using node_felts_mset [OF ok] pending_children [OF inv(1) i j(1,2,4)] abd(2) by metis
    moreover have "?h = hash_node pc (tree_children pc ?ls 0 ?p)" using True pos by (simp add: tree_children_def)
    ultimately show ?thesis unfolding split proof_chain.simps using pos by (intro chain_break_here)
  next
    case False
    have "length ?ls \<le> ARITY ^ Depth t" using inv(1) capacity_le_pow [of "Depth t"] by (auto simp: tree_inv_def)
    then have "i div ARITY ^ Depth t = 0" using i by simp
    then have "?p div ARITY ^ (Depth t - Suc 0) = 0" using depth by (metis Suc_pred One_nat_def div_mult2_eq power_Suc)
    then have "chain_break pc ?ls (Suc 0) (proof_chain pc ?h ?rest)"
      using depth pos False root digest_ok_hash_node [OF ok] unfolding split by (intro wrong_hash_breaks [OF ok inv(1) ls]) simp_all
    then show ?thesis unfolding split using chain_break_Cons by simp
  qed
qed

section \<open>Leaf hashing\<close>

lemma canonicalize_limb:
  "v < 2 ^ 64 \<Longrightarrow> (if GOLDILOCKS_P \<le> v then v - GOLDILOCKS_P else v) = v mod GOLDILOCKS_P"
  using GOLDILOCKS_P_bounds(3) by (cases "GOLDILOCKS_P \<le> v") (simp_all add: le_mod_geq)

lemma limbs_lt_2_64: "l \<in> set (limbs bs) \<Longrightarrow> l < 2 ^ 64"
proof -
  assume "l \<in> set (limbs bs)"
  then obtain c where c: "c \<in> set (chunks_exact 8 bs)" "l = of_le_bytes c" by (auto simp: limbs_def)
  then have "length c = 8" by (simp add: chunks_exact_lengths)
  with c of_le_bytes_bound [of c] show ?thesis by simp
qed

lemma canonicalize_limbs:
  "canonicalize_account_bytes bs = digest_of_limbs (map (\<lambda>v. v mod GOLDILOCKS_P) (limbs bs))"
  unfolding canonicalize_account_bytes_def
  by (intro arg_cong [where f = digest_of_limbs] map_cong refl canonicalize_limb limbs_lt_2_64)

lemma limbs_canonicalize: "limbs (canonicalize_account_bytes bs) = map (\<lambda>v. v mod GOLDILOCKS_P) (limbs bs)"
proof -
  have "v mod GOLDILOCKS_P < 2 ^ 64" for v
    using GOLDILOCKS_P_bounds mod_less_divisor [of GOLDILOCKS_P v] by linarith
  then show ?thesis
    unfolding canonicalize_limbs by (intro limbs_digest_of_limbs) auto
qed

lemma felts_canonicalize:
  assumes "poseidon_ok pc" "length a = 32"
  shows "bytes_to_felts_compact_lossy pc a = map felt_from_u64 (limbs (canonicalize_account_bytes a))"
  using assms
  by (simp add: bytes_to_felts_compact_lossy_def poseidon_okD limbs_canonicalize felt_eq_iff)

lemma length_canonicalize: "length a = 32 \<Longrightarrow> length (canonicalize_account_bytes a) = 32"
  by (simp add: canonicalize_account_bytes_def length_limbs)

lemma canonical_canonicalize: "canonical_limbs (canonicalize_account_bytes a)"
  using GOLDILOCKS_P_bounds(1) by (auto simp: canonical_limbs_def limbs_canonicalize list_all_iff)

lemma lossy_felts_eq_iff:
  assumes "poseidon_ok pc" "length a = 32" "length b = 32"
  shows "bytes_to_felts_compact_lossy pc a = bytes_to_felts_compact_lossy pc b
     \<longleftrightarrow> canonicalize_account_bytes a = canonicalize_account_bytes b"
  unfolding felts_canonicalize [OF assms(1,2)] felts_canonicalize [OF assms(1,3)]
  using assms by (auto intro!: canonical_digest_inject simp: length_canonicalize canonical_canonicalize)

lemma felts_le_bytes_8:
  assumes "poseidon_ok pc" "v < 2 ^ 64"
  shows "bytes_to_felts_compact_lossy pc (le_bytes 8 v) = [felt_from_u64 v]"
proof -
  have "limbs (le_bytes 8 v) = [v]"
    using limbs_digest_of_limbs [of "[v]"] assms(2) by (simp add: digest_of_limbs_def)
  then show ?thesis by (simp add: bytes_to_felts_compact_lossy_def poseidon_okD [OF assms(1)])
qed

lemma felt_inject: "x < GOLDILOCKS_P \<Longrightarrow> y < GOLDILOCKS_P \<Longrightarrow> felt_from_u64 x = felt_from_u64 y \<longleftrightarrow> x = y"
  by (simp add: felt_eq_iff)

definition sat32 :: "nat \<Rightarrow> nat" where
  "sat32 v = min v (2 ^ 32 - 1)"

lemma sat32_try_into: "(case try_into_u 32 v of None \<Rightarrow> 2 ^ 32 - 1 | Some a \<Rightarrow> a) = sat32 v"
  by (simp add: try_into_u_def sat32_def)

lemma sat32_lt: "sat32 v < GOLDILOCKS_P" "sat32 v < 2 ^ 64"
  by (simp_all add: sat32_def GOLDILOCKS_P_def)

lemma u64_felts_inject:
  assumes "poseidon_ok pc" "m < 2 ^ 64" "n < 2 ^ 64"
  shows "u64_to_felts pc m = u64_to_felts pc n \<longleftrightarrow> m = n"
proof -
  have lt: "x div 2 ^ 32 < GOLDILOCKS_P" "x mod 2 ^ 32 < GOLDILOCKS_P" if "x < 2 ^ 64" for x :: nat
    using that by (simp_all add: GOLDILOCKS_P_def div_less_iff_less_mult less_mult_imp_div_less
        less_le_trans [OF mod_less_divisor])
  have "m div 2 ^ 32 = n div 2 ^ 32 \<and> m mod 2 ^ 32 = n mod 2 ^ 32 \<longleftrightarrow> m = n"
    by (metis div_mult_mod_eq)
  then show ?thesis
    using lt assms by (simp add: poseidon_okD felt_inject)
qed

lemma hash_leaf_felts_eq_iff:
  assumes ok: "poseidon_ok pc"
    and len: "length (leaf_to a) = 32" "length (leaf_to b) = 32"
    and cnt: "transfer_count a < 2 ^ 64" "transfer_count b < 2 ^ 64"
  shows "hash_leaf_felts pc a = hash_leaf_felts pc b \<longleftrightarrow>
     canonicalize_account_bytes (leaf_to a) = canonicalize_account_bytes (leaf_to b)
     \<and> transfer_count a = transfer_count b
     \<and> min (asset_id a) (2 ^ 32 - 1) = min (asset_id b) (2 ^ 32 - 1)
     \<and> min (leaf_amount a div AMOUNT_SCALE_DOWN_FACTOR) (2 ^ 32 - 1)
       = min (leaf_amount b div AMOUNT_SCALE_DOWN_FACTOR) (2 ^ 32 - 1)"
proof -
  have l4: "length (bytes_to_felts_compact_lossy pc (leaf_to x)) = 4" if "length (leaf_to x) = 32" for x :: ZkLeaf
    using that by (simp add: felts_canonicalize [OF ok that] length_limbs length_canonicalize)
  have l2: "length (u64_to_felts pc n) = 2" if "n < 2 ^ 64" for n using that ok by (simp add: poseidon_okD)
  show ?thesis
    unfolding hash_leaf_felts_def Let_def sat32_try_into felts_le_bytes_8 [OF ok sat32_lt(2)]
    using len cnt
    by (simp add: l4 l2 lossy_felts_eq_iff [OF ok] u64_felts_inject [OF ok] felt_inject sat32_lt(1))
      (simp add: sat32_def)
qed

section \<open>The pallet as a commitment recorder\<close>

lemma insert_commitment_cases:
  assumes inv: "tree_inv pc t" and ok: "insert_commitment t c = Inr (t', i)"
  shows "t' = fst (append_leaf_hash t c)" "i = LeafCount t" "LeafCount t < 4 ^ 20"
    "c \<noteq> zero_hash" "canonical_limbs c"
proof -
  have facts: "append_leaf_hash t c = (t', i)" "c \<noteq> zero_hash" "canonical_limbs c" "0 < remaining_capacity t"
    using ok by (simp_all add: insert_commitment_def empty_hash_def)
  show "LeafCount t < 4 ^ 20" using facts(4) unfolding remaining_capacity_def capacity_CIRCUIT by simp
  then show "i = LeafCount t" "t' = fst (append_leaf_hash t c)"
    using append_leaf_hash_fields(1) [OF inv, of c] facts(1) by simp_all
  show "c \<noteq> zero_hash" "canonical_limbs c" by fact+
qed

lemma tree_inv_insert_commitment:
  "tree_inv pc t \<Longrightarrow> insert_commitment t c = Inr (t', i) \<Longrightarrow> tree_inv pc t'"
  using insert_commitment_cases tree_inv_append by metis

interpretation zk_rec: commitment_recorder insert_commitment remaining_capacity LeafCount all_leaves "tree_inv pc"
  for pc
proof
  fix t :: zk_tree and c :: hash256
  assume "tree_inv pc t" "0 < remaining_capacity t" "c \<noteq> zero_hash" "canonical_limbs c"
  then show "\<exists>t' i. insert_commitment t c = Inr (t', i)"
    by (simp add: insert_commitment_def empty_hash_def append_leaf_hash_def Let_def)
next
  fix t :: zk_tree and c r
  assume "insert_commitment t c = Inr r"
  then show "c \<noteq> zero_hash \<and> canonical_limbs c" by (simp add: insert_commitment_def empty_hash_def)
next
  fix t t' :: zk_tree and c i
  assume inv: "tree_inv pc t" and ok: "insert_commitment t c = Inr (t', i)"
  note c = insert_commitment_cases [OF inv ok]
  note f = append_leaf_hash_fields [OF inv c(3), of c]
  show "tree_inv pc t'" by (rule tree_inv_insert_commitment [OF inv ok])
  show "i = LeafCount t" by (rule c)
  show "LeafCount t' = Suc (LeafCount t)" using c(1) f by simp
  show "Suc (remaining_capacity t') = remaining_capacity t"
    using c(1,3) f unfolding remaining_capacity_def capacity_CIRCUIT by simp
  show "all_leaves t' = all_leaves t @ [c]" using c(1) f by simp
qed

section \<open>Reachable trees\<close>

text \<open>
  The steps of the tree over the life of the chain. \<open>insert_leaf\<close> has no capacity check of its
  own in the code, so its step carries the bound as a premise.
\<close>

inductive zk_step :: "poseidon \<Rightarrow> zk_tree \<Rightarrow> zk_tree \<Rightarrow> bool" for pc where
  step_commitment: "insert_commitment t c = Inr (t', i) \<Longrightarrow> length c = 32 \<Longrightarrow> zk_step pc t t'"
| step_leaf: "LeafCount t < 4 ^ 20 \<Longrightarrow> insert_leaf pc t to cnt asset amount = (t', i) \<Longrightarrow> zk_step pc t t'"
| step_finalize: "zk_on_finalize pc t = Some t' \<Longrightarrow> zk_step pc t t'"

inductive zk_reachable :: "poseidon \<Rightarrow> zk_tree \<Rightarrow> bool" for pc where
  reach_genesis: "zk_reachable pc genesis_tree"
| reach_step: "zk_reachable pc t \<Longrightarrow> zk_step pc t t' \<Longrightarrow> zk_reachable pc t'"

lemma zk_step_tree_inv: "zk_step pc t t' \<Longrightarrow> tree_inv pc t \<Longrightarrow> tree_inv pc t'"
proof (induction rule: zk_step.induct)
  case (step_commitment t c t' i)
  then show ?case by (blast intro: tree_inv_insert_commitment)
next
  case (step_leaf t to cnt asset amount t' i)
  then have "t' = fst (append_leaf_hash t (hash_leaf pc
      \<lparr>leaf_to = to, transfer_count = cnt, asset_id = asset, leaf_amount = amount\<rparr>))"
    by (simp add: insert_leaf_def)
  with step_leaf show ?case by (simp add: tree_inv_append)
next
  case (step_finalize t t')
  then show ?case using zk_on_finalize_ok [of pc t] by auto
qed

lemma zk_step_leaves_ok:
  "zk_step pc t t' \<Longrightarrow> poseidon_ok pc \<Longrightarrow> tree_inv pc t \<Longrightarrow> leaves_ok t \<Longrightarrow> leaves_ok t'"
proof (induction rule: zk_step.induct)
  case (step_commitment t c t' i)
  then have "all_leaves t' = all_leaves t @ [c]" "canonical_limbs c"
    using zk_rec.insert_leaves zk_rec.insert_accepts by blast+
  with step_commitment show ?case by (auto simp: leaves_ok_def digest_ok_def)
next
  case (step_leaf t to cnt asset amount t' i)
  define h where "h = hash_leaf pc \<lparr>leaf_to = to, transfer_count = cnt, asset_id = asset, leaf_amount = amount\<rparr>"
  have "t' = fst (append_leaf_hash t h)" using step_leaf(2) by (simp add: insert_leaf_def h_def)
  then have "all_leaves t' = all_leaves t @ [h]"
    using append_leaf_hash_fields(4) [OF step_leaf(4,1)] by simp
  moreover have "digest_ok h"
    using step_leaf(3) by (simp add: h_def hash_leaf_def digest_ok_def poseidon_okD)
  ultimately show ?case using step_leaf(5) by (auto simp: leaves_ok_def)
next
  case (step_finalize t t')
  then show ?case using zk_on_finalize_ok [of pc t] by (auto simp: leaves_ok_def)
qed

lemma zk_reachable_inv: "zk_reachable pc t \<Longrightarrow> poseidon_ok pc \<Longrightarrow> tree_inv pc t \<and> leaves_ok t"
proof (induction rule: zk_reachable.induct)
  case reach_genesis
  show ?case using tree_inv_genesis by (simp add: leaves_ok_def genesis_tree_def all_leaves_def)
next
  case (reach_step t t')
  then show ?case using zk_step_tree_inv zk_step_leaves_ok by blast
qed

section \<open>A sample run\<close>

definition sample_commitment :: hash256 where
  "sample_commitment = digest_of_limbs [1, 2, 3, 4]"

definition sample_pending_tree :: zk_tree where
  "sample_pending_tree = fst (append_leaf_hash genesis_tree sample_commitment)"

text \<open>The tree after one commitment and the end of its block.\<close>

definition one_leaf_tree :: "poseidon \<Rightarrow> hash256 \<Rightarrow> zk_tree" where
  "one_leaf_tree pc c =
     (let root = hash_node pc [c, empty_hash, empty_hash, empty_hash]
      in \<lparr>Leaves = [0 \<mapsto> c], Nodes = Map.empty, LeafCount = 1, Depth = 1, Root = root,
          UnprocessedLeaves = 0, zk_tree_root = root, zk_events = [LeafInserted 0, TreeGrew 1]\<rparr>)"

definition sample_tree :: zk_tree where
  "sample_tree = one_leaf_tree sample_poseidon sample_commitment"

lemma sample_commitment_ok: "digest_ok sample_commitment" "sample_commitment \<noteq> empty_hash"
proof -
  show "digest_ok sample_commitment"
    unfolding digest_ok_def sample_commitment_def
    by (intro conjI canonical_digest_of_limbs) (simp_all add: GOLDILOCKS_P_def)
  have "limbs sample_commitment = [1, 2, 3, 4]" "limbs empty_hash = [0, 0, 0, 0]"
    unfolding sample_commitment_def empty_hash_def zero_hash_limbs
    by (simp_all add: limbs_digest_of_limbs)
  then show "sample_commitment \<noteq> empty_hash" by auto
qed

lemma insert_genesis:
  "c \<noteq> empty_hash \<Longrightarrow> canonical_limbs c \<Longrightarrow>
   insert_commitment genesis_tree c = Inr (fst (append_leaf_hash genesis_tree c), 0)"
  by (simp add: insert_commitment_def remaining_capacity_def capacity_CIRCUIT genesis_tree_def
      append_leaf_hash_def Let_def)

lemma grown_depth_sample: "grown_depth (Suc 0) 0 = Suc 0"
  by (simp add: grown_depth.simps [of "Suc 0" 0] grown_depth.simps [of "Suc 0" "Suc 0"]
      capacity_at_depth_def CIRCUIT_MAX_TREE_DEPTH_def ARITY_def)

lemma finalize_one_leaf: "zk_on_finalize pc (fst (append_leaf_hash genesis_tree c)) = Some (one_leaf_tree pc c)"
  by (simp add: zk_on_finalize_def process_pending_leaves_def genesis_tree_def
      append_leaf_hash_def Let_def sat_add_def grown_depth_sample grow_tree_def update_range_def
      range_child_def get_leaf_hash_def ARITY_upt [unfolded ARITY_def] ARITY_def one_leaf_tree_def)

lemma sample_insert: "insert_commitment genesis_tree sample_commitment = Inr (sample_pending_tree, 0)"
  using insert_genesis sample_commitment_ok by (simp add: sample_pending_tree_def digest_ok_def)

lemma sample_finalize: "zk_on_finalize sample_poseidon sample_pending_tree = Some sample_tree"
  unfolding sample_pending_tree_def sample_tree_def by (rule finalize_one_leaf)

lemma sample_pending_tree_reachable: "zk_reachable sample_poseidon sample_pending_tree"
  using sample_insert sample_commitment_ok(1) reach_genesis reach_step step_commitment
  unfolding digest_ok_def by blast

lemma sample_tree_reachable: "zk_reachable sample_poseidon sample_tree"
  using sample_pending_tree_reachable sample_finalize reach_step step_finalize by blast

lemmas sample_tree_inv = zk_reachable_inv [OF sample_tree_reachable sample_poseidon_ok]
lemmas sample_pending_tree_inv = zk_reachable_inv [OF sample_pending_tree_reachable sample_poseidon_ok]

section \<open>Properties of the commitment tree\<close>

text \<open>
  C22: Every tree the chain can reach, by appending commitments and transfer leaves and finalizing
  blocks, satisfies the storage invariant: the stored nodes and the root are exactly the reference
  Merkle tree of the settled leaves, at the smallest depth that holds them and never deeper than the
  circuit proves, and every leaf is a canonical 32-byte digest.
\<close>

theorem zk_reachable_tree_inv:
  assumes "poseidon_ok pc" and "zk_reachable pc t"
  shows "tree_inv pc t \<and> leaves_ok t"
  using zk_reachable_inv assms by blast

theorem zk_reachable_tree_inv_witness:
  "poseidon_ok sample_poseidon \<and> zk_reachable sample_poseidon sample_tree
   \<and> tree_inv sample_poseidon sample_tree \<and> leaves_ok sample_tree"
  using zk_reachable_tree_inv [OF sample_poseidon_ok sample_tree_reachable]
    sample_poseidon_ok sample_tree_reachable by blast

text \<open>
  C23: The batched fold refines the reference tree. From every state of the invariant
  \<open>on_finalize\<close> returns, drains the pending leaves, keeps the leaves, and publishes in the
  header the root of the reference tree over all leaves of the block.
\<close>

theorem zk_on_finalize_refines:
  assumes "tree_inv pc t"
  shows "\<exists>t'. zk_on_finalize pc t = Some t' \<and> tree_inv pc t' \<and> UnprocessedLeaves t' = 0
     \<and> all_leaves t' = all_leaves t
     \<and> Root t' = ref_node pc (all_leaves t) (Depth t') 0 \<and> zk_tree_root t' = Root t'"
  using zk_on_finalize_ok [OF assms] by blast

theorem zk_on_finalize_refines_witness:
  "tree_inv sample_poseidon sample_pending_tree \<and>
   (\<exists>t'. zk_on_finalize sample_poseidon sample_pending_tree = Some t' \<and> UnprocessedLeaves t' = 0
     \<and> Root t' = ref_node sample_poseidon (all_leaves sample_pending_tree) (Depth t') 0)"
  using zk_on_finalize_refines [of sample_poseidon sample_pending_tree] sample_pending_tree_inv by blast

text \<open>
  Completeness of Merkle proofs. Once a block is finalized, the pallet returns a proof for every
  leaf index in range, one level of siblings per level of the tree, and the pallet's own verifier
  accepts it for the stored leaf.
\<close>

theorem merkle_proof_complete:
  assumes "tree_inv pc t" and "UnprocessedLeaves t = 0" and "i < LeafCount t"
  shows "\<exists>p. get_merkle_proof t i = Inr p \<and> leaf_index p = i \<and> length (siblings p) = Depth t
     \<and> pallet_verify_proof pc t (get_leaf_hash t i) p"
proof -
  have depth: "0 < Depth t" using assms by (intro tree_inv_depth_pos) simp_all
  have leaf: "get_leaf_hash t i = ref_node pc (all_leaves t) 0 i"
    using assms(3) by (simp add: get_leaf_hash_nth)
  have "settled_leaves t = all_leaves t" using assms(2) by (simp add: settled_leaves_def)
  then have root: "Root t = ref_node pc (all_leaves t) (Depth t) 0"
    and "LeafCount t \<le> ARITY ^ Depth t"
    using assms capacity_le_pow [of "Depth t"] by (auto simp: tree_inv_def)
  then have "i div ARITY ^ Depth t = 0" using assms(3) by simp
  then have "proof_root pc (get_leaf_hash t i) (generate_levels t i [Suc 0..<Suc (Depth t)]) = Root t"
    using generate_levels_root [OF assms(1,2), of 0 i] assms(3) unfolding leaf root by simp
  then show ?thesis
    using assms depth
    by (simp add: get_merkle_proof_def generate_proof_def pallet_verify_proof_def verify_proof_def
        del: upt_Suc)
qed

theorem merkle_proof_complete_witness:
  "tree_inv sample_poseidon sample_tree \<and>
   (\<exists>p. get_merkle_proof sample_tree 0 = Inr p \<and> length (siblings p) = 1
     \<and> pallet_verify_proof sample_poseidon sample_tree sample_commitment p)"
  using merkle_proof_complete [of sample_poseidon sample_tree 0] sample_tree_inv
  by (auto simp: sample_tree_def one_leaf_tree_def get_leaf_hash_def Let_def)

text \<open>
  C24: Soundness of Merkle proofs. If verification accepts a non-zero canonical leaf with a proof as
  deep as the tree, whatever siblings it carries (non-canonical ones included), then the leaf is one
  of the settled leaves, or the proof itself exhibits a break of Poseidon: at one of its levels a
  preimage of the all-zero digest, or sixteen field elements that differ from those of a stored node
  and hash to it.
\<close>

theorem merkle_proof_sound:
  assumes "poseidon_ok pc" and "tree_inv pc t" and "leaves_ok t"
    and "digest_ok leaf" and "leaf \<noteq> empty_hash"
    and "list_all triple_ok (siblings p)" and "length (siblings p) = Depth t"
    and "pallet_verify_proof pc t leaf p"
  shows "leaf \<in> set (settled_leaves t)
     \<or> chain_break pc (settled_leaves t) 0 (proof_chain pc leaf (siblings p))"
proof -
  have "set (settled_leaves t) \<subseteq> set (all_leaves t)"
    unfolding settled_leaves_def by (rule set_take_subset)
  then have ls: "\<forall>h\<in>set (settled_leaves t). digest_ok h" using assms(3) by (auto simp: leaves_ok_def)
  have "proof_root pc leaf (siblings p) = ref_node pc (settled_leaves t) (0 + length (siblings p)) 0"
    using assms by (simp add: pallet_verify_proof_def verify_proof_def tree_inv_def)
  from proof_root_sound [OF assms(1) ls assms(4,6) this] consider
    i where "leaf = ref_node pc (settled_leaves t) 0 i"
    | "chain_break pc (settled_leaves t) 0 (proof_chain pc leaf (siblings p))" by blast
  then show ?thesis
  proof cases
    case 1
    then show ?thesis using assms(5) by (auto split: if_splits)
  qed blast
qed

theorem merkle_proof_sound_witness:
  "sample_commitment \<in> set (settled_leaves sample_tree)
   \<or> chain_break sample_poseidon (settled_leaves sample_tree) 0
       (proof_chain sample_poseidon sample_commitment [(empty_hash, empty_hash, empty_hash)])"
  using merkle_proof_sound [of sample_poseidon sample_tree sample_commitment
      "\<lparr>leaf_index = 0, siblings = [(empty_hash, empty_hash, empty_hash)]\<rparr>"]
    sample_tree_inv sample_poseidon_ok sample_commitment_ok
  by (simp add: triple_ok_def pallet_verify_proof_def verify_proof_def sample_tree_def one_leaf_tree_def Let_def)

text \<open>
  \<open>insert_commitment\<close> on every branch. The zero digest, a non-canonical digest and a full
  tree are refused in that order; otherwise the commitment takes the next index, the leaves grow by
  exactly it, and the settled part of the tree (leaves, root, depth) is untouched.
\<close>

theorem insert_commitment_spec:
  assumes "tree_inv pc t"
  shows "if c = empty_hash then insert_commitment t c = Inl ZeroCommitment
     else if \<not> canonical_limbs c then insert_commitment t c = Inl NonCanonicalCommitment
     else if LeafCount t = 4 ^ 20 then insert_commitment t c = Inl TreeFull
     else \<exists>t'. insert_commitment t c = Inr (t', LeafCount t) \<and> tree_inv pc t'
        \<and> all_leaves t' = all_leaves t @ [c] \<and> settled_leaves t' = settled_leaves t
        \<and> Root t' = Root t \<and> Depth t' = Depth t \<and> remaining_capacity t' + 1 = remaining_capacity t"
proof -
  have cap: "remaining_capacity t = 4 ^ 20 - LeafCount t" "LeafCount t \<le> 4 ^ 20"
    using assms unfolding remaining_capacity_def capacity_CIRCUIT tree_inv_def by simp_all
  consider "c = empty_hash" | "c \<noteq> empty_hash" "\<not> canonical_limbs c"
    | "c \<noteq> empty_hash" "canonical_limbs c" "LeafCount t = 4 ^ 20"
    | "c \<noteq> empty_hash" "canonical_limbs c" "LeafCount t < 4 ^ 20"
    using cap(2) by linarith
  then show ?thesis
  proof cases
    case 4
    then obtain t' i where ok: "insert_commitment t c = Inr (t', i)"
      using zk_rec.insert_total [OF assms, of c] cap by (auto simp: empty_hash_def)
    note c = insert_commitment_cases [OF assms ok] and f = append_leaf_hash_fields [OF assms 4(3), of c]
    show ?thesis
      using 4 ok c f tree_inv_insert_commitment [OF assms ok] zk_rec.insert_remaining [OF assms ok] by simp
  qed (simp_all add: insert_commitment_def cap)
qed

theorem insert_commitment_spec_witness:
  "tree_inv sample_poseidon sample_tree \<and>
   (\<exists>t'. insert_commitment sample_tree sample_commitment = Inr (t', LeafCount sample_tree)
     \<and> Root t' = Root sample_tree)"
proof -
  have "canonical_limbs sample_commitment" "LeafCount sample_tree \<noteq> 4 ^ 20"
    using sample_commitment_ok by (simp_all add: digest_ok_def sample_tree_def one_leaf_tree_def Let_def)
  then show ?thesis
    using insert_commitment_spec [of sample_poseidon sample_tree sample_commitment]
      sample_tree_inv sample_commitment_ok(2) by auto
qed

text \<open>
  \<open>get_merkle_proof\<close> on every branch: an index past the leaves is out of bounds, a leaf
  appended in the running block is refused as not yet settled, and every settled leaf gets a proof of
  the tree's depth; \<open>LeafNotFound\<close> is never returned.
\<close>

theorem get_merkle_proof_spec:
  assumes "tree_inv pc t"
  shows "if LeafCount t \<le> i then get_merkle_proof t i = Inl LeafIndexOutOfBounds
     else if length (settled_leaves t) \<le> i then get_merkle_proof t i = Inl LeafNotYetSettled
     else \<exists>p. get_merkle_proof t i = Inr p \<and> leaf_index p = i \<and> length (siblings p) = Depth t"
  using tree_inv_depth_pos [OF assms, of i]
  by (auto simp: get_merkle_proof_def generate_proof_def ensure_def not_le simp del: upt_Suc)

theorem get_merkle_proof_spec_witness:
  "tree_inv sample_poseidon sample_pending_tree
   \<and> get_merkle_proof sample_pending_tree 0 = Inl LeafNotYetSettled"
  using get_merkle_proof_spec [of sample_poseidon sample_pending_tree 0] sample_pending_tree_inv
  by (simp add: sample_pending_tree_def append_leaf_hash_def genesis_tree_def sat_add_def)

text \<open>
  The leaf encoding is injective up to the documented reductions. Two transfer leaves have the
  same eight field elements exactly when their recipients canonicalize identically, their transfer
  counts agree, and their asset ids and quantized amounts agree after saturation at 32 bits.
\<close>

theorem hash_leaf_felts_injective:
  assumes "poseidon_ok pc"
    and "length (leaf_to a) = 32" "length (leaf_to b) = 32"
    and "transfer_count a < 2 ^ 64" "transfer_count b < 2 ^ 64"
  shows "hash_leaf_felts pc a = hash_leaf_felts pc b \<longleftrightarrow>
     canonicalize_account_bytes (leaf_to a) = canonicalize_account_bytes (leaf_to b)
     \<and> transfer_count a = transfer_count b
     \<and> min (asset_id a) (2 ^ 32 - 1) = min (asset_id b) (2 ^ 32 - 1)
     \<and> min (leaf_amount a div AMOUNT_SCALE_DOWN_FACTOR) (2 ^ 32 - 1)
       = min (leaf_amount b div AMOUNT_SCALE_DOWN_FACTOR) (2 ^ 32 - 1)"
  using hash_leaf_felts_eq_iff [OF assms] .

theorem hash_leaf_felts_injective_witness:
  "hash_leaf_felts sample_poseidon
     \<lparr>leaf_to = zero_hash, transfer_count = 5, asset_id = 0, leaf_amount = 10 ^ 12\<rparr>
   \<noteq> hash_leaf_felts sample_poseidon
     \<lparr>leaf_to = zero_hash, transfer_count = 6, asset_id = 0, leaf_amount = 10 ^ 12\<rparr>"
  using hash_leaf_felts_injective [of sample_poseidon
      "\<lparr>leaf_to = zero_hash, transfer_count = 5, asset_id = 0, leaf_amount = 10 ^ 12\<rparr>"
      "\<lparr>leaf_to = zero_hash, transfer_count = 6, asset_id = 0, leaf_amount = 10 ^ 12\<rparr>"]
    sample_poseidon_ok by (simp add: zero_hash_def)

text \<open>
  C27: A proof read while leaves are pending. The proof of a settled leaf takes its level-one siblings from the
  stored leaves, pending ones included, while the root does not cover those. In every reachable tree, when a
  pending leaf shares its group of four with a settled one, the pallet returns a proof for the settled leaf,
  and the pallet's own verifier accepts it only if the proof breaks Poseidon at one of its levels: sixteen
  field elements that differ from those of a node of the tree and hash to it, or a preimage of zero.
\<close>

theorem merkle_proof_pending_sibling:
  assumes "poseidon_ok pc" "zk_reachable pc t" "i < length (settled_leaves t)"
    and "j div ARITY = i div ARITY" "length (settled_leaves t) \<le> j" "j < LeafCount t" "get_leaf_hash t j \<noteq> empty_hash"
  shows "\<exists>p. get_merkle_proof t i = Inr p \<and> length (siblings p) = Depth t
    \<and> (pallet_verify_proof pc t (get_leaf_hash t i) p \<longrightarrow>
         chain_break pc (settled_leaves t) 0 (proof_chain pc (get_leaf_hash t i) (siblings p)))"
proof -
  have inv: "tree_inv pc t" "leaves_ok t" using zk_reachable_inv [OF assms(2,1)] by simp_all
  then have depth: "0 < Depth t" and index: "i < LeafCount t" using tree_inv_depth_pos [OF inv(1)] assms(3) by simp_all
  have proof_of: "get_merkle_proof t i = Inr \<lparr>leaf_index = i, siblings = generate_levels t i [Suc 0..<Suc (Depth t)]\<rparr>"
    using depth index assms(3) by (simp add: get_merkle_proof_def generate_proof_def del: upt_Suc)
  have "chain_break pc (settled_leaves t) 0 (proof_chain pc (get_leaf_hash t i) (generate_levels t i [Suc 0..<Suc (Depth t)]))"
    if "proof_root pc (get_leaf_hash t i) (generate_levels t i [Suc 0..<Suc (Depth t)]) = Root t"
    using pending_first_level [OF assms(1) inv assms(3-7) that] .
  then show ?thesis using proof_of by (simp add: pallet_verify_proof_def verify_proof_def del: upt_Suc)
qed

text \<open>One settled leaf and a pending one beside it.\<close>

theorem merkle_proof_pending_sibling_witness:
  "\<exists>t p. zk_reachable sample_poseidon t \<and> get_merkle_proof t 0 = Inr p
     \<and> (\<not> pallet_verify_proof sample_poseidon t sample_commitment p
        \<or> chain_break sample_poseidon [sample_commitment] 0 (proof_chain sample_poseidon sample_commitment (siblings p)))"
proof -
  define t where "t = fst (append_leaf_hash sample_tree sample_commitment)"
  have len: "length sample_commitment = 32" using sample_commitment_ok by (simp add: digest_ok_def)
  have c: "canonical_limbs sample_commitment" "sample_commitment \<noteq> empty_hash" using sample_commitment_ok by (simp_all add: digest_ok_def)
  have "insert_commitment sample_tree sample_commitment = Inr (t, 1)"
    using c by (simp add: t_def insert_commitment_def remaining_capacity_def capacity_CIRCUIT append_leaf_hash_def sample_tree_def one_leaf_tree_def Let_def)
  then have reach: "zk_reachable sample_poseidon t" using reach_step [OF sample_tree_reachable step_commitment] len by blast
  have fields: "get_leaf_hash t 0 = sample_commitment" "get_leaf_hash t 1 = sample_commitment" "LeafCount t = 2" "settled_leaves t = [sample_commitment]"
    by (simp_all add: t_def append_leaf_hash_def sample_tree_def one_leaf_tree_def Let_def get_leaf_hash_def sat_add_def settled_leaves_def all_leaves_def upt_rec)
  obtain p where "get_merkle_proof t 0 = Inr p"
    "pallet_verify_proof sample_poseidon t sample_commitment p \<longrightarrow>
       chain_break sample_poseidon [sample_commitment] 0 (proof_chain sample_poseidon sample_commitment (siblings p))"
    using merkle_proof_pending_sibling [OF sample_poseidon_ok reach, of 0 1] fields c(2) by (auto simp: ARITY_def)
  then show ?thesis using reach by blast
qed

end
