(* ===== verification/ChainRules.thy ===== *)
theory ChainRules
  imports Prelude
begin

text \<open>
  The rules a chain evaluates natively and the public-input layouts it reads, from
  \<open>crates/qnero-circuit/src\<close>: \<open>chain.rs\<close> (ciphertext digest, ciphertext length table,
  note commitment, value range), \<open>layout.rs\<close>, \<open>batch_layout.rs\<close> and the padding
  sentinel of \<open>padding.rs\<close>.

  The lemmas show that the byte string hashed by \<open>ct_digest\<close> determines the ciphertexts, that
  \<open>commitment\<close> refuses exactly the non-canonical \<open>inner\<close> digests and binds the rest, that
  a private batch's length determines its slot count while a public batch's does not.
\<close>

section \<open>The chain's own rules\<close>

definition CM :: nat where
  "CM = 0x716e0004"

definition MAX_TREE_DEPTH :: nat where
  "MAX_TREE_DEPTH = 20"

definition VALUE_BITS :: nat where
  "VALUE_BITS = 62"

definition MAX_VALUE :: nat where
  "MAX_VALUE = 2 ^ VALUE_BITS - 1"

definition CRYPTO_SUITE_ML_KEM_1024 :: nat where
  "CRYPTO_SUITE_ML_KEM_1024 = 1"

definition SUITE_1_CIPHERTEXT_BYTES :: nat where
  "SUITE_1_CIPHERTEXT_BYTES = 1792"

definition CT_SUITE_OFFSET :: nat where
  "CT_SUITE_OFFSET = 1"

definition CT_HEADER_LEN :: nat where
  "CT_HEADER_LEN = 3"

definition declared_crypto_suite :: "byte list \<Rightarrow> nat option" where
  "declared_crypto_suite bytes =
     (if length bytes < CT_HEADER_LEN then None
      else Some (of_le_bytes [bytes ! CT_SUITE_OFFSET, bytes ! (CT_SUITE_OFFSET + 1)]))"

definition ciphertext_len :: "nat \<Rightarrow> nat option" where
  "ciphertext_len suite = (if suite = CRYPTO_SUITE_ML_KEM_1024 then Some SUITE_1_CIPHERTEXT_BYTES else None)"

text \<open>The ASCII bytes of \<open>qnero/ct\<close>.\<close>

definition CT_DIGEST_PREFIX :: "byte list" where
  "CT_DIGEST_PREFIX = [113, 110, 101, 114, 111, 47, 99, 116]"

definition ct_digest_preimage :: "byte list list \<Rightarrow> byte list" where
  "ct_digest_preimage ciphertexts =
     CT_DIGEST_PREFIX @ le_bytes 4 (length ciphertexts)
     @ concat (map (\<lambda>ct. le_bytes 4 (length ct) @ ct) ciphertexts)"

definition ct_digest :: "poseidon \<Rightarrow> byte list list \<Rightarrow> hash256" where
  "ct_digest pc ciphertexts = hash_bytes pc (ct_digest_preimage ciphertexts)"

definition commitment_felts :: "goldilocks list \<Rightarrow> nat \<Rightarrow> goldilocks list" where
  "commitment_felts inner_felts value = [felt_from_u64 CM] @ inner_felts @ [felt_from_u64 value]"

definition commitment :: "poseidon \<Rightarrow> hash256 \<Rightarrow> nat \<Rightarrow> hash256 option" where
  "commitment pc inner value =
     (case bytes_to_digest pc inner of
        None \<Rightarrow> None
      | Some inner_felts \<Rightarrow> Some (hash_to_bytes pc (commitment_felts inner_felts value)))"

definition PADDING_BLOCK_HASH :: "nat list" where
  "PADDING_BLOCK_HASH = [0x2a7010a968e4b434, 0x2eeda5104a12c6e5, 0xbba8fa909e36ea2e, 0x6992931530e84452]"

section \<open>Public-input layouts\<close>

definition DIGEST_FELTS :: nat where
  "DIGEST_FELTS = 4"

definition NUM_INPUTS :: nat where
  "NUM_INPUTS = 2"

definition NUM_OUTPUTS :: nat where
  "NUM_OUTPUTS = 2"

definition MAX_PROOF_COUNT :: nat where
  "MAX_PROOF_COUNT = 64"

definition BLOCK_HASH_START :: nat where
  "BLOCK_HASH_START = 0"

definition BLOCK_NUMBER_INDEX :: nat where
  "BLOCK_NUMBER_INDEX = BLOCK_HASH_START + DIGEST_FELTS"

definition HEADER_LEN :: nat where
  "HEADER_LEN = BLOCK_NUMBER_INDEX + 1"

definition SLOT_NULLIFIER_START :: nat where
  "SLOT_NULLIFIER_START = 0"

definition SLOT_COMMITMENT_START :: nat where
  "SLOT_COMMITMENT_START = SLOT_NULLIFIER_START + 2 * DIGEST_FELTS"

definition SLOT_FEE_INDEX :: nat where
  "SLOT_FEE_INDEX = SLOT_COMMITMENT_START + 2 * DIGEST_FELTS"

definition SLOT_CT_DIGEST_START :: nat where
  "SLOT_CT_DIGEST_START = SLOT_FEE_INDEX + 1"

definition SLOT_LEN :: nat where
  "SLOT_LEN = SLOT_CT_DIGEST_START + DIGEST_FELTS"

definition slot_start :: "nat \<Rightarrow> nat" where
  "slot_start slot = HEADER_LEN + slot * SLOT_LEN"

definition slot_nullifier_index :: "nat \<Rightarrow> nat \<Rightarrow> nat" where
  "slot_nullifier_index slot i = slot_start slot + SLOT_NULLIFIER_START + i * DIGEST_FELTS"

definition slot_commitment_index :: "nat \<Rightarrow> nat \<Rightarrow> nat" where
  "slot_commitment_index slot j = slot_start slot + SLOT_COMMITMENT_START + j * DIGEST_FELTS"

definition slot_fee_index :: "nat \<Rightarrow> nat" where
  "slot_fee_index slot = slot_start slot + SLOT_FEE_INDEX"

definition slot_ct_digest_index :: "nat \<Rightarrow> nat" where
  "slot_ct_digest_index slot = slot_start slot + SLOT_CT_DIGEST_START"

definition private_batch_pi_len :: "nat \<Rightarrow> nat" where
  "private_batch_pi_len num_leaves = HEADER_LEN + num_leaves * SLOT_LEN"

definition AGGREGATOR_ADDRESS_START :: nat where
  "AGGREGATOR_ADDRESS_START = 0"

definition PUBLIC_BATCH_HEADER_LEN :: nat where
  "PUBLIC_BATCH_HEADER_LEN = AGGREGATOR_ADDRESS_START + DIGEST_FELTS"

definition public_batch_inner_start :: "nat \<Rightarrow> nat \<Rightarrow> nat" where
  "public_batch_inner_start inner num_leaves = PUBLIC_BATCH_HEADER_LEN + inner * private_batch_pi_len num_leaves"

definition public_batch_pi_len :: "nat \<Rightarrow> nat \<Rightarrow> nat" where
  "public_batch_pi_len n_inner num_leaves = PUBLIC_BATCH_HEADER_LEN + n_inner * private_batch_pi_len num_leaves"

definition validate_proof_count :: "nat \<Rightarrow> bool" where
  "validate_proof_count n \<longleftrightarrow> 0 < n \<and> n \<le> MAX_PROOF_COUNT"

named_theorems layout_defs \<open>offsets of the public-input layouts\<close>

declare DIGEST_FELTS_def [layout_defs] NUM_INPUTS_def [layout_defs] NUM_OUTPUTS_def [layout_defs]
  BLOCK_HASH_START_def [layout_defs] BLOCK_NUMBER_INDEX_def [layout_defs] HEADER_LEN_def [layout_defs]
  SLOT_NULLIFIER_START_def [layout_defs] SLOT_COMMITMENT_START_def [layout_defs]
  SLOT_FEE_INDEX_def [layout_defs] SLOT_CT_DIGEST_START_def [layout_defs] SLOT_LEN_def [layout_defs]
  slot_start_def [layout_defs] slot_nullifier_index_def [layout_defs]
  slot_commitment_index_def [layout_defs] slot_fee_index_def [layout_defs]
  slot_ct_digest_index_def [layout_defs] private_batch_pi_len_def [layout_defs]
  AGGREGATOR_ADDRESS_START_def [layout_defs] PUBLIC_BATCH_HEADER_LEN_def [layout_defs]
  public_batch_inner_start_def [layout_defs] public_batch_pi_len_def [layout_defs]

section \<open>Lemmas\<close>

lemma MAX_VALUE_lt: "MAX_VALUE < 2 ^ 62" "MAX_VALUE < GOLDILOCKS_P"
  by (simp_all add: MAX_VALUE_def VALUE_BITS_def GOLDILOCKS_P_def)

lemma length_CT_DIGEST_PREFIX: "length CT_DIGEST_PREFIX = 8"
  by (simp add: CT_DIGEST_PREFIX_def)

lemma framed_inject:
  assumes "length as = length bs"
    and "\<forall>a\<in>set as. length a < 2 ^ 32" "\<forall>b\<in>set bs. length b < 2 ^ 32"
    and "concat (map (\<lambda>ct. le_bytes 4 (length ct) @ ct) as) = concat (map (\<lambda>ct. le_bytes 4 (length ct) @ ct) bs)"
  shows "as = bs"
  using assms
proof (induction as bs rule: list_induct2)
  case Nil
  then show ?case by simp
next
  case (Cons a as b bs)
  have "le_bytes 4 (length a) = le_bytes 4 (length b)"
    and rest: "a @ concat (map (\<lambda>ct. le_bytes 4 (length ct) @ ct) as)
      = b @ concat (map (\<lambda>ct. le_bytes 4 (length ct) @ ct) bs)"
    using Cons.prems(3) by (simp_all add: append_eq_append_conv)
  then have "length a = length b"
    using Cons.prems(1,2) le_bytes_inject [of "length a" 4 "length b"] by simp
  with rest have "a = b" "concat (map (\<lambda>ct. le_bytes 4 (length ct) @ ct) as)
      = concat (map (\<lambda>ct. le_bytes 4 (length ct) @ ct) bs)"
    by (simp_all add: append_eq_append_conv)
  with Cons show ?case by simp
qed

lemma ct_digest_preimage_inject:
  assumes "length as < 2 ^ 32" "length bs < 2 ^ 32"
    and "\<forall>a\<in>set as. length a < 2 ^ 32" "\<forall>b\<in>set bs. length b < 2 ^ 32"
    and "ct_digest_preimage as = ct_digest_preimage bs"
  shows "as = bs"
proof -
  have "le_bytes 4 (length as) = le_bytes 4 (length bs)"
    and "concat (map (\<lambda>ct. le_bytes 4 (length ct) @ ct) as) = concat (map (\<lambda>ct. le_bytes 4 (length ct) @ ct) bs)"
    using assms(5) by (simp_all add: ct_digest_preimage_def append_eq_append_conv)
  moreover have "length as = length bs"
    using calculation(1) assms(1,2) le_bytes_inject [of "length as" 4 "length bs"] by simp
  ultimately show ?thesis using assms(3,4) by (intro framed_inject)
qed

lemma commitment_Some_iff:
  "poseidon_ok pc \<Longrightarrow> commitment pc inner value = Some c \<longleftrightarrow>
     length inner = 32 \<and> canonical_limbs inner
     \<and> c = hash_to_bytes pc (commitment_felts (map felt_from_u64 (limbs inner)) value)"
  by (auto simp: commitment_def poseidon_okD split: option.splits if_splits)

lemma commitment_canonical:
  "poseidon_ok pc \<Longrightarrow> commitment pc inner value = Some c \<Longrightarrow> length c = 32 \<and> canonical_limbs c"
  by (simp add: commitment_Some_iff poseidon_okD)

lemma commitment_is_Some: "poseidon_ok pc \<Longrightarrow> commitment pc inner v = None \<longleftrightarrow> commitment pc inner w = None"
  by (auto simp: commitment_def split: option.splits)

lemma commitment_felts_inject:
  assumes "length a = length b" and "v < GOLDILOCKS_P" "w < GOLDILOCKS_P"
    and "commitment_felts a v = commitment_felts b w"
  shows "a = b \<and> v = w"
  using assms by (auto simp: commitment_felts_def felt_eq_iff)

lemma private_batch_pi_len_alt: "private_batch_pi_len n = 5 + 21 * n"
  by (simp add: layout_defs)

lemma public_batch_pi_len_alt: "public_batch_pi_len n_inner n = 4 + n_inner * (5 + 21 * n)"
  by (simp add: layout_defs algebra_simps)

section \<open>Properties\<close>

text \<open>
  The bytes \<open>ct_digest\<close> hashes determine the ciphertexts: with counts and lengths that fit
  their 32-bit prefixes, two lists of ciphertexts have the same preimage exactly when they are the
  same list, in the same order and with the same boundaries.
\<close>

theorem ct_digest_preimage_injective:
  assumes "length as < 2 ^ 32" "length bs < 2 ^ 32"
    and "\<forall>a\<in>set as. length a < 2 ^ 32" "\<forall>b\<in>set bs. length b < 2 ^ 32"
  shows "ct_digest_preimage as = ct_digest_preimage bs \<longleftrightarrow> as = bs"
  using ct_digest_preimage_inject [OF assms] by blast

theorem ct_digest_preimage_injective_witness:
  "ct_digest_preimage [[1, 2], [3]] \<noteq> ct_digest_preimage [[1], [2, 3]]"
  using ct_digest_preimage_injective [of "[[1, 2], [3]]" "[[1], [2, 3]]"] by simp

text \<open>
  \<open>commitment\<close> is defined exactly for a canonical 32-byte \<open>inner\<close>, its result is a
  canonical digest, and for values in range two commitments are computed from the same six field
  elements only if both the \<open>inner\<close> and the value agree.
\<close>

theorem commitment_spec:
  assumes "poseidon_ok pc"
  shows "(commitment pc inner v = None \<longleftrightarrow> \<not> (length inner = 32 \<and> canonical_limbs inner))
     \<and> (\<forall>c. commitment pc inner v = Some c \<longrightarrow>
          length c = 32 \<and> canonical_limbs c
          \<and> c = hash_to_bytes pc (commitment_felts (map felt_from_u64 (limbs inner)) v))
     \<and> (\<forall>inner' v'. commitment pc inner v \<noteq> None \<and> commitment pc inner' v' \<noteq> None
          \<and> v \<le> MAX_VALUE \<and> v' \<le> MAX_VALUE
          \<and> commitment_felts (map felt_from_u64 (limbs inner)) v
            = commitment_felts (map felt_from_u64 (limbs inner')) v'
          \<longrightarrow> inner = inner' \<and> v = v')"
proof (intro conjI allI impI)
  show "commitment pc inner v = None \<longleftrightarrow> \<not> (length inner = 32 \<and> canonical_limbs inner)"
    using assms by (auto simp: commitment_def poseidon_okD)
next
  fix c assume "commitment pc inner v = Some c"
  then show "length c = 32" "canonical_limbs c"
    "c = hash_to_bytes pc (commitment_felts (map felt_from_u64 (limbs inner)) v)"
    using assms by (simp_all add: commitment_Some_iff poseidon_okD)
next
  fix inner' v'
  assume a: "commitment pc inner v \<noteq> None \<and> commitment pc inner' v' \<noteq> None
    \<and> v \<le> MAX_VALUE \<and> v' \<le> MAX_VALUE
    \<and> commitment_felts (map felt_from_u64 (limbs inner)) v = commitment_felts (map felt_from_u64 (limbs inner')) v'"
  then have i: "length inner = 32" "canonical_limbs inner" "length inner' = 32" "canonical_limbs inner'"
    using assms by (auto simp: commitment_Some_iff)
  have "v < GOLDILOCKS_P" "v' < GOLDILOCKS_P" using a MAX_VALUE_lt by auto
  then have "map felt_from_u64 (limbs inner) = map felt_from_u64 (limbs inner') \<and> v = v'"
    using a i by (intro commitment_felts_inject) (simp_all add: length_limbs)
  then show "inner = inner'" "v = v'" using i canonical_digest_inject by blast+
qed

theorem commitment_spec_witness: "commitment sample_poseidon zero_hash 5 \<noteq> None"
proof -
  have "length zero_hash = 32 \<and> canonical_limbs zero_hash"
    unfolding zero_hash_limbs by (intro conjI canonical_digest_of_limbs) (simp_all add: GOLDILOCKS_P_bounds)
  then show ?thesis using commitment_spec [OF sample_poseidon_ok, of zero_hash 5] by blast
qed

text \<open>
  The length of a private batch's public inputs determines its slot count. The length of a public
  batch's does not determine its dimensions: 34 inner batches of one leaf and 13 of three leaves,
  both supported, have the same length.
\<close>

theorem batch_lengths:
  "(private_batch_pi_len m = private_batch_pi_len n \<longleftrightarrow> m = n)
   \<and> validate_proof_count 34 \<and> validate_proof_count 1 \<and> validate_proof_count 13 \<and> validate_proof_count 3
   \<and> public_batch_pi_len 34 1 = public_batch_pi_len 13 3"
  by (simp add: private_batch_pi_len_alt public_batch_pi_len_alt validate_proof_count_def
      MAX_PROOF_COUNT_def)

end
