(* ===== verification/BatchVerifier.thy ===== *)
theory BatchVerifier
  imports ChainRules
begin

text \<open>
  The verifier crate, \<open>crates/qnero-verifier/src\<close>: reading the public inputs of private and
  public batch proofs (\<open>batch.rs\<close>), the artifact profile, the dimension header of a
  public-batch artifact, and the decoding of proof bytes.

  The proof system is the third-party crate \<open>qp_plonky2_verifier\<close>. \<open>plonky2\<close> collects
  the functions of it that are called, and every definition that needs them takes it as an argument.
  Its \<open>CommonCircuitData\<close> is a record with the fields the sources read; what else it carries is
  the opaque component of \<open>common_rest\<close>.
\<close>

section \<open>Public inputs\<close>

type_synonym felt_digest = "goldilocks list"

record BatchLeafSlot =
  nullifiers :: "felt_digest list"
  commitments :: "felt_digest list"
  slot_fee :: goldilocks
  slot_ct_digest :: felt_digest

record PrivateBatchPublicInputs =
  pi_block_hash :: felt_digest
  pi_block_number :: goldilocks
  pi_slots :: "BatchLeafSlot list"

record PublicBatchPublicInputs =
  aggregator_address :: felt_digest
  batches :: "PrivateBatchPublicInputs list"

datatype layout_error = UnsupportedProofCount | WrongPublicInputCount

definition digest_at :: "goldilocks list \<Rightarrow> nat \<Rightarrow> felt_digest" where
  "digest_at public_inputs start = map (\<lambda>i. public_inputs ! (start + i)) [0..<DIGEST_FELTS]"

definition slot_is_padding :: "BatchLeafSlot \<Rightarrow> bool" where
  "slot_is_padding slot \<longleftrightarrow>
     list_all (\<lambda>c. list_all (\<lambda>limb. to_canonical_u64 limb = 0) c) (commitments slot)"

definition block_hash_is_the_padding_sentinel :: "felt_digest \<Rightarrow> bool" where
  "block_hash_is_the_padding_sentinel block_hash \<longleftrightarrow>
     list_all (\<lambda>(limb, expected). to_canonical_u64 limb = expected) (zip block_hash PADDING_BLOCK_HASH)"

definition batch_is_padding :: "PrivateBatchPublicInputs \<Rightarrow> bool" where
  "batch_is_padding batch = block_hash_is_the_padding_sentinel (pi_block_hash batch)"

definition settleable_batches :: "PublicBatchPublicInputs \<Rightarrow> PrivateBatchPublicInputs list" where
  "settleable_batches public = filter (\<lambda>batch. \<not> batch_is_padding batch) (batches public)"

definition parse_slot :: "goldilocks list \<Rightarrow> nat \<Rightarrow> BatchLeafSlot" where
  "parse_slot public_inputs slot =
     \<lparr>nullifiers = map (\<lambda>i. digest_at public_inputs (slot_nullifier_index slot i)) [0..<NUM_INPUTS],
      commitments = map (\<lambda>j. digest_at public_inputs (slot_commitment_index slot j)) [0..<NUM_OUTPUTS],
      slot_fee = public_inputs ! slot_fee_index slot,
      slot_ct_digest = digest_at public_inputs (slot_ct_digest_index slot)\<rparr>"

definition parse_private_batch_public_input_felts ::
  "goldilocks list \<Rightarrow> nat \<Rightarrow> (layout_error, PrivateBatchPublicInputs) result" where
  "parse_private_batch_public_input_felts public_inputs num_leaves =
     ensure (validate_proof_count num_leaves) UnsupportedProofCount
       (ensure (length public_inputs = private_batch_pi_len num_leaves) WrongPublicInputCount
         (Inr \<lparr>pi_block_hash = digest_at public_inputs BLOCK_HASH_START,
               pi_block_number = public_inputs ! BLOCK_NUMBER_INDEX,
               pi_slots = map (parse_slot public_inputs) [0..<num_leaves]\<rparr>))"

fun collect_results :: "('e, 'a) result list \<Rightarrow> ('e, 'a list) result" where
  "collect_results [] = Inr []"
| "collect_results (r # rs) = rbind r (\<lambda>x. rbind (collect_results rs) (\<lambda>xs. Inr (x # xs)))"

definition inner_segment :: "goldilocks list \<Rightarrow> nat \<Rightarrow> nat \<Rightarrow> goldilocks list" where
  "inner_segment public_inputs num_leaves inner =
     take (private_batch_pi_len num_leaves) (drop (public_batch_inner_start inner num_leaves) public_inputs)"

definition parse_public_batch_public_input_felts ::
  "goldilocks list \<Rightarrow> nat \<Rightarrow> nat \<Rightarrow> (layout_error, PublicBatchPublicInputs) result" where
  "parse_public_batch_public_input_felts public_inputs num_inner num_leaves =
     ensure (validate_proof_count num_inner \<and> validate_proof_count num_leaves) UnsupportedProofCount
       (ensure (length public_inputs = public_batch_pi_len num_inner num_leaves) WrongPublicInputCount
         (rbind
           (collect_results
             (map (\<lambda>inner. parse_private_batch_public_input_felts
                              (inner_segment public_inputs num_leaves inner) num_leaves) [0..<num_inner]))
           (\<lambda>bs. Inr \<lparr>aggregator_address = digest_at public_inputs AGGREGATOR_ADDRESS_START, batches = bs\<rparr>)))"

section \<open>The proof system\<close>

record 'fc circuit_config =
  num_wires :: nat
  num_routed_wires :: nat
  zero_knowledge :: bool
  fri_config :: 'fc

record 'fp fri_params =
  degree_bits :: nat
  fri_rest :: 'fp

record ('fc, 'fp, 'cr) common_data =
  gates_len :: nat
  selector_indices :: "nat list"
  groups :: "(nat \<times> nat) list"
  k_is_len :: nat
  config :: "'fc circuit_config"
  fri_params_of_data :: "'fp fri_params"
  num_public_inputs :: nat
  common_rest :: 'cr

record ('fc, 'fp, 'cr, 'pf) plonky2 =
  standard_recursion_config :: "'fc circuit_config"
  standard_recursion_zk_config :: "'fc circuit_config"
  fri_params_for :: "'fc \<Rightarrow> nat \<Rightarrow> bool \<Rightarrow> 'fp fri_params"
  verifier_data_from_bytes :: "byte list \<Rightarrow> ('fc, 'fp, 'cr) common_data option"
  proof_from_bytes :: "byte list \<Rightarrow> ('fc, 'fp, 'cr) common_data \<Rightarrow> 'pf option"
  proof_to_bytes :: "'pf \<Rightarrow> byte list"
  proof_public_inputs :: "'pf \<Rightarrow> goldilocks list"
  verify_with :: "('fc, 'fp, 'cr) common_data \<Rightarrow> 'pf \<Rightarrow> bool"

definition PRIVATE_BATCH_NUM_WIRES :: nat where
  "PRIVATE_BATCH_NUM_WIRES = 135"

definition PRIVATE_BATCH_NUM_ROUTED_WIRES :: nat where
  "PRIVATE_BATCH_NUM_ROUTED_WIRES = 60"

definition MAX_BATCH_DEGREE_BITS :: nat where
  "MAX_BATCH_DEGREE_BITS = 20"

definition MAX_VERIFIER_ARTIFACT_BYTES :: nat where
  "MAX_VERIFIER_ARTIFACT_BYTES = 1024 * 1024"

definition VERIFIER_MAX_PROOF_BYTES :: nat where
  "VERIFIER_MAX_PROOF_BYTES = 1024 * 1024"

datatype artifact_error =
    ArtifactProofCount
  | ArtifactPublicInputs
  | ArtifactConfig
  | ArtifactSelectorIndices
  | ArtifactSelectorGroup
  | ArtifactSelectorIndex
  | ArtifactCosetShifts
  | ArtifactDegree
  | ArtifactFriParams
  | ArtifactTooLarge
  | ArtifactDeserialization
  | ArtifactTooShort
  | ArtifactMagic
  | ArtifactDimensions

definition ensure_common_data_is_structurally_sound ::
  "('fc, 'fp, 'cr) common_data \<Rightarrow> (artifact_error, unit) result" where
  "ensure_common_data_is_structurally_sound common =
     ensure (length (selector_indices common) = gates_len common) ArtifactSelectorIndices
       (ensure (list_all (\<lambda>(start, end). start \<le> end \<and> end \<le> gates_len common) (groups common))
          ArtifactSelectorGroup
         (ensure (list_all (\<lambda>index. index < length (groups common)) (selector_indices common))
            ArtifactSelectorIndex
           (ensure (k_is_len common = num_routed_wires (config common)) ArtifactCosetShifts (Inr ()))))"

definition expected_private_batch_config :: "('fc, 'fp, 'cr, 'pf) plonky2 \<Rightarrow> 'fc circuit_config" where
  "expected_private_batch_config px =
     (standard_recursion_zk_config px)
       \<lparr>num_wires := PRIVATE_BATCH_NUM_WIRES, num_routed_wires := PRIVATE_BATCH_NUM_ROUTED_WIRES\<rparr>"

definition expected_public_batch_config :: "('fc, 'fp, 'cr, 'pf) plonky2 \<Rightarrow> 'fc circuit_config" where
  "expected_public_batch_config px = standard_recursion_config px"

definition ensure_batch_profile ::
  "('fc, 'fp, 'cr, 'pf) plonky2 \<Rightarrow> ('fc, 'fp, 'cr) common_data \<Rightarrow> 'fc circuit_config \<Rightarrow> nat
    \<Rightarrow> (artifact_error, unit) result" where
  "ensure_batch_profile px common expected_config expected_public_inputs =
     ensure (num_public_inputs common = expected_public_inputs) ArtifactPublicInputs
       (ensure (config common = expected_config) ArtifactConfig
         (rbind (ensure_common_data_is_structurally_sound common) (\<lambda>_.
           ensure (degree_bits (fri_params_of_data common) \<le> MAX_BATCH_DEGREE_BITS) ArtifactDegree
             (ensure (fri_params_of_data common =
                        fri_params_for px (fri_config expected_config)
                          (degree_bits (fri_params_of_data common)) (zero_knowledge expected_config))
                ArtifactFriParams (Inr ())))))"

text \<open>The ASCII bytes of \<open>QNROPBV1\<close>.\<close>

definition PUBLIC_BATCH_ARTIFACT_MAGIC :: "byte list" where
  "PUBLIC_BATCH_ARTIFACT_MAGIC = [81, 78, 82, 79, 80, 66, 86, 49]"

definition PUBLIC_BATCH_ARTIFACT_HEADER_LEN :: nat where
  "PUBLIC_BATCH_ARTIFACT_HEADER_LEN = 16"

definition public_batch_artifact_header :: "nat \<Rightarrow> nat \<Rightarrow> (artifact_error, byte list) result" where
  "public_batch_artifact_header num_inner num_leaves =
     ensure (validate_proof_count num_inner \<and> validate_proof_count num_leaves) ArtifactProofCount
       (Inr (PUBLIC_BATCH_ARTIFACT_MAGIC @ le_bytes 4 num_inner @ le_bytes 4 num_leaves))"

definition split_public_batch_artifact ::
  "byte list \<Rightarrow> nat \<Rightarrow> nat \<Rightarrow> (artifact_error, byte list) result" where
  "split_public_batch_artifact bytes num_inner num_leaves =
     rbind (public_batch_artifact_header num_inner num_leaves) (\<lambda>expected.
       ensure (PUBLIC_BATCH_ARTIFACT_HEADER_LEN < length bytes) ArtifactTooShort
         (let header = take PUBLIC_BATCH_ARTIFACT_HEADER_LEN bytes;
              body = drop PUBLIC_BATCH_ARTIFACT_HEADER_LEN bytes
          in ensure (take 8 header = PUBLIC_BATCH_ARTIFACT_MAGIC) ArtifactMagic
               (ensure (header = expected) ArtifactDimensions (Inr body))))"

definition deserialize_verifier_data ::
  "('fc, 'fp, 'cr, 'pf) plonky2 \<Rightarrow> byte list \<Rightarrow> (artifact_error, ('fc, 'fp, 'cr) common_data) result" where
  "deserialize_verifier_data px bytes =
     ensure (length bytes \<le> MAX_VERIFIER_ARTIFACT_BYTES) ArtifactTooLarge
       (ok_or (verifier_data_from_bytes px bytes) ArtifactDeserialization)"

section \<open>Proof bytes\<close>

datatype ProofRejection =
    TooLarge
  | Deserialization
  | NonCanonicalEncoding
  | PublicInputLayout
  | Verification

definition decode_canonical_proof ::
  "('fc, 'fp, 'cr, 'pf) plonky2 \<Rightarrow> byte list \<Rightarrow> ('fc, 'fp, 'cr) common_data \<Rightarrow> (ProofRejection, 'pf) result"
where
  "decode_canonical_proof px proof_bytes common =
     ensure (length proof_bytes \<le> VERIFIER_MAX_PROOF_BYTES) TooLarge
       (rbind (ok_or (proof_from_bytes px proof_bytes common) Deserialization) (\<lambda>prf.
         ensure (proof_to_bytes px prf = proof_bytes) NonCanonicalEncoding (Inr prf)))"

record ('fc, 'fp, 'cr) QneroPrivateBatchVerifier =
  private_circuit_data :: "('fc, 'fp, 'cr) common_data"
  private_num_leaves :: nat

record ('fc, 'fp, 'cr) QneroPublicBatchVerifier =
  public_circuit_data :: "('fc, 'fp, 'cr) common_data"
  public_num_inner :: nat
  public_num_leaves :: nat

definition private_verifier_new ::
  "('fc, 'fp, 'cr, 'pf) plonky2 \<Rightarrow> ('fc, 'fp, 'cr) common_data \<Rightarrow> nat
    \<Rightarrow> (artifact_error, ('fc, 'fp, 'cr) QneroPrivateBatchVerifier) result" where
  "private_verifier_new px circuit_data num_leaves =
     ensure (validate_proof_count num_leaves) ArtifactProofCount
       (rbind (ensure_batch_profile px circuit_data (expected_private_batch_config px)
                 (private_batch_pi_len num_leaves)) (\<lambda>_.
         Inr \<lparr>private_circuit_data = circuit_data, private_num_leaves = num_leaves\<rparr>))"

definition private_verifier_from_artifact_bytes ::
  "('fc, 'fp, 'cr, 'pf) plonky2 \<Rightarrow> byte list \<Rightarrow> nat
    \<Rightarrow> (artifact_error, ('fc, 'fp, 'cr) QneroPrivateBatchVerifier) result" where
  "private_verifier_from_artifact_bytes px bytes num_leaves =
     rbind (deserialize_verifier_data px bytes) (\<lambda>circuit_data. private_verifier_new px circuit_data num_leaves)"

definition private_parse_proof_bytes ::
  "('fc, 'fp, 'cr, 'pf) plonky2 \<Rightarrow> ('fc, 'fp, 'cr) QneroPrivateBatchVerifier \<Rightarrow> byte list
    \<Rightarrow> (ProofRejection, PrivateBatchPublicInputs) result" where
  "private_parse_proof_bytes px v proof_bytes =
     rbind (decode_canonical_proof px proof_bytes (private_circuit_data v)) (\<lambda>prf.
       map_err (\<lambda>_. PublicInputLayout)
         (parse_private_batch_public_input_felts (proof_public_inputs px prf) (private_num_leaves v)))"

definition private_verify_proof_bytes ::
  "('fc, 'fp, 'cr, 'pf) plonky2 \<Rightarrow> ('fc, 'fp, 'cr) QneroPrivateBatchVerifier \<Rightarrow> byte list
    \<Rightarrow> (ProofRejection, PrivateBatchPublicInputs) result" where
  "private_verify_proof_bytes px v proof_bytes =
     rbind (decode_canonical_proof px proof_bytes (private_circuit_data v)) (\<lambda>prf.
       rbind (map_err (\<lambda>_. PublicInputLayout)
                (parse_private_batch_public_input_felts (proof_public_inputs px prf) (private_num_leaves v)))
         (\<lambda>public. ensure (verify_with px (private_circuit_data v) prf) Verification (Inr public)))"

definition public_verifier_new ::
  "('fc, 'fp, 'cr, 'pf) plonky2 \<Rightarrow> ('fc, 'fp, 'cr) common_data \<Rightarrow> nat \<Rightarrow> nat
    \<Rightarrow> (artifact_error, ('fc, 'fp, 'cr) QneroPublicBatchVerifier) result" where
  "public_verifier_new px circuit_data num_inner num_leaves =
     ensure (validate_proof_count num_inner \<and> validate_proof_count num_leaves) ArtifactProofCount
       (rbind (ensure_batch_profile px circuit_data (expected_public_batch_config px)
                 (public_batch_pi_len num_inner num_leaves)) (\<lambda>_.
         Inr \<lparr>public_circuit_data = circuit_data, public_num_inner = num_inner, public_num_leaves = num_leaves\<rparr>))"

definition public_verifier_from_artifact_bytes ::
  "('fc, 'fp, 'cr, 'pf) plonky2 \<Rightarrow> byte list \<Rightarrow> nat \<Rightarrow> nat
    \<Rightarrow> (artifact_error, ('fc, 'fp, 'cr) QneroPublicBatchVerifier) result" where
  "public_verifier_from_artifact_bytes px bytes num_inner num_leaves =
     ensure (length bytes \<le> MAX_VERIFIER_ARTIFACT_BYTES) ArtifactTooLarge
       (rbind (split_public_batch_artifact bytes num_inner num_leaves) (\<lambda>body.
         rbind (deserialize_verifier_data px body) (\<lambda>circuit_data.
           public_verifier_new px circuit_data num_inner num_leaves)))"

definition public_parse_proof_bytes ::
  "('fc, 'fp, 'cr, 'pf) plonky2 \<Rightarrow> ('fc, 'fp, 'cr) QneroPublicBatchVerifier \<Rightarrow> byte list
    \<Rightarrow> (ProofRejection, PublicBatchPublicInputs) result" where
  "public_parse_proof_bytes px v proof_bytes =
     rbind (decode_canonical_proof px proof_bytes (public_circuit_data v)) (\<lambda>prf.
       map_err (\<lambda>_. PublicInputLayout)
         (parse_public_batch_public_input_felts (proof_public_inputs px prf)
            (public_num_inner v) (public_num_leaves v)))"

definition public_verify_proof_bytes ::
  "('fc, 'fp, 'cr, 'pf) plonky2 \<Rightarrow> ('fc, 'fp, 'cr) QneroPublicBatchVerifier \<Rightarrow> byte list
    \<Rightarrow> (ProofRejection, PublicBatchPublicInputs) result" where
  "public_verify_proof_bytes px v proof_bytes =
     rbind (decode_canonical_proof px proof_bytes (public_circuit_data v)) (\<lambda>prf.
       rbind (map_err (\<lambda>_. PublicInputLayout)
                (parse_public_batch_public_input_felts (proof_public_inputs px prf)
                   (public_num_inner v) (public_num_leaves v)))
         (\<lambda>public. ensure (verify_with px (public_circuit_data v) prf) Verification (Inr public)))"

section \<open>The layout as an encoder\<close>

text \<open>The vector a prover publishes for given public inputs, as \<open>batch_layout.rs\<close> lays it out.\<close>

definition slot_felts :: "BatchLeafSlot \<Rightarrow> goldilocks list" where
  "slot_felts s = concat (nullifiers s) @ concat (commitments s) @ [slot_fee s] @ slot_ct_digest s"

definition private_batch_felts :: "PrivateBatchPublicInputs \<Rightarrow> goldilocks list" where
  "private_batch_felts p = pi_block_hash p @ [pi_block_number p] @ concat (map slot_felts (pi_slots p))"

definition public_batch_felts :: "PublicBatchPublicInputs \<Rightarrow> goldilocks list" where
  "public_batch_felts p = aggregator_address p @ concat (map private_batch_felts (batches p))"

definition wf_slot :: "BatchLeafSlot \<Rightarrow> bool" where
  "wf_slot s \<longleftrightarrow> length (nullifiers s) = 2 \<and> (\<forall>d\<in>set (nullifiers s). length d = 4)
     \<and> length (commitments s) = 2 \<and> (\<forall>d\<in>set (commitments s). length d = 4)
     \<and> length (slot_ct_digest s) = 4"

definition wf_private_batch :: "nat \<Rightarrow> PrivateBatchPublicInputs \<Rightarrow> bool" where
  "wf_private_batch n p \<longleftrightarrow> length (pi_block_hash p) = 4 \<and> length (pi_slots p) = n \<and> (\<forall>s\<in>set (pi_slots p). wf_slot s)"

definition wf_public_batch :: "nat \<Rightarrow> nat \<Rightarrow> PublicBatchPublicInputs \<Rightarrow> bool" where
  "wf_public_batch m n p \<longleftrightarrow> length (aggregator_address p) = 4 \<and> length (batches p) = m
     \<and> (\<forall>b\<in>set (batches p). wf_private_batch n b)"

lemma concat_inject:
  "0 < k \<Longrightarrow> \<forall>x\<in>set xss. length x = k \<Longrightarrow> \<forall>y\<in>set yss. length y = k \<Longrightarrow> concat xss = concat yss \<Longrightarrow> xss = yss"
  by (metis chunks_exact_concat)

lemma length_concat_uniform: "\<forall>x\<in>set xss. length x = k \<Longrightarrow> length (concat xss) = length xss * k"
  by (induction xss) simp_all

lemma length_wf_slot:
  assumes "wf_slot s"
  shows "length (concat (nullifiers s)) = 8" "length (concat (commitments s)) = 8"
  using assms length_concat_uniform [of "nullifiers s" 4] length_concat_uniform [of "commitments s" 4]
  by (simp_all add: wf_slot_def)

lemma length_slot_felts: "wf_slot s \<Longrightarrow> length (slot_felts s) = 21"
  using length_wf_slot [of s] by (simp add: wf_slot_def slot_felts_def)

lemma slot_felts_inject:
  assumes "wf_slot a" "wf_slot b" "slot_felts a = slot_felts b"
  shows "a = b"
proof -
  have "length (concat (nullifiers a)) = length (concat (nullifiers b))"
    "length (concat (commitments a)) = length (concat (commitments b))"
    using assms(1,2) by (simp_all add: length_wf_slot)
  then have "concat (nullifiers a) = concat (nullifiers b)" "concat (commitments a) = concat (commitments b)"
    "slot_fee a = slot_fee b" "slot_ct_digest a = slot_ct_digest b"
    using assms(3) by (simp_all add: slot_felts_def append_eq_append_conv)
  then show ?thesis
    using assms(1,2) concat_inject [of 4 "nullifiers a" "nullifiers b"]
      concat_inject [of 4 "commitments a" "commitments b"]
    by (intro BatchLeafSlot.equality) (simp_all add: wf_slot_def)
qed

lemma length_private_batch_felts: "wf_private_batch n p \<Longrightarrow> length (private_batch_felts p) = private_batch_pi_len n"
  using length_concat_uniform [of "map slot_felts (pi_slots p)" 21]
  by (simp add: wf_private_batch_def private_batch_felts_def private_batch_pi_len_alt length_slot_felts)

lemma map_inject_on: "map f xs = map f ys \<Longrightarrow> (\<And>x y. x \<in> set xs \<Longrightarrow> y \<in> set ys \<Longrightarrow> f x = f y \<Longrightarrow> x = y) \<Longrightarrow> xs = ys"
proof (induction xs arbitrary: ys)
  case Nil
  then show ?case by simp
next
  case (Cons x xs)
  then obtain y ys' where "ys = y # ys'" by (cases ys) auto
  with Cons show ?case by auto
qed

lemma private_batch_felts_inject:
  assumes "wf_private_batch n p" "wf_private_batch n q" "private_batch_felts p = private_batch_felts q"
  shows "p = q"
proof -
  have "pi_block_hash p = pi_block_hash q" "pi_block_number p = pi_block_number q"
    and c: "concat (map slot_felts (pi_slots p)) = concat (map slot_felts (pi_slots q))"
    using assms by (simp_all add: wf_private_batch_def private_batch_felts_def append_eq_append_conv)
  moreover have "map slot_felts (pi_slots p) = map slot_felts (pi_slots q)"
    using assms(1,2) by (intro concat_inject [OF _ _ _ c, of 21]) (auto simp: wf_private_batch_def length_slot_felts)
  then have "pi_slots p = pi_slots q"
    by (rule map_inject_on) (use assms(1,2) in \<open>auto simp: wf_private_batch_def intro: slot_felts_inject\<close>)
  ultimately show ?thesis by (intro PrivateBatchPublicInputs.equality) simp_all
qed

lemma digest_at_take: "start + 4 \<le> length xs \<Longrightarrow> digest_at xs start = take 4 (drop start xs)"
  by (simp add: digest_at_def DIGEST_FELTS_def list_eq_iff_nth_eq)

lemma length_digest_at [simp]: "length (digest_at xs start) = 4"
  by (simp add: digest_at_def DIGEST_FELTS_def)

lemma wf_parse_slot: "wf_slot (parse_slot xs i)"
  by (simp add: wf_slot_def parse_slot_def NUM_INPUTS_def NUM_OUTPUTS_def)

lemma take_drop_append: "take a (drop s xs) @ take b (drop (s + a) xs) = take (a + b) (drop s xs)"
  by (simp add: take_add add.commute)

lemma slot_felts_parse_slot:
  assumes "5 + 21 * i + 21 \<le> length xs"
  shows "slot_felts (parse_slot xs i) = take 21 (drop (5 + 21 * i) xs)"
proof -
  let ?s = "5 + 21 * i"
  have two: "[0..<2] = [0, 1::nat]" by (simp add: upt_rec)
  have fee: "[xs ! (?s + 16)] = take 1 (drop (?s + 16) xs)"
    using assms by (simp add: take_Suc hd_drop_conv_nth)
  have "slot_felts (parse_slot xs i) =
      take 4 (drop ?s xs) @ take 4 (drop (?s + 4) xs) @ take 4 (drop (?s + 8) xs)
      @ take 4 (drop (?s + 12) xs) @ take 1 (drop (?s + 16) xs) @ take 4 (drop (?s + 17) xs)"
    using assms fee
    by (simp add: slot_felts_def parse_slot_def layout_defs two digest_at_take algebra_simps)
  also have "\<dots> = take 21 (drop ?s xs)"
  proof -
    have "take 8 (drop ?s xs) = take 4 (drop ?s xs) @ take 4 (drop (?s + 4) xs)"
      "take 12 (drop ?s xs) = take 8 (drop ?s xs) @ take 4 (drop (?s + 8) xs)"
      "take 16 (drop ?s xs) = take 12 (drop ?s xs) @ take 4 (drop (?s + 12) xs)"
      "take 17 (drop ?s xs) = take 16 (drop ?s xs) @ take 1 (drop (?s + 16) xs)"
      "take 21 (drop ?s xs) = take 17 (drop ?s xs) @ take 4 (drop (?s + 17) xs)"
      unfolding take_drop_append by simp_all
    then show ?thesis by (simp only: append_assoc)
  qed
  finally show ?thesis .
qed

lemma concat_segments:
  "concat (map (\<lambda>i. take k (drop (a + k * i) xs)) [0..<n]) = take (k * n) (drop a xs)"
proof (induction n)
  case 0
  then show ?case by simp
next
  case (Suc n)
  then show ?case using take_drop_append [of "k * n" a xs k] by (simp add: add.commute)
qed

lemma private_batch_felts_parse:
  assumes "parse_private_batch_public_input_felts xs n = Inr p"
  shows "private_batch_felts p = xs" "wf_private_batch n p" "length xs = private_batch_pi_len n" "validate_proof_count n"
proof -
  have len: "length xs = 5 + 21 * n" and cnt: "validate_proof_count n"
    and p: "p = \<lparr>pi_block_hash = digest_at xs BLOCK_HASH_START, pi_block_number = xs ! BLOCK_NUMBER_INDEX,
               pi_slots = map (parse_slot xs) [0..<n]\<rparr>"
    using assms by (simp_all add: parse_private_batch_public_input_felts_def private_batch_pi_len_alt)
  show "validate_proof_count n" "length xs = private_batch_pi_len n"
    using cnt len by (simp_all add: private_batch_pi_len_alt)
  show "wf_private_batch n p" by (simp add: wf_private_batch_def p wf_parse_slot)
  have "map (slot_felts \<circ> parse_slot xs) [0..<n] = map (\<lambda>i. take 21 (drop (5 + 21 * i) xs)) [0..<n]"
    using len by (intro map_cong) (simp_all add: slot_felts_parse_slot)
  then have slots: "concat (map slot_felts (pi_slots p)) = take (21 * n) (drop 5 xs)"
    using concat_segments [of 21 5 xs n] by (simp add: p del: map_eq_conv)
  have "private_batch_felts p = take 4 xs @ take 1 (drop 4 xs) @ drop 5 xs"
    unfolding private_batch_felts_def slots using len
    by (simp add: p layout_defs digest_at_take take_Suc hd_drop_conv_nth)
  also have "\<dots> = take 5 xs @ drop 5 xs"
  proof -
    have "take 4 xs @ take 1 (drop 4 xs) = take 5 xs" using take_drop_append [of 4 0 xs 1] by simp
    then show ?thesis by (metis append_assoc)
  qed
  also have "\<dots> = xs" by simp
  finally show "private_batch_felts p = xs" .
qed

lemma parse_private_total:
  assumes "validate_proof_count n" "length xs = private_batch_pi_len n"
  shows "\<exists>p. parse_private_batch_public_input_felts xs n = Inr p"
  using assms by (simp add: parse_private_batch_public_input_felts_def)

lemma parse_private_batch_felts:
  assumes "validate_proof_count n" "wf_private_batch n p"
  shows "parse_private_batch_public_input_felts (private_batch_felts p) n = Inr p"
proof -
  obtain q where q: "parse_private_batch_public_input_felts (private_batch_felts p) n = Inr q"
    using parse_private_total [OF assms(1) length_private_batch_felts [OF assms(2)]] by blast
  then have "q = p"
    using private_batch_felts_parse [OF q] assms(2) private_batch_felts_inject by blast
  then show ?thesis using q by simp
qed

lemma collect_results_Inr: "collect_results rs = Inr xs \<longleftrightarrow> rs = map Inr xs"
  by (induction rs arbitrary: xs) (auto simp: map_eq_Cons_conv Cons_eq_map_conv)

lemma collect_results_map: "(\<And>i. i \<in> set is \<Longrightarrow> f i = Inr (g i)) \<Longrightarrow> collect_results (map f is) = Inr (map g is)"
  by (simp add: collect_results_Inr comp_def)

lemma inner_segment_length:
  assumes "length xs = public_batch_pi_len m n" "i < m"
  shows "length (inner_segment xs n i) = private_batch_pi_len n"
proof -
  have "(i + 1) * private_batch_pi_len n \<le> m * private_batch_pi_len n"
    using assms(2) by (intro mult_le_mono1) simp
  then show ?thesis
    using assms(1) by (simp add: inner_segment_def public_batch_inner_start_def public_batch_pi_len_def)
qed

lemma public_batch_felts_parse:
  assumes "parse_public_batch_public_input_felts xs m n = Inr p"
  shows "public_batch_felts p = xs" "wf_public_batch m n p"
    "length xs = public_batch_pi_len m n" "validate_proof_count m" "validate_proof_count n"
proof -
  obtain bs where bs: "map (\<lambda>i. parse_private_batch_public_input_felts (inner_segment xs n i) n) [0..<m] = map Inr bs"
    and len: "length xs = public_batch_pi_len m n" and cnt: "validate_proof_count m" "validate_proof_count n"
    and p: "p = \<lparr>aggregator_address = digest_at xs AGGREGATOR_ADDRESS_START, batches = bs\<rparr>"
    using assms by (auto simp: parse_public_batch_public_input_felts_def collect_results_Inr)
  have lbs: "length bs = m" using arg_cong [OF bs, of length] by simp
  have each: "parse_private_batch_public_input_felts (inner_segment xs n i) n = Inr (bs ! i)" if "i < m" for i
    using arg_cong [OF bs, of "\<lambda>l. l ! i"] that lbs by simp
  then have wf: "\<forall>b\<in>set bs. wf_private_batch n b"
    using private_batch_felts_parse(2) lbs by (metis in_set_conv_nth)
  have "map private_batch_felts bs = map (inner_segment xs n) [0..<m]"
    using private_batch_felts_parse(1) [OF each] lbs by (intro nth_equalityI) simp_all
  moreover have "concat (map (inner_segment xs n) [0..<m]) = take (private_batch_pi_len n * m) (drop 4 xs)"
    using concat_segments [of "private_batch_pi_len n" 4 xs m]
    by (simp add: inner_segment_def [abs_def] public_batch_inner_start_def PUBLIC_BATCH_HEADER_LEN_def
        AGGREGATOR_ADDRESS_START_def DIGEST_FELTS_def mult.commute)
  moreover have "length xs = 4 + private_batch_pi_len n * m"
    using len by (simp add: public_batch_pi_len_def PUBLIC_BATCH_HEADER_LEN_def
        AGGREGATOR_ADDRESS_START_def DIGEST_FELTS_def)
  ultimately have "concat (map private_batch_felts bs) = drop 4 xs" "4 \<le> length xs" by simp_all
  then show "public_batch_felts p = xs"
    by (simp add: public_batch_felts_def p digest_at_take AGGREGATOR_ADDRESS_START_def)
  show "wf_public_batch m n p" by (simp add: wf_public_batch_def p lbs wf)
  show "length xs = public_batch_pi_len m n" "validate_proof_count m" "validate_proof_count n" by fact+
qed

lemma public_batch_felts_inject:
  assumes "wf_public_batch m n p" "wf_public_batch m n q" "public_batch_felts p = public_batch_felts q"
  shows "p = q"
proof -
  have "aggregator_address p = aggregator_address q"
    and c: "concat (map private_batch_felts (batches p)) = concat (map private_batch_felts (batches q))"
    using assms by (simp_all add: wf_public_batch_def public_batch_felts_def append_eq_append_conv)
  moreover have "map private_batch_felts (batches p) = map private_batch_felts (batches q)"
    using assms(1,2) by (intro concat_inject [OF _ _ _ c, of "private_batch_pi_len n"])
      (auto simp: wf_public_batch_def length_private_batch_felts private_batch_pi_len_alt)
  then have "batches p = batches q"
    by (rule map_inject_on) (use assms(1,2) in \<open>auto simp: wf_public_batch_def intro: private_batch_felts_inject\<close>)
  ultimately show ?thesis by (intro PublicBatchPublicInputs.equality) simp_all
qed

lemma length_public_batch_felts: "wf_public_batch m n p \<Longrightarrow> length (public_batch_felts p) = public_batch_pi_len m n"
  using length_concat_uniform [of "map private_batch_felts (batches p)" "private_batch_pi_len n"]
  by (simp add: wf_public_batch_def public_batch_felts_def public_batch_pi_len_def length_private_batch_felts
      PUBLIC_BATCH_HEADER_LEN_def AGGREGATOR_ADDRESS_START_def DIGEST_FELTS_def)

lemma parse_public_batch_felts:
  assumes cnt: "validate_proof_count m" "validate_proof_count n" and wf: "wf_public_batch m n p"
  shows "parse_public_batch_public_input_felts (public_batch_felts p) m n = Inr p"
proof -
  let ?xs = "public_batch_felts p"
  have len: "length ?xs = public_batch_pi_len m n" by (rule length_public_batch_felts [OF wf])
  have "\<forall>i\<in>set [0..<m]. \<exists>b. parse_private_batch_public_input_felts (inner_segment ?xs n i) n = Inr b"
    using parse_private_total [OF cnt(2)] inner_segment_length [OF len] by simp
  then obtain g where "\<And>i. i \<in> set [0..<m] \<Longrightarrow>
      parse_private_batch_public_input_felts (inner_segment ?xs n i) n = Inr (g i)" by metis
  then have "collect_results (map (\<lambda>i. parse_private_batch_public_input_felts (inner_segment ?xs n i) n) [0..<m])
      = Inr (map g [0..<m])" by (rule collect_results_map)
  then have "\<exists>q. parse_public_batch_public_input_felts ?xs m n = Inr q"
    using cnt len by (simp add: parse_public_batch_public_input_felts_def)
  then obtain q where q: "parse_public_batch_public_input_felts ?xs m n = Inr q" by blast
  then have "q = p" using public_batch_felts_parse [OF q] wf public_batch_felts_inject by blast
  then show ?thesis using q by simp
qed

section \<open>The artifact header\<close>

lemma length_PUBLIC_BATCH_ARTIFACT_MAGIC [simp]: "length PUBLIC_BATCH_ARTIFACT_MAGIC = 8"
  by (simp add: PUBLIC_BATCH_ARTIFACT_MAGIC_def)

lemma split_public_batch_artifact_Inr:
  "split_public_batch_artifact bytes m n = Inr body \<longleftrightarrow>
     validate_proof_count m \<and> validate_proof_count n \<and> body \<noteq> []
     \<and> bytes = PUBLIC_BATCH_ARTIFACT_MAGIC @ le_bytes 4 m @ le_bytes 4 n @ body"
proof
  assume "split_public_batch_artifact bytes m n = Inr body"
  then have "validate_proof_count m" "validate_proof_count n" "16 < length bytes" "body = drop 16 bytes"
    "take 16 bytes = PUBLIC_BATCH_ARTIFACT_MAGIC @ le_bytes 4 m @ le_bytes 4 n"
    by (simp_all add: split_public_batch_artifact_def public_batch_artifact_header_def Let_def
        PUBLIC_BATCH_ARTIFACT_HEADER_LEN_def)
  then show "validate_proof_count m \<and> validate_proof_count n \<and> body \<noteq> []
     \<and> bytes = PUBLIC_BATCH_ARTIFACT_MAGIC @ le_bytes 4 m @ le_bytes 4 n @ body"
    using append_take_drop_id [of 16 bytes] by auto
next
  assume "validate_proof_count m \<and> validate_proof_count n \<and> body \<noteq> []
     \<and> bytes = PUBLIC_BATCH_ARTIFACT_MAGIC @ le_bytes 4 m @ le_bytes 4 n @ body"
  then show "split_public_batch_artifact bytes m n = Inr body"
    by (simp add: split_public_batch_artifact_def public_batch_artifact_header_def Let_def
        PUBLIC_BATCH_ARTIFACT_HEADER_LEN_def)
qed

lemma artifact_header_dimensions:
  assumes "split_public_batch_artifact bytes m n = Inr body" "split_public_batch_artifact bytes m' n' = Inr body'"
  shows "m = m' \<and> n = n'"
proof -
  have small: "k < 256 ^ 4" if "validate_proof_count k" for k
    using that by (simp add: validate_proof_count_def MAX_PROOF_COUNT_def)
  have "le_bytes 4 m = le_bytes 4 m'" "le_bytes 4 n = le_bytes 4 n'"
    using assms by (simp_all add: split_public_batch_artifact_Inr append_eq_append_conv)
  moreover have "validate_proof_count m" "validate_proof_count n" "validate_proof_count m'" "validate_proof_count n'"
    using assms by (simp_all add: split_public_batch_artifact_Inr)
  ultimately show ?thesis using le_bytes_inject [of _ 4] small by blast
qed

section \<open>A sample proof system\<close>

text \<open>
  A proof is its own bytes; its public inputs are the 8-byte limbs of the bytes, and every proof
  verifies. Used where an example has to be evaluated.
\<close>

definition sample_config :: "unit circuit_config" where
  "sample_config = \<lparr>num_wires = 135, num_routed_wires = 60, zero_knowledge = True, fri_config = ()\<rparr>"

definition sample_common :: "nat \<Rightarrow> (unit, unit, unit) common_data" where
  "sample_common pis =
     \<lparr>gates_len = 1, selector_indices = [0], groups = [(0, 1)], k_is_len = 60, config = sample_config,
      fri_params_of_data = \<lparr>degree_bits = 0, fri_rest = ()\<rparr>, num_public_inputs = pis, common_rest = ()\<rparr>"

definition sample_plonky2 :: "(unit, unit, unit, byte list) plonky2" where
  "sample_plonky2 =
     \<lparr>standard_recursion_config = sample_config, standard_recursion_zk_config = sample_config,
      fri_params_for = (\<lambda>_ d _. \<lparr>degree_bits = d, fri_rest = ()\<rparr>),
      verifier_data_from_bytes = (\<lambda>bs. Some (sample_common (length bs))),
      proof_from_bytes = (\<lambda>bs _. Some bs), proof_to_bytes = (\<lambda>p. p),
      proof_public_inputs = (\<lambda>p. map felt_from_u64 (limbs p)), verify_with = (\<lambda>_ _. True)\<rparr>"

definition sample_slot :: BatchLeafSlot where
  "sample_slot =
     \<lparr>nullifiers = [map felt_from_u64 [1, 0, 0, 0], map felt_from_u64 [2, 0, 0, 0]],
      commitments = [map felt_from_u64 [3, 0, 0, 0], map felt_from_u64 [4, 0, 0, 0]],
      slot_fee = felt_from_u64 9, slot_ct_digest = map felt_from_u64 [5, 0, 0, 0]\<rparr>"

definition sample_batch :: PrivateBatchPublicInputs where
  "sample_batch =
     \<lparr>pi_block_hash = map felt_from_u64 [7, 7, 7, 7], pi_block_number = felt_from_u64 12, pi_slots = [sample_slot]\<rparr>"

definition sample_public_batch :: PublicBatchPublicInputs where
  "sample_public_batch = \<lparr>aggregator_address = map felt_from_u64 [8, 0, 0, 0], batches = [sample_batch]\<rparr>"

lemma wf_sample_batch: "wf_private_batch 1 sample_batch" "wf_public_batch 1 1 sample_public_batch"
  by (simp_all add: wf_private_batch_def wf_public_batch_def wf_slot_def sample_batch_def sample_slot_def
      sample_public_batch_def)

section \<open>Properties of the verifier crate\<close>

text \<open>
  Reading a private batch is the inverse of the documented layout. Parsing accepts exactly the
  vectors of the documented length at a supported count, every value read back is at its documented
  position (writing the result out again gives the vector), and every well-formed batch is read back
  unchanged.
\<close>

theorem private_batch_layout_roundtrip:
  "(\<forall>xs. is_ok (parse_private_batch_public_input_felts xs n) \<longleftrightarrow>
      validate_proof_count n \<and> length xs = private_batch_pi_len n)
   \<and> (\<forall>xs p. parse_private_batch_public_input_felts xs n = Inr p \<longrightarrow>
        wf_private_batch n p \<and> private_batch_felts p = xs)
   \<and> (\<forall>p. validate_proof_count n \<and> wf_private_batch n p \<longrightarrow>
        parse_private_batch_public_input_felts (private_batch_felts p) n = Inr p)"
proof (intro conjI allI impI)
  fix xs
  show "is_ok (parse_private_batch_public_input_felts xs n) \<longleftrightarrow>
      validate_proof_count n \<and> length xs = private_batch_pi_len n"
    by (auto simp: parse_private_batch_public_input_felts_def is_ok_iff)
qed (simp_all add: private_batch_felts_parse parse_private_batch_felts)

theorem private_batch_layout_roundtrip_witness:
  "parse_private_batch_public_input_felts (private_batch_felts sample_batch) 1 = Inr sample_batch"
  using private_batch_layout_roundtrip [of 1] wf_sample_batch(1)
  by (simp add: validate_proof_count_def MAX_PROOF_COUNT_def)

text \<open>
  C30: Reading a public batch is the inverse of the documented layout: each inner batch owns one
  contiguous segment in order, parsing accepts exactly the documented length at supported counts, and
  writing the result out again gives the vector.
\<close>

theorem public_batch_layout_roundtrip:
  "(\<forall>xs p. parse_public_batch_public_input_felts xs m n = Inr p \<longrightarrow>
      wf_public_batch m n p \<and> public_batch_felts p = xs \<and> length xs = public_batch_pi_len m n)
   \<and> (\<forall>p. validate_proof_count m \<and> validate_proof_count n \<and> wf_public_batch m n p \<longrightarrow>
        parse_public_batch_public_input_felts (public_batch_felts p) m n = Inr p)"
  by (simp add: public_batch_felts_parse parse_public_batch_felts)

theorem public_batch_layout_roundtrip_witness:
  "parse_public_batch_public_input_felts (public_batch_felts sample_public_batch) 1 1 = Inr sample_public_batch"
  using public_batch_layout_roundtrip [of 1 1] wf_sample_batch(2)
  by (simp add: validate_proof_count_def MAX_PROOF_COUNT_def)

text \<open>
  A public-batch artifact is bound to its dimensions. One byte string is accepted for at most one
  pair of dimensions, and what is deserialized is the artifact without its sixteen header bytes.
\<close>

theorem public_batch_artifact_dimensions:
  assumes "public_verifier_from_artifact_bytes px bytes m n = Inr v"
    and "public_verifier_from_artifact_bytes px' bytes m' n' = Inr v'"
  shows "m = m' \<and> n = n' \<and> public_num_inner v = m \<and> public_num_leaves v = n
     \<and> (\<exists>body. bytes = PUBLIC_BATCH_ARTIFACT_MAGIC @ le_bytes 4 m @ le_bytes 4 n @ body
          \<and> verifier_data_from_bytes px body = Some (public_circuit_data v))"
proof -
  obtain body where body: "split_public_batch_artifact bytes m n = Inr body"
    "verifier_data_from_bytes px body = Some (public_circuit_data v)"
    "public_num_inner v = m" "public_num_leaves v = n"
    using assms(1) by (auto simp: public_verifier_from_artifact_bytes_def public_verifier_new_def
        deserialize_verifier_data_def)
  obtain body' where "split_public_batch_artifact bytes m' n' = Inr body'"
    using assms(2) by (auto simp: public_verifier_from_artifact_bytes_def)
  then have "m = m' \<and> n = n'" using artifact_header_dimensions body(1) by blast
  then show ?thesis using body by (simp add: split_public_batch_artifact_Inr)
qed

definition sample_artifact :: "byte list" where
  "sample_artifact = PUBLIC_BATCH_ARTIFACT_MAGIC @ le_bytes 4 1 @ le_bytes 4 1 @ replicate 30 0"

lemma sample_artifact_loads:
  "public_verifier_from_artifact_bytes sample_plonky2 sample_artifact 1 1 =
     Inr \<lparr>public_circuit_data = sample_common 30, public_num_inner = 1, public_num_leaves = 1\<rparr>"
proof -
  have "split_public_batch_artifact sample_artifact 1 1 = Inr (replicate 30 0)"
    by (simp add: split_public_batch_artifact_Inr sample_artifact_def validate_proof_count_def MAX_PROOF_COUNT_def)
  moreover have "length sample_artifact \<le> MAX_VERIFIER_ARTIFACT_BYTES"
    by (simp add: sample_artifact_def MAX_VERIFIER_ARTIFACT_BYTES_def)
  moreover have "public_batch_pi_len 1 1 = 30" by (simp add: public_batch_pi_len_alt)
  ultimately show ?thesis
    by (simp add: public_verifier_from_artifact_bytes_def public_verifier_new_def deserialize_verifier_data_def
        ensure_batch_profile_def ensure_common_data_is_structurally_sound_def sample_plonky2_def
        sample_common_def sample_config_def expected_public_batch_config_def validate_proof_count_def
        MAX_PROOF_COUNT_def MAX_BATCH_DEGREE_BITS_def MAX_VERIFIER_ARTIFACT_BYTES_def)
qed

theorem public_batch_artifact_dimensions_witness:
  "\<exists>v. public_verifier_from_artifact_bytes sample_plonky2 sample_artifact 1 1 = Inr v
     \<and> public_num_inner v = 1 \<and> public_num_leaves v = 1"
  using public_batch_artifact_dimensions [OF sample_artifact_loads sample_artifact_loads]
    sample_artifact_loads by blast

text \<open>
  A loaded verifier never indexes out of its artifact. Every private or public verifier that a
  loader hands out has a selector index for every gate, each index names an existing selector group,
  each group is a range within the gate list, the public-input count is that of its dimensions, the
  degree is under the ceiling and the two copies of the FRI parameters agree.
\<close>

theorem loaded_verifier_sound:
  assumes "private_verifier_from_artifact_bytes px bytes n = Inr v"
  shows "let common = private_circuit_data v in
     private_num_leaves v = n \<and> num_public_inputs common = private_batch_pi_len n
     \<and> length (selector_indices common) = gates_len common
     \<and> (\<forall>gate < gates_len common. selector_indices common ! gate < length (groups common)
          \<and> snd (groups common ! (selector_indices common ! gate)) \<le> gates_len common)
     \<and> config common = expected_private_batch_config px
     \<and> degree_bits (fri_params_of_data common) \<le> MAX_BATCH_DEGREE_BITS
     \<and> fri_params_of_data common = fri_params_for px (fri_config (config common))
          (degree_bits (fri_params_of_data common)) (zero_knowledge (config common))"
  using assms
  by (auto simp: private_verifier_from_artifact_bytes_def private_verifier_new_def ensure_batch_profile_def
      ensure_common_data_is_structurally_sound_def list_all_length split_beta)

theorem loaded_verifier_sound_witness:
  "\<exists>v. private_verifier_from_artifact_bytes sample_plonky2 (replicate 26 0) 1 = Inr v
     \<and> num_public_inputs (private_circuit_data v) = private_batch_pi_len 1"
proof -
  have "private_verifier_from_artifact_bytes sample_plonky2 (replicate 26 0) 1 =
      Inr \<lparr>private_circuit_data = sample_common 26, private_num_leaves = 1\<rparr>"
    by (simp add: private_verifier_from_artifact_bytes_def private_verifier_new_def deserialize_verifier_data_def
        ensure_batch_profile_def ensure_common_data_is_structurally_sound_def sample_plonky2_def
        sample_common_def sample_config_def expected_private_batch_config_def validate_proof_count_def
        MAX_PROOF_COUNT_def MAX_BATCH_DEGREE_BITS_def MAX_VERIFIER_ARTIFACT_BYTES_def
        private_batch_pi_len_alt PRIVATE_BATCH_NUM_WIRES_def PRIVATE_BATCH_NUM_ROUTED_WIRES_def)
  from loaded_verifier_sound [OF this] this show ?thesis by (simp add: Let_def)
qed

text \<open>
  Verification and parsing read the same proof. Whatever \<open>verify_proof_bytes\<close> accepts,
  \<open>parse_proof_bytes\<close> reads to the same public inputs, and both accept only the canonical
  encoding: two accepted byte strings that decode to the same proof are equal, so a proof has one
  accepted encoding, within the size cap.
\<close>

theorem private_proof_bytes_canonical:
  assumes "private_verify_proof_bytes px v bytes = Inr public"
  shows "private_parse_proof_bytes px v bytes = Inr public
     \<and> length bytes \<le> VERIFIER_MAX_PROOF_BYTES
     \<and> wf_private_batch (private_num_leaves v) public
     \<and> (\<exists>prf. proof_from_bytes px bytes (private_circuit_data v) = Some prf
          \<and> verify_with px (private_circuit_data v) prf
          \<and> private_batch_felts public = proof_public_inputs px prf
          \<and> (\<forall>bytes'. proof_from_bytes px bytes' (private_circuit_data v) = Some prf
               \<and> is_ok (private_parse_proof_bytes px v bytes') \<longrightarrow> bytes' = bytes))"
proof -
  obtain pf where dec0: "decode_canonical_proof px bytes (private_circuit_data v) = Inr pf"
    and pub: "parse_private_batch_public_input_felts (proof_public_inputs px pf) (private_num_leaves v) = Inr public"
    and verified: "verify_with px (private_circuit_data v) pf"
    using assms by (auto simp: private_verify_proof_bytes_def)
  have dec: "proof_from_bytes px bytes (private_circuit_data v) = Some pf" "proof_to_bytes px pf = bytes"
    "length bytes \<le> VERIFIER_MAX_PROOF_BYTES"
    using dec0 by (auto simp: decode_canonical_proof_def)
  have "bytes' = bytes" if a: "proof_from_bytes px bytes' (private_circuit_data v) = Some pf"
      "is_ok (private_parse_proof_bytes px v bytes')" for bytes'
  proof -
    obtain q where "private_parse_proof_bytes px v bytes' = Inr q" using a(2) by (auto simp: is_ok_iff)
    then show ?thesis
      using a(1) dec(2) by (auto simp: private_parse_proof_bytes_def decode_canonical_proof_def)
  qed
  moreover have "private_parse_proof_bytes px v bytes = Inr public"
    using dec0 pub by (simp add: private_parse_proof_bytes_def)
  ultimately show ?thesis
    using verified dec private_batch_felts_parse [OF pub] by blast
qed

definition sample_verifier :: "(unit, unit, unit) QneroPrivateBatchVerifier" where
  "sample_verifier = \<lparr>private_circuit_data = sample_common 26, private_num_leaves = 1\<rparr>"

definition sample_proof :: "PrivateBatchPublicInputs \<Rightarrow> byte list" where
  "sample_proof b = digest_of_limbs (map to_canonical_u64 (private_batch_felts b))"

lemma length_sample_proof: "wf_private_batch 1 b \<Longrightarrow> length (sample_proof b) = 208"
  by (simp add: sample_proof_def length_private_batch_felts private_batch_pi_len_alt)

lemma sample_proof_verifies:
  assumes wf: "wf_private_batch 1 b"
  shows "private_verify_proof_bytes sample_plonky2 sample_verifier (sample_proof b) = Inr b"
proof -
  have "limbs (sample_proof b) = map to_canonical_u64 (private_batch_felts b)"
    unfolding sample_proof_def using to_canonical_lt_2_64 by (intro limbs_digest_of_limbs) auto
  moreover have "map felt_from_u64 (map to_canonical_u64 xs) = xs" for xs by (simp add: map_idI)
  moreover have "parse_private_batch_public_input_felts (private_batch_felts b) 1 = Inr b"
    using wf by (intro parse_private_batch_felts) (simp_all add: validate_proof_count_def MAX_PROOF_COUNT_def)
  ultimately show ?thesis
    using length_sample_proof [OF wf]
    by (simp add: private_verify_proof_bytes_def decode_canonical_proof_def sample_plonky2_def
        sample_verifier_def VERIFIER_MAX_PROOF_BYTES_def)
qed

lemma sample_verifier_loads:
  "private_verifier_from_artifact_bytes sample_plonky2 (replicate 26 0) 1 = Inr sample_verifier"
  by (simp add: private_verifier_from_artifact_bytes_def private_verifier_new_def deserialize_verifier_data_def
      ensure_batch_profile_def ensure_common_data_is_structurally_sound_def sample_plonky2_def
      sample_common_def sample_config_def expected_private_batch_config_def validate_proof_count_def
      MAX_PROOF_COUNT_def MAX_BATCH_DEGREE_BITS_def MAX_VERIFIER_ARTIFACT_BYTES_def
      private_batch_pi_len_alt PRIVATE_BATCH_NUM_WIRES_def PRIVATE_BATCH_NUM_ROUTED_WIRES_def sample_verifier_def)

theorem private_proof_bytes_canonical_witness:
  "private_parse_proof_bytes sample_plonky2 sample_verifier (sample_proof sample_batch) = Inr sample_batch"
  using private_proof_bytes_canonical [OF sample_proof_verifies [OF wf_sample_batch(1)]] by blast

end
