(* ===== verification/Shielded.thy ===== *)
theory Shielded
  imports ZkTree BatchVerifier
begin

text \<open>
  The shielded pool, \<open>chain/pallets/shielded/src/lib.rs\<close>: its storage, events and errors, the
  settlement bundle read off a proof, the planning, binding and writing of a settlement, the calls
  (\<open>submit_private_batch\<close>, \<open>submit_public_batch\<close>, \<open>shield\<close>, \<open>coinbase\<close>),
  the unsigned-transaction gates, and the coinbase mint. This theory holds the model only; the
  lemmas are in \<open>ShieldedPlan\<close>, \<open>ShieldedSettle\<close> and \<open>ShieldedCoinbase\<close>, a concrete pool in
  \<open>ShieldedSample\<close> and the properties in \<open>ShieldedSafety\<close>.

  The pallet's \<open>Config\<close> is the record \<open>shielded_config\<close>: the constants, and the
  functions of the pallets and crates it is wired to (the commitment tree, the currency, the embedded
  verifiers, the author lookup, \<open>Permill::mul_ceil\<close> of the burn rate, Blake2). A
  dispatchable returns the error, leaving the storage as it was, or the new storage. Balances are the
  runtime's \<open>u128\<close>, block numbers its \<open>u32\<close>, and \<open>usize\<close> is 32 bits wide,
  as in the runtime's wasm.
\<close>

section \<open>Constants\<close>

definition UNSIGNED_SETTLEMENT_PRIORITY :: nat where
  "UNSIGNED_SETTLEMENT_PRIORITY = 1"

definition MAX_PROOF_BYTES :: nat where
  "MAX_PROOF_BYTES = 512 * 1024"

definition POOL_STEP :: nat where
  "POOL_STEP = 10000000000"

definition SHIELDED_STORAGE_VERSION :: nat where
  "SHIELDED_STORAGE_VERSION = 3"

section \<open>What a proof settles\<close>

record RealSlot =
  rs_nullifiers :: "hash256 \<times> hash256"
  rs_commitments :: "hash256 \<times> hash256"
  rs_fee :: nat
  rs_ct_digest :: hash256

record Segment =
  seg_block_hash :: hash256
  seg_block_number :: nat
  seg_slots :: "RealSlot list"

record SettlementBundle =
  segments :: "Segment list"

definition digest_bytes :: "felt_digest \<Rightarrow> hash256" where
  "digest_bytes digest = digest_of_limbs (map to_canonical_u64 digest)"

definition real_slot_of :: "BatchLeafSlot \<Rightarrow> RealSlot" where
  "real_slot_of slot =
     \<lparr>rs_nullifiers = (digest_bytes (nullifiers slot ! 0), digest_bytes (nullifiers slot ! 1)),
      rs_commitments = (digest_bytes (commitments slot ! 0), digest_bytes (commitments slot ! 1)),
      rs_fee = to_canonical_u64 (slot_fee slot),
      rs_ct_digest = digest_bytes (slot_ct_digest slot)\<rparr>"

definition segment_of :: "PrivateBatchPublicInputs \<Rightarrow> Segment" where
  "segment_of inputs =
     \<lparr>seg_block_hash = digest_bytes (pi_block_hash inputs),
      seg_block_number =
        (case try_into_u 32 (to_canonical_u64 (pi_block_number inputs)) of None \<Rightarrow> 2 ^ 32 - 1 | Some n \<Rightarrow> n),
      seg_slots = map real_slot_of (filter (\<lambda>slot. \<not> slot_is_padding slot) (pi_slots inputs))\<rparr>"

definition from_private_batch :: "PrivateBatchPublicInputs \<Rightarrow> SettlementBundle" where
  "from_private_batch inputs =
     \<lparr>segments = (if batch_is_padding inputs then [] else [segment_of inputs])\<rparr>"

definition from_public_batch :: "PublicBatchPublicInputs \<Rightarrow> SettlementBundle" where
  "from_public_batch inputs = \<lparr>segments = map segment_of (settleable_batches inputs)\<rparr>"

definition real_slots :: "SettlementBundle \<Rightarrow> RealSlot list" where
  "real_slots bundle = concat (map seg_slots (segments bundle))"

section \<open>Storage, events, errors\<close>

record ShieldedOutput =
  ct_1 :: "byte list"
  ct_2 :: "byte list"

record CoinbasePayload =
  cb_inner :: hash256
  cb_ciphertext :: "byte list"

datatype 'acc shielded_event =
    Shielded (ev_who: 'acc) (ev_value: nat) (ev_commitment: hash256) (ev_leaf_index: nat)
      (ev_entry_index: nat) (ev_ciphertext_bytes: nat)
  | SlotSettled "hash256 \<times> hash256" "hash256 \<times> hash256" "nat \<times> nat" "nat \<times> nat"
  | BatchSettled nat nat nat
  | AuthorFeeAccrued nat
  | CoinbaseMinted nat nat hash256 nat bool
  | CoinbaseDeferred nat

datatype shielded_error =
    ProofTooLarge | ProofDeserializationFailed | NonCanonicalProofEncoding | VerifierNotAvailable
  | ProofVerificationFailed | InvalidPublicInputs | NothingToSettle | BlockNotFound
  | BlockOutsideWindow | BlockHashMismatch | NullifierAlreadyUsed | DuplicateNullifier
  | ZeroNullifier | ZeroCommitment | FeeBelowMinimum | ValueOutOfRange | PoolUnderflow
  | CiphertextCountMismatch | CiphertextDigestMismatch | CiphertextTooLarge | EmptyCiphertext
  | CiphertextLengthMismatch | UnknownCryptoSuite | PayloadUnderpaid | TreeFull | ValueNotQuantized
  | NonCanonicalInner | CoinbaseAlreadySet | NoBlockAuthor | CoinbasePayloadNotSupported
  | TooManyOutputsInBlock

text \<open>
  What a dispatch can fail with: an error of this pallet, of the tree, of the currency, a wrong
  origin, or (never, as proved) an index panic.
\<close>

datatype 'ce dispatch_error =
    PalletError shielded_error
  | TreeError zk_error
  | CurrencyError 'ce
  | BadOrigin
  | IndexPanic

record 'acc shielded_storage =
  ActiveProtocolProfile :: "byte list option"
  UsedNullifiers :: "hash256 set"
  OutputsWrittenThisBlock :: "nat \<times> nat"
  LeafBlocks :: "nat \<rightharpoonup> nat"
  EntryCount :: nat
  PoolValue :: nat
  PendingCoinbase :: "CoinbasePayload option"
  PendingCoinbaseFee :: nat
  CoinbaseValues :: "nat \<rightharpoonup> nat"
  storage_version :: nat
  shielded_events :: "'acc shielded_event list"

text \<open>
  The storage a call sees: this pallet's, the tree's, the currency's, and what it reads of
  \<open>frame_system\<close> (the block number, the block hashes, and the pre-runtime items of the digest
  as pairs of engine id and data).
\<close>

record ('t, 'b, 'acc) world =
  pool :: "'acc shielded_storage"
  tree :: 't
  balances :: 'b
  sys_block_number :: nat
  sys_block_hash :: "nat \<Rightarrow> hash256"
  sys_pre_runtime :: "(byte list \<times> byte list) list"

record ('t, 'b, 'acc, 'ce) shielded_config =
  cfg_poseidon :: poseidon
  cfg_insert_commitment :: "'t \<Rightarrow> hash256 \<Rightarrow> (zk_error, 't \<times> nat) result"
  cfg_remaining_capacity :: "'t \<Rightarrow> nat"
  cfg_burn_from :: "'b \<Rightarrow> 'acc \<Rightarrow> nat \<Rightarrow> ('ce, 'b) result"
  cfg_find_author :: "(byte list \<times> byte list) list \<Rightarrow> 'acc option"
  cfg_private_verifier :: "(ProofRejection, PrivateBatchPublicInputs) proof_verifier option"
  cfg_public_verifier :: "(ProofRejection, PublicBatchPublicInputs) proof_verifier option"
  cfg_protocol_profile :: "byte list"
  cfg_fee_burn_mul_ceil :: "nat \<Rightarrow> nat"
  cfg_blake2_256 :: "byte list \<Rightarrow> hash256"
  BlockHashWindow :: nat
  MinLeafFee :: nat
  CiphertextBytesPerFeeQuantum :: nat
  MaxCiphertextBytes :: nat
  CiphertextRetentionBlocks :: nat
  MaxOutputsPerBlock :: nat

section \<open>The output budget of a block\<close>

definition outputs_written_this_block :: "('t, 'b, 'acc) world \<Rightarrow> nat" where
  "outputs_written_this_block w =
     (case OutputsWrittenThisBlock (pool w) of (block, written) \<Rightarrow>
        if block = sys_block_number w then written else 0)"

definition ensure_output_capacity ::
  "('t, 'b, 'acc, 'ce) shielded_config \<Rightarrow> ('t, 'b, 'acc) world \<Rightarrow> nat \<Rightarrow> (shielded_error, unit) result" where
  "ensure_output_capacity cfg w n =
     ensure (case checked_add 32 (outputs_written_this_block w) n of
               None \<Rightarrow> False | Some written \<Rightarrow> written \<le> MaxOutputsPerBlock cfg)
       TooManyOutputsInBlock (Inr ())"

definition record_outputs :: "nat \<Rightarrow> ('t, 'b, 'acc) world \<Rightarrow> ('t, 'b, 'acc) world" where
  "record_outputs n w =
     (case OutputsWrittenThisBlock (pool w) of (block, written) \<Rightarrow>
        w\<lparr>pool := (pool w)\<lparr>OutputsWrittenThisBlock :=
            (sys_block_number w, if block = sys_block_number w then sat_add 32 written n else n)\<rparr>\<rparr>)"

definition deposit_event :: "'acc shielded_event \<Rightarrow> ('t, 'b, 'acc) world \<Rightarrow> ('t, 'b, 'acc) world" where
  "deposit_event e w = w\<lparr>pool := (pool w)\<lparr>shielded_events := shielded_events (pool w) @ [e]\<rparr>\<rparr>"

section \<open>Hooks\<close>

text \<open>The storage of a fresh chain, before the genesis build.\<close>

definition genesis_pool :: "'acc shielded_storage" where
  "genesis_pool =
     \<lparr>ActiveProtocolProfile = None, UsedNullifiers = {}, OutputsWrittenThisBlock = (0, 0), LeafBlocks = Map.empty,
      EntryCount = 0, PoolValue = 0, PendingCoinbase = None, PendingCoinbaseFee = 0,
      CoinbaseValues = Map.empty, storage_version = SHIELDED_STORAGE_VERSION, shielded_events = []\<rparr>"

definition shielded_genesis_build ::
  "('t, 'b, 'acc, 'ce) shielded_config \<Rightarrow> 'acc shielded_storage \<Rightarrow> 'acc shielded_storage" where
  "shielded_genesis_build cfg p = p\<lparr>ActiveProtocolProfile := Some (cfg_protocol_profile cfg)\<rparr>"

definition shielded_on_runtime_upgrade ::
  "('t, 'b, 'acc, 'ce) shielded_config \<Rightarrow> ('t, 'b, 'acc) world \<Rightarrow> ('t, 'b, 'acc) world" where
  "shielded_on_runtime_upgrade cfg w =
     (let p = (pool w)\<lparr>ActiveProtocolProfile := Some (cfg_protocol_profile cfg)\<rparr>
      in w\<lparr>pool := (if storage_version p < SHIELDED_STORAGE_VERSION
                     then p\<lparr>storage_version := SHIELDED_STORAGE_VERSION\<rparr> else p)\<rparr>)"

definition shielded_on_initialize :: "('t, 'b, 'acc) world \<Rightarrow> ('t, 'b, 'acc) world" where
  "shielded_on_initialize w =
     w\<lparr>pool := (pool w)\<lparr>PendingCoinbase := None, OutputsWrittenThisBlock := (0, 0)\<rparr>\<rparr>"

definition integrity_test :: "('t, 'b, 'acc, 'ce) shielded_config \<Rightarrow> bool" where
  "integrity_test cfg \<longleftrightarrow>
     CiphertextRetentionBlocks cfg = 0 \<and> 0 < MaxOutputsPerBlock cfg
     \<and> cfg_private_verifier cfg \<noteq> None \<and> cfg_public_verifier cfg \<noteq> None
     \<and> 0 < CiphertextBytesPerFeeQuantum cfg \<and> 0 < MinLeafFee cfg"

section \<open>The verification pipeline\<close>

fun proof_error :: "ProofRejection \<Rightarrow> shielded_error" where
  "proof_error TooLarge = ProofTooLarge"
| "proof_error Deserialization = ProofDeserializationFailed"
| "proof_error NonCanonicalEncoding = NonCanonicalProofEncoding"
| "proof_error PublicInputLayout = InvalidPublicInputs"
| "proof_error Verification = ProofVerificationFailed"

definition pre_validate_private_batch ::
  "('t, 'b, 'acc, 'ce) shielded_config \<Rightarrow> byte list \<Rightarrow> (shielded_error, SettlementBundle) result" where
  "pre_validate_private_batch cfg proof_bytes =
     ensure (length proof_bytes \<le> MAX_PROOF_BYTES) ProofTooLarge
       (rbind (ok_or (cfg_private_verifier cfg) VerifierNotAvailable) (\<lambda>verifier.
         rbind (map_err proof_error (parse_proof_bytes verifier proof_bytes)) (\<lambda>inputs.
           Inr (from_private_batch inputs))))"

definition validate_private_batch ::
  "('t, 'b, 'acc, 'ce) shielded_config \<Rightarrow> byte list \<Rightarrow> (shielded_error, SettlementBundle) result" where
  "validate_private_batch cfg proof_bytes =
     ensure (length proof_bytes \<le> MAX_PROOF_BYTES) ProofTooLarge
       (rbind (ok_or (cfg_private_verifier cfg) VerifierNotAvailable) (\<lambda>verifier.
         rbind (map_err proof_error (verify_proof_bytes verifier proof_bytes)) (\<lambda>inputs.
           Inr (from_private_batch inputs))))"

definition pre_validate_public_batch ::
  "('t, 'b, 'acc, 'ce) shielded_config \<Rightarrow> byte list \<Rightarrow> (shielded_error, SettlementBundle) result" where
  "pre_validate_public_batch cfg proof_bytes =
     ensure (length proof_bytes \<le> MAX_PROOF_BYTES) ProofTooLarge
       (rbind (ok_or (cfg_public_verifier cfg) VerifierNotAvailable) (\<lambda>verifier.
         rbind (map_err proof_error (parse_proof_bytes verifier proof_bytes)) (\<lambda>inputs.
           Inr (from_public_batch inputs))))"

definition validate_public_batch ::
  "('t, 'b, 'acc, 'ce) shielded_config \<Rightarrow> byte list \<Rightarrow> (shielded_error, SettlementBundle) result" where
  "validate_public_batch cfg proof_bytes =
     ensure (length proof_bytes \<le> MAX_PROOF_BYTES) ProofTooLarge
       (rbind (ok_or (cfg_public_verifier cfg) VerifierNotAvailable) (\<lambda>verifier.
         rbind (map_err proof_error (verify_proof_bytes verifier proof_bytes)) (\<lambda>inputs.
           Inr (from_public_batch inputs))))"

section \<open>Planning a settlement\<close>

definition ciphertext_bytes :: "ShieldedOutput list \<Rightarrow> nat" where
  "ciphertext_bytes outputs =
     foldl (\<lambda>acc output. sat_add 32 (sat_add 32 acc (length (ct_1 output) mod 2 ^ 32))
                            (length (ct_2 output) mod 2 ^ 32)) 0 outputs"

definition ensure_exact_ciphertext :: "byte list \<Rightarrow> (shielded_error, unit) result" where
  "ensure_exact_ciphertext bytes =
     rbind (ok_or (declared_crypto_suite bytes) CiphertextLengthMismatch) (\<lambda>suite.
       rbind (ok_or (ciphertext_len suite) UnknownCryptoSuite) (\<lambda>expected.
         ensure (length bytes = expected) CiphertextLengthMismatch (Inr ())))"

fun ensure_exact_outputs :: "ShieldedOutput list \<Rightarrow> (shielded_error, unit) result" where
  "ensure_exact_outputs [] = Inr ()"
| "ensure_exact_outputs (output # outputs) =
     (if ct_1 output = [] \<and> ct_2 output = [] then ensure_exact_outputs outputs
      else rbind (ensure_exact_ciphertext (ct_1 output)) (\<lambda>_.
             rbind (ensure_exact_ciphertext (ct_2 output)) (\<lambda>_. ensure_exact_outputs outputs)))"

definition output_bytes :: "ShieldedOutput \<Rightarrow> nat" where
  "output_bytes output = sat_add 64 (length (ct_1 output)) (length (ct_2 output))"

definition carried_bytes :: "ShieldedOutput list \<Rightarrow> nat" where
  "carried_bytes outputs = foldl (\<lambda>acc output. sat_add 64 acc (output_bytes output)) 0 outputs"

definition bytes_per_fee_quantum :: "('t, 'b, 'acc, 'ce) shielded_config \<Rightarrow> nat" where
  "bytes_per_fee_quantum cfg = max (CiphertextBytesPerFeeQuantum cfg) 1"

definition fee_floor :: "('t, 'b, 'acc, 'ce) shielded_config \<Rightarrow> nat \<Rightarrow> nat \<Rightarrow> nat" where
  "fee_floor cfg min_fee bytes = sat_add 64 min_fee (div_ceil bytes (bytes_per_fee_quantum cfg))"

definition fee_planck :: "nat \<Rightarrow> (shielded_error, nat) result" where
  "fee_planck fee_steps = ok_or (checked_mul 128 fee_steps POOL_STEP) ValueOutOfRange"

definition anchor_failure ::
  "('t, 'b, 'acc) world \<Rightarrow> Segment \<Rightarrow> nat \<Rightarrow> nat \<Rightarrow> shielded_error option" where
  "anchor_failure w segment current window =
     (let anchored_at = seg_block_number segment
      in if current \<le> anchored_at then Some BlockOutsideWindow
         else if window < current - anchored_at then Some BlockOutsideWindow
         else
           let on_chain = sys_block_hash w anchored_at
           in if on_chain = zero_hash then Some BlockNotFound
              else if on_chain \<noteq> seg_block_hash segment then Some BlockHashMismatch
              else None)"

record plan_state =
  claimed :: "hash256 set"
  ps_fee_steps :: nat
  ps_slots :: nat
  ps_skipped_slots :: nat
  stale_anchor :: "shielded_error option"
  ps_settles :: "bool list"
  ps_real_slots :: nat

record PlannedSettlement =
  fee_steps :: nat
  plan_slots_settled :: nat
  skipped_slots :: nat
  plan_carried_bytes :: nat
  settles :: "bool list"

definition slot_nullifiers :: "RealSlot \<Rightarrow> hash256 list" where
  "slot_nullifiers slot = [fst (rs_nullifiers slot), snd (rs_nullifiers slot)]"

definition slot_commitments :: "RealSlot \<Rightarrow> hash256 list" where
  "slot_commitments slot = [fst (rs_commitments slot), snd (rs_commitments slot)]"

fun claim_nullifiers :: "hash256 list \<Rightarrow> hash256 set \<Rightarrow> (shielded_error, hash256 set) result" where
  "claim_nullifiers [] C = Inr C"
| "claim_nullifiers (n # ns) C =
     ensure (n \<noteq> zero_hash) ZeroNullifier
       (ensure (n \<notin> C) DuplicateNullifier (claim_nullifiers ns (insert n C)))"

definition plan_slot ::
  "('t, 'b, 'acc, 'ce) shielded_config \<Rightarrow> ShieldedOutput list \<Rightarrow> RealSlot \<Rightarrow> plan_state
    \<Rightarrow> (shielded_error, plan_state) result" where
  "plan_slot cfg outputs slot ps =
     ensure (rs_fee slot \<le> MAX_VALUE) ValueOutOfRange
       (ensure (zero_hash \<notin> set (slot_commitments slot)) ZeroCommitment
         (rbind (claim_nullifiers (slot_nullifiers slot) (claimed ps)) (\<lambda>C.
           rbind (ok_or (list_get outputs (ps_real_slots ps)) CiphertextCountMismatch) (\<lambda>output.
             ensure (ct_1 output \<noteq> [] \<and> ct_2 output \<noteq> []) EmptyCiphertext
               (ensure (fee_floor cfg (MinLeafFee cfg) (output_bytes output) \<le> rs_fee slot) FeeBelowMinimum
                 (rbind (ok_or (checked_add 128 (ps_fee_steps ps) (rs_fee slot)) ValueOutOfRange) (\<lambda>fee.
                   rbind (ok_or (checked_add 32 (ps_slots ps) 1) ValueOutOfRange) (\<lambda>slots.
                     rbind (ok_or (checked_add 32 (ps_real_slots ps) 1) ValueOutOfRange) (\<lambda>reals.
                       Inr (ps\<lparr>claimed := C, ps_fee_steps := fee, ps_slots := slots,
                               ps_real_slots := reals\<rparr>))))))))))"

fun plan_slots ::
  "('t, 'b, 'acc, 'ce) shielded_config \<Rightarrow> ShieldedOutput list \<Rightarrow> RealSlot list \<Rightarrow> plan_state
    \<Rightarrow> (shielded_error, plan_state) result" where
  "plan_slots cfg outputs [] ps = Inr ps"
| "plan_slots cfg outputs (slot # slots) ps =
     rbind (plan_slot cfg outputs slot ps) (\<lambda>ps'. plan_slots cfg outputs slots ps')"

definition conflicts :: "('t, 'b, 'acc) world \<Rightarrow> hash256 set \<Rightarrow> Segment \<Rightarrow> bool" where
  "conflicts w C segment \<longleftrightarrow>
     list_ex (\<lambda>slot. list_ex (\<lambda>n. n \<in> UsedNullifiers (pool w) \<or> n \<in> C) (slot_nullifiers slot)) (seg_slots segment)"

definition skip_segment ::
  "Segment \<Rightarrow> plan_state \<Rightarrow> (shielded_error, plan_state) result" where
  "skip_segment segment ps =
     rbind (ok_or (case try_into_u 32 (length (seg_slots segment)) of
                     None \<Rightarrow> None | Some n \<Rightarrow> checked_add 32 (ps_skipped_slots ps) n) ValueOutOfRange) (\<lambda>skipped.
       rbind (ok_or (checked_add 32 (ps_real_slots ps) (length (seg_slots segment))) ValueOutOfRange) (\<lambda>reals.
         Inr (ps\<lparr>ps_settles := ps_settles ps @ [False], ps_skipped_slots := skipped, ps_real_slots := reals\<rparr>)))"

definition plan_segment ::
  "('t, 'b, 'acc, 'ce) shielded_config \<Rightarrow> ('t, 'b, 'acc) world \<Rightarrow> ShieldedOutput list \<Rightarrow> Segment \<Rightarrow> plan_state
    \<Rightarrow> (shielded_error, plan_state) result" where
  "plan_segment cfg w outputs segment ps =
     ensure (seg_slots segment \<noteq> []) NothingToSettle
       (if conflicts w (claimed ps) segment then skip_segment segment ps
        else case anchor_failure w segment (sys_block_number w) (BlockHashWindow cfg) of
          Some e \<Rightarrow>
            skip_segment segment
              (ps\<lparr>stale_anchor := (case stale_anchor ps of None \<Rightarrow> Some e | Some e' \<Rightarrow> Some e')\<rparr>)
        | None \<Rightarrow> plan_slots cfg outputs (seg_slots segment) (ps\<lparr>ps_settles := ps_settles ps @ [True]\<rparr>))"

fun plan_segments ::
  "('t, 'b, 'acc, 'ce) shielded_config \<Rightarrow> ('t, 'b, 'acc) world \<Rightarrow> ShieldedOutput list \<Rightarrow> Segment list \<Rightarrow> plan_state
    \<Rightarrow> (shielded_error, plan_state) result" where
  "plan_segments cfg w outputs [] ps = Inr ps"
| "plan_segments cfg w outputs (segment # rest) ps =
     rbind (plan_segment cfg w outputs segment ps) (\<lambda>ps'. plan_segments cfg w outputs rest ps')"

definition plan_start :: plan_state where
  "plan_start =
     \<lparr>claimed = {}, ps_fee_steps = 0, ps_slots = 0, ps_skipped_slots = 0, stale_anchor = None,
      ps_settles = [], ps_real_slots = 0\<rparr>"

definition submission_floor ::
  "('t, 'b, 'acc, 'ce) shielded_config \<Rightarrow> nat \<Rightarrow> nat \<Rightarrow> nat \<Rightarrow> nat option" where
  "submission_floor cfg slots skipped carried =
     (case checked_add 128 slots skipped of
        None \<Rightarrow> None
      | Some n \<Rightarrow>
          (case checked_mul 128 n (MinLeafFee cfg) of
             None \<Rightarrow> None
           | Some flat \<Rightarrow> checked_add 128 flat (div_ceil carried (bytes_per_fee_quantum cfg))))"

definition plan_settlement ::
  "('t, 'b, 'acc, 'ce) shielded_config \<Rightarrow> ('t, 'b, 'acc) world \<Rightarrow> SettlementBundle \<Rightarrow> ShieldedOutput list
    \<Rightarrow> (shielded_error, PlannedSettlement) result" where
  "plan_settlement cfg w bundle outputs =
     ensure (segments bundle \<noteq> []) NothingToSettle
       (rbind (ensure_exact_outputs outputs) (\<lambda>_.
         rbind (plan_segments cfg w outputs (segments bundle) plan_start) (\<lambda>ps.
           if ps_slots ps = 0
           then Inl (case stale_anchor ps of None \<Rightarrow> NullifierAlreadyUsed | Some e \<Rightarrow> e)
           else
             ensure (length outputs = ps_real_slots ps) CiphertextCountMismatch
               (rbind (ok_or (submission_floor cfg (ps_slots ps) (ps_skipped_slots ps) (carried_bytes outputs))
                         ValueOutOfRange) (\<lambda>floor.
                 ensure (floor \<le> ps_fee_steps ps) PayloadUnderpaid
                   (ensure (sat_add 64 (sat_mul 64 (ps_slots ps) 2) 1 \<le> cfg_remaining_capacity cfg (tree w)) TreeFull
                     (rbind (ensure_output_capacity cfg w (sat_mul 32 (ps_slots ps) 2)) (\<lambda>_.
                       rbind (fee_planck (ps_fee_steps ps)) (\<lambda>fee.
                         ensure (fee \<le> PoolValue (pool w)) PoolUnderflow
                           (Inr \<lparr>fee_steps = ps_fee_steps ps, plan_slots_settled = ps_slots ps,
                                 skipped_slots = ps_skipped_slots ps,
                                 plan_carried_bytes = carried_bytes outputs,
                                 settles = ps_settles ps\<rparr>))))))))))"

fun bind_slots ::
  "poseidon \<Rightarrow> ShieldedOutput list \<Rightarrow> nat \<Rightarrow> RealSlot list \<Rightarrow> (shielded_error, unit) result" where
  "bind_slots pc outputs index [] = Inr ()"
| "bind_slots pc outputs index (slot # slots) =
     rbind (ok_or (list_get outputs index) CiphertextCountMismatch) (\<lambda>output.
       if ct_1 output = [] \<and> ct_2 output = [] then bind_slots pc outputs (Suc index) slots
       else ensure (ct_digest pc [ct_1 output, ct_2 output] = rs_ct_digest slot) CiphertextDigestMismatch
              (bind_slots pc outputs (Suc index) slots))"

definition bind_payload ::
  "('t, 'b, 'acc, 'ce) shielded_config \<Rightarrow> SettlementBundle \<Rightarrow> ShieldedOutput list \<Rightarrow> (shielded_error, unit) result" where
  "bind_payload cfg bundle outputs = bind_slots (cfg_poseidon cfg) outputs 0 (real_slots bundle)"

definition check_settlement ::
  "('t, 'b, 'acc, 'ce) shielded_config \<Rightarrow> ('t, 'b, 'acc) world \<Rightarrow> SettlementBundle \<Rightarrow> ShieldedOutput list
    \<Rightarrow> (shielded_error, PlannedSettlement) result" where
  "check_settlement cfg w bundle outputs =
     rbind (plan_settlement cfg w bundle outputs) (\<lambda>plan.
       rbind (bind_payload cfg bundle outputs) (\<lambda>_. Inr plan))"

section \<open>Writing a settlement\<close>

definition settle_slot ::
  "('t, 'b, 'acc, 'ce) shielded_config \<Rightarrow> ShieldedOutput list \<Rightarrow> RealSlot \<Rightarrow> ('t, 'b, 'acc) world \<times> nat
    \<Rightarrow> ('ce dispatch_error, ('t, 'b, 'acc) world \<times> nat) result" where
  "settle_slot cfg outputs slot st =
     (case st of (w, output_index) \<Rightarrow>
        let w1 = w\<lparr>pool := (pool w)\<lparr>UsedNullifiers :=
                     insert (snd (rs_nullifiers slot)) (insert (fst (rs_nullifiers slot)) (UsedNullifiers (pool w)))\<rparr>\<rparr>
        in rbind (ok_or (list_get outputs output_index) IndexPanic) (\<lambda>output.
             rbind (map_err TreeError (cfg_insert_commitment cfg (tree w1) (fst (rs_commitments slot)))) (\<lambda>(t2, first).
               rbind (map_err TreeError (cfg_insert_commitment cfg t2 (snd (rs_commitments slot)))) (\<lambda>(t3, second).
                 let w2 = record_outputs 2 (w1\<lparr>tree := t3\<rparr>);
                     w3 = w2\<lparr>pool := (pool w2)\<lparr>LeafBlocks := (LeafBlocks (pool w2))
                              (first \<mapsto> sys_block_number w, second \<mapsto> sys_block_number w)\<rparr>\<rparr>
                 in Inr (deposit_event (SlotSettled (rs_nullifiers slot) (rs_commitments slot) (first, second)
                            (length (ct_1 output) mod 2 ^ 32, length (ct_2 output) mod 2 ^ 32)) w3,
                         Suc output_index)))))"

fun settle_slots ::
  "('t, 'b, 'acc, 'ce) shielded_config \<Rightarrow> ShieldedOutput list \<Rightarrow> RealSlot list \<Rightarrow> ('t, 'b, 'acc) world \<times> nat
    \<Rightarrow> ('ce dispatch_error, ('t, 'b, 'acc) world \<times> nat) result" where
  "settle_slots cfg outputs [] st = Inr st"
| "settle_slots cfg outputs (slot # slots) st =
     rbind (settle_slot cfg outputs slot st) (\<lambda>st'. settle_slots cfg outputs slots st')"

fun settle_segments ::
  "('t, 'b, 'acc, 'ce) shielded_config \<Rightarrow> ShieldedOutput list \<Rightarrow> (Segment \<times> bool) list \<Rightarrow> ('t, 'b, 'acc) world \<times> nat
    \<Rightarrow> ('ce dispatch_error, ('t, 'b, 'acc) world \<times> nat) result" where
  "settle_segments cfg outputs [] st = Inr st"
| "settle_segments cfg outputs ((segment, yes) # rest) st =
     (if \<not> yes
      then settle_segments cfg outputs rest (fst st, sat_add 32 (snd st) (length (seg_slots segment)))
      else rbind (settle_slots cfg outputs (seg_slots segment) st) (\<lambda>st'. settle_segments cfg outputs rest st'))"

definition account_fee ::
  "('t, 'b, 'acc, 'ce) shielded_config \<Rightarrow> nat \<Rightarrow> ('t, 'b, 'acc) world
    \<Rightarrow> (shielded_error, ('t, 'b, 'acc) world \<times> nat) result" where
  "account_fee cfg steps w =
     (if steps = 0 then Inr (w, 0)
      else
        rbind (fee_planck steps) (\<lambda>fee.
          rbind (ok_or (checked_sub (PoolValue (pool w)) fee) PoolUnderflow) (\<lambda>rest.
            let w1 = w\<lparr>pool := (pool w)\<lparr>PoolValue := rest\<rparr>\<rparr>;
                burn_steps = cfg_fee_burn_mul_ceil cfg steps;
                author_steps = steps - burn_steps
            in if author_steps = 0 then Inr (w1, fee)
               else
                 rbind (fee_planck author_steps) (\<lambda>author_amount.
                   let w2 = w1\<lparr>pool := (pool w1)\<lparr>PendingCoinbaseFee :=
                              sat_add 128 (PendingCoinbaseFee (pool w1)) author_amount\<rparr>\<rparr>
                   in Inr (deposit_event (AuthorFeeAccrued author_amount) w2, fee)))))"

definition settle ::
  "('t, 'b, 'acc, 'ce) shielded_config \<Rightarrow> ('t, 'b, 'acc) world \<Rightarrow> SettlementBundle \<Rightarrow> ShieldedOutput list
    \<Rightarrow> ('ce dispatch_error, ('t, 'b, 'acc) world) result" where
  "settle cfg w bundle outputs =
     rbind (map_err PalletError (check_settlement cfg w bundle outputs)) (\<lambda>plan.
       rbind (settle_segments cfg outputs (zip (segments bundle) (settles plan)) (w, 0)) (\<lambda>(w1, _).
         rbind (map_err PalletError (account_fee cfg (fee_steps plan) w1)) (\<lambda>(w2, fee).
           Inr (deposit_event
                  (BatchSettled (length (filter id (settles plan)) mod 2 ^ 32) (plan_slots_settled plan) fee) w2))))"

section \<open>Coinbase\<close>

definition block_author ::
  "('t, 'b, 'acc, 'ce) shielded_config \<Rightarrow> ('t, 'b, 'acc) world \<Rightarrow> 'acc option" where
  "block_author cfg w = cfg_find_author cfg (sys_pre_runtime w)"

text \<open>
  The first half of \<open>mint_coinbase\<close>: the checks that send the credit back. It returns the
  appended tree, the leaf index, the note's value in steps and the sub-step change.
\<close>

definition coinbase_note ::
  "('t, 'b, 'acc, 'ce) shielded_config \<Rightarrow> ('t, 'b, 'acc) world \<Rightarrow> CoinbasePayload \<Rightarrow> nat
    \<Rightarrow> ('t \<times> nat \<times> nat \<times> nat) option" where
  "coinbase_note cfg w payload minted =
     (if cb_ciphertext payload \<noteq> [] then None
      else
        let total_planck = sat_add 128 minted (PendingCoinbaseFee (pool w));
            steps_u128 = total_planck div POOL_STEP;
            change = total_planck mod POOL_STEP
        in case try_into_u 64 steps_u128 of
             None \<Rightarrow> None
           | Some steps \<Rightarrow>
               if steps = 0 \<or> MAX_VALUE < steps then None
               else case commitment (cfg_poseidon cfg) (cb_inner payload) steps of
                      None \<Rightarrow> None
                    | Some cm \<Rightarrow>
                        (case cfg_insert_commitment cfg (tree w) cm of
                           Inl _ \<Rightarrow> None
                         | Inr (t', index) \<Rightarrow> Some (t', index, steps, change)))"

definition mint_coinbase ::
  "('t, 'b, 'acc, 'ce) shielded_config \<Rightarrow> ('t, 'b, 'acc) world \<Rightarrow> nat
    \<Rightarrow> ('t, 'b, 'acc) world \<times> (nat, unit) result" where
  "mint_coinbase cfg w minted =
     (case PendingCoinbase (pool w) of
        None \<Rightarrow> (if minted \<noteq> 0 then deposit_event (CoinbaseDeferred minted) w else w, Inl minted)
      | Some payload \<Rightarrow>
          let w1 = w\<lparr>pool := (pool w)\<lparr>PendingCoinbase := None\<rparr>\<rparr>
          in case coinbase_note cfg w1 payload minted of
               None \<Rightarrow> (w1, Inl minted)
             | Some (t', index, steps, change) \<Rightarrow>
                 let value = sat_mul 128 steps POOL_STEP;
                     w2 = w1\<lparr>tree := t',
                             pool := (pool w1)\<lparr>
                               LeafBlocks := (LeafBlocks (pool w1))(index \<mapsto> sys_block_number w),
                               CoinbaseValues := (CoinbaseValues (pool w1))(index \<mapsto> steps),
                               PoolValue := sat_add 128 (PoolValue (pool w1)) value,
                               PendingCoinbaseFee := change\<rparr>\<rparr>
                 in (deposit_event (CoinbaseMinted (sys_block_number w) index (cb_inner payload) value
                        (cb_ciphertext payload \<noteq> [])) w2, Inr ()))"

definition deposit_coinbase ::
  "('t, 'b, 'acc, 'ce) shielded_config \<Rightarrow> ('t, 'b, 'acc) world \<Rightarrow> nat
    \<Rightarrow> ('t, 'b, 'acc) world \<times> (nat, unit) result" where
  "deposit_coinbase cfg w amount = mint_coinbase cfg w amount"

definition shielded_supply :: "('t, 'b, 'acc) world \<Rightarrow> nat" where
  "shielded_supply w = sat_add 128 (PoolValue (pool w)) (PendingCoinbaseFee (pool w))"

section \<open>Calls\<close>

datatype 'acc origin = RootOrigin | Signed 'acc | NoOrigin

datatype shielded_call =
    SubmitPrivateBatch "byte list" "ShieldedOutput list"
  | SubmitPublicBatch "byte list" "ShieldedOutput list"
  | ShieldCall nat hash256 "byte list"
  | CoinbaseCall hash256 "byte list"

definition submit_private_batch ::
  "('t, 'b, 'acc, 'ce) shielded_config \<Rightarrow> ('t, 'b, 'acc) world \<Rightarrow> 'acc origin \<Rightarrow> byte list \<Rightarrow> ShieldedOutput list
    \<Rightarrow> ('ce dispatch_error, ('t, 'b, 'acc) world) result" where
  "submit_private_batch cfg w origin proof_bytes outputs =
     ensure (origin = NoOrigin) BadOrigin
       (rbind (map_err PalletError (validate_private_batch cfg proof_bytes)) (\<lambda>bundle.
         settle cfg w bundle outputs))"

definition submit_public_batch ::
  "('t, 'b, 'acc, 'ce) shielded_config \<Rightarrow> ('t, 'b, 'acc) world \<Rightarrow> 'acc origin \<Rightarrow> byte list \<Rightarrow> ShieldedOutput list
    \<Rightarrow> ('ce dispatch_error, ('t, 'b, 'acc) world) result" where
  "submit_public_batch cfg w origin proof_bytes outputs =
     ensure (origin = NoOrigin) BadOrigin
       (rbind (map_err PalletError (validate_public_batch cfg proof_bytes)) (\<lambda>bundle.
         settle cfg w bundle outputs))"

text \<open>The checks of \<open>shield\<close> before its first write: the steps, the commitment, the payload length.\<close>

definition shield_checks ::
  "('t, 'b, 'acc, 'ce) shielded_config \<Rightarrow> ('t, 'b, 'acc) world \<Rightarrow> nat \<Rightarrow> hash256 \<Rightarrow> byte list
    \<Rightarrow> (shielded_error, hash256 \<times> nat) result" where
  "shield_checks cfg w value inner ciphertext =
     ensure (0 < value \<and> value mod POOL_STEP = 0) ValueNotQuantized
       (rbind (ok_or (try_into_u 64 (value div POOL_STEP)) ValueOutOfRange) (\<lambda>steps.
         ensure (steps \<le> MAX_VALUE) ValueOutOfRange
           (rbind (ok_or (commitment (cfg_poseidon cfg) inner steps) NonCanonicalInner) (\<lambda>cm.
             rbind (ok_or (try_into_u 32 (length ciphertext)) CiphertextTooLarge) (\<lambda>len.
               ensure (len \<le> MaxCiphertextBytes cfg) CiphertextTooLarge
                 (ensure (1 \<le> cfg_remaining_capacity cfg (tree w)) TreeFull
                   (rbind (ensure_output_capacity cfg w 1) (\<lambda>_. Inr (cm, len)))))))))"

definition shield ::
  "('t, 'b, 'acc, 'ce) shielded_config \<Rightarrow> ('t, 'b, 'acc) world \<Rightarrow> 'acc origin \<Rightarrow> nat \<Rightarrow> hash256 \<Rightarrow> byte list
    \<Rightarrow> ('ce dispatch_error, ('t, 'b, 'acc) world) result" where
  "shield cfg w origin value inner ciphertext =
     (case origin of
        Signed who \<Rightarrow>
          rbind (map_err PalletError (shield_checks cfg w value inner ciphertext)) (\<lambda>(cm, len).
            rbind (map_err CurrencyError (cfg_burn_from cfg (balances w) who value)) (\<lambda>b'.
              let entry_index = EntryCount (pool w);
                  w1 = w\<lparr>balances := b', pool := (pool w)\<lparr>EntryCount := sat_add 64 entry_index 1\<rparr>\<rparr>
              in rbind (map_err TreeError (cfg_insert_commitment cfg (tree w1) cm)) (\<lambda>(t', index).
                   let w2 = record_outputs 1 (w1\<lparr>tree := t'\<rparr>);
                       w3 = w2\<lparr>pool := (pool w2)\<lparr>
                                LeafBlocks := (LeafBlocks (pool w2))(index \<mapsto> sys_block_number w),
                                PoolValue := sat_add 128 (PoolValue (pool w2)) value\<rparr>\<rparr>
                   in Inr (deposit_event (Shielded who value cm index entry_index len) w3))))
      | _ \<Rightarrow> Inl BadOrigin)"

definition coinbase ::
  "('t, 'b, 'acc, 'ce) shielded_config \<Rightarrow> ('t, 'b, 'acc) world \<Rightarrow> 'acc origin \<Rightarrow> hash256 \<Rightarrow> byte list
    \<Rightarrow> ('ce dispatch_error, ('t, 'b, 'acc) world) result" where
  "coinbase cfg w origin inner ciphertext =
     ensure (origin = NoOrigin) BadOrigin
       (ensure (PendingCoinbase (pool w) = None) (PalletError CoinbaseAlreadySet)
         (ensure (block_author cfg w \<noteq> None) (PalletError NoBlockAuthor)
           (ensure (ciphertext = []) (PalletError CoinbasePayloadNotSupported)
             (ensure (length ciphertext \<le> MaxCiphertextBytes cfg) (PalletError CiphertextTooLarge)
               (ensure (commitment (cfg_poseidon cfg) inner 0 \<noteq> None) (PalletError NonCanonicalInner)
                 (Inr (w\<lparr>pool := (pool w)\<lparr>PendingCoinbase :=
                          Some \<lparr>cb_inner = inner, cb_ciphertext = ciphertext\<rparr>\<rparr>\<rparr>)))))))"

definition dispatch ::
  "('t, 'b, 'acc, 'ce) shielded_config \<Rightarrow> ('t, 'b, 'acc) world \<Rightarrow> 'acc origin \<Rightarrow> shielded_call
    \<Rightarrow> ('ce dispatch_error, ('t, 'b, 'acc) world) result" where
  "dispatch cfg w origin call =
     (case call of
        SubmitPrivateBatch proof_bytes outputs \<Rightarrow> submit_private_batch cfg w origin proof_bytes outputs
      | SubmitPublicBatch proof_bytes outputs \<Rightarrow> submit_public_batch cfg w origin proof_bytes outputs
      | ShieldCall value inner ciphertext \<Rightarrow> shield cfg w origin value inner ciphertext
      | CoinbaseCall inner ciphertext \<Rightarrow> coinbase cfg w origin inner ciphertext)"

section \<open>The inherent\<close>

datatype InherentError = Missing

record CoinbaseInherentData =
  inh_inner :: hash256
  inh_ciphertext :: "byte list"

definition create_inherent :: "CoinbaseInherentData option \<Rightarrow> shielded_call option" where
  "create_inherent data = map_option (\<lambda>payload. CoinbaseCall (inh_inner payload) (inh_ciphertext payload)) data"

definition is_inherent_required :: "InherentError option" where
  "is_inherent_required = Some Missing"

definition is_inherent :: "shielded_call \<Rightarrow> bool" where
  "is_inherent call = (case call of CoinbaseCall _ _ \<Rightarrow> True | _ \<Rightarrow> False)"

section \<open>The unsigned-transaction gates\<close>

datatype InvalidTransaction = InvalidCall | ExhaustsResources

record ValidTransaction =
  tag_prefix :: "byte list"
  provides :: hash256
  priority :: nat
  longevity :: nat
  propagate :: bool

definition settlement_plan_error :: "shielded_error \<Rightarrow> InvalidTransaction" where
  "settlement_plan_error e = (if e = TooManyOutputsInBlock then ExhaustsResources else InvalidCall)"

definition provides_preimage :: "SettlementBundle \<Rightarrow> byte list" where
  "provides_preimage bundle =
     le_bytes 4 (length (segments bundle))
     @ concat (map (\<lambda>segment.
         le_bytes 4 (length (seg_slots segment))
         @ concat (sort (concat (map slot_nullifiers (seg_slots segment))))) (segments bundle))"

definition settlement_provides_tag ::
  "('t, 'b, 'acc, 'ce) shielded_config \<Rightarrow> SettlementBundle \<Rightarrow> hash256" where
  "settlement_provides_tag cfg bundle = cfg_blake2_256 cfg (provides_preimage bundle)"

text \<open>The ASCII bytes of \<open>QneroPrivateBatch\<close> and \<open>QneroPublicBatch\<close>.\<close>

definition private_tag_prefix :: "byte list" where
  "private_tag_prefix = [81, 110, 101, 114, 111, 80, 114, 105, 118, 97, 116, 101, 66, 97, 116, 99, 104]"

definition public_tag_prefix :: "byte list" where
  "public_tag_prefix = [81, 110, 101, 114, 111, 80, 117, 98, 108, 105, 99, 66, 97, 116, 99, 104]"

definition admit ::
  "('t, 'b, 'acc, 'ce) shielded_config \<Rightarrow> ('t, 'b, 'acc) world \<Rightarrow> (shielded_error, SettlementBundle) result
    \<Rightarrow> (shielded_error, SettlementBundle) result \<Rightarrow> ShieldedOutput list \<Rightarrow> (InvalidTransaction, SettlementBundle) result"
where
  "admit cfg w parsed verified outputs =
     rbind (map_err (\<lambda>_. InvalidCall) parsed) (\<lambda>p.
       rbind (map_err settlement_plan_error (plan_settlement cfg w p outputs)) (\<lambda>_.
         rbind (map_err (\<lambda>_. InvalidCall) verified) (\<lambda>v.
           rbind (map_err (\<lambda>_. InvalidCall) (bind_payload cfg v outputs)) (\<lambda>_. Inr v))))"

definition valid_transaction ::
  "('t, 'b, 'acc, 'ce) shielded_config \<Rightarrow> byte list \<Rightarrow> SettlementBundle \<Rightarrow> ValidTransaction" where
  "valid_transaction cfg prefix bundle =
     \<lparr>tag_prefix = prefix, provides = settlement_provides_tag cfg bundle,
      priority = UNSIGNED_SETTLEMENT_PRIORITY, longevity = 5, propagate = True\<rparr>"

definition validate_unsigned ::
  "('t, 'b, 'acc, 'ce) shielded_config \<Rightarrow> ('t, 'b, 'acc) world \<Rightarrow> shielded_call
    \<Rightarrow> (InvalidTransaction, ValidTransaction) result" where
  "validate_unsigned cfg w call =
     (case call of
        SubmitPrivateBatch proof_bytes outputs \<Rightarrow>
          rbind (admit cfg w (pre_validate_private_batch cfg proof_bytes) (validate_private_batch cfg proof_bytes) outputs)
            (\<lambda>bundle. Inr (valid_transaction cfg private_tag_prefix bundle))
      | SubmitPublicBatch proof_bytes outputs \<Rightarrow>
          rbind (admit cfg w (pre_validate_public_batch cfg proof_bytes) (validate_public_batch cfg proof_bytes) outputs)
            (\<lambda>bundle. Inr (valid_transaction cfg public_tag_prefix bundle))
      | _ \<Rightarrow> Inl InvalidCall)"

definition include_settlement ::
  "('t, 'b, 'acc, 'ce) shielded_config \<Rightarrow> ('t, 'b, 'acc) world \<Rightarrow> (shielded_error, SettlementBundle) result
    \<Rightarrow> (shielded_error, SettlementBundle) result \<Rightarrow> ShieldedOutput list \<Rightarrow> (InvalidTransaction, unit) result" where
  "include_settlement cfg w parsed verified outputs =
     rbind (map_err (\<lambda>_. InvalidCall) parsed) (\<lambda>p.
       rbind (map_err settlement_plan_error (plan_settlement cfg w p outputs)) (\<lambda>_.
         rbind (map_err (\<lambda>_. InvalidCall) verified) (\<lambda>v.
           rbind (map_err (\<lambda>_. InvalidCall) (check_settlement cfg w v outputs)) (\<lambda>_. Inr ()))))"

definition pre_dispatch ::
  "('t, 'b, 'acc, 'ce) shielded_config \<Rightarrow> ('t, 'b, 'acc) world \<Rightarrow> shielded_call \<Rightarrow> (InvalidTransaction, unit) result"
where
  "pre_dispatch cfg w call =
     (case call of
        CoinbaseCall _ _ \<Rightarrow> Inr ()
      | SubmitPrivateBatch proof_bytes outputs \<Rightarrow>
          include_settlement cfg w (pre_validate_private_batch cfg proof_bytes) (validate_private_batch cfg proof_bytes) outputs
      | SubmitPublicBatch proof_bytes outputs \<Rightarrow>
          include_settlement cfg w (pre_validate_public_batch cfg proof_bytes) (validate_public_batch cfg proof_bytes) outputs
      | ShieldCall _ _ _ \<Rightarrow> Inl InvalidCall)"

section \<open>The embedded verifiers\<close>

text \<open>
  The artifacts are files the build generates and their dimensions come from the build's environment;
  both are arguments. \<open>private_batch_verifier\<close> and \<open>public_batch_verifier\<close> load them once
  and keep a failed load as \<open>None\<close>.
\<close>

definition private_proof_verifier ::
  "('fc, 'fp, 'cr, 'pf) plonky2 \<Rightarrow> ('fc, 'fp, 'cr) QneroPrivateBatchVerifier
    \<Rightarrow> (ProofRejection, PrivateBatchPublicInputs) proof_verifier" where
  "private_proof_verifier px v =
     \<lparr>parse_proof_bytes = private_parse_proof_bytes px v, verify_proof_bytes = private_verify_proof_bytes px v\<rparr>"

definition public_proof_verifier ::
  "('fc, 'fp, 'cr, 'pf) plonky2 \<Rightarrow> ('fc, 'fp, 'cr) QneroPublicBatchVerifier
    \<Rightarrow> (ProofRejection, PublicBatchPublicInputs) proof_verifier" where
  "public_proof_verifier px v =
     \<lparr>parse_proof_bytes = public_parse_proof_bytes px v, verify_proof_bytes = public_verify_proof_bytes px v\<rparr>"

definition private_batch_verifier ::
  "('fc, 'fp, 'cr, 'pf) plonky2 \<Rightarrow> byte list \<Rightarrow> nat
    \<Rightarrow> (ProofRejection, PrivateBatchPublicInputs) proof_verifier option" where
  "private_batch_verifier px artifact num_leaves =
     (case private_verifier_from_artifact_bytes px artifact num_leaves of
        Inl _ \<Rightarrow> None | Inr v \<Rightarrow> Some (private_proof_verifier px v))"

definition public_batch_verifier ::
  "('fc, 'fp, 'cr, 'pf) plonky2 \<Rightarrow> byte list \<Rightarrow> nat \<Rightarrow> nat
    \<Rightarrow> (ProofRejection, PublicBatchPublicInputs) proof_verifier option" where
  "public_batch_verifier px artifact num_inner num_leaves =
     (case public_verifier_from_artifact_bytes px artifact num_inner num_leaves of
        Inl _ \<Rightarrow> None | Inr v \<Rightarrow> Some (public_proof_verifier px v))"

interpretation private_reads: verifier_agreement "private_proof_verifier px v" "wf_private_batch (private_num_leaves v)"
  for px v
proof
  fix bytes i
  show "verify_proof_bytes (private_proof_verifier px v) bytes = Inr i \<Longrightarrow>
      parse_proof_bytes (private_proof_verifier px v) bytes = Inr i"
    by (auto simp: private_proof_verifier_def private_verify_proof_bytes_def private_parse_proof_bytes_def)
  show "parse_proof_bytes (private_proof_verifier px v) bytes = Inr i \<Longrightarrow> wf_private_batch (private_num_leaves v) i"
    using private_batch_felts_parse by (fastforce simp: private_proof_verifier_def private_parse_proof_bytes_def)
qed

interpretation public_reads: verifier_agreement "public_proof_verifier px v"
    "wf_public_batch (public_num_inner v) (public_num_leaves v)"
  for px v
proof
  fix bytes i
  show "verify_proof_bytes (public_proof_verifier px v) bytes = Inr i \<Longrightarrow>
      parse_proof_bytes (public_proof_verifier px v) bytes = Inr i"
    by (auto simp: public_proof_verifier_def public_verify_proof_bytes_def public_parse_proof_bytes_def)
  show "parse_proof_bytes (public_proof_verifier px v) bytes = Inr i \<Longrightarrow>
      wf_public_batch (public_num_inner v) (public_num_leaves v) i"
    using public_batch_felts_parse by (fastforce simp: public_proof_verifier_def public_parse_proof_bytes_def)
qed

section \<open>The pool wired to the tree and the verifiers\<close>

text \<open>
  \<open>impl pallet_shielded::Config for Runtime\<close>: the recorder is the commitment tree, the verifiers
  are the embedded ones; the constants and the other functions come from \<open>base\<close>.
\<close>

definition wire_pool ::
  "('fc, 'fp, 'cr, 'pf) plonky2 \<Rightarrow> byte list \<Rightarrow> byte list \<Rightarrow> nat \<Rightarrow> nat
    \<Rightarrow> (zk_tree, 'b, 'acc, 'ce) shielded_config \<Rightarrow> (zk_tree, 'b, 'acc, 'ce) shielded_config" where
  "wire_pool px private_artifact public_artifact num_inner num_leaves base =
     base\<lparr>cfg_insert_commitment := insert_commitment, cfg_remaining_capacity := remaining_capacity,
          cfg_private_verifier := private_batch_verifier px private_artifact num_leaves,
          cfg_public_verifier := public_batch_verifier px public_artifact num_inner num_leaves\<rparr>"

end
