(* ===== verification/ShieldedPlan.thy ===== *)
theory ShieldedPlan
  imports Shielded
begin

text \<open>
  What the planning of a settlement decides. \<open>settle_flags\<close>, \<open>settled_slots\<close> and
  \<open>slot_ok\<close> state declaratively which segments settle and what each settling slot must
  satisfy; the lemmas show that the walk of \<open>plan_settlement\<close> computes exactly that.
\<close>

section \<open>Declarative reading of a plan\<close>

definition seg_nullifiers :: "Segment \<Rightarrow> hash256 list" where
  "seg_nullifiers seg = concat (map slot_nullifiers (seg_slots seg))"

definition seg_settles :: "('t, 'b, 'acc, 'ce) shielded_config \<Rightarrow> ('t, 'b, 'acc) world \<Rightarrow> hash256 set \<Rightarrow> Segment \<Rightarrow> bool" where
  "seg_settles cfg w C seg \<longleftrightarrow>
     \<not> conflicts w C seg \<and> anchor_failure w seg (sys_block_number w) (BlockHashWindow cfg) = None"

fun settle_flags :: "('t, 'b, 'acc, 'ce) shielded_config \<Rightarrow> ('t, 'b, 'acc) world \<Rightarrow> hash256 set \<Rightarrow> Segment list \<Rightarrow> bool list" where
  "settle_flags cfg w C [] = []"
| "settle_flags cfg w C (seg # segs) =
     (let yes = seg_settles cfg w C seg
      in yes # settle_flags cfg w (if yes then C \<union> set (seg_nullifiers seg) else C) segs)"

fun first_stale :: "('t, 'b, 'acc, 'ce) shielded_config \<Rightarrow> ('t, 'b, 'acc) world \<Rightarrow> hash256 set \<Rightarrow> Segment list \<Rightarrow> shielded_error option" where
  "first_stale cfg w C [] = None"
| "first_stale cfg w C (seg # segs) =
     (if conflicts w C seg then first_stale cfg w C segs
      else case anchor_failure w seg (sys_block_number w) (BlockHashWindow cfg) of
        Some e \<Rightarrow> Some e
      | None \<Rightarrow> first_stale cfg w (C \<union> set (seg_nullifiers seg)) segs)"

definition settled_segments :: "Segment list \<Rightarrow> bool list \<Rightarrow> Segment list" where
  "settled_segments segs flags = map fst (filter snd (zip segs flags))"

definition settled_slots :: "Segment list \<Rightarrow> bool list \<Rightarrow> RealSlot list" where
  "settled_slots segs flags = concat (map seg_slots (settled_segments segs flags))"

definition total_slots :: "Segment list \<Rightarrow> nat" where
  "total_slots segs = sum_list (map (\<lambda>seg. length (seg_slots seg)) segs)"

text \<open>A settling slot and the pair of ciphertexts at its position.\<close>

fun settled_pairs :: "Segment list \<Rightarrow> bool list \<Rightarrow> ShieldedOutput list \<Rightarrow> (RealSlot \<times> ShieldedOutput) list" where
  "settled_pairs (seg # segs) (yes # flags) outputs =
     (if yes then zip (seg_slots seg) outputs else [])
     @ settled_pairs segs flags (drop (length (seg_slots seg)) outputs)"
| "settled_pairs _ _ _ = []"

definition slot_ok :: "('t, 'b, 'acc, 'ce) shielded_config \<Rightarrow> RealSlot \<Rightarrow> ShieldedOutput \<Rightarrow> bool" where
  "slot_ok cfg slot output \<longleftrightarrow>
     rs_fee slot \<le> MAX_VALUE \<and> zero_hash \<notin> set (slot_commitments slot)
     \<and> zero_hash \<notin> set (slot_nullifiers slot)
     \<and> ct_1 output \<noteq> [] \<and> ct_2 output \<noteq> []
     \<and> fee_floor cfg (MinLeafFee cfg) (output_bytes output) \<le> rs_fee slot"

section \<open>The walk over one segment\<close>

lemma claim_nullifiers_Inr:
  "claim_nullifiers ns C = Inr C' \<longleftrightarrow>
     distinct ns \<and> set ns \<inter> C = {} \<and> zero_hash \<notin> set ns \<and> C' = C \<union> set ns"
  by (induction ns arbitrary: C) auto

lemma conflicts_iff:
  "conflicts w C seg \<longleftrightarrow> set (seg_nullifiers seg) \<inter> (UsedNullifiers (pool w) \<union> C) \<noteq> {}"
  by (auto simp: conflicts_def list_ex_iff seg_nullifiers_def)

lemma plan_slot_Inr:
  assumes "ps_real_slots ps < length outputs"
  shows "plan_slot cfg outputs slot ps = Inr ps' \<longleftrightarrow>
     slot_ok cfg slot (outputs ! ps_real_slots ps)
     \<and> distinct (slot_nullifiers slot) \<and> set (slot_nullifiers slot) \<inter> claimed ps = {}
     \<and> ps_fee_steps ps + rs_fee slot < 2 ^ 128 \<and> ps_slots ps + 1 < 2 ^ 32 \<and> ps_real_slots ps + 1 < 2 ^ 32
     \<and> ps' = ps\<lparr>claimed := claimed ps \<union> set (slot_nullifiers slot),
                ps_fee_steps := ps_fee_steps ps + rs_fee slot, ps_slots := ps_slots ps + 1,
                ps_real_slots := ps_real_slots ps + 1\<rparr>"
  using assms by (auto simp: plan_slot_def claim_nullifiers_Inr slot_ok_def)

text \<open>The plan state after the slots \<open>ss\<close> of a segment settled.\<close>

definition after_slots :: "RealSlot list \<Rightarrow> plan_state \<Rightarrow> plan_state" where
  "after_slots ss ps =
     ps\<lparr>claimed := claimed ps \<union> set (concat (map slot_nullifiers ss)),
        ps_fee_steps := ps_fee_steps ps + sum_list (map rs_fee ss),
        ps_slots := ps_slots ps + length ss, ps_real_slots := ps_real_slots ps + length ss\<rparr>"

lemma plan_slots_Inr:
  assumes "ps_real_slots ps + length ss \<le> length outputs"
    and "ps_slots ps \<le> ps_real_slots ps" and "ss \<noteq> []"
  shows "plan_slots cfg outputs ss ps = Inr ps' \<longleftrightarrow>
     (\<forall>(slot, output) \<in> set (zip ss (drop (ps_real_slots ps) outputs)). slot_ok cfg slot output)
     \<and> distinct (concat (map slot_nullifiers ss)) \<and> set (concat (map slot_nullifiers ss)) \<inter> claimed ps = {}
     \<and> ps_fee_steps ps + sum_list (map rs_fee ss) < 2 ^ 128 \<and> ps_real_slots ps + length ss < 2 ^ 32
     \<and> ps' = after_slots ss ps"
  using assms
proof (induction ss arbitrary: ps)
  case Nil
  then show ?case by simp
next
  case (Cons slot ss)
  let ?p1 = "ps\<lparr>claimed := claimed ps \<union> set (slot_nullifiers slot),
                ps_fee_steps := ps_fee_steps ps + rs_fee slot, ps_slots := ps_slots ps + 1,
                ps_real_slots := ps_real_slots ps + 1\<rparr>"
  have lt: "ps_real_slots ps < length outputs" using Cons.prems(1) by simp
  have drop: "drop (ps_real_slots ps) outputs = outputs ! ps_real_slots ps # drop (Suc (ps_real_slots ps)) outputs"
    using lt by (simp add: Cons_nth_drop_Suc)
  have one: "plan_slots cfg outputs (slot # ss) ps = Inr ps' \<longleftrightarrow>
      slot_ok cfg slot (outputs ! ps_real_slots ps)
     \<and> distinct (slot_nullifiers slot) \<and> set (slot_nullifiers slot) \<inter> claimed ps = {}
     \<and> ps_fee_steps ps + rs_fee slot < 2 ^ 128 \<and> ps_slots ps + 1 < 2 ^ 32 \<and> ps_real_slots ps + 1 < 2 ^ 32
     \<and> plan_slots cfg outputs ss ?p1 = Inr ps'"
    by (auto simp: plan_slot_Inr [OF lt])
  let ?a = "slot_nullifiers slot" and ?b = "concat (map slot_nullifiers ss)"
  let ?A = "slot_ok cfg slot (outputs ! ps_real_slots ps)"
  let ?Z = "\<forall>(slot, output) \<in> set (zip ss (drop (Suc (ps_real_slots ps)) outputs)). slot_ok cfg slot output"
  let ?E = "ps' = after_slots (slot # ss) ps"
  have sets: "distinct ?a \<and> set ?a \<inter> claimed ps = {} \<and> distinct ?b \<and> set ?b \<inter> (claimed ps \<union> set ?a) = {}
      \<longleftrightarrow> distinct (?a @ ?b) \<and> set (?a @ ?b) \<inter> claimed ps = {}" by auto
  have bounds: "ps_fee_steps ps + rs_fee slot < 2 ^ 128 \<and> ps_slots ps + 1 < 2 ^ 32 \<and> ps_real_slots ps + 1 < 2 ^ 32
      \<and> ps_fee_steps ps + rs_fee slot + sum_list (map rs_fee ss) < 2 ^ 128 \<and> ps_real_slots ps + 1 + length ss < 2 ^ 32
      \<longleftrightarrow> ps_fee_steps ps + sum_list (map rs_fee (slot # ss)) < 2 ^ 128 \<and> ps_real_slots ps + length (slot # ss) < 2 ^ 32"
    using Cons.prems(2) by auto
  have rest: "plan_slots cfg outputs ss ?p1 = Inr ps' \<longleftrightarrow>
       ?Z \<and> distinct ?b \<and> set ?b \<inter> (claimed ps \<union> set ?a) = {}
       \<and> ps_fee_steps ps + rs_fee slot + sum_list (map rs_fee ss) < 2 ^ 128
       \<and> ps_real_slots ps + 1 + length ss < 2 ^ 32 \<and> ?E" if "ps_fee_steps ps + rs_fee slot < 2 ^ 128" "ps_real_slots ps + 1 < 2 ^ 32"
  proof (cases "ss = []")
    case True
    then show ?thesis using that by (auto simp: after_slots_def)
  next
    case False
    have "after_slots ss ?p1 = after_slots (slot # ss) ps"
      by (simp add: after_slots_def Un_assoc add.assoc)
    then show ?thesis using Cons.IH [of ?p1] Cons.prems False by simp
  qed
  have goal: "(\<forall>(slot, output) \<in> set (zip (slot # ss) (drop (ps_real_slots ps) outputs)). slot_ok cfg slot output) \<longleftrightarrow> ?A \<and> ?Z"
    by (simp add: drop)
  have cc: "concat (map slot_nullifiers (slot # ss)) = ?a @ ?b" by simp
  show ?case
    unfolding one goal cc using rest sets bounds by blast
qed

lemma skip_segment_Inr:
  assumes "ps_skipped_slots ps \<le> ps_real_slots ps"
  shows "skip_segment seg ps = Inr ps' \<longleftrightarrow>
     ps_real_slots ps + length (seg_slots seg) < 2 ^ 32
     \<and> ps' = ps\<lparr>ps_settles := ps_settles ps @ [False],
                ps_skipped_slots := ps_skipped_slots ps + length (seg_slots seg),
                ps_real_slots := ps_real_slots ps + length (seg_slots seg)\<rparr>"
proof -
  have "length (seg_slots seg) < 2 ^ 32 \<and> ps_skipped_slots ps + length (seg_slots seg) < 2 ^ 32"
    if "ps_real_slots ps + length (seg_slots seg) < 2 ^ 32"
    using that assms by linarith
  then show ?thesis
    by (auto simp: skip_segment_def try_into_u_def split: if_splits)
qed

definition after_segment ::
  "('t, 'b, 'acc, 'ce) shielded_config \<Rightarrow> ('t, 'b, 'acc) world \<Rightarrow> Segment \<Rightarrow> plan_state \<Rightarrow> plan_state" where
  "after_segment cfg w seg ps =
     (if seg_settles cfg w (claimed ps) seg
      then after_slots (seg_slots seg) (ps\<lparr>ps_settles := ps_settles ps @ [True]\<rparr>)
      else ps\<lparr>ps_settles := ps_settles ps @ [False],
              ps_skipped_slots := ps_skipped_slots ps + length (seg_slots seg),
              ps_real_slots := ps_real_slots ps + length (seg_slots seg),
              stale_anchor := (case stale_anchor ps of Some e \<Rightarrow> Some e
                               | None \<Rightarrow> (if conflicts w (claimed ps) seg then None
                                          else anchor_failure w seg (sys_block_number w) (BlockHashWindow cfg)))\<rparr>)"

definition segment_ok ::
  "('t, 'b, 'acc, 'ce) shielded_config \<Rightarrow> ShieldedOutput list \<Rightarrow> Segment \<Rightarrow> bool" where
  "segment_ok cfg outputs seg \<longleftrightarrow>
     distinct (seg_nullifiers seg) \<and> (\<forall>(slot, output) \<in> set (zip (seg_slots seg) outputs). slot_ok cfg slot output)"

lemma plan_segment_Inr:
  assumes "ps_real_slots ps + length (seg_slots seg) \<le> length outputs"
    and "ps_slots ps + ps_skipped_slots ps = ps_real_slots ps"
    and "ps_fee_steps ps < 2 ^ 128"
  shows "plan_segment cfg w outputs seg ps = Inr ps' \<longleftrightarrow>
     seg_slots seg \<noteq> [] \<and> ps_real_slots ps + length (seg_slots seg) < 2 ^ 32
     \<and> (seg_settles cfg w (claimed ps) seg \<longrightarrow> segment_ok cfg (drop (ps_real_slots ps) outputs) seg)
     \<and> ps_fee_steps (after_segment cfg w seg ps) < 2 ^ 128
     \<and> ps' = after_segment cfg w seg ps"
proof (cases "seg_slots seg = []")
  case True
  then show ?thesis by (simp add: plan_segment_def)
next
  case nonempty: False
  consider (conflict) "conflicts w (claimed ps) seg"
    | (stale) e where "\<not> conflicts w (claimed ps) seg"
        "anchor_failure w seg (sys_block_number w) (BlockHashWindow cfg) = Some e"
    | (settle) "seg_settles cfg w (claimed ps) seg"
    by (cases "anchor_failure w seg (sys_block_number w) (BlockHashWindow cfg)") (auto simp: seg_settles_def)
  then show ?thesis
  proof cases
    case conflict
    then have no: "\<not> seg_settles cfg w (claimed ps) seg" by (simp add: seg_settles_def)
    have "plan_segment cfg w outputs seg ps = skip_segment seg ps"
      using conflict nonempty by (simp add: plan_segment_def)
    moreover have "after_segment cfg w seg ps = ps\<lparr>ps_settles := ps_settles ps @ [False],
                ps_skipped_slots := ps_skipped_slots ps + length (seg_slots seg),
                ps_real_slots := ps_real_slots ps + length (seg_slots seg)\<rparr>"
      using no conflict by (simp add: after_segment_def option.case_eq_if)
    ultimately show ?thesis
      using no nonempty assms skip_segment_Inr [of ps seg ps'] by simp
  next
    case (stale e)
    then have no: "\<not> seg_settles cfg w (claimed ps) seg" by (simp add: seg_settles_def)
    let ?ps = "ps\<lparr>stale_anchor := (case stale_anchor ps of None \<Rightarrow> Some e | Some e' \<Rightarrow> Some e')\<rparr>"
    have "plan_segment cfg w outputs seg ps = skip_segment seg ?ps"
      using stale nonempty by (simp add: plan_segment_def)
    moreover have "after_segment cfg w seg ps = ?ps\<lparr>ps_settles := ps_settles ps @ [False],
                ps_skipped_slots := ps_skipped_slots ps + length (seg_slots seg),
                ps_real_slots := ps_real_slots ps + length (seg_slots seg)\<rparr>"
      using no stale by (simp add: after_segment_def split: option.split)
    ultimately show ?thesis
      using no nonempty assms skip_segment_Inr [of ?ps seg ps'] by simp
  next
    case settle
    let ?ps = "ps\<lparr>ps_settles := ps_settles ps @ [True]\<rparr>"
    have "plan_segment cfg w outputs seg ps = plan_slots cfg outputs (seg_slots seg) ?ps"
      using settle nonempty by (simp add: plan_segment_def seg_settles_def)
    moreover have "set (seg_nullifiers seg) \<inter> claimed ps = {}"
      using settle by (auto simp: seg_settles_def conflicts_iff)
    ultimately show ?thesis
      using settle nonempty assms plan_slots_Inr [of ?ps "seg_slots seg" outputs cfg ps']
      by (auto simp: after_segment_def segment_ok_def seg_nullifiers_def after_slots_def)
  qed
qed

lemma after_segment_fields:
  "claimed (after_segment cfg w seg ps) =
     (if seg_settles cfg w (claimed ps) seg then claimed ps \<union> set (seg_nullifiers seg) else claimed ps)"
  "ps_real_slots (after_segment cfg w seg ps) = ps_real_slots ps + length (seg_slots seg)"
  "ps_slots ps + ps_skipped_slots ps = ps_real_slots ps \<Longrightarrow>
     ps_slots (after_segment cfg w seg ps) + ps_skipped_slots (after_segment cfg w seg ps)
       = ps_real_slots (after_segment cfg w seg ps)"
  by (auto simp: after_segment_def after_slots_def seg_nullifiers_def)

section \<open>The walk over all segments\<close>

definition plan_result ::
  "('t, 'b, 'acc, 'ce) shielded_config \<Rightarrow> ('t, 'b, 'acc) world \<Rightarrow> Segment list \<Rightarrow> plan_state \<Rightarrow> plan_state" where
  "plan_result cfg w segs ps =
     (let flags = settle_flags cfg w (claimed ps) segs;
          ss = settled_slots segs flags
      in ps\<lparr>claimed := claimed ps \<union> set (concat (map slot_nullifiers ss)),
            ps_fee_steps := ps_fee_steps ps + sum_list (map rs_fee ss),
            ps_slots := ps_slots ps + length ss,
            ps_skipped_slots := ps_skipped_slots ps + (total_slots segs - length ss),
            stale_anchor := (case stale_anchor ps of Some e \<Rightarrow> Some e | None \<Rightarrow> first_stale cfg w (claimed ps) segs),
            ps_settles := ps_settles ps @ flags,
            ps_real_slots := ps_real_slots ps + total_slots segs\<rparr>)"

lemma length_settle_flags [simp]: "length (settle_flags cfg w C segs) = length segs"
  by (induction segs arbitrary: C) (simp_all add: Let_def)

lemma settled_segments_Cons:
  "settled_segments (seg # segs) (yes # flags) =
     (if yes then seg # settled_segments segs flags else settled_segments segs flags)"
  by (simp add: settled_segments_def)

lemma settled_slots_Cons:
  "settled_slots (seg # segs) (yes # flags) =
     (if yes then seg_slots seg @ settled_slots segs flags else settled_slots segs flags)"
  by (simp add: settled_slots_def settled_segments_Cons)

lemma settled_slots_Nil [simp]: "settled_slots [] flags = []"
  by (simp add: settled_slots_def settled_segments_def)

lemma total_slots_simps [simp]:
  "total_slots [] = 0"
  "total_slots (seg # segs) = length (seg_slots seg) + total_slots segs"
  by (simp_all add: total_slots_def)

lemma length_settled_slots: "length (settled_slots segs flags) \<le> total_slots segs"
proof (induction segs arbitrary: flags)
  case Nil
  then show ?case by simp
next
  case (Cons seg segs)
  show ?case
  proof (cases flags)
    case Nil
    then show ?thesis by (simp add: settled_slots_def settled_segments_def)
  next
    case (Cons yes fs)
    then show ?thesis using Cons.IH [of fs] by (simp add: settled_slots_Cons)
  qed
qed

lemma seg_settles_plan_result_Cons:
  assumes "seg_settles cfg w (claimed ps) seg"
  shows "plan_result cfg w (seg # segs) ps = plan_result cfg w segs (after_segment cfg w seg ps)"
proof -
  have none: "anchor_failure w seg (sys_block_number w) (BlockHashWindow cfg) = None" "\<not> conflicts w (claimed ps) seg"
    using assms by (simp_all add: seg_settles_def)
  show ?thesis
    using assms none length_settled_slots [of segs "settle_flags cfg w (claimed ps \<union> set (seg_nullifiers seg)) segs"]
    by (cases "stale_anchor ps") (simp_all add: plan_result_def after_segment_def after_slots_def settled_slots_Cons
        Let_def seg_nullifiers_def Un_assoc add.assoc)
qed

lemma skip_plan_result_Cons:
  assumes "\<not> seg_settles cfg w (claimed ps) seg"
  shows "plan_result cfg w (seg # segs) ps = plan_result cfg w segs (after_segment cfg w seg ps)"
  using assms length_settled_slots [of segs "settle_flags cfg w (claimed ps) segs"]
  by (cases "stale_anchor ps"; cases "conflicts w (claimed ps) seg";
      cases "anchor_failure w seg (sys_block_number w) (BlockHashWindow cfg)")
    (simp_all add: plan_result_def after_segment_def settled_slots_Cons Let_def add.assoc seg_settles_def)

lemma plan_result_Cons: "plan_result cfg w (seg # segs) ps = plan_result cfg w segs (after_segment cfg w seg ps)"
  using seg_settles_plan_result_Cons skip_plan_result_Cons by (cases "seg_settles cfg w (claimed ps) seg") blast+

definition segments_ok ::
  "('t, 'b, 'acc, 'ce) shielded_config \<Rightarrow> Segment list \<Rightarrow> bool list \<Rightarrow> ShieldedOutput list \<Rightarrow> bool" where
  "segments_ok cfg segs flags outputs \<longleftrightarrow>
     (\<forall>seg \<in> set (settled_segments segs flags). distinct (seg_nullifiers seg))
     \<and> (\<forall>(slot, output) \<in> set (settled_pairs segs flags outputs). slot_ok cfg slot output)"

lemma segments_ok_Cons:
  "segments_ok cfg (seg # segs) (yes # flags) outputs \<longleftrightarrow>
     (yes \<longrightarrow> segment_ok cfg outputs seg)
     \<and> segments_ok cfg segs flags (drop (length (seg_slots seg)) outputs)"
  by (auto simp: segments_ok_def segment_ok_def settled_segments_Cons)

lemma plan_segments_Inr:
  assumes "ps_real_slots ps + total_slots segs \<le> length outputs"
    and "ps_slots ps + ps_skipped_slots ps = ps_real_slots ps"
    and "ps_fee_steps ps < 2 ^ 128" and "ps_real_slots ps < 2 ^ 32"
  shows "plan_segments cfg w outputs segs ps = Inr ps' \<longleftrightarrow>
     (\<forall>seg \<in> set segs. seg_slots seg \<noteq> []) \<and> ps_real_slots ps + total_slots segs < 2 ^ 32
     \<and> segments_ok cfg segs (settle_flags cfg w (claimed ps) segs) (drop (ps_real_slots ps) outputs)
     \<and> ps_fee_steps (plan_result cfg w segs ps) < 2 ^ 128
     \<and> ps' = plan_result cfg w segs ps"
  using assms
proof (induction segs arbitrary: ps)
  case Nil
  have "plan_result cfg w [] ps = ps"
    by (cases "stale_anchor ps") (simp_all add: plan_result_def Let_def)
  then show ?case
    using Nil.prems by (auto simp: segments_ok_def settled_segments_def)
next
  case (Cons seg segs)
  let ?p1 = "after_segment cfg w seg ps" and ?n = "length (seg_slots seg)"
  have p1: "ps_real_slots ?p1 = ps_real_slots ps + ?n"
    "ps_slots ?p1 + ps_skipped_slots ?p1 = ps_real_slots ?p1"
    "settle_flags cfg w (claimed ps) (seg # segs) =
       seg_settles cfg w (claimed ps) seg # settle_flags cfg w (claimed ?p1) segs"
    using Cons.prems(2) by (simp_all add: after_segment_fields Let_def)
  have one: "plan_segments cfg w outputs (seg # segs) ps = Inr ps' \<longleftrightarrow>
      seg_slots seg \<noteq> [] \<and> ps_real_slots ps + ?n < 2 ^ 32
     \<and> (seg_settles cfg w (claimed ps) seg \<longrightarrow> segment_ok cfg (drop (ps_real_slots ps) outputs) seg)
     \<and> ps_fee_steps ?p1 < 2 ^ 128 \<and> plan_segments cfg w outputs segs ?p1 = Inr ps'"
    using Cons.prems by (auto simp: plan_segment_Inr)
  have rest: "plan_segments cfg w outputs segs ?p1 = Inr ps' \<longleftrightarrow>
     (\<forall>seg \<in> set segs. seg_slots seg \<noteq> []) \<and> ps_real_slots ?p1 + total_slots segs < 2 ^ 32
     \<and> segments_ok cfg segs (settle_flags cfg w (claimed ?p1) segs) (drop (ps_real_slots ?p1) outputs)
     \<and> ps_fee_steps (plan_result cfg w segs ?p1) < 2 ^ 128
     \<and> ps' = plan_result cfg w segs ?p1"
    if "ps_real_slots ps + ?n < 2 ^ 32" "ps_fee_steps ?p1 < 2 ^ 128"
    using Cons.prems p1 that by (intro Cons.IH) simp_all
  have mono: "ps_fee_steps ?p1 \<le> ps_fee_steps (plan_result cfg w segs ?p1)"
    by (simp add: plan_result_def Let_def)
  have ok: "segments_ok cfg (seg # segs) (settle_flags cfg w (claimed ps) (seg # segs)) (drop (ps_real_slots ps) outputs)
     \<longleftrightarrow> (seg_settles cfg w (claimed ps) seg \<longrightarrow> segment_ok cfg (drop (ps_real_slots ps) outputs) seg)
       \<and> segments_ok cfg segs (settle_flags cfg w (claimed ?p1) segs) (drop (ps_real_slots ?p1) outputs)"
    unfolding p1(3) segments_ok_Cons p1(1) by (simp add: add.commute)
  have bound: "ps_real_slots ps + total_slots (seg # segs) < 2 ^ 32 \<longleftrightarrow>
      ps_real_slots ps + ?n < 2 ^ 32 \<and> ps_real_slots ?p1 + total_slots segs < 2 ^ 32"
    unfolding p1(1) by auto
  show ?case
    unfolding one ok bound plan_result_Cons using rest mono by (auto intro: le_less_trans)
qed

lemma plan_segments_real:
  "plan_segments cfg w outputs segs ps = Inr ps' \<Longrightarrow> ps_real_slots ps' = ps_real_slots ps + total_slots segs"
proof (induction segs arbitrary: ps)
  case Nil
  then show ?case by simp
next
  case (Cons seg segs)
  have slots: "ps_real_slots q' = ps_real_slots q + length ss"
    if "plan_slots cfg outputs ss q = Inr q'" for ss and q q' :: plan_state
    using that by (induction ss arbitrary: q) (auto simp: plan_slot_def)
  obtain p1 where p1: "plan_segment cfg w outputs seg ps = Inr p1" "plan_segments cfg w outputs segs p1 = Inr ps'"
    using Cons.prems by auto
  have "ps_real_slots p1 = ps_real_slots ps + length (seg_slots seg)"
    using p1(1) by (auto simp: plan_segment_def skip_segment_def split: if_splits option.splits dest!: slots)
  then show ?case using Cons.IH [OF p1(2)] by simp
qed

section \<open>The payload's shape\<close>

definition exact_ciphertext :: "byte list \<Rightarrow> bool" where
  "exact_ciphertext bytes \<longleftrightarrow>
     length bytes = SUITE_1_CIPHERTEXT_BYTES \<and> declared_crypto_suite bytes = Some CRYPTO_SUITE_ML_KEM_1024"

lemma ensure_exact_ciphertext_Inr: "ensure_exact_ciphertext bytes = Inr u \<longleftrightarrow> exact_ciphertext bytes"
  by (auto simp: ensure_exact_ciphertext_def exact_ciphertext_def ciphertext_len_def split: if_splits)

lemma ensure_exact_outputs_Inr:
  "ensure_exact_outputs outputs = Inr u \<longleftrightarrow>
     (\<forall>output \<in> set outputs. ct_1 output = [] \<and> ct_2 output = []
        \<or> exact_ciphertext (ct_1 output) \<and> exact_ciphertext (ct_2 output))"
  by (induction outputs) (auto simp: ensure_exact_ciphertext_Inr)

lemma carried_bytes_bound: "carried_bytes outputs < 2 ^ 64"
proof -
  have "foldl (\<lambda>acc output. sat_add 64 acc (output_bytes output)) a outputs < 2 ^ 64" if "a < 2 ^ 64" for a
    using that by (induction outputs arbitrary: a) (simp_all add: sat_add_bound [of 64, simplified])
  then show ?thesis by (simp add: carried_bytes_def)
qed

lemma submission_floor_exact:
  assumes "slots + skipped < 2 ^ 32" and "MinLeafFee cfg < 2 ^ 64" and "carried < 2 ^ 64"
  shows "submission_floor cfg slots skipped carried =
    Some ((slots + skipped) * MinLeafFee cfg + div_ceil carried (bytes_per_fee_quantum cfg))"
proof -
  have "(slots + skipped) * MinLeafFee cfg \<le> 2 ^ 32 * 2 ^ 64"
    using assms(1,2) by (intro mult_le_mono) simp_all
  moreover have "div_ceil carried (bytes_per_fee_quantum cfg) \<le> carried"
    by (simp add: div_ceil_le_iff bytes_per_fee_quantum_def)
  ultimately show ?thesis
    using assms by (simp add: submission_floor_def checked_add_def checked_mul_def)
qed

section \<open>What a plan accepts\<close>

definition flags_of ::
  "('t, 'b, 'acc, 'ce) shielded_config \<Rightarrow> ('t, 'b, 'acc) world \<Rightarrow> SettlementBundle \<Rightarrow> bool list" where
  "flags_of cfg w bundle = settle_flags cfg w {} (segments bundle)"

definition settling_slots ::
  "('t, 'b, 'acc, 'ce) shielded_config \<Rightarrow> ('t, 'b, 'acc) world \<Rightarrow> SettlementBundle \<Rightarrow> RealSlot list" where
  "settling_slots cfg w bundle = settled_slots (segments bundle) (flags_of cfg w bundle)"

definition settling_fee ::
  "('t, 'b, 'acc, 'ce) shielded_config \<Rightarrow> ('t, 'b, 'acc) world \<Rightarrow> SettlementBundle \<Rightarrow> nat" where
  "settling_fee cfg w bundle = sum_list (map rs_fee (settling_slots cfg w bundle))"

text \<open>The ranges of the Rust types of the constants and the counters a plan reads.\<close>

definition plan_widths ::
  "('t, 'b, 'acc, 'ce) shielded_config \<Rightarrow> ('t, 'b, 'acc) world \<Rightarrow> ShieldedOutput list \<Rightarrow> bool" where
  "plan_widths cfg w outputs \<longleftrightarrow>
     MaxOutputsPerBlock cfg < 2 ^ 32 - 1 \<and> MinLeafFee cfg < 2 ^ 64 \<and> PoolValue (pool w) < 2 ^ 128
     \<and> length outputs < 2 ^ 32"

definition planned ::
  "('t, 'b, 'acc, 'ce) shielded_config \<Rightarrow> ('t, 'b, 'acc) world \<Rightarrow> SettlementBundle \<Rightarrow> ShieldedOutput list \<Rightarrow> PlannedSettlement"
where
  "planned cfg w bundle outputs =
     \<lparr>fee_steps = settling_fee cfg w bundle, plan_slots_settled = length (settling_slots cfg w bundle),
      skipped_slots = total_slots (segments bundle) - length (settling_slots cfg w bundle),
      plan_carried_bytes = carried_bytes outputs, settles = flags_of cfg w bundle\<rparr>"

lemma plan_result_start:
  "claimed (plan_result cfg w (segments bundle) plan_start) = set (concat (map slot_nullifiers (settling_slots cfg w bundle)))"
  "ps_fee_steps (plan_result cfg w (segments bundle) plan_start) = settling_fee cfg w bundle"
  "ps_slots (plan_result cfg w (segments bundle) plan_start) = length (settling_slots cfg w bundle)"
  "ps_skipped_slots (plan_result cfg w (segments bundle) plan_start) =
     total_slots (segments bundle) - length (settling_slots cfg w bundle)"
  "stale_anchor (plan_result cfg w (segments bundle) plan_start) = first_stale cfg w {} (segments bundle)"
  "ps_settles (plan_result cfg w (segments bundle) plan_start) = flags_of cfg w bundle"
  "ps_real_slots (plan_result cfg w (segments bundle) plan_start) = total_slots (segments bundle)"
  by (simp_all add: plan_result_def plan_start_def Let_def settling_fee_def settling_slots_def flags_of_def)

lemma length_settling_slots: "length (settling_slots cfg w bundle) \<le> total_slots (segments bundle)"
  by (simp add: settling_slots_def length_settled_slots)

lemma ensure_output_capacity_Inr:
  assumes "MaxOutputsPerBlock cfg < 2 ^ 32 - 1"
  shows "ensure_output_capacity cfg w (sat_mul 32 n 2) = Inr u \<longleftrightarrow>
     outputs_written_this_block w + 2 * n \<le> MaxOutputsPerBlock cfg"
proof (cases "n * 2 < 2 ^ 32")
  case True
  then show ?thesis
    using assms by (auto simp: ensure_output_capacity_def sat_mul_exact checked_add_def split: if_splits)
next
  case False
  then have "sat_mul 32 n 2 = 2 ^ 32 - 1" by (simp add: sat_mul_def max_u_def)
  then show ?thesis
    using assms False by (auto simp: ensure_output_capacity_def checked_add_def split: if_splits)
qed

lemma plan_segments_start:
  assumes "total_slots (segments bundle) = length outputs" and "length outputs < 2 ^ 32"
  shows "plan_segments cfg w outputs (segments bundle) plan_start = Inr ps \<longleftrightarrow>
     (\<forall>seg \<in> set (segments bundle). seg_slots seg \<noteq> [])
     \<and> segments_ok cfg (segments bundle) (flags_of cfg w bundle) outputs
     \<and> settling_fee cfg w bundle < 2 ^ 128
     \<and> ps = plan_result cfg w (segments bundle) plan_start"
proof -
  have start: "ps_real_slots plan_start = 0" "ps_slots plan_start = 0" "ps_skipped_slots plan_start = 0"
    "ps_fee_steps plan_start = 0" "claimed plan_start = {}"
    by (simp_all add: plan_start_def)
  show ?thesis
    using assms plan_segments_Inr [of plan_start "segments bundle" outputs cfg w ps]
    by (auto simp: start plan_result_start flags_of_def)
qed

lemma plan_settlement_Inr:
  assumes widths: "plan_widths cfg w outputs"
  shows "plan_settlement cfg w bundle outputs = Inr plan \<longleftrightarrow>
     settling_slots cfg w bundle \<noteq> []
     \<and> total_slots (segments bundle) = length outputs
     \<and> (\<forall>seg \<in> set (segments bundle). seg_slots seg \<noteq> [])
     \<and> is_ok (ensure_exact_outputs outputs)
     \<and> segments_ok cfg (segments bundle) (flags_of cfg w bundle) outputs
     \<and> total_slots (segments bundle) * MinLeafFee cfg + div_ceil (carried_bytes outputs) (bytes_per_fee_quantum cfg)
         \<le> settling_fee cfg w bundle
     \<and> 2 * length (settling_slots cfg w bundle) + 1 \<le> cfg_remaining_capacity cfg (tree w)
     \<and> outputs_written_this_block w + 2 * length (settling_slots cfg w bundle) \<le> MaxOutputsPerBlock cfg
     \<and> settling_fee cfg w bundle * POOL_STEP \<le> PoolValue (pool w)
     \<and> plan = planned cfg w bundle outputs" (is "?L \<longleftrightarrow> ?R")
proof (cases "total_slots (segments bundle) = length outputs")
  case False
  then show ?thesis by (auto simp: plan_settlement_def plan_start_def dest!: plan_segments_real split: if_splits)
next
  case total: True
  let ?S = "settling_slots cfg w bundle" and ?F = "settling_fee cfg w bundle"
  have S: "length ?S \<le> length outputs" "length outputs < 2 ^ 32" "?S \<noteq> [] \<Longrightarrow> segments bundle \<noteq> []"
    using length_settling_slots [of cfg w "bundle"] widths total
    by (auto simp: plan_widths_def settling_slots_def)
  have floor: "submission_floor cfg (length ?S) (length outputs - length ?S) (carried_bytes outputs) =
      Some (length outputs * MinLeafFee cfg + div_ceil (carried_bytes outputs) (bytes_per_fee_quantum cfg))"
    using S widths submission_floor_exact [of "length ?S" "length outputs - length ?S" cfg "carried_bytes outputs"]
      carried_bytes_bound [of outputs] by (simp add: plan_widths_def)
  have room: "sat_add 64 (sat_mul 64 (length ?S) 2) 1 = 2 * length ?S + 1"
    using S by (simp add: sat_add_exact sat_mul_exact)
  have fee: "?F * POOL_STEP \<le> PoolValue (pool w) \<longleftrightarrow>
      ?F < 2 ^ 128 \<and> ?F * POOL_STEP < 2 ^ 128 \<and> ?F * POOL_STEP \<le> PoolValue (pool w)"
    using widths by (auto simp: plan_widths_def POOL_STEP_def)
  show ?thesis
    unfolding plan_settlement_def
    using S fee widths
    by (auto simp: total plan_segments_start [OF total S(2)] plan_result_start floor room [simplified] is_ok_iff planned_def
        fee_planck_def ensure_output_capacity_Inr plan_widths_def split: if_splits)
qed

section \<open>The nullifiers a plan claims\<close>

lemma settled_segments_Nil [simp]: "settled_segments [] flags = []"
  by (simp add: settled_segments_def)

lemma settled_nullifiers:
  assumes "\<forall>seg \<in> set (settled_segments segs (settle_flags cfg w C segs)). distinct (seg_nullifiers seg)"
  shows "distinct (concat (map seg_nullifiers (settled_segments segs (settle_flags cfg w C segs))))
    \<and> set (concat (map seg_nullifiers (settled_segments segs (settle_flags cfg w C segs)))) \<inter> (UsedNullifiers (pool w) \<union> C) = {}"
  using assms
proof (induction segs arbitrary: C)
  case Nil
  then show ?case by simp
next
  case (Cons seg segs)
  show ?case
  proof (cases "seg_settles cfg w C seg")
    case True
    let ?C = "C \<union> set (seg_nullifiers seg)"
    have "set (seg_nullifiers seg) \<inter> (UsedNullifiers (pool w) \<union> C) = {}"
      using True by (simp add: seg_settles_def conflicts_iff)
    moreover have "distinct (concat (map seg_nullifiers (settled_segments segs (settle_flags cfg w ?C segs))))
        \<and> set (concat (map seg_nullifiers (settled_segments segs (settle_flags cfg w ?C segs))))
          \<inter> (UsedNullifiers (pool w) \<union> ?C) = {}"
      using True Cons.prems by (intro Cons.IH) (simp add: Let_def settled_segments_Cons)
    ultimately show ?thesis
      using True Cons.prems by (auto simp: Let_def settled_segments_Cons)
  next
    case False
    then show ?thesis using Cons.prems Cons.IH [of C] by (simp add: Let_def settled_segments_Cons)
  qed
qed

lemma concat_seg_nullifiers:
  "concat (map seg_nullifiers (settled_segments segs flags)) = concat (map slot_nullifiers (settled_slots segs flags))"
proof -
  have "concat (map seg_nullifiers ss) = concat (map slot_nullifiers (concat (map seg_slots ss)))" for ss
    by (induction ss) (simp_all add: seg_nullifiers_def)
  then show ?thesis by (simp add: settled_slots_def)
qed

lemma distinct_slot_seg:
  "distinct (concat (map slot_nullifiers (settled_slots segs flags))) \<Longrightarrow>
   \<forall>seg \<in> set (settled_segments segs flags). distinct (seg_nullifiers seg)"
  unfolding concat_seg_nullifiers [symmetric] by (auto simp: distinct_concat_iff)

text \<open>
  Every settling slot meets \<open>slot_ok\<close> with the pair of ciphertexts at its own position, and the
  nullifiers that settle are pairwise distinct, fresh and never zero.
\<close>

definition settling_nullifiers ::
  "('t, 'b, 'acc, 'ce) shielded_config \<Rightarrow> ('t, 'b, 'acc) world \<Rightarrow> SettlementBundle \<Rightarrow> hash256 list" where
  "settling_nullifiers cfg w bundle = concat (map slot_nullifiers (settling_slots cfg w bundle))"

definition settling_commitments ::
  "('t, 'b, 'acc, 'ce) shielded_config \<Rightarrow> ('t, 'b, 'acc) world \<Rightarrow> SettlementBundle \<Rightarrow> hash256 list" where
  "settling_commitments cfg w bundle = concat (map slot_commitments (settling_slots cfg w bundle))"

lemma segments_ok_settling:
  "segments_ok cfg (segments bundle) (flags_of cfg w bundle) outputs \<longleftrightarrow>
     distinct (settling_nullifiers cfg w bundle)
     \<and> (\<forall>(slot, output) \<in> set (settled_pairs (segments bundle) (flags_of cfg w bundle) outputs). slot_ok cfg slot output)"
  using settled_nullifiers [of "segments bundle" cfg w "{}"] distinct_slot_seg [of "segments bundle" "flags_of cfg w bundle"]
  unfolding segments_ok_def settling_nullifiers_def settling_slots_def concat_seg_nullifiers [symmetric] flags_of_def
  by auto

lemma settling_nullifiers_fresh:
  "segments_ok cfg (segments bundle) (flags_of cfg w bundle) outputs \<Longrightarrow>
   set (settling_nullifiers cfg w bundle) \<inter> UsedNullifiers (pool w) = {}"
  using settled_nullifiers [of "segments bundle" cfg w "{}"]
  unfolding segments_ok_def settling_nullifiers_def settling_slots_def concat_seg_nullifiers [symmetric] flags_of_def
  by auto

lemma map_fst_settled_pairs:
  "length flags = length segs \<Longrightarrow> total_slots segs \<le> length outputs \<Longrightarrow>
   map fst (settled_pairs segs flags outputs) = settled_slots segs flags"
proof (induction segs flags outputs rule: settled_pairs.induct)
  case (1 seg segs yes flags outputs)
  then show ?case by (auto simp: settled_slots_Cons map_fst_zip_take min_def)
qed (auto simp: settled_slots_def settled_segments_def)

lemma settling_slots_ok:
  assumes "segments_ok cfg (segments bundle) (flags_of cfg w bundle) outputs"
    and "total_slots (segments bundle) = length outputs" and "slot \<in> set (settling_slots cfg w bundle)"
  shows "rs_fee slot \<le> MAX_VALUE \<and> zero_hash \<notin> set (slot_commitments slot) \<and> zero_hash \<notin> set (slot_nullifiers slot)"
proof -
  have "slot \<in> set (map fst (settled_pairs (segments bundle) (flags_of cfg w bundle) outputs))"
    using assms map_fst_settled_pairs [of "flags_of cfg w bundle" "segments bundle" outputs]
    by (simp add: settling_slots_def flags_of_def)
  then show ?thesis using assms(1) by (fastforce simp: segments_ok_def slot_ok_def)
qed

lemma settled_pairs_zip:
  "(slot, output) \<in> set (settled_pairs segs flags outputs) \<Longrightarrow> total_slots segs = length outputs \<Longrightarrow>
   (slot, output) \<in> set (zip (concat (map seg_slots segs)) outputs)"
proof (induction segs flags outputs rule: settled_pairs.induct)
  case (1 seg segs yes flags outputs)
  let ?n = "length (seg_slots seg)"
  have split: "zip (concat (map seg_slots (seg # segs))) outputs =
      zip (seg_slots seg) (take ?n outputs) @ zip (concat (map seg_slots segs)) (drop ?n outputs)"
    using "1.prems"(2) by (simp add: zip_append1)
  have "zip (seg_slots seg) outputs = zip (seg_slots seg) (take ?n outputs)"
    using take_zip [of ?n "seg_slots seg" outputs] by simp
  moreover have "total_slots segs = length (drop ?n outputs)" using "1.prems"(2) by simp
  ultimately show ?case using "1.IH" "1.prems"(1) unfolding split by (auto split: if_splits)
qed auto

section \<open>The submission floor\<close>

lemma fee_floor_exact:
  assumes "fee_floor cfg m bytes \<le> fee" and "fee \<le> MAX_VALUE"
  shows "m + div_ceil bytes (bytes_per_fee_quantum cfg) \<le> fee"
proof -
  have "MAX_VALUE < 2 ^ 64 - 1" by (simp add: MAX_VALUE_def VALUE_BITS_def)
  then show ?thesis using assms by (auto simp: fee_floor_def sat_add_def max_u_def min_def split: if_splits)
qed

lemma sum_fee_floors:
  assumes "\<forall>(slot, output) \<in> set ps. slot_ok cfg slot output"
  shows "length ps * MinLeafFee cfg + div_ceil (sum_list (map (output_bytes \<circ> snd) ps)) (bytes_per_fee_quantum cfg)
    \<le> sum_list (map (rs_fee \<circ> fst) ps)"
  using assms
proof (induction ps)
  case Nil
  then show ?case by simp
next
  case (Cons p ps)
  obtain slot pay where p: "p = (slot, pay)" by (cases p)
  let ?q = "bytes_per_fee_quantum cfg"
  have q: "0 < ?q" by (simp add: bytes_per_fee_quantum_def)
  have "MinLeafFee cfg + div_ceil (output_bytes pay) ?q \<le> rs_fee slot"
    using Cons.prems p by (intro fee_floor_exact) (simp_all add: slot_ok_def)
  moreover have "div_ceil (output_bytes pay + sum_list (map (output_bytes \<circ> snd) ps)) ?q
      \<le> div_ceil (output_bytes pay) ?q + div_ceil (sum_list (map (output_bytes \<circ> snd) ps)) ?q"
    by (rule div_ceil_add_le [OF q])
  ultimately show ?case using Cons p by (simp add: comp_def)
qed

lemma carried_bytes_le: "carried_bytes outputs \<le> sum_list (map output_bytes outputs)"
proof -
  have "foldl (\<lambda>acc output. sat_add 64 acc (output_bytes output)) a outputs \<le> a + sum_list (map output_bytes outputs)" for a
  proof (induction outputs arbitrary: a)
    case (Cons x xs)
    show ?case using Cons [of "sat_add 64 a (output_bytes x)"] sat_add_le [of 64 a "output_bytes x"] by simp
  qed simp
  from this [of 0] show ?thesis by (simp add: carried_bytes_def)
qed

lemma map_snd_settled_pairs:
  "set flags \<subseteq> {True} \<Longrightarrow> length flags = length segs \<Longrightarrow> total_slots segs = length outputs \<Longrightarrow>
   map snd (settled_pairs segs flags outputs) = outputs"
proof (induction segs flags outputs rule: settled_pairs.induct)
  case (1 seg segs yes flags outputs)
  let ?n = "length (seg_slots seg)"
  have "map snd (zip (seg_slots seg) outputs) = take ?n outputs"
    using "1.prems"(3) by (simp add: map_snd_zip_take min_def)
  moreover have "map snd (settled_pairs segs flags (drop ?n outputs)) = drop ?n outputs"
    using 1 by simp
  ultimately show ?case using "1.prems"(1) by simp
qed (auto simp: total_slots_def)

lemma submission_floor_implied:
  assumes "set (flags_of cfg w bundle) \<subseteq> {True}" and "total_slots (segments bundle) = length outputs"
    and "segments_ok cfg (segments bundle) (flags_of cfg w bundle) outputs"
  shows "length outputs * MinLeafFee cfg + div_ceil (carried_bytes outputs) (bytes_per_fee_quantum cfg)
    \<le> settling_fee cfg w bundle"
proof -
  let ?ps = "settled_pairs (segments bundle) (flags_of cfg w bundle) outputs"
  have len: "length (flags_of cfg w bundle) = length (segments bundle)" by (simp add: flags_of_def)
  have snd: "map snd ?ps = outputs" using assms len by (intro map_snd_settled_pairs)
  have fst: "map fst ?ps = settling_slots cfg w bundle"
    using assms len by (simp add: settling_slots_def map_fst_settled_pairs)
  have q: "0 < bytes_per_fee_quantum cfg" by (simp add: bytes_per_fee_quantum_def)
  have "length ?ps = length outputs" using snd by (metis length_map)
  moreover have "map (output_bytes \<circ> snd) ?ps = map output_bytes outputs" using snd by (metis map_map)
  moreover have "map (rs_fee \<circ> fst) ?ps = map rs_fee (settling_slots cfg w bundle)" using fst by (metis map_map)
  ultimately have "length outputs * MinLeafFee cfg
      + div_ceil (sum_list (map output_bytes outputs)) (bytes_per_fee_quantum cfg) \<le> settling_fee cfg w bundle"
    using sum_fee_floors [of ?ps cfg] assms(3) by (simp add: segments_ok_def settling_fee_def)
  then show ?thesis using div_ceil_mono [OF carried_bytes_le [of outputs] q] by linarith
qed

lemma plan_segments_not_underpaid:
  "plan_segments cfg w outputs segs ps \<noteq> Inl PayloadUnderpaid"
proof -
  have claim: "claim_nullifiers ns C \<noteq> Inl PayloadUnderpaid" for ns C
    by (induction ns arbitrary: C) auto
  have slot: "plan_slot cfg outputs slot ps \<noteq> Inl PayloadUnderpaid" for slot and ps :: plan_state
    using claim by (simp add: plan_slot_def rbind_eq_Inl)
  have slots: "plan_slots cfg outputs ss ps \<noteq> Inl PayloadUnderpaid" for ss and ps :: plan_state
    using slot by (induction ss arbitrary: ps) (auto simp: rbind_eq_Inl)
  have "plan_segment cfg w outputs seg ps \<noteq> Inl PayloadUnderpaid" for seg and ps :: plan_state
    using slots by (auto simp: plan_segment_def skip_segment_def rbind_eq_Inl split: option.splits)
  then show ?thesis by (induction segs arbitrary: ps) (auto simp: rbind_eq_Inl)
qed

lemma plan_underpaid:
  assumes "plan_settlement cfg w bundle outputs = Inl PayloadUnderpaid"
  shows "\<exists>ps f. plan_segments cfg w outputs (segments bundle) plan_start = Inr ps
    \<and> length outputs = ps_real_slots ps \<and> \<not> f \<le> ps_fee_steps ps
    \<and> submission_floor cfg (ps_slots ps) (ps_skipped_slots ps) (carried_bytes outputs) = Some f"
proof -
  have exact: "ensure_exact_outputs os \<noteq> Inl PayloadUnderpaid" for os
    by (induction os) (auto simp: ensure_exact_ciphertext_def rbind_eq_Inl)
  have anchor: "anchor_failure w seg current window \<noteq> Some PayloadUnderpaid" for seg current window
    by (simp add: anchor_failure_def Let_def)
  have slots: "stale_anchor q' = stale_anchor q" if "plan_slots cfg outputs ss q = Inr q'" for ss q q'
    using that by (induction ss arbitrary: q) (auto simp: plan_slot_def)
  have one: "stale_anchor q' \<noteq> Some PayloadUnderpaid"
    if "plan_segment cfg w outputs seg q = Inr q'" "stale_anchor q \<noteq> Some PayloadUnderpaid" for seg q q'
    using that anchor by (auto simp: plan_segment_def skip_segment_def dest!: slots split: if_splits option.splits)
  have "stale_anchor q' \<noteq> Some PayloadUnderpaid"
    if "plan_segments cfg w outputs segs q = Inr q'" "stale_anchor q \<noteq> Some PayloadUnderpaid" for segs q q'
    using that by (induction segs arbitrary: q) (auto dest: one)
  then have "stale_anchor ps \<noteq> Some PayloadUnderpaid"
    if "plan_segments cfg w outputs (segments bundle) plan_start = Inr ps" for ps
    using that by (simp add: plan_start_def)
  with assms exact plan_segments_not_underpaid [of cfg w outputs "segments bundle" plan_start]
  show ?thesis
    unfolding plan_settlement_def
    by (auto simp: rbind_eq_Inl ensure_output_capacity_def fee_planck_def split: if_splits option.splits)
qed

end
