(* ===== verification/ShieldedSettle.thy ===== *)
theory ShieldedSettle
  imports ShieldedPlan
begin

text \<open>
  What a settlement writes. \<open>writes_slots\<close> states the whole effect of writing a list of slots
  (nullifiers spent, commitments appended, blocks recorded, outputs counted, everything else as it
  was); the locale \<open>shielded_pool\<close> proves it for every pool whose recorder keeps the
  \<open>commitment_recorder\<close> contract, and the interpretation at the end gives it for the pool wired
  to the commitment tree.
\<close>

section \<open>Bundles read off a proof\<close>

definition canonical_bundle :: "SettlementBundle \<Rightarrow> bool" where
  "canonical_bundle bundle \<longleftrightarrow>
     (\<forall>slot \<in> set (real_slots bundle). \<forall>d \<in> set (slot_nullifiers slot) \<union> set (slot_commitments slot). digest_ok d)"

lemma digest_bytes_ok: "length d = 4 \<Longrightarrow> digest_ok (digest_bytes d)"
  by (auto simp: digest_bytes_def digest_ok_def intro!: canonical_digest_of_limbs to_canonical_lt)

lemma real_slot_of_ok:
  assumes "wf_slot s" and "d \<in> set (slot_nullifiers (real_slot_of s)) \<union> set (slot_commitments (real_slot_of s))"
  shows "digest_ok d"
proof -
  have "nullifiers s ! i \<in> set (nullifiers s)" "commitments s ! i \<in> set (commitments s)" if "i < 2" for i
    using that assms(1) by (simp_all add: wf_slot_def)
  from this [of 0] this [of 1] show ?thesis
    using assms by (auto simp: slot_nullifiers_def slot_commitments_def real_slot_of_def wf_slot_def
        intro: digest_bytes_ok)
qed

lemma segment_of_ok:
  "wf_private_batch n b \<Longrightarrow> slot \<in> set (seg_slots (segment_of b)) \<Longrightarrow>
   d \<in> set (slot_nullifiers slot) \<union> set (slot_commitments slot) \<Longrightarrow> digest_ok d"
  using real_slot_of_ok by (auto simp: segment_of_def wf_private_batch_def)

lemma canonical_from_private: "wf_private_batch n b \<Longrightarrow> canonical_bundle (from_private_batch b)"
  using segment_of_ok by (auto simp: canonical_bundle_def from_private_batch_def real_slots_def)

lemma canonical_from_public: "wf_public_batch m n p \<Longrightarrow> canonical_bundle (from_public_batch p)"
  using segment_of_ok
  by (fastforce simp: canonical_bundle_def from_public_batch_def real_slots_def wf_public_batch_def
      settleable_batches_def)

lemma settling_slots_subset: "set (settling_slots cfg w bundle) \<subseteq> set (real_slots bundle)"
  by (auto simp: settling_slots_def settled_slots_def settled_segments_def real_slots_def dest: set_zip_leftD)

section \<open>The effect of writing slots\<close>

fun event_nullifiers :: "'acc shielded_event \<Rightarrow> hash256 list" where
  "event_nullifiers (SlotSettled ns cs is lens) = [fst ns, snd ns]"
| "event_nullifiers _ = []"

text \<open>Every nullifier the pool ever announced as settled, in order.\<close>

definition nullifier_log :: "'acc shielded_storage \<Rightarrow> hash256 list" where
  "nullifier_log p = concat (map event_nullifiers (shielded_events p))"

definition same_elsewhere :: "('t, 'b, 'acc) world \<Rightarrow> ('t, 'b, 'acc) world \<Rightarrow> bool" where
  "same_elsewhere w w' \<longleftrightarrow>
     balances w' = balances w \<and> sys_block_number w' = sys_block_number w \<and> sys_block_hash w' = sys_block_hash w
     \<and> sys_pre_runtime w' = sys_pre_runtime w
     \<and> ActiveProtocolProfile (pool w') = ActiveProtocolProfile (pool w) \<and> EntryCount (pool w') = EntryCount (pool w)
     \<and> PendingCoinbase (pool w') = PendingCoinbase (pool w) \<and> CoinbaseValues (pool w') = CoinbaseValues (pool w)
     \<and> storage_version (pool w') = storage_version (pool w)"

definition writes_slots ::
  "('t \<Rightarrow> nat) \<Rightarrow> ('t \<Rightarrow> hash256 list) \<Rightarrow> ('t, 'b, 'acc) world \<Rightarrow> RealSlot list \<Rightarrow> ('t, 'b, 'acc) world \<Rightarrow> bool" where
  "writes_slots lt lv w ss w' \<longleftrightarrow>
     UsedNullifiers (pool w') = UsedNullifiers (pool w) \<union> set (concat (map slot_nullifiers ss))
     \<and> nullifier_log (pool w') = nullifier_log (pool w) @ concat (map slot_nullifiers ss)
     \<and> lv (tree w') = lv (tree w) @ concat (map slot_commitments ss)
     \<and> lt (tree w') = lt (tree w) + 2 * length ss
     \<and> LeafBlocks (pool w') = (\<lambda>i. if lt (tree w) \<le> i \<and> i < lt (tree w') then Some (sys_block_number w)
                                    else LeafBlocks (pool w) i)
     \<and> (outputs_written_this_block w + 2 * length ss < 2 ^ 32 \<longrightarrow>
          outputs_written_this_block w' = outputs_written_this_block w + 2 * length ss)
     \<and> PoolValue (pool w') = PoolValue (pool w) \<and> PendingCoinbaseFee (pool w') = PendingCoinbaseFee (pool w)
     \<and> same_elsewhere w w'"

lemma writes_slots_refl: "writes_slots lt lv w [] w"
  by (auto simp: writes_slots_def same_elsewhere_def fun_eq_iff)

lemma writes_slots_trans:
  "writes_slots lt lv w ss w1 \<Longrightarrow> writes_slots lt lv w1 ss' w2 \<Longrightarrow> writes_slots lt lv w (ss @ ss') w2"
  unfolding writes_slots_def by (fastforce simp: same_elsewhere_def fun_eq_iff)

section \<open>The fee of a settlement\<close>

text \<open>The author's share of a fee of \<open>steps\<close>, in steps: what the burn rate leaves.\<close>

definition author_share :: "('t, 'b, 'acc, 'ce) shielded_config \<Rightarrow> nat \<Rightarrow> nat" where
  "author_share cfg steps = steps - cfg_fee_burn_mul_ceil cfg steps"

lemma account_fee_effect:
  assumes ok: "account_fee cfg steps w = Inr (w', fee)"
    and bounded: "PoolValue (pool w) + PendingCoinbaseFee (pool w) < 2 ^ 128"
  shows "fee = steps * POOL_STEP \<and> PoolValue (pool w') + fee = PoolValue (pool w)
    \<and> PendingCoinbaseFee (pool w') = PendingCoinbaseFee (pool w) + author_share cfg steps * POOL_STEP"
proof (cases "steps = 0")
  case True
  then show ?thesis using ok by (simp add: account_fee_def author_share_def)
next
  case False
  have fee: "fee = steps * POOL_STEP" "fee \<le> PoolValue (pool w)"
    using ok False by (auto simp: account_fee_def fee_planck_def Let_def split: if_splits)
  have "author_share cfg steps * POOL_STEP \<le> fee" by (simp add: fee author_share_def)
  then have exact: "sat_add 128 (PendingCoinbaseFee (pool w)) (author_share cfg steps * POOL_STEP)
      = PendingCoinbaseFee (pool w) + author_share cfg steps * POOL_STEP"
    using fee(2) bounded by (intro sat_add_exact) linarith
  show ?thesis
  proof (cases "author_share cfg steps = 0")
    case True
    then have "steps - cfg_fee_burn_mul_ceil cfg steps = 0" by (simp add: author_share_def)
    then show ?thesis
      using ok False fee True by (auto simp: account_fee_def Let_def)
  next
    case share: False
    then have "steps - cfg_fee_burn_mul_ceil cfg steps \<noteq> 0" by (simp add: author_share_def)
    then show ?thesis
      using ok False fee share exact
      by (auto simp: account_fee_def fee_planck_def Let_def deposit_event_def author_share_def)
  qed
qed

lemma account_fee_frame:
  assumes ok: "account_fee cfg steps w = Inr (w', fee)"
  shows "same_elsewhere w w' \<and> tree w' = tree w \<and> UsedNullifiers (pool w') = UsedNullifiers (pool w)
    \<and> nullifier_log (pool w') = nullifier_log (pool w) \<and> LeafBlocks (pool w') = LeafBlocks (pool w)
    \<and> outputs_written_this_block w' = outputs_written_this_block w"
proof (cases "steps = 0")
  case True
  then show ?thesis using ok by (simp add: account_fee_def same_elsewhere_def)
next
  case False
  show ?thesis
  proof (cases "steps - cfg_fee_burn_mul_ceil cfg steps = 0")
    case True
    then show ?thesis
      using ok False by (auto simp: account_fee_def Let_def same_elsewhere_def nullifier_log_def
          outputs_written_this_block_def)
  next
    case share: False
    then show ?thesis
      using ok False by (auto simp: account_fee_def Let_def deposit_event_def same_elsewhere_def nullifier_log_def
          outputs_written_this_block_def)
  qed
qed

lemma account_fee_pool_value:
  assumes ok: "account_fee cfg steps w = Inr (w', fee)"
  shows "PoolValue (pool w') \<le> PoolValue (pool w)"
proof (cases "steps = 0")
  case True
  then show ?thesis using ok by (simp add: account_fee_def)
next
  case False
  then show ?thesis
    using ok by (cases "steps - cfg_fee_burn_mul_ceil cfg steps = 0") (auto simp: account_fee_def Let_def deposit_event_def)
qed

lemma account_fee_total:
  assumes "steps * POOL_STEP \<le> PoolValue (pool w)" and "PoolValue (pool w) < 2 ^ 128"
  shows "\<exists>r. account_fee cfg steps w = Inr r"
proof -
  have "(steps - b) * POOL_STEP \<le> steps * POOL_STEP" for b by simp
  then have "(steps - b) * POOL_STEP < 2 ^ 128" for b using assms by (meson le_less_trans)
  moreover have "steps * POOL_STEP < 2 ^ 128" using assms by simp
  ultimately show ?thesis
    using assms(1) by (simp add: account_fee_def fee_planck_def checked_mul_def checked_sub_def Let_def)
qed

section \<open>The payload a settlement carries\<close>

lemma bind_slots_Inr:
  "bind_slots pc outputs i slots = Inr u \<longleftrightarrow>
     (slots = [] \<or> i + length slots \<le> length outputs)
     \<and> (\<forall>(slot, output) \<in> set (zip slots (drop i outputs)). ct_1 output = [] \<and> ct_2 output = []
          \<or> ct_digest pc [ct_1 output, ct_2 output] = rs_ct_digest slot)"
proof (induction slots arbitrary: i)
  case Nil
  then show ?case by simp
next
  case (Cons slot slots)
  show ?case
  proof (cases "i < length outputs")
    case True
    then have "drop i outputs = outputs ! i # drop (Suc i) outputs" by (simp add: Cons_nth_drop_Suc)
    then show ?thesis using True Cons.IH [of "Suc i"] by (cases slots) auto
  next
    case False
    then show ?thesis by simp
  qed
qed

lemma check_settlement_Inr:
  "check_settlement cfg w bundle outputs = Inr plan \<longleftrightarrow>
     plan_settlement cfg w bundle outputs = Inr plan \<and> bind_payload cfg bundle outputs = Inr ()"
  by (auto simp: check_settlement_def)

text \<open>What a settlement does to the pool, given the counting and listing functions of its tree.\<close>

definition settles_bundle ::
  "('t \<Rightarrow> nat) \<Rightarrow> ('t \<Rightarrow> hash256 list) \<Rightarrow> ('t, 'b, 'acc, 'ce) shielded_config \<Rightarrow> ('t, 'b, 'acc) world \<Rightarrow> SettlementBundle
    \<Rightarrow> ('t, 'b, 'acc) world \<Rightarrow> bool" where
  "settles_bundle lt lv cfg w bundle w' \<longleftrightarrow>
     UsedNullifiers (pool w') = UsedNullifiers (pool w) \<union> set (settling_nullifiers cfg w bundle)
     \<and> nullifier_log (pool w') = nullifier_log (pool w) @ settling_nullifiers cfg w bundle
     \<and> lv (tree w') = lv (tree w) @ settling_commitments cfg w bundle
     \<and> lt (tree w') = lt (tree w) + 2 * length (settling_slots cfg w bundle)
     \<and> LeafBlocks (pool w') = (\<lambda>i. if lt (tree w) \<le> i \<and> i < lt (tree w') then Some (sys_block_number w)
                                    else LeafBlocks (pool w) i)
     \<and> outputs_written_this_block w' = outputs_written_this_block w + 2 * length (settling_slots cfg w bundle)
     \<and> same_elsewhere w w'"

section \<open>Settlement calls\<close>

fun call_outputs :: "shielded_call \<Rightarrow> ShieldedOutput list" where
  "call_outputs (SubmitPrivateBatch bytes outputs) = outputs"
| "call_outputs (SubmitPublicBatch bytes outputs) = outputs"
| "call_outputs _ = []"

text \<open>The verified and the merely parsed bundle of a settlement call.\<close>

fun verified_bundle ::
  "('t, 'b, 'acc, 'ce) shielded_config \<Rightarrow> shielded_call \<Rightarrow> (shielded_error, SettlementBundle) result" where
  "verified_bundle cfg (SubmitPrivateBatch bytes outputs) = validate_private_batch cfg bytes"
| "verified_bundle cfg (SubmitPublicBatch bytes outputs) = validate_public_batch cfg bytes"
| "verified_bundle cfg _ = Inl InvalidPublicInputs"

fun parsed_bundle ::
  "('t, 'b, 'acc, 'ce) shielded_config \<Rightarrow> shielded_call \<Rightarrow> (shielded_error, SettlementBundle) result" where
  "parsed_bundle cfg (SubmitPrivateBatch bytes outputs) = pre_validate_private_batch cfg bytes"
| "parsed_bundle cfg (SubmitPublicBatch bytes outputs) = pre_validate_public_batch cfg bytes"
| "parsed_bundle cfg _ = Inl InvalidPublicInputs"

fun is_settlement :: "shielded_call \<Rightarrow> bool" where
  "is_settlement (SubmitPrivateBatch bytes outputs) = True"
| "is_settlement (SubmitPublicBatch bytes outputs) = True"
| "is_settlement _ = False"

lemma dispatch_settlement:
  "is_settlement call \<Longrightarrow> dispatch cfg w origin call =
     ensure (origin = NoOrigin) BadOrigin
       (rbind (map_err PalletError (verified_bundle cfg call)) (\<lambda>b. settle cfg w b (call_outputs call)))"
  by (cases call) (simp_all add: dispatch_def submit_private_batch_def submit_public_batch_def)

lemma pre_dispatch_settlement:
  "is_settlement call \<Longrightarrow> pre_dispatch cfg w call =
     include_settlement cfg w (parsed_bundle cfg call) (verified_bundle cfg call) (call_outputs call)"
  by (cases call) (simp_all add: pre_dispatch_def)

lemma validate_unsigned_settlement:
  "is_settlement call \<Longrightarrow> is_ok (validate_unsigned cfg w call) =
     is_ok (admit cfg w (parsed_bundle cfg call) (verified_bundle cfg call) (call_outputs call))"
  by (cases call) (auto simp: validate_unsigned_def is_ok_iff)

section \<open>A pool over any recorder\<close>

locale shielded_pool = commitment_recorder insert_cm remaining leaf_total leaves rinv
  for insert_cm :: "'t \<Rightarrow> hash256 \<Rightarrow> (zk_error, 't \<times> nat) result"
    and remaining :: "'t \<Rightarrow> nat" and leaf_total :: "'t \<Rightarrow> nat" and leaves :: "'t \<Rightarrow> hash256 list"
    and rinv :: "'t \<Rightarrow> bool" +
  fixes cfg :: "('t, 'b, 'acc, 'ce) shielded_config"
  assumes cfg_insert: "cfg_insert_commitment cfg = insert_cm"
    and cfg_remaining: "cfg_remaining_capacity cfg = remaining"
    and private_agrees: "cfg_private_verifier cfg = Some pv \<Longrightarrow> \<exists>n. verifier_agreement pv (wf_private_batch n)"
    and public_agrees: "cfg_public_verifier cfg = Some qv \<Longrightarrow> \<exists>m n. verifier_agreement qv (wf_public_batch m n)"
begin

lemma settle_slot_effect:
  assumes "rinv (tree w)" and "settle_slot cfg outputs slot (w, i) = Inr (w', i')"
  shows "writes_slots leaf_total leaves w [slot] w' \<and> rinv (tree w') \<and> remaining (tree w') + 2 = remaining (tree w) \<and> i' = Suc i"
proof -
  obtain t2 a t3 b where ins: "insert_cm (tree w) (fst (rs_commitments slot)) = Inr (t2, a)"
    "insert_cm t2 (snd (rs_commitments slot)) = Inr (t3, b)"
    using assms(2) by (auto simp: settle_slot_def Let_def cfg_insert)
  note one = insert_inv [OF assms(1) ins(1)] insert_index [OF assms(1) ins(1)] insert_leaf_total [OF assms(1) ins(1)]
    insert_remaining [OF assms(1) ins(1)] insert_leaves [OF assms(1) ins(1)]
  note two = insert_inv [OF one(1) ins(2)] insert_index [OF one(1) ins(2)] insert_leaf_total [OF one(1) ins(2)]
    insert_remaining [OF one(1) ins(2)] insert_leaves [OF one(1) ins(2)]
  show ?thesis
    using assms(2) ins one two
    by (auto simp: settle_slot_def Let_def cfg_insert writes_slots_def same_elsewhere_def slot_nullifiers_def
        slot_commitments_def deposit_event_def record_outputs_def nullifier_log_def outputs_written_this_block_def
        sat_add_exact fun_eq_iff split: prod.splits if_splits)
qed

lemma settle_slot_total:
  assumes "rinv (tree w)" and "2 \<le> remaining (tree w)" and "i < length outputs"
    and "\<forall>c \<in> set (slot_commitments slot). c \<noteq> zero_hash \<and> canonical_limbs c"
  shows "\<exists>w'. settle_slot cfg outputs slot (w, i) = Inr (w', Suc i)"
proof -
  obtain t2 a where one: "insert_cm (tree w) (fst (rs_commitments slot)) = Inr (t2, a)"
    using insert_total [OF assms(1)] assms(2,4) by (fastforce simp: slot_commitments_def)
  have "rinv t2" "0 < remaining t2"
    using insert_inv [OF assms(1) one] insert_remaining [OF assms(1) one] assms(2) by simp_all
  then obtain t3 b where "insert_cm t2 (snd (rs_commitments slot)) = Inr (t3, b)"
    using insert_total [of t2] assms(4) by (fastforce simp: slot_commitments_def)
  then show ?thesis using one assms(3) by (simp add: settle_slot_def Let_def cfg_insert)
qed

lemma settle_slots_effect:
  assumes "rinv (tree w)" and "settle_slots cfg outputs ss (w, i) = Inr (w', i')"
  shows "writes_slots leaf_total leaves w ss w' \<and> rinv (tree w') \<and> remaining (tree w') + 2 * length ss = remaining (tree w)
    \<and> i' = i + length ss"
  using assms
proof (induction ss arbitrary: w i)
  case Nil
  then show ?case by (simp add: writes_slots_refl)
next
  case (Cons slot ss)
  obtain w1 i1 where step: "settle_slot cfg outputs slot (w, i) = Inr (w1, i1)"
    "settle_slots cfg outputs ss (w1, i1) = Inr (w', i')"
    using Cons.prems(2) by auto
  note one = settle_slot_effect [OF Cons.prems(1) step(1)]
  note rest = Cons.IH [OF _ step(2)]
  show ?case using one rest writes_slots_trans [of leaf_total leaves w "[slot]" w1 ss w'] by auto
qed

lemma settle_slots_total:
  assumes "rinv (tree w)" and "2 * length ss \<le> remaining (tree w)" and "i + length ss \<le> length outputs"
    and "\<forall>slot \<in> set ss. \<forall>c \<in> set (slot_commitments slot). c \<noteq> zero_hash \<and> canonical_limbs c"
  shows "\<exists>w'. settle_slots cfg outputs ss (w, i) = Inr (w', i + length ss)"
  using assms
proof (induction ss arbitrary: w i)
  case Nil
  then show ?case by simp
next
  case (Cons slot ss)
  obtain w1 where w1: "settle_slot cfg outputs slot (w, i) = Inr (w1, Suc i)"
    using settle_slot_total [of w i outputs slot] Cons.prems by auto
  note one = settle_slot_effect [OF Cons.prems(1) w1]
  have "\<exists>w'. settle_slots cfg outputs ss (w1, Suc i) = Inr (w', Suc i + length ss)"
    using one Cons.prems by (intro Cons.IH) auto
  then show ?case using w1 by simp
qed

lemma settle_segments_effect:
  assumes "rinv (tree w)" and "settle_segments cfg outputs (zip segs flags) (w, i) = Inr (w', i')"
  shows "writes_slots leaf_total leaves w (settled_slots segs flags) w' \<and> rinv (tree w')
    \<and> remaining (tree w') + 2 * length (settled_slots segs flags) = remaining (tree w)"
  using assms
proof (induction segs flags arbitrary: w i rule: list_induct2')
  case (4 seg segs yes flags)
  show ?case
  proof (cases yes)
    case True
    then obtain w1 i1 where step: "settle_slots cfg outputs (seg_slots seg) (w, i) = Inr (w1, i1)"
      "settle_segments cfg outputs (zip segs flags) (w1, i1) = Inr (w', i')"
      using "4.prems"(2) by auto
    note one = settle_slots_effect [OF "4.prems"(1) step(1)]
    note rest = "4.IH" [OF _ step(2)]
    show ?thesis
      using True one rest writes_slots_trans [of leaf_total leaves w "seg_slots seg" w1 "settled_slots segs flags" w']
      by (auto simp: settled_slots_Cons)
  next
    case False
    then show ?thesis using "4.IH" [OF "4.prems"(1)] "4.prems"(2) by (simp add: settled_slots_Cons)
  qed
qed (auto simp: writes_slots_refl settled_slots_def settled_segments_def)

lemma settle_segments_total:
  assumes "rinv (tree w)" and "2 * length (settled_slots segs flags) \<le> remaining (tree w)"
    and "i + total_slots segs \<le> length outputs" and "length outputs < 2 ^ 32"
    and "\<forall>slot \<in> set (settled_slots segs flags). \<forall>c \<in> set (slot_commitments slot). c \<noteq> zero_hash \<and> canonical_limbs c"
  shows "\<exists>r. settle_segments cfg outputs (zip segs flags) (w, i) = Inr r"
  using assms
proof (induction segs flags arbitrary: w i rule: list_induct2')
  case (4 seg segs yes flags)
  show ?case
  proof (cases yes)
    case True
    then obtain w1 where w1: "settle_slots cfg outputs (seg_slots seg) (w, i) = Inr (w1, i + length (seg_slots seg))"
      using settle_slots_total [of w "seg_slots seg" i outputs] "4.prems" by (auto simp: settled_slots_Cons)
    note one = settle_slots_effect [OF "4.prems"(1) w1]
    have "\<exists>r. settle_segments cfg outputs (zip segs flags) (w1, i + length (seg_slots seg)) = Inr r"
      using one True "4.prems" by (intro "4.IH") (auto simp: settled_slots_Cons)
    then show ?thesis using True w1 by simp
  next
    case False
    then have "\<exists>r. settle_segments cfg outputs (zip segs flags) (w, i + length (seg_slots seg)) = Inr r"
      using "4.prems" by (intro "4.IH") (auto simp: settled_slots_Cons)
    then show ?thesis using False "4.prems"(3,4) by (simp add: sat_add_exact)
  qed
qed auto

lemma settle_steps:
  assumes "settle cfg w bundle outputs = Inr w'"
  obtains plan w1 i w2 fee where "check_settlement cfg w bundle outputs = Inr plan"
    "settle_segments cfg outputs (zip (segments bundle) (settles plan)) (w, 0) = Inr (w1, i)"
    "account_fee cfg (fee_steps plan) w1 = Inr (w2, fee)"
    "w' = deposit_event (BatchSettled (length (filter id (settles plan)) mod 2 ^ 32) (plan_slots_settled plan) fee) w2"
  using assms by (auto simp: settle_def)

lemma settle_effect:
  assumes inv: "rinv (tree w)" and widths: "plan_widths cfg w outputs" and ok: "settle cfg w bundle outputs = Inr w'"
  shows "settles_bundle leaf_total leaves cfg w bundle w' \<and> rinv (tree w')"
proof -
  obtain plan w1 i w2 fee where run: "check_settlement cfg w bundle outputs = Inr plan"
    "settle_segments cfg outputs (zip (segments bundle) (settles plan)) (w, 0) = Inr (w1, i)"
    "account_fee cfg (fee_steps plan) w1 = Inr (w2, fee)"
    "w' = deposit_event (BatchSettled (length (filter id (settles plan)) mod 2 ^ 32) (plan_slots_settled plan) fee) w2"
    by (rule settle_steps [OF ok])
  have planned: "settles plan = flags_of cfg w bundle"
    "outputs_written_this_block w + 2 * length (settling_slots cfg w bundle) < 2 ^ 32"
    using run(1) widths unfolding check_settlement_Inr plan_settlement_Inr [OF widths]
    by (auto simp: planned_def plan_widths_def)
  have writes: "writes_slots leaf_total leaves w (settling_slots cfg w bundle) w1" "rinv (tree w1)"
    using settle_segments_effect [OF inv run(2)] by (simp_all add: planned settling_slots_def)
  show ?thesis
    using writes account_fee_frame [OF run(3)] planned(2)
    by (auto simp: settles_bundle_def writes_slots_def run(4) deposit_event_def nullifier_log_def same_elsewhere_def
        settling_nullifiers_def settling_commitments_def outputs_written_this_block_def)
qed

lemma settle_fee:
  assumes inv: "rinv (tree w)" and widths: "plan_widths cfg w outputs" and ok: "settle cfg w bundle outputs = Inr w'"
    and bounded: "PoolValue (pool w) + PendingCoinbaseFee (pool w) < 2 ^ 128"
  shows "PoolValue (pool w') + settling_fee cfg w bundle * POOL_STEP = PoolValue (pool w)
    \<and> PendingCoinbaseFee (pool w') =
        PendingCoinbaseFee (pool w) + author_share cfg (settling_fee cfg w bundle) * POOL_STEP"
proof -
  obtain plan w1 i w2 fee where run: "check_settlement cfg w bundle outputs = Inr plan"
    "settle_segments cfg outputs (zip (segments bundle) (settles plan)) (w, 0) = Inr (w1, i)"
    "account_fee cfg (fee_steps plan) w1 = Inr (w2, fee)"
    "w' = deposit_event (BatchSettled (length (filter id (settles plan)) mod 2 ^ 32) (plan_slots_settled plan) fee) w2"
    by (rule settle_steps [OF ok])
  have planned: "fee_steps plan = settling_fee cfg w bundle"
    using run(1) unfolding check_settlement_Inr plan_settlement_Inr [OF widths] by (auto simp: planned_def)
  have "PoolValue (pool w1) = PoolValue (pool w)" "PendingCoinbaseFee (pool w1) = PendingCoinbaseFee (pool w)"
    using settle_segments_effect [OF inv run(2)] by (simp_all add: writes_slots_def)
  then show ?thesis
    using account_fee_effect [OF run(3)] bounded by (auto simp: planned run(4) deposit_event_def)
qed

lemma settle_pool_value:
  assumes inv: "rinv (tree w)" and ok: "settle cfg w bundle outputs = Inr w'"
  shows "PoolValue (pool w') \<le> PoolValue (pool w)"
proof -
  obtain plan w1 i w2 fee where run: "check_settlement cfg w bundle outputs = Inr plan"
    "settle_segments cfg outputs (zip (segments bundle) (settles plan)) (w, 0) = Inr (w1, i)"
    "account_fee cfg (fee_steps plan) w1 = Inr (w2, fee)"
    "w' = deposit_event (BatchSettled (length (filter id (settles plan)) mod 2 ^ 32) (plan_slots_settled plan) fee) w2"
    by (rule settle_steps [OF ok])
  have "PoolValue (pool w1) = PoolValue (pool w)"
    using settle_segments_effect [OF inv run(2)] by (simp add: writes_slots_def)
  then show ?thesis using account_fee_pool_value [OF run(3)] by (simp add: run(4) deposit_event_def)
qed

lemma settle_total:
  assumes inv: "rinv (tree w)" and widths: "plan_widths cfg w outputs" and canon: "canonical_bundle bundle"
    and ok: "check_settlement cfg w bundle outputs = Inr plan"
  shows "\<exists>w'. settle cfg w bundle outputs = Inr w'"
proof -
  have spec: "segments_ok cfg (segments bundle) (flags_of cfg w bundle) outputs"
    "total_slots (segments bundle) = length outputs"
    "2 * length (settling_slots cfg w bundle) \<le> remaining (tree w)"
    "settling_fee cfg w bundle * POOL_STEP \<le> PoolValue (pool w)"
    "plan = planned cfg w bundle outputs"
    using ok unfolding check_settlement_Inr plan_settlement_Inr [OF widths] cfg_remaining by linarith+
  have flags: "settled_slots (segments bundle) (settles plan) = settling_slots cfg w bundle"
    by (simp add: spec(5) planned_def settling_slots_def)
  have cms: "c \<noteq> zero_hash \<and> canonical_limbs c"
    if "slot \<in> set (settling_slots cfg w bundle)" "c \<in> set (slot_commitments slot)" for slot c
    using that canon settling_slots_ok [OF spec(1,2) that(1)] settling_slots_subset [of cfg w "bundle"]
    by (auto simp: canonical_bundle_def digest_ok_def)
  have "\<exists>r. settle_segments cfg outputs (zip (segments bundle) (settles plan)) (w, 0) = Inr r"
    using cms spec(2,3) inv widths by (intro settle_segments_total) (auto simp: flags plan_widths_def)
  then obtain w1 i where w1: "settle_segments cfg outputs (zip (segments bundle) (settles plan)) (w, 0) = Inr (w1, i)"
    by auto
  have "PoolValue (pool w1) = PoolValue (pool w)" "fee_steps plan = settling_fee cfg w bundle"
    using settle_segments_effect [OF inv w1] by (simp_all add: writes_slots_def spec(5) planned_def)
  then obtain w2 fee where "account_fee cfg (fee_steps plan) w1 = Inr (w2, fee)"
    using account_fee_total [of "fee_steps plan" w1 cfg] spec(4) widths by (auto simp: plan_widths_def)
  then show ?thesis using ok w1 by (simp add: settle_def)
qed

lemma verified_parsed:
  assumes "verified_bundle cfg call = Inr b"
  shows "parsed_bundle cfg call = Inr b \<and> canonical_bundle b"
proof (cases call)
  case (SubmitPrivateBatch bytes outputs)
  then obtain v i where v: "cfg_private_verifier cfg = Some v" "verify_proof_bytes v bytes = Inr i"
    "b = from_private_batch i" "length bytes \<le> MAX_PROOF_BYTES"
    using assms by (auto simp: validate_private_batch_def)
  obtain n where "verifier_agreement v (wf_private_batch n)" using private_agrees [OF v(1)] by blast
  note agree = verifier_agreement.verify_parse [OF this v(2)]
    verifier_agreement.parse_shape [OF this verifier_agreement.verify_parse [OF this v(2)]]
  have "canonical_bundle b" unfolding v(3) by (rule canonical_from_private [OF agree(2)])
  then show ?thesis
    using v agree(1) SubmitPrivateBatch by (simp add: pre_validate_private_batch_def)
next
  case (SubmitPublicBatch bytes outputs)
  then obtain v i where v: "cfg_public_verifier cfg = Some v" "verify_proof_bytes v bytes = Inr i"
    "b = from_public_batch i" "length bytes \<le> MAX_PROOF_BYTES"
    using assms by (auto simp: validate_public_batch_def)
  obtain m n where "verifier_agreement v (wf_public_batch m n)" using public_agrees [OF v(1)] by blast
  note agree = verifier_agreement.verify_parse [OF this v(2)]
    verifier_agreement.parse_shape [OF this verifier_agreement.verify_parse [OF this v(2)]]
  have "canonical_bundle b" unfolding v(3) by (rule canonical_from_public [OF agree(2)])
  then show ?thesis
    using v agree(1) SubmitPublicBatch by (simp add: pre_validate_public_batch_def)
qed (use assms in simp_all)

lemma pre_dispatch_iff:
  assumes "is_settlement call"
  shows "is_ok (pre_dispatch cfg w call) \<longleftrightarrow>
    (\<exists>b. verified_bundle cfg call = Inr b \<and> is_ok (check_settlement cfg w b (call_outputs call)))"
proof
  show "is_ok (pre_dispatch cfg w call) \<Longrightarrow>
      \<exists>b. verified_bundle cfg call = Inr b \<and> is_ok (check_settlement cfg w b (call_outputs call))"
    using assms by (auto simp: pre_dispatch_settlement include_settlement_def is_ok_iff)
next
  assume "\<exists>b. verified_bundle cfg call = Inr b \<and> is_ok (check_settlement cfg w b (call_outputs call))"
  then obtain b plan where "verified_bundle cfg call = Inr b" "check_settlement cfg w b (call_outputs call) = Inr plan"
    by (auto simp: is_ok_iff)
  then show "is_ok (pre_dispatch cfg w call)"
    using assms verified_parsed [of call b]
    by (auto simp: pre_dispatch_settlement include_settlement_def check_settlement_Inr is_ok_iff)
qed

lemma validate_unsigned_iff:
  assumes "is_settlement call"
  shows "is_ok (validate_unsigned cfg w call) \<longleftrightarrow>
    (\<exists>b. verified_bundle cfg call = Inr b \<and> is_ok (check_settlement cfg w b (call_outputs call)))"
proof
  assume "is_ok (validate_unsigned cfg w call)"
  then obtain p b plan where "parsed_bundle cfg call = Inr p" "plan_settlement cfg w p (call_outputs call) = Inr plan"
    "verified_bundle cfg call = Inr b" "bind_payload cfg b (call_outputs call) = Inr ()"
    unfolding validate_unsigned_settlement [OF assms] by (auto simp: admit_def is_ok_iff)
  moreover from this have "p = b" using verified_parsed [of call b] by simp
  ultimately show "\<exists>b. verified_bundle cfg call = Inr b \<and> is_ok (check_settlement cfg w b (call_outputs call))"
    by (auto simp: is_ok_iff check_settlement_Inr)
next
  assume "\<exists>b. verified_bundle cfg call = Inr b \<and> is_ok (check_settlement cfg w b (call_outputs call))"
  then obtain b plan where "verified_bundle cfg call = Inr b" "check_settlement cfg w b (call_outputs call) = Inr plan"
    by (auto simp: is_ok_iff)
  then show "is_ok (validate_unsigned cfg w call)"
    using assms verified_parsed [of call b]
    by (simp add: validate_unsigned_settlement admit_def check_settlement_Inr)
qed

lemma dispatch_iff:
  assumes "is_settlement call" and "rinv (tree w)" and "plan_widths cfg w (call_outputs call)"
  shows "is_ok (dispatch cfg w origin call) \<longleftrightarrow>
    origin = NoOrigin \<and> (\<exists>b. verified_bundle cfg call = Inr b \<and> is_ok (check_settlement cfg w b (call_outputs call)))"
proof -
  have "is_ok (settle cfg w b (call_outputs call)) \<longleftrightarrow> is_ok (check_settlement cfg w b (call_outputs call))"
    if b: "verified_bundle cfg call = Inr b" for b
  proof
    assume "is_ok (settle cfg w b (call_outputs call))"
    then obtain w' where "settle cfg w b (call_outputs call) = Inr w'" unfolding is_ok_iff ..
    then show "is_ok (check_settlement cfg w b (call_outputs call))"
      by (rule settle_steps) simp
  next
    assume "is_ok (check_settlement cfg w b (call_outputs call))"
    then obtain plan where "check_settlement cfg w b (call_outputs call) = Inr plan" unfolding is_ok_iff ..
    then show "is_ok (settle cfg w b (call_outputs call))"
      unfolding is_ok_iff using verified_parsed [OF b] by (intro settle_total [OF assms(2,3)]) simp_all
  qed
  then show ?thesis
    by (cases "verified_bundle cfg call"; cases "origin = NoOrigin") (simp_all add: dispatch_settlement [OF assms(1)])
qed

end

section \<open>The pool over the commitment tree\<close>

lemma private_batch_verifier_agrees:
  "private_batch_verifier px artifact n = Some v \<Longrightarrow> \<exists>k. verifier_agreement v (wf_private_batch k)"
  using private_reads.verifier_agreement_axioms
  by (auto simp: private_batch_verifier_def split: sum.splits)

lemma public_batch_verifier_agrees:
  "public_batch_verifier px artifact m n = Some v \<Longrightarrow> \<exists>j k. verifier_agreement v (wf_public_batch j k)"
  using public_reads.verifier_agreement_axioms
  by (auto simp: public_batch_verifier_def split: sum.splits)

interpretation wired: shielded_pool insert_commitment remaining_capacity LeafCount all_leaves "tree_inv pc"
    "wire_pool px private_artifact public_artifact num_inner num_leaves base"
  for pc px private_artifact public_artifact num_inner num_leaves base
  by unfold_locales
    (auto simp: wire_pool_def intro: private_batch_verifier_agrees public_batch_verifier_agrees)

end
