(* ===== verification/ShieldedCoinbase.thy ===== *)
theory ShieldedCoinbase
  imports ShieldedSettle
begin

text \<open>
  The block reward as a note: what \<open>mint_coinbase\<close> does on each of its branches, that the pool
  keeps the \<open>coinbase_sink\<close> contract (a reward is taken whole or handed back whole), and that the
  note committed is worth exactly what the pool's value grew by.
\<close>

section \<open>The note a mint appends\<close>

lemma coinbase_note_Some:
  assumes "coinbase_note cfg w payload minted = Some (t', index, steps, change)"
  shows "cb_ciphertext payload = [] \<and> steps * POOL_STEP + change = sat_add 128 minted (PendingCoinbaseFee (pool w))
    \<and> change < POOL_STEP \<and> 0 < steps \<and> steps \<le> MAX_VALUE
    \<and> (\<exists>cm. commitment (cfg_poseidon cfg) (cb_inner payload) steps = Some cm
         \<and> cfg_insert_commitment cfg (tree w) cm = Inr (t', index))"
proof -
  let ?total = "sat_add 128 minted (PendingCoinbaseFee (pool w))"
  have parts: "steps = ?total div POOL_STEP" "change = ?total mod POOL_STEP" "cb_ciphertext payload = []"
    "0 < steps" "steps \<le> MAX_VALUE"
    "\<exists>cm. commitment (cfg_poseidon cfg) (cb_inner payload) steps = Some cm
         \<and> cfg_insert_commitment cfg (tree w) cm = Inr (t', index)"
    using assms by (auto simp: coinbase_note_def Let_def split: if_splits option.splits sum.splits)
  have "steps * POOL_STEP + change = ?total" unfolding parts(1,2) by (rule div_mult_mod_eq)
  moreover have "change < POOL_STEP" unfolding parts(2) by (simp add: POOL_STEP_def)
  ultimately show ?thesis using parts by blast
qed

text \<open>The pool after a mint of \<open>steps\<close>, with \<open>change\<close> left over.\<close>

definition mints ::
  "('t, 'b, 'acc, 'ce) shielded_config \<Rightarrow> ('t, 'b, 'acc) world \<Rightarrow> nat \<Rightarrow> nat \<Rightarrow> nat \<Rightarrow> ('t, 'b, 'acc) world \<Rightarrow> bool" where
  "mints cfg w index steps change w' \<longleftrightarrow>
     PoolValue (pool w') = sat_add 128 (PoolValue (pool w)) (sat_mul 128 steps POOL_STEP)
     \<and> PendingCoinbaseFee (pool w') = change \<and> PendingCoinbase (pool w') = None
     \<and> LeafBlocks (pool w') = (LeafBlocks (pool w))(index \<mapsto> sys_block_number w)
     \<and> CoinbaseValues (pool w') = (CoinbaseValues (pool w))(index \<mapsto> steps)
     \<and> UsedNullifiers (pool w') = UsedNullifiers (pool w) \<and> nullifier_log (pool w') = nullifier_log (pool w)
     \<and> outputs_written_this_block w' = outputs_written_this_block w
     \<and> balances w' = balances w \<and> sys_block_number w' = sys_block_number w
     \<and> sys_block_hash w' = sys_block_hash w \<and> sys_pre_runtime w' = sys_pre_runtime w
     \<and> EntryCount (pool w') = EntryCount (pool w)"

text \<open>The pool after a mint was handed back.\<close>

definition mint_returned :: "('t, 'b, 'acc) world \<Rightarrow> ('t, 'b, 'acc) world \<Rightarrow> bool" where
  "mint_returned w w' \<longleftrightarrow>
     tree w' = tree w \<and> balances w' = balances w \<and> PendingCoinbase (pool w') = None
     \<and> PoolValue (pool w') = PoolValue (pool w) \<and> PendingCoinbaseFee (pool w') = PendingCoinbaseFee (pool w)
     \<and> LeafBlocks (pool w') = LeafBlocks (pool w) \<and> CoinbaseValues (pool w') = CoinbaseValues (pool w)
     \<and> UsedNullifiers (pool w') = UsedNullifiers (pool w) \<and> nullifier_log (pool w') = nullifier_log (pool w)
     \<and> outputs_written_this_block w' = outputs_written_this_block w
     \<and> sys_block_hash w' = sys_block_hash w \<and> sys_pre_runtime w' = sys_pre_runtime w
     \<and> sys_block_number w' = sys_block_number w \<and> EntryCount (pool w') = EntryCount (pool w)"

lemma mint_coinbase_cases:
  assumes "mint_coinbase cfg w minted = (w', r)"
  obtains (returned) "r = Inl minted" "mint_returned w w'"
      "PendingCoinbase (pool w) = None \<or>
       (\<exists>payload. PendingCoinbase (pool w) = Some payload \<and> coinbase_note cfg w payload minted = None)"
    | (taken) payload cm index steps change where "r = Inr ()" "PendingCoinbase (pool w) = Some payload"
      "steps * POOL_STEP + change = sat_add 128 minted (PendingCoinbaseFee (pool w))" "change < POOL_STEP"
      "0 < steps" "steps \<le> MAX_VALUE" "commitment (cfg_poseidon cfg) (cb_inner payload) steps = Some cm"
      "cfg_insert_commitment cfg (tree w) cm = Inr (tree w', index)" "mints cfg w index steps change w'"
      "coinbase_note cfg w payload minted = Some (tree w', index, steps, change)"
proof (cases "PendingCoinbase (pool w)")
  case None
  then show ?thesis
    using assms returned by (auto simp: mint_coinbase_def mint_returned_def deposit_event_def nullifier_log_def
        outputs_written_this_block_def split: if_splits)
next
  case (Some payload)
  let ?w1 = "w\<lparr>pool := (pool w)\<lparr>PendingCoinbase := None\<rparr>\<rparr>"
  have same: "coinbase_note cfg ?w1 payload minted = coinbase_note cfg w payload minted"
  proof -
    have "tree ?w1 = tree w" "PendingCoinbaseFee (pool ?w1) = PendingCoinbaseFee (pool w)" by simp_all
    then show ?thesis by (simp only: coinbase_note_def)
  qed
  show ?thesis
  proof (cases "coinbase_note cfg w payload minted")
    case None
    then have "r = Inl minted" "mint_returned w w'"
      using assms Some same by (auto simp: mint_coinbase_def mint_returned_def nullifier_log_def
          outputs_written_this_block_def Let_def)
    then show ?thesis using returned None Some by blast
  next
    case found: (Some n)
    obtain t' index steps change where n: "n = (t', index, steps, change)" by (cases n)
    note facts = coinbase_note_Some [OF found [unfolded n]]
    have "r = Inr ()" "tree w' = t'" "mints cfg w index steps change w'"
      using assms Some same found n facts
      by (auto simp: mint_coinbase_def mints_def deposit_event_def nullifier_log_def outputs_written_this_block_def Let_def)
    then show ?thesis using taken Some facts found [unfolded n] by blast
  qed
qed

section \<open>The pool as a coinbase sink\<close>

definition sink_inv :: "('t \<Rightarrow> bool) \<Rightarrow> ('t, 'b, 'acc) world \<Rightarrow> bool" where
  "sink_inv rinv w \<longleftrightarrow> rinv (tree w) \<and> PoolValue (pool w) + PendingCoinbaseFee (pool w) < 2 ^ 128"

lemma shielded_supply_exact:
  "sink_inv rinv w \<Longrightarrow> shielded_supply w = PoolValue (pool w) + PendingCoinbaseFee (pool w)"
  by (simp add: sink_inv_def shielded_supply_def sat_add_exact)

lemma mints_supply:
  assumes inv: "sink_inv rinv w" and room: "shielded_supply w + minted < 2 ^ 128"
    and total: "steps * POOL_STEP + change = sat_add 128 minted (PendingCoinbaseFee (pool w))"
    and m: "mints cfg w index steps change w'"
  shows "PoolValue (pool w') = PoolValue (pool w) + steps * POOL_STEP
    \<and> PoolValue (pool w') + PendingCoinbaseFee (pool w') = PoolValue (pool w) + PendingCoinbaseFee (pool w) + minted"
proof -
  have small: "PoolValue (pool w) + PendingCoinbaseFee (pool w) + minted < 2 ^ 128"
    using room by (simp add: shielded_supply_exact [OF inv])
  then have sum: "steps * POOL_STEP + change = minted + PendingCoinbaseFee (pool w)"
    using total by (simp add: sat_add_exact)
  then have "sat_mul 128 steps POOL_STEP = steps * POOL_STEP" using small by (intro sat_mul_exact) linarith
  moreover have "sat_add 128 (PoolValue (pool w)) (steps * POOL_STEP) = PoolValue (pool w) + steps * POOL_STEP"
    using small sum by (intro sat_add_exact) linarith
  ultimately show ?thesis using m sum by (simp add: mints_def)
qed

context shielded_pool
begin

lemma deposit_coinbase_supply:
  assumes inv: "sink_inv rinv w" and run: "deposit_coinbase cfg w amount = (w', r)"
    and room: "r = Inr () \<Longrightarrow> shielded_supply w + amount < 2 ^ 128"
  shows "sink_inv rinv w' \<and> (case r of Inr u \<Rightarrow> shielded_supply w' = shielded_supply w + amount
      | Inl back \<Rightarrow> back = amount \<and> shielded_supply w' = shielded_supply w)"
  using run [unfolded deposit_coinbase_def]
proof (cases rule: mint_coinbase_cases)
  case returned
  then show ?thesis using inv by (simp add: mint_returned_def sink_inv_def shielded_supply_def)
next
  case (taken payload cm index steps change)
  note mints_supply [OF inv room [OF taken(1)] taken(3) taken(9)]
  moreover have "rinv (tree w')"
    using inv taken(8) insert_inv [of "tree w" cm "tree w'" index] by (simp add: sink_inv_def cfg_insert)
  moreover have "PoolValue (pool w) + PendingCoinbaseFee (pool w) + amount < 2 ^ 128"
    using room [OF taken(1)] by (simp add: shielded_supply_exact [OF inv])
  ultimately have "sink_inv rinv w'" "shielded_supply w' = shielded_supply w + amount"
    using shielded_supply_exact [OF inv] by (simp_all add: sink_inv_def shielded_supply_def sat_add_exact)
  then show ?thesis using taken(1) by simp
qed

end

interpretation pool_sink: coinbase_sink
    "deposit_coinbase (wire_pool px private_artifact public_artifact num_inner num_leaves base)"
    shielded_supply "sink_inv (tree_inv pc)"
  for pc px private_artifact public_artifact num_inner num_leaves
    and base :: "(zk_tree, 'b, 'acc, 'ce) shielded_config"
proof
  let ?cfg = "wire_pool px private_artifact public_artifact num_inner num_leaves base"
  fix w w' :: "(zk_tree, 'b, 'acc) world" and amount rest :: nat
  assume inv: "sink_inv (tree_inv pc) w"
  show "shielded_supply w + amount < 2 ^ 128 \<Longrightarrow> sink_inv (tree_inv pc) (fst (deposit_coinbase ?cfg w amount))"
    using wired.deposit_coinbase_supply [OF inv surjective_pairing, of px private_artifact public_artifact num_inner
        num_leaves base amount] by blast
  show "shielded_supply w + amount < 2 ^ 128 \<Longrightarrow> deposit_coinbase ?cfg w amount = (w', Inr ()) \<Longrightarrow>
      shielded_supply w' = shielded_supply w + amount"
    using wired.deposit_coinbase_supply [OF inv, of px private_artifact public_artifact num_inner num_leaves base amount w' "Inr ()"] by simp
  show "deposit_coinbase ?cfg w amount = (w', Inl rest) \<Longrightarrow> rest = amount \<and> shielded_supply w' = shielded_supply w"
    using wired.deposit_coinbase_supply [OF inv, of px private_artifact public_artifact num_inner num_leaves base amount w' "Inl rest"] by simp
qed

end
