(* ===== verification/ShieldedSample.thy ===== *)
theory ShieldedSample
  imports ShieldedCoinbase
begin

text \<open>
  A small concrete pool: one private batch of one slot, its proof under the sample proof system, and
  a chain state in which it settles. The lemmas evaluate the model on it; the examples of the pool's
  properties rest on them.
\<close>

definition sample_ct :: "byte list" where
  "sample_ct = [0, 1, 0] @ replicate 1789 0"

definition sample_outputs :: "ShieldedOutput list" where
  "sample_outputs = [\<lparr>ct_1 = sample_ct, ct_2 = sample_ct\<rparr>]"

definition sample_ct_digest :: hash256 where
  "sample_ct_digest = ct_digest sample_poseidon [sample_ct, sample_ct]"

definition sample_pool_batch :: PrivateBatchPublicInputs where
  "sample_pool_batch =
     \<lparr>pi_block_hash = map felt_from_u64 [7, 7, 7, 7], pi_block_number = felt_from_u64 12,
      pi_slots = [\<lparr>nullifiers = [map felt_from_u64 [1, 0, 0, 0], map felt_from_u64 [2, 0, 0, 0]],
                   commitments = [map felt_from_u64 [3, 0, 0, 0], map felt_from_u64 [4, 0, 0, 0]],
                   slot_fee = felt_from_u64 9,
                   slot_ct_digest = map felt_from_u64 (limbs sample_ct_digest)\<rparr>]\<rparr>"

definition sample_real_slot :: RealSlot where
  "sample_real_slot =
     \<lparr>rs_nullifiers = (digest_of_limbs [1, 0, 0, 0], digest_of_limbs [2, 0, 0, 0]),
      rs_commitments = (digest_of_limbs [3, 0, 0, 0], digest_of_limbs [4, 0, 0, 0]),
      rs_fee = 9, rs_ct_digest = sample_ct_digest\<rparr>"

definition sample_segment :: Segment where
  "sample_segment =
     \<lparr>seg_block_hash = digest_of_limbs [7, 7, 7, 7], seg_block_number = 12, seg_slots = [sample_real_slot]\<rparr>"

definition sample_bundle :: SettlementBundle where
  "sample_bundle = \<lparr>segments = [sample_segment]\<rparr>"

definition sample_params :: "('b \<Rightarrow> nat \<Rightarrow> nat \<Rightarrow> ('ce, 'b) result) \<Rightarrow> nat option \<Rightarrow> (zk_tree, 'b, nat, 'ce) shielded_config" where
  "sample_params burn author =
     \<lparr>cfg_poseidon = sample_poseidon, cfg_insert_commitment = insert_commitment,
      cfg_remaining_capacity = remaining_capacity, cfg_burn_from = burn,
      cfg_find_author = (\<lambda>_. author), cfg_private_verifier = None, cfg_public_verifier = None,
      cfg_protocol_profile = [], cfg_fee_burn_mul_ceil = (\<lambda>n. (n + 1) div 2), cfg_blake2_256 = id,
      BlockHashWindow = 256, MinLeafFee = 1, CiphertextBytesPerFeeQuantum = 512, MaxCiphertextBytes = 2048,
      CiphertextRetentionBlocks = 0, MaxOutputsPerBlock = 2048\<rparr>"

definition sample_burn :: "(nat \<Rightarrow> nat) \<Rightarrow> nat \<Rightarrow> nat \<Rightarrow> (unit, nat \<Rightarrow> nat) result" where
  "sample_burn b who amount = (if amount \<le> b who then Inr (b(who := b who - amount)) else Inl ())"

definition sample_base :: "(zk_tree, nat \<Rightarrow> nat, nat, unit) shielded_config" where
  "sample_base = sample_params sample_burn (Some 7)"

definition sample_cfg :: "(zk_tree, nat \<Rightarrow> nat, nat, unit) shielded_config" where
  "sample_cfg = wire_pool sample_plonky2 (replicate 26 0) sample_artifact 1 1 sample_base"

text \<open>Block 20 of a fresh chain, its author's note noted, and the world after a reward of a hundred steps.\<close>

definition sample_genesis :: "(zk_tree, nat \<Rightarrow> nat, nat) world" where
  "sample_genesis =
     \<lparr>pool = shielded_genesis_build sample_cfg genesis_pool, tree = genesis_tree, balances = (\<lambda>_. 5 * POOL_STEP),
      sys_block_number = 0, sys_block_hash = (\<lambda>_. zero_hash), sys_pre_runtime = []\<rparr>"

definition sample_block :: "(zk_tree, nat \<Rightarrow> nat, nat) world" where
  "sample_block =
     shielded_on_initialize (sample_genesis\<lparr>sys_block_number := 20,
       sys_block_hash := (\<lambda>_. digest_of_limbs [7, 7, 7, 7]), sys_pre_runtime := []\<rparr>)"

definition sample_noted :: "(zk_tree, nat \<Rightarrow> nat, nat) world" where
  "sample_noted =
     sample_block\<lparr>pool := (pool sample_block)\<lparr>PendingCoinbase := Some \<lparr>cb_inner = sample_commitment, cb_ciphertext = []\<rparr>\<rparr>\<rparr>"

definition sample_world :: "(zk_tree, nat \<Rightarrow> nat, nat) world" where
  "sample_world = fst (deposit_coinbase sample_cfg sample_noted (100 * POOL_STEP))"

definition sample_submit :: shielded_call where
  "sample_submit = SubmitPrivateBatch (sample_proof sample_pool_batch) sample_outputs"

section \<open>The batch, its proof and its bundle\<close>

lemma sample_ct_digest_ok: "length sample_ct_digest = 32" "canonical_limbs sample_ct_digest"
  by (simp_all add: sample_ct_digest_def ct_digest_def poseidon_okD [OF sample_poseidon_ok])

lemma wf_sample_pool_batch: "wf_private_batch 1 sample_pool_batch"
  by (simp add: wf_private_batch_def wf_slot_def sample_pool_batch_def length_limbs sample_ct_digest_ok)

lemma sample_digest_bytes:
  "digest_bytes (map felt_from_u64 (limbs sample_ct_digest)) = sample_ct_digest"
proof -
  have "map (\<lambda>l. l mod GOLDILOCKS_P) (limbs sample_ct_digest) = limbs sample_ct_digest"
    using sample_ct_digest_ok(2) by (intro map_idI) (simp add: canonical_limbs_def list_all_iff)
  then have "map to_canonical_u64 (map felt_from_u64 (limbs sample_ct_digest)) = limbs sample_ct_digest"
    by (simp add: comp_def)
  then show ?thesis
    using digest_of_limbs_limbs [of sample_ct_digest] sample_ct_digest_ok(1) by (simp add: digest_bytes_def)
qed

lemma sample_from_private: "from_private_batch sample_pool_batch = sample_bundle"
  by (simp add: from_private_batch_def sample_pool_batch_def batch_is_padding_def sample_bundle_def
      block_hash_is_the_padding_sentinel_def PADDING_BLOCK_HASH_def segment_of_def sample_segment_def
      slot_is_padding_def real_slot_of_def sample_real_slot_def sample_digest_bytes GOLDILOCKS_P_def try_into_u_def
      digest_bytes_def [of "[felt_from_u64 a, felt_from_u64 b, felt_from_u64 c, felt_from_u64 d]" for a b c d])

lemma sample_verified: "verified_bundle sample_cfg sample_submit = Inr sample_bundle"
  using sample_proof_verifies [OF wf_sample_pool_batch] length_sample_proof [OF wf_sample_pool_batch]
  by (simp add: sample_submit_def validate_private_batch_def sample_cfg_def wire_pool_def private_batch_verifier_def
      sample_verifier_loads [simplified] private_proof_verifier_def sample_from_private MAX_PROOF_BYTES_def)

section \<open>Worlds in which the batch settles\<close>

definition sample_ready :: "(zk_tree, nat \<Rightarrow> nat, nat) world \<Rightarrow> bool" where
  "sample_ready w \<longleftrightarrow>
     tree_inv sample_poseidon (tree w) \<and> UsedNullifiers (pool w) = {} \<and> sys_block_number w = 20
     \<and> sys_block_hash w = (\<lambda>_. digest_of_limbs [7, 7, 7, 7]) \<and> 3 \<le> remaining_capacity (tree w)
     \<and> outputs_written_this_block w \<le> 2046 \<and> 9 * POOL_STEP \<le> PoolValue (pool w)
     \<and> PoolValue (pool w) + PendingCoinbaseFee (pool w) < 2 ^ 128"

lemma sample_widths: "sample_ready w \<Longrightarrow> plan_widths sample_cfg w sample_outputs"
  by (simp add: sample_ready_def plan_widths_def sample_cfg_def wire_pool_def sample_base_def sample_params_def sample_burn_def sample_outputs_def)

lemma sample_flags:
  assumes "sample_ready w"
  shows "flags_of sample_cfg w sample_bundle = [True]"
proof -
  have "digest_of_limbs [7, 7, 7, 7] \<noteq> zero_hash"
    unfolding zero_hash_limbs by (intro notI) (auto dest: digest_of_limbs_inject [rotated 2])
  then have "anchor_failure w sample_segment 20 256 = None"
    using assms by (simp add: anchor_failure_def Let_def sample_ready_def sample_segment_def)
  then show ?thesis
    using assms by (simp add: flags_of_def sample_bundle_def seg_settles_def conflicts_iff sample_cfg_def wire_pool_def
        sample_base_def sample_params_def sample_burn_def Let_def sample_ready_def)
qed

lemma sample_settling: "sample_ready w \<Longrightarrow> settling_slots sample_cfg w sample_bundle = [sample_real_slot]"
  by (simp add: settling_slots_def sample_flags) (simp add: sample_bundle_def settled_slots_Cons sample_segment_def)

lemma small_digest_eq_iff:
  "a < 2 ^ 64 \<Longrightarrow> b < 2 ^ 64 \<Longrightarrow> digest_of_limbs [a, 0, 0, 0] = digest_of_limbs [b, 0, 0, 0] \<longleftrightarrow> a = b"
  using digest_of_limbs_inject [of "[a, 0, 0, 0]" "[b, 0, 0, 0]"] by auto

lemma sample_digests:
  "zero_hash \<notin> set (slot_nullifiers sample_real_slot)" "zero_hash \<notin> set (slot_commitments sample_real_slot)"
  "distinct (slot_nullifiers sample_real_slot)"
  by (simp_all add: slot_nullifiers_def slot_commitments_def sample_real_slot_def zero_hash_limbs
      small_digest_eq_iff)

lemma sample_exact: "exact_ciphertext sample_ct" "sample_ct \<noteq> []"
  by (simp_all add: exact_ciphertext_def sample_ct_def declared_crypto_suite_def CT_HEADER_LEN_def CT_SUITE_OFFSET_def
      SUITE_1_CIPHERTEXT_BYTES_def CRYPTO_SUITE_ML_KEM_1024_def)

lemma sample_output_bytes: "output_bytes \<lparr>ct_1 = sample_ct, ct_2 = sample_ct\<rparr> = 3584" "carried_bytes sample_outputs = 3584"
  by (simp_all add: output_bytes_def sample_ct_def carried_bytes_def sample_outputs_def sat_add_def max_u_def)

lemma sample_quanta: "div_ceil 3584 (bytes_per_fee_quantum sample_cfg) = 7" "MinLeafFee sample_cfg = 1"
  "MaxOutputsPerBlock sample_cfg = 2048" "cfg_remaining_capacity sample_cfg = remaining_capacity"
  by (simp_all add: div_ceil_def bytes_per_fee_quantum_def sample_cfg_def wire_pool_def sample_base_def sample_params_def sample_burn_def)

lemma sample_slot_ok: "slot_ok sample_cfg sample_real_slot \<lparr>ct_1 = sample_ct, ct_2 = sample_ct\<rparr>"
  using sample_digests sample_exact(2)
  by (simp add: slot_ok_def sample_output_bytes fee_floor_def sample_quanta sat_add_def max_u_def sample_real_slot_def
      MAX_VALUE_def VALUE_BITS_def)

lemma sample_plan:
  assumes ready: "sample_ready w"
  shows "plan_settlement sample_cfg w sample_bundle sample_outputs =
     Inr (planned sample_cfg w sample_bundle sample_outputs)"
proof -
  have fee: "settling_fee sample_cfg w sample_bundle = 9"
    by (simp add: settling_fee_def sample_settling [OF ready] sample_real_slot_def)
  have segs: "segments_ok sample_cfg (segments sample_bundle) [True] sample_outputs"
    using sample_slot_ok sample_digests(3)
    by (simp add: segments_ok_def sample_bundle_def sample_segment_def settled_segments_def sample_outputs_def
        seg_nullifiers_def)
  have exact: "is_ok (ensure_exact_outputs sample_outputs)"
    using sample_exact(1) by (simp add: is_ok_iff ensure_exact_ciphertext_Inr sample_outputs_def)
  show ?thesis
    unfolding plan_settlement_Inr [OF sample_widths [OF ready]] sample_settling [OF ready] fee sample_flags [OF ready]
      sample_output_bytes sample_quanta
    using segs exact ready
    by (simp add: sample_bundle_def sample_segment_def sample_outputs_def sample_ready_def)
qed

lemma sample_bind: "bind_payload sample_cfg sample_bundle sample_outputs = Inr ()"
  by (simp add: bind_payload_def real_slots_def sample_bundle_def sample_segment_def sample_outputs_def sample_cfg_def
      wire_pool_def sample_base_def sample_params_def sample_burn_def sample_real_slot_def sample_ct_digest_def)

lemma sample_check:
  "sample_ready w \<Longrightarrow> check_settlement sample_cfg w sample_bundle sample_outputs =
     Inr (planned sample_cfg w sample_bundle sample_outputs)"
  by (simp add: check_settlement_Inr sample_plan sample_bind)

lemma sample_canonical: "canonical_bundle sample_bundle"
  using canonical_from_private [OF wf_sample_pool_batch] by (simp add: sample_from_private)

lemma sample_settles:
  assumes ready: "sample_ready w"
  shows "\<exists>w'. settle sample_cfg w sample_bundle sample_outputs = Inr w'"
proof -
  have "tree_inv sample_poseidon (tree w)" using ready by (simp add: sample_ready_def)
  then show ?thesis
    unfolding sample_cfg_def
    by (rule wired.settle_total [OF _ sample_widths [OF ready, unfolded sample_cfg_def] sample_canonical
          sample_check [OF ready, unfolded sample_cfg_def]])
qed

section \<open>A world that a fresh chain reaches\<close>

lemma sample_coinbase:
  "dispatch sample_cfg sample_block NoOrigin (CoinbaseCall sample_commitment []) = Inr sample_noted"
  using sample_commitment_ok(1)
  by (simp add: dispatch_def coinbase_def sample_block_def sample_genesis_def shielded_on_initialize_def
      shielded_genesis_build_def genesis_pool_def block_author_def sample_cfg_def wire_pool_def sample_base_def sample_params_def sample_burn_def
      sample_noted_def commitment_def sample_poseidon_def digest_ok_def)

lemma sample_commitment_note:
  obtains cm where "commitment sample_poseidon sample_commitment v = Some cm" "canonical_limbs cm" "cm \<noteq> empty_hash"
proof -
  let ?ls = "map to_canonical_u64 (commitment_felts (map felt_from_u64 (limbs sample_commitment)) v)"
  have "commitment sample_poseidon sample_commitment v = Some (sample_hash ?ls)"
    using sample_commitment_ok(1) by (simp add: commitment_def sample_poseidon_def digest_ok_def)
  moreover have "sample_hash ?ls \<noteq> empty_hash"
  proof
    let ?f = "foldl (\<lambda>acc n. (acc * 31 + n) mod GOLDILOCKS_P) 7 ?ls"
    assume "sample_hash ?ls = empty_hash"
    then have "digest_of_limbs [?f, 0, 0, 1] = digest_of_limbs [0, 0, 0, 0]"
      by (simp add: sample_hash_def empty_hash_def zero_hash_limbs)
    then have "drop 24 (digest_of_limbs [?f, 0, 0, 1]) = drop 24 (digest_of_limbs [0, 0, 0, 0])" by simp
    then have "le_bytes 8 1 = le_bytes 8 0" by (simp add: digest_of_limbs_def)
    then show False using le_bytes_inject [of 1 8 0] by simp
  qed
  ultimately show ?thesis using that sample_hash_canonical by blast
qed

lemma sample_noted_fields:
  "tree sample_noted = genesis_tree" "PendingCoinbaseFee (pool sample_noted) = 0" "PoolValue (pool sample_noted) = 0"
  "PendingCoinbase (pool sample_noted) = Some \<lparr>cb_inner = sample_commitment, cb_ciphertext = []\<rparr>"
  "UsedNullifiers (pool sample_noted) = {}" "sys_block_number sample_noted = 20" "outputs_written_this_block sample_noted = 0"
  "sys_block_hash sample_noted = (\<lambda>_. digest_of_limbs [7, 7, 7, 7])"
  by (simp_all add: sample_noted_def sample_block_def sample_genesis_def shielded_on_initialize_def genesis_pool_def
      shielded_genesis_build_def outputs_written_this_block_def)

lemma sample_cfg_fields:
  "cfg_poseidon sample_cfg = sample_poseidon" "cfg_insert_commitment sample_cfg = insert_commitment"
  by (simp_all add: sample_cfg_def wire_pool_def sample_base_def sample_params_def sample_burn_def)

lemma sample_note_found:
  "coinbase_note sample_cfg sample_noted \<lparr>cb_inner = sample_commitment, cb_ciphertext = []\<rparr> (100 * POOL_STEP) \<noteq> None"
proof -
  obtain cm where cm: "commitment sample_poseidon sample_commitment 100 = Some cm" "canonical_limbs cm" "cm \<noteq> empty_hash"
    by (rule sample_commitment_note)
  have "sat_add 128 (100 * POOL_STEP) 0 = 100 * POOL_STEP" "100 * POOL_STEP div POOL_STEP = 100"
    by (simp_all add: sat_add_def max_u_def POOL_STEP_def)
  then show ?thesis
    using insert_genesis [OF cm(3,2)] cm(1)
    by (simp add: coinbase_note_def sample_noted_fields sample_cfg_fields Let_def try_into_u_def MAX_VALUE_def VALUE_BITS_def)
qed

lemma sample_world_facts: "sample_ready sample_world \<and> PoolValue (pool sample_world) = 100 * POOL_STEP"
proof -
  obtain w' r where run: "mint_coinbase sample_cfg sample_noted (100 * POOL_STEP) = (w', r)" by fastforce
  then have w: "sample_world = w'" by (simp add: sample_world_def deposit_coinbase_def)
  show ?thesis
    using run
  proof (cases rule: mint_coinbase_cases)
    case returned
    then show ?thesis using sample_note_found by (simp add: sample_noted_fields)
  next
    case (taken payload cm index steps change)
    have ins: "insert_commitment genesis_tree cm = Inr (tree w', index)"
      using taken(8) by (simp add: sample_cfg_fields sample_noted_fields)
    have "tree_inv sample_poseidon (tree w')" "Suc (remaining_capacity (tree w')) = remaining_capacity genesis_tree"
      using tree_inv_genesis ins zk_rec.insert_inv zk_rec.insert_remaining by blast+
    moreover have "steps * 10000000000 + change = 1000000000000" "change < 10000000000"
      using taken(3,4) by (simp_all add: sample_noted_fields sat_add_def max_u_def POOL_STEP_def)
    moreover from this have "steps = 100" by presburger
    moreover have "4 \<le> remaining_capacity genesis_tree"
      by (simp add: remaining_capacity_def genesis_tree_def capacity_at_depth_def CIRCUIT_MAX_TREE_DEPTH_def ARITY_def max_u_def)
    ultimately show ?thesis
      using taken(9)
      by (simp add: w sample_ready_def mints_def sample_noted_fields POOL_STEP_def sat_add_def sat_mul_def max_u_def)
  qed
qed

lemmas sample_world_ready = sample_world_facts [THEN conjunct1]
  and sample_world_value = sample_world_facts [THEN conjunct2]

lemma sample_world_supply: "PoolValue (pool sample_world) + PendingCoinbaseFee (pool sample_world) < 2 ^ 128"
  using sample_world_ready by (simp add: sample_ready_def)

lemma sample_world_balances: "balances sample_world = (\<lambda>_. 5 * POOL_STEP)"
proof -
  obtain w' r where run: "mint_coinbase sample_cfg sample_noted (100 * POOL_STEP) = (w', r)" by fastforce
  then have "balances w' = balances sample_noted"
    by (cases rule: mint_coinbase_cases) (simp_all add: mint_returned_def mints_def)
  then show ?thesis
    using run by (simp add: sample_world_def deposit_coinbase_def sample_noted_def sample_block_def sample_genesis_def
        shielded_on_initialize_def)
qed

end
