(* ===== verification/ShieldedSafety.thy ===== *)
theory ShieldedSafety
  imports ShieldedCoinbase ShieldedSample "HOL-Library.Multiset"
begin

text \<open>
  The safety of the pool over every history: the invariant \<open>pool_inv\<close> (nothing is spent twice,
  the output cap of a block holds), preserved by every call, hook and mint, and the properties of
  settlements that the calls promise one by one.
\<close>

section \<open>The invariant of the pool\<close>

definition pool_inv ::
  "('t \<Rightarrow> bool) \<Rightarrow> ('t, 'b, 'acc, 'ce) shielded_config \<Rightarrow> ('t, 'b, 'acc) world \<Rightarrow> bool" where
  "pool_inv rinv cfg w \<longleftrightarrow>
     rinv (tree w) \<and> PoolValue (pool w) < 2 ^ 128
     \<and> UsedNullifiers (pool w) = set (nullifier_log (pool w)) \<and> distinct (nullifier_log (pool w))
     \<and> zero_hash \<notin> set (nullifier_log (pool w))
     \<and> outputs_written_this_block w \<le> MaxOutputsPerBlock cfg"

definition config_widths :: "('t, 'b, 'acc, 'ce) shielded_config \<Rightarrow> bool" where
  "config_widths cfg \<longleftrightarrow> MaxOutputsPerBlock cfg < 2 ^ 32 - 1 \<and> MinLeafFee cfg < 2 ^ 64"

lemma plan_widthsI:
  "config_widths cfg \<Longrightarrow> pool_inv rinv cfg w \<Longrightarrow> length outputs < 2 ^ 32 \<Longrightarrow> plan_widths cfg w outputs"
  by (simp add: config_widths_def pool_inv_def plan_widths_def)

lemma ensure_output_capacity_bound:
  "ensure_output_capacity cfg w n = Inr u \<Longrightarrow> outputs_written_this_block w + n \<le> MaxOutputsPerBlock cfg"
  by (auto simp: ensure_output_capacity_def split: option.splits)

text \<open>The effect of a deposit into the pool, field by field.\<close>

definition shields ::
  "('t, 'b, 'acc, 'ce) shielded_config \<Rightarrow> ('t, 'b, 'acc) world \<Rightarrow> 'acc \<Rightarrow> nat \<Rightarrow> hash256 \<Rightarrow> nat \<Rightarrow> ('t, 'b, 'acc) world \<Rightarrow> bool" where
  "shields cfg w who value cm index w' \<longleftrightarrow>
     cfg_burn_from cfg (balances w) who value = Inr (balances w')
     \<and> cfg_insert_commitment cfg (tree w) cm = Inr (tree w', index)
     \<and> PoolValue (pool w') = sat_add 128 (PoolValue (pool w)) value
     \<and> EntryCount (pool w') = sat_add 64 (EntryCount (pool w)) 1
     \<and> LeafBlocks (pool w') = (LeafBlocks (pool w))(index \<mapsto> sys_block_number w)
     \<and> outputs_written_this_block w' = sat_add 32 (outputs_written_this_block w) 1
     \<and> UsedNullifiers (pool w') = UsedNullifiers (pool w) \<and> nullifier_log (pool w') = nullifier_log (pool w)
     \<and> PendingCoinbase (pool w') = PendingCoinbase (pool w)
     \<and> PendingCoinbaseFee (pool w') = PendingCoinbaseFee (pool w)
     \<and> CoinbaseValues (pool w') = CoinbaseValues (pool w)
     \<and> sys_block_number w' = sys_block_number w \<and> sys_block_hash w' = sys_block_hash w"

lemma shield_steps:
  assumes "shield cfg w origin value inner ciphertext = Inr w'"
  obtains who cm len index where "origin = Signed who" "shield_checks cfg w value inner ciphertext = Inr (cm, len)"
    "shields cfg w who value cm index w'"
proof (cases origin)
  case (Signed who)
  then obtain cm len b' t' index where run: "shield_checks cfg w value inner ciphertext = Inr (cm, len)"
    "cfg_burn_from cfg (balances w) who value = Inr b'" "cfg_insert_commitment cfg (tree w) cm = Inr (t', index)"
    using assms by (auto simp: shield_def Let_def)
  have "shields cfg w who value cm index w'"
    using assms Signed run
    by (auto simp: shield_def Let_def shields_def deposit_event_def record_outputs_def outputs_written_this_block_def
        nullifier_log_def sat_add_def max_u_def split: prod.splits)
  then show ?thesis using that Signed run(1) by blast
qed (use assms in \<open>simp_all add: shield_def\<close>)

lemma shield_checks_Inr:
  "shield_checks cfg w value inner ciphertext = Inr (cm, len) \<Longrightarrow>
   value mod POOL_STEP = 0 \<and> 0 < value \<and> value div POOL_STEP \<le> MAX_VALUE
   \<and> commitment (cfg_poseidon cfg) inner (value div POOL_STEP) = Some cm
   \<and> len = length ciphertext \<and> len \<le> MaxCiphertextBytes cfg
   \<and> 1 \<le> cfg_remaining_capacity cfg (tree w)
   \<and> outputs_written_this_block w + 1 \<le> MaxOutputsPerBlock cfg"
  by (auto simp: shield_checks_def dest: ensure_output_capacity_bound)

lemma coinbase_steps:
  assumes "coinbase cfg w origin inner ciphertext = Inr w'"
  shows "origin = NoOrigin \<and> PendingCoinbase (pool w) = None \<and> ciphertext = [] \<and> block_author cfg w \<noteq> None
    \<and> commitment (cfg_poseidon cfg) inner 0 \<noteq> None
    \<and> w' = w\<lparr>pool := (pool w)\<lparr>PendingCoinbase := Some \<lparr>cb_inner = inner, cb_ciphertext = ciphertext\<rparr>\<rparr>\<rparr>"
  using assms by (auto simp: coinbase_def)

context shielded_pool
begin

lemma settle_pool_inv:
  assumes "config_widths cfg" and inv: "pool_inv rinv cfg w" and "length outputs < 2 ^ 32"
    and ok: "settle cfg w bundle outputs = Inr w'"
  shows "pool_inv rinv cfg w'"
proof -
  have rinv: "rinv (tree w)" using inv by (simp add: pool_inv_def)
  have widths: "plan_widths cfg w outputs" using assms by (intro plan_widthsI)
  note eff = settle_effect [OF rinv widths ok, unfolded settles_bundle_def]
  obtain plan where "check_settlement cfg w bundle outputs = Inr plan" by (rule settle_steps [OF ok])
  then have plan: "segments_ok cfg (segments bundle) (flags_of cfg w bundle) outputs"
    "total_slots (segments bundle) = length outputs"
    "outputs_written_this_block w + 2 * length (settling_slots cfg w bundle) \<le> MaxOutputsPerBlock cfg"
    unfolding check_settlement_Inr plan_settlement_Inr [OF widths] by linarith+
  have zero: "zero_hash \<notin> set (settling_nullifiers cfg w bundle)"
    using settling_slots_ok [OF plan(1,2)] by (auto simp: settling_nullifiers_def)
  have new: "distinct (settling_nullifiers cfg w bundle)"
    "set (settling_nullifiers cfg w bundle) \<inter> UsedNullifiers (pool w) = {}"
    using plan(1) settling_nullifiers_fresh [OF plan(1)] by (simp_all add: segments_ok_settling)
  have "PoolValue (pool w') \<le> PoolValue (pool w)"
    by (rule settle_pool_value [OF rinv ok])
  then show ?thesis
    using inv eff plan(3) zero new by (auto simp: pool_inv_def)
qed

lemma shield_pool_inv:
  assumes inv: "pool_inv rinv cfg w" and ok: "shield cfg w origin value inner ciphertext = Inr w'"
  shows "pool_inv rinv cfg w'"
proof -
  obtain who cm len index where run: "shield_checks cfg w value inner ciphertext = Inr (cm, len)"
    "shields cfg w who value cm index w'"
    by (rule shield_steps [OF ok])
  have "rinv (tree w')"
    using inv run(2) insert_inv [of "tree w" cm "tree w'" index] by (simp add: pool_inv_def shields_def cfg_insert)
  moreover have "outputs_written_this_block w + 1 \<le> MaxOutputsPerBlock cfg"
    using shield_checks_Inr [OF run(1)] by simp
  ultimately show ?thesis
    using inv run(2) sat_add_le [of 32 "outputs_written_this_block w" 1] sat_add_bound [of 128 "PoolValue (pool w)" "value"]
    by (simp add: pool_inv_def shields_def)
qed

lemma dispatch_pool_inv:
  assumes "config_widths cfg" and inv: "pool_inv rinv cfg w" and "length (call_outputs call) < 2 ^ 32"
    and ok: "dispatch cfg w origin call = Inr w'"
  shows "pool_inv rinv cfg w'"
proof (cases call)
  case (ShieldCall v inner ciphertext)
  then show ?thesis using shield_pool_inv [OF inv] ok by (simp add: dispatch_def)
next
  case (CoinbaseCall inner ciphertext)
  then show ?thesis
    using coinbase_steps [of cfg w origin inner ciphertext w'] ok inv
    by (simp add: dispatch_def pool_inv_def nullifier_log_def outputs_written_this_block_def)
next
  case (SubmitPrivateBatch bytes outputs)
  then show ?thesis using settle_pool_inv [OF assms(1) inv] assms(3) ok by (auto simp: dispatch_settlement)
next
  case (SubmitPublicBatch bytes outputs)
  then show ?thesis using settle_pool_inv [OF assms(1) inv] assms(3) ok by (auto simp: dispatch_settlement)
qed

lemma deposit_pool_inv:
  assumes inv: "pool_inv rinv cfg w" and run: "deposit_coinbase cfg w amount = (w', r)"
  shows "pool_inv rinv cfg w'"
  using run [unfolded deposit_coinbase_def]
proof (cases rule: mint_coinbase_cases)
  case returned
  then show ?thesis using inv by (simp add: mint_returned_def pool_inv_def)
next
  case (taken payload cm index steps change)
  then have "rinv (tree w')"
    using inv insert_inv [of "tree w" cm "tree w'" index] by (simp add: pool_inv_def cfg_insert)
  then show ?thesis
    using inv taken(9) sat_add_bound [of 128 "PoolValue (pool w)" "sat_mul 128 steps POOL_STEP"]
    by (simp add: mints_def pool_inv_def)
qed

end

section \<open>Histories\<close>

text \<open>
  Everything that changes the pool's world: its calls under any origin, the start of a block, a
  runtime upgrade, the payment of a reward, and what other pallets do to the tree and the balances.
\<close>

inductive pool_step ::
  "poseidon \<Rightarrow> (zk_tree, 'b, 'acc, 'ce) shielded_config \<Rightarrow> (zk_tree, 'b, 'acc) world \<Rightarrow> (zk_tree, 'b, 'acc) world \<Rightarrow> bool"
  for pc cfg where
  pool_call: "dispatch cfg w origin call = Inr w' \<Longrightarrow> length (call_outputs call) < 2 ^ 32 \<Longrightarrow> pool_step pc cfg w w'"
| pool_initialize: "pool_step pc cfg w
    (shielded_on_initialize (w\<lparr>sys_block_number := n, sys_block_hash := h, sys_pre_runtime := d\<rparr>))"
| pool_upgrade: "pool_step pc cfg w (shielded_on_runtime_upgrade cfg w)"
| pool_reward: "deposit_coinbase cfg w amount = (w', r) \<Longrightarrow> pool_step pc cfg w w'"
| pool_tree: "zk_step pc (tree w) t' \<Longrightarrow> pool_step pc cfg w (w\<lparr>tree := t'\<rparr>)"
| pool_balances: "pool_step pc cfg w (w\<lparr>balances := b\<rparr>)"

inductive pool_reachable ::
  "poseidon \<Rightarrow> (zk_tree, 'b, 'acc, 'ce) shielded_config \<Rightarrow> (zk_tree, 'b, 'acc) world \<Rightarrow> bool" for pc cfg where
  pool_genesis: "pool_reachable pc cfg
    \<lparr>pool = shielded_genesis_build cfg genesis_pool, tree = genesis_tree, balances = b, sys_block_number = 0,
     sys_block_hash = h, sys_pre_runtime = []\<rparr>"
| pool_steps: "pool_reachable pc cfg w \<Longrightarrow> pool_step pc cfg w w' \<Longrightarrow> pool_reachable pc cfg w'"

lemma pool_step_inv:
  assumes "config_widths (wire_pool px pa qa m n base)" and "pool_inv (tree_inv pc) (wire_pool px pa qa m n base) w"
    and "pool_step pc (wire_pool px pa qa m n base) w w'"
  shows "pool_inv (tree_inv pc) (wire_pool px pa qa m n base) w'"
  using assms(3,2)
proof (induction rule: pool_step.induct)
  case (pool_call w origin call w')
  then show ?case using wired.dispatch_pool_inv [OF assms(1)] by blast
next
  case (pool_initialize w n h d)
  then show ?case
    by (auto simp: pool_inv_def shielded_on_initialize_def nullifier_log_def outputs_written_this_block_def)
next
  case (pool_upgrade w)
  then show ?case
    by (simp add: pool_inv_def shielded_on_runtime_upgrade_def nullifier_log_def outputs_written_this_block_def Let_def)
next
  case (pool_reward w amount w' r)
  then show ?case using wired.deposit_pool_inv by blast
next
  case (pool_tree w t')
  then show ?case
    using zk_step_tree_inv by (auto simp: pool_inv_def nullifier_log_def outputs_written_this_block_def)
next
  case (pool_balances w b)
  then show ?case by (simp add: pool_inv_def nullifier_log_def outputs_written_this_block_def)
qed

lemma pool_reachable_inv:
  assumes "config_widths (wire_pool px pa qa m n base)" and "pool_reachable pc (wire_pool px pa qa m n base) w"
  shows "pool_inv (tree_inv pc) (wire_pool px pa qa m n base) w"
  using assms(2)
proof (induction rule: pool_reachable.induct)
  case (pool_genesis b h)
  then show ?case
    using tree_inv_genesis by (simp add: pool_inv_def shielded_genesis_build_def genesis_pool_def nullifier_log_def
        outputs_written_this_block_def)
next
  case (pool_steps w w')
  then show ?case using pool_step_inv [OF assms(1)] by blast
qed

section \<open>Properties of the pool\<close>

text \<open>
  C4: No double spend over any history. In every state the pool can reach from genesis through its
  calls, hooks, rewards and the steps of the other pallets, the nullifiers it ever announced as
  settled are pairwise distinct and never the zero digest, they are exactly the used set, and the
  outputs written in the current block are within the cap.
\<close>

theorem no_double_spend:
  assumes "config_widths (wire_pool px private_artifact public_artifact num_inner num_leaves base)"
    and "pool_reachable pc (wire_pool px private_artifact public_artifact num_inner num_leaves base) w"
  shows "distinct (nullifier_log (pool w)) \<and> set (nullifier_log (pool w)) = UsedNullifiers (pool w)
    \<and> zero_hash \<notin> UsedNullifiers (pool w)
    \<and> outputs_written_this_block w \<le> MaxOutputsPerBlock base"
  using pool_reachable_inv [OF assms] by (simp add: pool_inv_def wire_pool_def)

lemma sample_reachable: "pool_reachable sample_poseidon sample_cfg sample_world"
proof -
  have "pool_reachable sample_poseidon sample_cfg sample_genesis"
    unfolding sample_genesis_def by (rule pool_genesis)
  from pool_steps [OF this pool_initialize] have "pool_reachable sample_poseidon sample_cfg sample_block"
    unfolding sample_block_def .
  from pool_steps [OF this pool_call [OF sample_coinbase]] have "pool_reachable sample_poseidon sample_cfg sample_noted"
    by simp
  from pool_steps [OF this pool_reward [OF surjective_pairing]] show ?thesis unfolding sample_world_def .
qed

lemma sample_config_widths: "config_widths sample_cfg"
  by (simp add: config_widths_def sample_cfg_def wire_pool_def sample_base_def sample_params_def sample_burn_def)

lemma sample_dispatch:
  "settle sample_cfg w sample_bundle sample_outputs = Inr w' \<Longrightarrow> dispatch sample_cfg w NoOrigin sample_submit = Inr w'"
  using sample_verified dispatch_settlement [of sample_submit sample_cfg w NoOrigin] by (simp add: sample_submit_def)

theorem no_double_spend_witness:
  "\<exists>w'. dispatch sample_cfg sample_world NoOrigin sample_submit = Inr w'
     \<and> pool_reachable sample_poseidon sample_cfg w'
     \<and> distinct (nullifier_log (pool w')) \<and> set (nullifier_log (pool w')) = UsedNullifiers (pool w')"
proof -
  obtain w' where "settle sample_cfg sample_world sample_bundle sample_outputs = Inr w'"
    using sample_settles [OF sample_world_ready] by blast
  then have run: "dispatch sample_cfg sample_world NoOrigin sample_submit = Inr w'" by (rule sample_dispatch)
  then have reach: "pool_reachable sample_poseidon sample_cfg w'"
    using pool_steps [OF sample_reachable pool_call [OF run]] by (simp add: sample_submit_def sample_outputs_def)
  then show ?thesis
    using no_double_spend [OF sample_config_widths [unfolded sample_cfg_def] reach [unfolded sample_cfg_def]] run by blast
qed

lemma frame_of_same_elsewhere:
  assumes "same_elsewhere w w'"
  shows "w' = w\<lparr>tree := tree w', pool := (pool w)\<lparr>UsedNullifiers := UsedNullifiers (pool w'), LeafBlocks := LeafBlocks (pool w'),
      OutputsWrittenThisBlock := OutputsWrittenThisBlock (pool w'), PoolValue := PoolValue (pool w'),
      PendingCoinbaseFee := PendingCoinbaseFee (pool w'), shielded_events := shielded_events (pool w')\<rparr>\<rparr>"
  using assms unfolding same_elsewhere_def by (cases w; cases w'; cases "pool w"; cases "pool w'") simp

lemma outputs_written_pos:
  assumes "outputs_written_this_block w' = n" "0 < n" "sys_block_number w' = b"
  shows "OutputsWrittenThisBlock (pool w') = (b, n)"
  using assms by (auto simp: outputs_written_this_block_def split: prod.splits if_splits)

text \<open>
  C6: A settlement writes exactly what its plan settles. The nullifiers of the settling slots become
  used, in order, and were not used before; their commitments are appended in order and nothing else is;
  each new leaf records the current block; the block's output count grows by two per slot; the settled fee
  leaves the pool and the author's share of it is held for the next reward; and apart from these fields, the
  tree and the event log, the state after is the state before.
\<close>

theorem settlement_exact:
  assumes cfg_def: "cfg = wire_pool px private_artifact public_artifact num_inner num_leaves base"
    and "tree_inv pc (tree w)" and "plan_widths cfg w outputs"
    and "PoolValue (pool w) + PendingCoinbaseFee (pool w) < 2 ^ 128"
    and "settle cfg w bundle outputs = Inr w'"
  shows "UsedNullifiers (pool w') = UsedNullifiers (pool w) \<union> set (settling_nullifiers cfg w bundle)
    \<and> nullifier_log (pool w') = nullifier_log (pool w) @ settling_nullifiers cfg w bundle
    \<and> distinct (settling_nullifiers cfg w bundle)
    \<and> set (settling_nullifiers cfg w bundle) \<inter> UsedNullifiers (pool w) = {}
    \<and> settling_slots cfg w bundle \<noteq> []
    \<and> all_leaves (tree w') = all_leaves (tree w) @ settling_commitments cfg w bundle
    \<and> LeafBlocks (pool w') = (\<lambda>i. if LeafCount (tree w) \<le> i \<and> i < LeafCount (tree w') then Some (sys_block_number w)
                                   else LeafBlocks (pool w) i)
    \<and> OutputsWrittenThisBlock (pool w') =
        (sys_block_number w, outputs_written_this_block w + 2 * length (settling_slots cfg w bundle))
    \<and> PoolValue (pool w') + settling_fee cfg w bundle * POOL_STEP = PoolValue (pool w)
    \<and> PendingCoinbaseFee (pool w') =
        PendingCoinbaseFee (pool w) + (settling_fee cfg w bundle - cfg_fee_burn_mul_ceil cfg (settling_fee cfg w bundle)) * POOL_STEP
    \<and> w' = w\<lparr>tree := tree w', pool := (pool w)\<lparr>UsedNullifiers := UsedNullifiers (pool w'), LeafBlocks := LeafBlocks (pool w'),
        OutputsWrittenThisBlock := OutputsWrittenThisBlock (pool w'), PoolValue := PoolValue (pool w'),
        PendingCoinbaseFee := PendingCoinbaseFee (pool w'), shielded_events := shielded_events (pool w')\<rparr>\<rparr>"
proof -
  note widths = assms(3) [unfolded cfg_def] and ok = assms(5) [unfolded cfg_def]
  note eff = wired.settle_effect [OF assms(2) widths ok, folded cfg_def, unfolded settles_bundle_def]
  note fee = wired.settle_fee [OF assms(2) widths ok assms(4), folded cfg_def, unfolded author_share_def]
  obtain plan where "check_settlement cfg w bundle outputs = Inr plan"
    using wired.settle_steps [OF ok] unfolding cfg_def by blast
  then have plan: "segments_ok cfg (segments bundle) (flags_of cfg w bundle) outputs" "settling_slots cfg w bundle \<noteq> []"
    unfolding check_settlement_Inr plan_settlement_Inr [OF assms(3)] by linarith+
  have "0 < outputs_written_this_block w + 2 * length (settling_slots cfg w bundle)" using plan(2) by simp
  moreover have same: "same_elsewhere w w'" and "sys_block_number w' = sys_block_number w" using eff by (simp_all add: same_elsewhere_def)
  ultimately have "OutputsWrittenThisBlock (pool w') = (sys_block_number w, outputs_written_this_block w + 2 * length (settling_slots cfg w bundle))"
    using eff by (intro outputs_written_pos) simp_all
  then show ?thesis
    using eff fee plan settling_nullifiers_fresh [OF plan(1)] frame_of_same_elsewhere [OF same]
    by (intro conjI) (simp_all add: segments_ok_settling)
qed

theorem settlement_exact_witness:
  "\<exists>w'. settle sample_cfg sample_world sample_bundle sample_outputs = Inr w'
     \<and> UsedNullifiers (pool w') = {digest_of_limbs [1, 0, 0, 0], digest_of_limbs [2, 0, 0, 0]}
     \<and> all_leaves (tree w') = all_leaves (tree sample_world) @ [digest_of_limbs [3, 0, 0, 0], digest_of_limbs [4, 0, 0, 0]]
     \<and> PoolValue (pool w') + 9 * POOL_STEP = PoolValue (pool sample_world)"
proof -
  note ready = sample_world_ready [unfolded sample_ready_def]
  obtain w' where run: "settle sample_cfg sample_world sample_bundle sample_outputs = Inr w'"
    using sample_settles [OF sample_world_ready] by blast
  show ?thesis
    using settlement_exact [OF sample_cfg_def _ sample_widths [OF sample_world_ready] sample_world_supply run,
        of sample_poseidon] ready run
    by (simp add: settling_nullifiers_def settling_commitments_def settling_fee_def sample_settling [OF sample_world_ready]
        slot_nullifiers_def slot_commitments_def sample_real_slot_def insert_commute)
qed

text \<open>
  C13: The three gates of an unsigned settlement agree. In one state, a settlement call is admitted to
  the transaction pool exactly when it may be included in a block, and exactly when its dispatch
  succeeds; and no signed or root origin can dispatch it.
\<close>

theorem settlement_gates_agree:
  assumes cfg_def: "cfg = wire_pool px private_artifact public_artifact num_inner num_leaves base"
    and "is_settlement call" and "tree_inv pc (tree w)" and "plan_widths cfg w (call_outputs call)"
  shows "is_ok (validate_unsigned cfg w call) = is_ok (pre_dispatch cfg w call)
    \<and> is_ok (dispatch cfg w NoOrigin call) = is_ok (pre_dispatch cfg w call)
    \<and> (\<forall>origin. origin \<noteq> NoOrigin \<longrightarrow> \<not> is_ok (dispatch cfg w origin call))"
  unfolding cfg_def
  by (simp add: wired.validate_unsigned_iff [OF assms(2)] wired.pre_dispatch_iff [OF assms(2)]
      wired.dispatch_iff [OF assms(2,3) assms(4) [unfolded cfg_def]])

theorem settlement_gates_agree_witness:
  "is_ok (validate_unsigned sample_cfg sample_world sample_submit)
   \<and> is_ok (pre_dispatch sample_cfg sample_world sample_submit)"
proof -
  have pre: "is_settlement sample_submit" "tree_inv sample_poseidon (tree sample_world)"
    "plan_widths sample_cfg sample_world (call_outputs sample_submit)"
    using sample_world_ready sample_widths [OF sample_world_ready]
    by (simp_all add: sample_submit_def sample_ready_def)
  moreover have "is_ok (dispatch sample_cfg sample_world NoOrigin sample_submit)"
    using sample_settles [OF sample_world_ready] sample_dispatch by (auto simp: is_ok_iff)
  ultimately show ?thesis
    using settlement_gates_agree [OF sample_cfg_def pre] by simp
qed

text \<open>
  C14: What \<open>plan_settlement\<close> accepts, on every branch. A plan is accepted exactly when something
  settles, the ciphertext pairs are one per real slot and each empty or of the exact suite length, no
  segment is empty, the settling nullifiers are pairwise distinct, every settling slot has nonzero
  digests, a fee in range that covers its own bytes and a carried payload, the fees settled cover every
  carried byte, and the tree, the block's output budget and the pool's value have room. The plan then
  lists the segments that settle.
\<close>

theorem plan_settlement_spec:
  assumes "plan_widths cfg w outputs"
  shows "plan_settlement cfg w bundle outputs = Inr plan \<longleftrightarrow>
     plan = planned cfg w bundle outputs
     \<and> settling_slots cfg w bundle \<noteq> []
     \<and> length outputs = total_slots (segments bundle)
     \<and> (\<forall>seg \<in> set (segments bundle). seg_slots seg \<noteq> [])
     \<and> (\<forall>output \<in> set outputs. ct_1 output = [] \<and> ct_2 output = []
          \<or> exact_ciphertext (ct_1 output) \<and> exact_ciphertext (ct_2 output))
     \<and> distinct (settling_nullifiers cfg w bundle)
     \<and> (\<forall>(slot, output) \<in> set (settled_pairs (segments bundle) (flags_of cfg w bundle) outputs).
          rs_fee slot \<le> MAX_VALUE \<and> zero_hash \<notin> set (slot_commitments slot) \<and> zero_hash \<notin> set (slot_nullifiers slot)
          \<and> ct_1 output \<noteq> [] \<and> ct_2 output \<noteq> []
          \<and> fee_floor cfg (MinLeafFee cfg) (output_bytes output) \<le> rs_fee slot)
     \<and> length outputs * MinLeafFee cfg + div_ceil (carried_bytes outputs) (bytes_per_fee_quantum cfg)
         \<le> settling_fee cfg w bundle
     \<and> 2 * length (settling_slots cfg w bundle) + 1 \<le> cfg_remaining_capacity cfg (tree w)
     \<and> outputs_written_this_block w + 2 * length (settling_slots cfg w bundle) \<le> MaxOutputsPerBlock cfg
     \<and> settling_fee cfg w bundle * POOL_STEP \<le> PoolValue (pool w)"
proof -
  have exact: "is_ok (ensure_exact_outputs outputs) \<longleftrightarrow>
     (\<forall>output \<in> set outputs. ct_1 output = [] \<and> ct_2 output = []
          \<or> exact_ciphertext (ct_1 output) \<and> exact_ciphertext (ct_2 output))"
    by (simp add: is_ok_iff ensure_exact_outputs_Inr)
  show ?thesis
    unfolding plan_settlement_Inr [OF assms] segments_ok_settling exact slot_ok_def by auto
qed

theorem plan_settlement_spec_witness:
  "plan_settlement sample_cfg sample_world sample_bundle sample_outputs = Inr (planned sample_cfg sample_world sample_bundle sample_outputs)
   \<and> settling_slots sample_cfg sample_world sample_bundle = [sample_real_slot]
   \<and> 3 \<le> cfg_remaining_capacity sample_cfg (tree sample_world)"
  using plan_settlement_spec [OF sample_widths [OF sample_world_ready],
      of sample_bundle "planned sample_cfg sample_world sample_bundle sample_outputs"]
    sample_plan [OF sample_world_ready] sample_settling [OF sample_world_ready] by simp

text \<open>
  C15: The payload of a settled slot is bound to its proof. For every slot that settles, both
  ciphertexts carried at its position are 1792 bytes of the one known suite, their digest is the one
  the proof committed, and any pair of ciphertexts with that digest is the same pair or gives two
  preimages of one hash value.
\<close>

theorem settled_payload_bound:
  assumes "plan_widths cfg w outputs" and "check_settlement cfg w bundle outputs = Inr plan"
    and "(slot, output) \<in> set (settled_pairs (segments bundle) (flags_of cfg w bundle) outputs)"
  shows "length (ct_1 output) = 1792 \<and> length (ct_2 output) = 1792
    \<and> declared_crypto_suite (ct_1 output) = Some 1 \<and> declared_crypto_suite (ct_2 output) = Some 1
    \<and> ct_digest (cfg_poseidon cfg) [ct_1 output, ct_2 output] = rs_ct_digest slot
    \<and> (\<forall>a b. ct_digest (cfg_poseidon cfg) [a, b] = rs_ct_digest slot \<and> length a < 2 ^ 32 \<and> length b < 2 ^ 32 \<longrightarrow>
         [a, b] = [ct_1 output, ct_2 output]
         \<or> hash_bytes (cfg_poseidon cfg) (ct_digest_preimage [a, b])
             = hash_bytes (cfg_poseidon cfg) (ct_digest_preimage [ct_1 output, ct_2 output])
           \<and> ct_digest_preimage [a, b] \<noteq> ct_digest_preimage [ct_1 output, ct_2 output])"
proof -
  have plan: "segments_ok cfg (segments bundle) (flags_of cfg w bundle) outputs"
    "total_slots (segments bundle) = length outputs" "is_ok (ensure_exact_outputs outputs)"
    "bind_payload cfg bundle outputs = Inr ()"
    using assms(2) unfolding check_settlement_Inr plan_settlement_Inr [OF assms(1)] by linarith+
  have mem: "(slot, output) \<in> set (zip (real_slots bundle) outputs)"
    using settled_pairs_zip [OF assms(3) plan(2)] by (simp add: real_slots_def)
  have nonempty: "ct_1 output \<noteq> []" using plan(1) assms(3) by (auto simp: segments_ok_def slot_ok_def)
  have exact: "exact_ciphertext (ct_1 output)" "exact_ciphertext (ct_2 output)"
    using plan(3) mem nonempty set_zip_rightD [OF mem] by (auto simp: is_ok_iff ensure_exact_outputs_Inr)
  have bound: "ct_digest (cfg_poseidon cfg) [ct_1 output, ct_2 output] = rs_ct_digest slot"
    using plan(4) mem nonempty unfolding bind_payload_def bind_slots_Inr by auto
  have inject: "[a, b] = [ct_1 output, ct_2 output]"
    if "ct_digest_preimage [a, b] = ct_digest_preimage [ct_1 output, ct_2 output]" "length a < 2 ^ 32" "length b < 2 ^ 32" for a b
    using ct_digest_preimage_inject [OF _ _ _ _ that(1)] that(2,3) exact
    by (simp add: exact_ciphertext_def SUITE_1_CIPHERTEXT_BYTES_def)
  show ?thesis
    using exact bound inject
    by (auto simp: exact_ciphertext_def SUITE_1_CIPHERTEXT_BYTES_def CRYPTO_SUITE_ML_KEM_1024_def ct_digest_def)
qed

theorem settled_payload_bound_witness:
  "length sample_ct = 1792 \<and> ct_digest sample_poseidon [sample_ct, sample_ct] = rs_ct_digest sample_real_slot"
proof -
  have "(sample_real_slot, \<lparr>ct_1 = sample_ct, ct_2 = sample_ct\<rparr>)
      \<in> set (settled_pairs (segments sample_bundle) (flags_of sample_cfg sample_world sample_bundle) sample_outputs)"
    by (simp add: sample_flags [OF sample_world_ready]) (simp add: sample_bundle_def sample_segment_def sample_outputs_def)
  from settled_payload_bound [OF sample_widths [OF sample_world_ready] sample_check [OF sample_world_ready] this]
  show ?thesis by (simp add: sample_cfg_fields)
qed

text \<open>
  C17: A deposit into the pool is worth what it burns. When \<open>shield\<close> succeeds, the signer's account
  was burned of exactly the value, the one leaf appended is the commitment of the caller's inner digest
  to that value in steps, the value is a positive multiple of the pool step within the note range, and
  the pool's value grows by it; no nullifier is spent.
\<close>

theorem shield_exact:
  assumes cfg_def: "cfg = wire_pool px private_artifact public_artifact num_inner num_leaves base"
    and "tree_inv pc (tree w)" and "PoolValue (pool w) + value < 2 ^ 128"
    and "shield cfg w origin value inner ciphertext = Inr w'"
  shows "\<exists>who cm. origin = Signed who \<and> cfg_burn_from cfg (balances w) who value = Inr (balances w')
    \<and> commitment (cfg_poseidon cfg) inner (value div POOL_STEP) = Some cm
    \<and> value = value div POOL_STEP * POOL_STEP \<and> 0 < value \<and> value div POOL_STEP \<le> MAX_VALUE
    \<and> all_leaves (tree w') = all_leaves (tree w) @ [cm]
    \<and> PoolValue (pool w') = PoolValue (pool w) + value
    \<and> UsedNullifiers (pool w') = UsedNullifiers (pool w)
    \<and> length ciphertext \<le> MaxCiphertextBytes cfg"
proof -
  obtain who cm len index where run: "origin = Signed who" "shield_checks cfg w value inner ciphertext = Inr (cm, len)"
    "shields cfg w who value cm index w'"
    by (rule shield_steps [OF assms(4)])
  note checks = shield_checks_Inr [OF run(2)]
  have "insert_commitment (tree w) cm = Inr (tree w', index)"
    using run(3) by (simp add: shields_def cfg_def wire_pool_def)
  then have "all_leaves (tree w') = all_leaves (tree w) @ [cm]" using assms(2) by (rule zk_rec.insert_leaves [rotated])
  moreover have "value = value div POOL_STEP * POOL_STEP" using checks by (metis add_0_right div_mult_mod_eq)
  moreover have "PoolValue (pool w') = PoolValue (pool w) + value"
    using run(3) assms(3) by (simp add: shields_def sat_add_exact)
  ultimately show ?thesis using run checks by (auto simp: shields_def)
qed

lemma sample_shields: "\<exists>w'. shield sample_cfg sample_world (Signed 1) (3 * POOL_STEP) sample_commitment [] = Inr w'"
proof -
  note ready = sample_world_ready [unfolded sample_ready_def]
  obtain cm where cm: "commitment sample_poseidon sample_commitment 3 = Some cm" "canonical_limbs cm" "cm \<noteq> empty_hash"
    by (rule sample_commitment_note)
  have checks: "shield_checks sample_cfg sample_world (3 * POOL_STEP) sample_commitment [] = Inr (cm, 0)"
    using ready cm(1)
    by (simp add: shield_checks_def POOL_STEP_def try_into_u_def MAX_VALUE_def VALUE_BITS_def sample_cfg_def wire_pool_def
        sample_base_def sample_params_def sample_burn_def ensure_output_capacity_def checked_add_def)
  have "0 < remaining_capacity (tree sample_world)" "tree_inv sample_poseidon (tree sample_world)" "cm \<noteq> zero_hash"
    using ready cm(3) by (simp_all add: empty_hash_def)
  then obtain t' i where ins: "insert_commitment (tree sample_world) cm = Inr (t', i)"
    using zk_rec.insert_total cm(2) by blast
  have "cfg_burn_from sample_cfg (balances sample_world) 1 (3 * POOL_STEP)
      = Inr ((balances sample_world)(1 := balances sample_world 1 - 3 * POOL_STEP))"
    by (simp add: sample_cfg_def wire_pool_def sample_base_def sample_params_def sample_burn_def sample_world_balances)
  then show ?thesis using checks ins by (simp add: shield_def sample_cfg_fields Let_def)
qed

theorem shield_exact_witness:
  "\<exists>w'. shield sample_cfg sample_world (Signed 1) (3 * POOL_STEP) sample_commitment [] = Inr w'
     \<and> PoolValue (pool w') = PoolValue (pool sample_world) + 3 * POOL_STEP"
proof -
  obtain w' where run: "shield sample_cfg sample_world (Signed 1) (3 * POOL_STEP) sample_commitment [] = Inr w'"
    using sample_shields by blast
  have "tree_inv sample_poseidon (tree sample_world)" "PoolValue (pool sample_world) + 3 * POOL_STEP < 2 ^ 128"
    using sample_world_ready sample_world_value by (simp_all add: sample_ready_def POOL_STEP_def)
  from shield_exact [OF sample_cfg_def this run] show ?thesis using run by blast
qed

text \<open>
  C16: A block reward is taken whole or handed back whole. When the pool takes a reward, the note it
  appends commits the noted inner digest to a value in steps that is what the pool's value grows by,
  that value is recorded under the leaf's index, the sub-step remainder waits for the next reward, and
  pool value and held fees together grow by exactly the reward; otherwise the reward is returned
  unchanged and the supply with it. Either way the noted payload is consumed.
\<close>

theorem coinbase_mint_exact:
  assumes cfg_def: "cfg = wire_pool px private_artifact public_artifact num_inner num_leaves base"
    and "tree_inv pc (tree w)" and "PoolValue (pool w) + PendingCoinbaseFee (pool w) + amount < 2 ^ 128"
    and "deposit_coinbase cfg w amount = (w', r)"
  shows "PendingCoinbase (pool w') = None \<and>
    (case r of
       Inl rest \<Rightarrow> rest = amount \<and> tree w' = tree w \<and> PoolValue (pool w') = PoolValue (pool w)
         \<and> PendingCoinbaseFee (pool w') = PendingCoinbaseFee (pool w)
     | Inr _ \<Rightarrow> \<exists>payload cm steps. PendingCoinbase (pool w) = Some payload
         \<and> commitment (cfg_poseidon cfg) (cb_inner payload) steps = Some cm
         \<and> all_leaves (tree w') = all_leaves (tree w) @ [cm]
         \<and> CoinbaseValues (pool w') = (CoinbaseValues (pool w))(LeafCount (tree w) \<mapsto> steps)
         \<and> PoolValue (pool w') = PoolValue (pool w) + steps * POOL_STEP
         \<and> PendingCoinbaseFee (pool w') < POOL_STEP
         \<and> PoolValue (pool w') + PendingCoinbaseFee (pool w') = PoolValue (pool w) + PendingCoinbaseFee (pool w) + amount)"
  using assms(4) [unfolded deposit_coinbase_def]
proof (cases rule: mint_coinbase_cases)
  case returned
  then show ?thesis by (simp add: mint_returned_def)
next
  case (taken payload cm index steps change)
  have inv: "sink_inv (tree_inv pc) w" using assms(2,3) by (simp add: sink_inv_def)
  have ins: "insert_commitment (tree w) cm = Inr (tree w', index)"
    using taken(8) by (simp add: cfg_def wire_pool_def)
  have "shielded_supply w + amount < 2 ^ 128" using assms(3) by (simp add: shielded_supply_exact [OF inv])
  from mints_supply [OF inv this taken(3,9)] show ?thesis
    using taken zk_rec.insert_leaves [OF assms(2) ins] zk_rec.insert_index [OF assms(2) ins] by (auto simp: mints_def)
qed

theorem coinbase_mint_exact_witness:
  "PoolValue (pool sample_world) + PendingCoinbaseFee (pool sample_world) = 100 * POOL_STEP
   \<and> PendingCoinbase (pool sample_world) = None"
proof -
  obtain r where run: "deposit_coinbase sample_cfg sample_noted (100 * POOL_STEP) = (sample_world, r)"
    unfolding sample_world_def by (metis surjective_pairing)
  have "r = Inr ()"
    using run [unfolded deposit_coinbase_def]
  proof (cases rule: mint_coinbase_cases)
    case returned
    then show ?thesis using sample_note_found by (simp add: sample_noted_fields)
  qed simp
  moreover have "tree_inv sample_poseidon (tree sample_noted)" by (simp add: sample_noted_fields tree_inv_genesis)
  moreover have "PoolValue (pool sample_noted) + PendingCoinbaseFee (pool sample_noted) + 100 * POOL_STEP < 2 ^ 128"
    by (simp add: sample_noted_fields POOL_STEP_def)
  ultimately show ?thesis
    using coinbase_mint_exact [OF sample_cfg_def _ _ run, of sample_poseidon] by (auto simp: sample_noted_fields)
qed

text \<open>
  A submission in which every segment settles is never refused as underpaid: the per-slot floors
  already pay for every byte carried. \<open>PayloadUnderpaid\<close> can only mean that some segment was
  skipped while its ciphertexts were still carried.
\<close>

theorem underpaid_needs_skip:
  assumes "plan_widths cfg w outputs" and "plan_settlement cfg w bundle outputs = Inl PayloadUnderpaid"
  shows "False \<in> set (flags_of cfg w bundle)"
proof (rule ccontr)
  assume "False \<notin> set (flags_of cfg w bundle)"
  then have flags: "set (flags_of cfg w bundle) \<subseteq> {True}" by (metis (full_types) singletonI subsetI)
  obtain ps f where ps: "plan_segments cfg w outputs (segments bundle) plan_start = Inr ps"
    "length outputs = ps_real_slots ps" "\<not> f \<le> ps_fee_steps ps"
    "submission_floor cfg (ps_slots ps) (ps_skipped_slots ps) (carried_bytes outputs) = Some f"
    using plan_underpaid [OF assms(2)] by blast
  have total: "total_slots (segments bundle) = length outputs"
    using plan_segments_real [OF ps(1)] ps(2) by (simp add: plan_start_def)
  have small: "length outputs < 2 ^ 32" using assms(1) by (simp add: plan_widths_def)
  have res: "segments_ok cfg (segments bundle) (flags_of cfg w bundle) outputs"
    "ps = plan_result cfg w (segments bundle) plan_start"
    using ps(1) unfolding plan_segments_start [OF total small] by simp_all
  have "f = length outputs * MinLeafFee cfg + div_ceil (carried_bytes outputs) (bytes_per_fee_quantum cfg)"
    using ps(4) length_settling_slots [of cfg w "bundle"] small assms(1) total carried_bytes_bound [of outputs]
      submission_floor_exact [of "length (settling_slots cfg w bundle)"
        "length outputs - length (settling_slots cfg w bundle)" cfg "carried_bytes outputs"]
    by (simp add: res(2) plan_result_start plan_widths_def)
  then show False
    using submission_floor_implied [OF flags total res(1)] ps(3) by (simp add: res(2) plan_result_start)
qed

text \<open>The same batch listed twice: the second copy is skipped, its bytes are carried and nobody pays.\<close>

definition sample_twice :: SettlementBundle where
  "sample_twice = \<lparr>segments = [sample_segment, sample_segment]\<rparr>"

lemma sample_twice_flags: "flags_of sample_cfg sample_world sample_twice = [True, False]"
proof -
  have "seg_settles sample_cfg sample_world {} sample_segment"
    using sample_flags [OF sample_world_ready] by (simp add: flags_of_def sample_bundle_def Let_def)
  moreover have "set (seg_nullifiers sample_segment) \<noteq> {}"
    by (simp add: seg_nullifiers_def sample_segment_def slot_nullifiers_def)
  then have "\<not> seg_settles sample_cfg sample_world (set (seg_nullifiers sample_segment)) sample_segment"
    by (auto simp: seg_settles_def conflicts_iff)
  ultimately show ?thesis by (simp add: flags_of_def sample_twice_def Let_def)
qed

lemma sample_twice_underpaid:
  "plan_settlement sample_cfg sample_world sample_twice (sample_outputs @ sample_outputs) = Inl PayloadUnderpaid"
proof -
  let ?os = "sample_outputs @ sample_outputs"
  have len: "total_slots (segments sample_twice) = length ?os" "length ?os < 2 ^ 32" "length ?os = 2"
    by (simp_all add: sample_twice_def sample_segment_def sample_outputs_def)
  have nonempty: "segments sample_twice \<noteq> []" by (simp add: sample_twice_def)
  have slots: "settling_slots sample_cfg sample_world sample_twice = [sample_real_slot]"
    by (simp add: settling_slots_def sample_twice_flags)
      (simp add: sample_twice_def settled_slots_def settled_segments_def sample_segment_def)
  have fee: "settling_fee sample_cfg sample_world sample_twice = 9"
    by (simp add: settling_fee_def slots sample_real_slot_def)
  have ok: "segments_ok sample_cfg (segments sample_twice) [True, False] ?os"
    using sample_slot_ok sample_digests(3)
    by (simp add: segments_ok_def sample_twice_def sample_segment_def settled_segments_def sample_outputs_def
        seg_nullifiers_def)
  have run: "plan_segments sample_cfg sample_world ?os (segments sample_twice) plan_start =
      Inr (plan_result sample_cfg sample_world (segments sample_twice) plan_start)"
    unfolding plan_segments_start [OF len(1,2)] sample_twice_flags fee
    using ok by (simp add: sample_twice_def sample_segment_def)
  have exact: "ensure_exact_outputs ?os = Inr ()"
    using sample_exact(1) by (simp add: ensure_exact_ciphertext_Inr sample_outputs_def)
  have "carried_bytes ?os = 7168"
    by (simp add: carried_bytes_def sample_outputs_def sample_output_bytes sat_add_def max_u_def)
  moreover have "submission_floor sample_cfg 1 1 7168 = Some 16"
    by (simp add: submission_floor_def checked_add_def checked_mul_def sample_quanta bytes_per_fee_quantum_def div_ceil_def
        sample_cfg_def wire_pool_def sample_base_def sample_params_def sample_burn_def)
  ultimately show ?thesis
    using len by (simp add: plan_settlement_def run exact plan_result_start slots fee nonempty)
qed

theorem underpaid_needs_skip_witness:
  "plan_settlement sample_cfg sample_world sample_twice (sample_outputs @ sample_outputs) = Inl PayloadUnderpaid
   \<and> False \<in> set (flags_of sample_cfg sample_world sample_twice)"
proof -
  have "plan_widths sample_cfg sample_world (sample_outputs @ sample_outputs)"
    using sample_widths [OF sample_world_ready] by (simp add: plan_widths_def sample_outputs_def)
  from underpaid_needs_skip [OF this sample_twice_underpaid] show ?thesis using sample_twice_underpaid by blast
qed

section \<open>The provides tag\<close>

text \<open>Two segments that spend the same nullifiers in as many slots.\<close>

definition same_spend :: "Segment \<Rightarrow> Segment \<Rightarrow> bool" where
  "same_spend s t \<longleftrightarrow>
     length (seg_slots s) = length (seg_slots t) \<and> mset (seg_nullifiers s) = mset (seg_nullifiers t)"

definition tag_digests_ok :: "Segment list \<Rightarrow> bool" where
  "tag_digests_ok segs \<longleftrightarrow> length segs < 2 ^ 32 \<and>
     (\<forall>seg \<in> set segs. length (seg_slots seg) < 2 ^ 32 \<and> (\<forall>n \<in> set (seg_nullifiers seg). length n = 32))"

definition tag_segment :: "Segment \<Rightarrow> byte list" where
  "tag_segment seg = le_bytes 4 (length (seg_slots seg)) @ concat (sort (seg_nullifiers seg))"

lemma length_seg_nullifiers: "length (seg_nullifiers seg) = 2 * length (seg_slots seg)"
proof -
  have "length (concat (map slot_nullifiers ss)) = 2 * length ss" for ss
    by (induction ss) (simp_all add: slot_nullifiers_def)
  then show ?thesis by (simp add: seg_nullifiers_def)
qed

lemma length_tag_segment:
  "\<forall>n \<in> set (seg_nullifiers seg). length n = 32 \<Longrightarrow> length (tag_segment seg) = 4 + 64 * length (seg_slots seg)"
  by (simp add: tag_segment_def length_concat_uniform [where k = 32] length_seg_nullifiers)

lemma tag_segment_inject:
  assumes "length (seg_slots s) < 2 ^ 32" "\<forall>n \<in> set (seg_nullifiers s). length n = 32"
    and "length (seg_slots t) < 2 ^ 32" "\<forall>n \<in> set (seg_nullifiers t). length n = 32"
    and "tag_segment s @ xs = tag_segment t @ ys"
  shows "same_spend s t \<and> xs = ys"
proof -
  have "le_bytes 4 (length (seg_slots s)) = le_bytes 4 (length (seg_slots t))"
    using assms(5) by (simp add: tag_segment_def append_eq_append_conv)
  then have k: "length (seg_slots s) = length (seg_slots t)"
    using assms(1,3) by (intro le_bytes_inject [of _ 4]) simp_all
  then have "tag_segment s = tag_segment t \<and> xs = ys"
    using assms(5) length_tag_segment [OF assms(2)] length_tag_segment [OF assms(4)]
    by (metis append_eq_append_conv)
  moreover from this have "sort (seg_nullifiers s) = sort (seg_nullifiers t)"
    using assms(2,4) concat_inject [of 32 "sort (seg_nullifiers s)" "sort (seg_nullifiers t)"]
    by (simp add: tag_segment_def k)
  ultimately show ?thesis using k by (metis same_spend_def mset_sort)
qed

lemma same_spend_tag: "same_spend s t \<Longrightarrow> tag_segment s = tag_segment t"
  unfolding same_spend_def tag_segment_def by (metis mset_sort properties_for_sort sorted_sort)

lemma tag_segments_inject:
  assumes "length ss = length ts" "\<forall>s \<in> set ss \<union> set ts. length (seg_slots s) < 2 ^ 32 \<and> (\<forall>n \<in> set (seg_nullifiers s). length n = 32)"
    and "concat (map tag_segment ss) = concat (map tag_segment ts)"
  shows "list_all2 same_spend ss ts"
  using assms
proof (induction ss ts rule: list_induct2)
  case Nil
  then show ?case by simp
next
  case (Cons s ss t ts)
  then show ?case using tag_segment_inject [of s t "concat (map tag_segment ss)" "concat (map tag_segment ts)"] by simp
qed

text \<open>
  Two submissions compete for one place in the transaction pool exactly when they spend the same
  nullifiers. What the provides tag hashes is equal for two bundles of 32-byte digests if and only if
  they have as many segments and corresponding segments have as many slots and the same nullifiers,
  in any order; fees, outputs and ciphertexts do not change it.
\<close>

theorem provides_tag_nullifiers:
  assumes "tag_digests_ok (segments a)" and "tag_digests_ok (segments b)"
  shows "provides_preimage a = provides_preimage b \<longleftrightarrow> list_all2 same_spend (segments a) (segments b)"
proof -
  have pre: "provides_preimage x = le_bytes 4 (length (segments x)) @ concat (map tag_segment (segments x))" for x
    by (simp add: provides_preimage_def tag_segment_def [abs_def] seg_nullifiers_def)
  show ?thesis
  proof
    assume eq: "provides_preimage a = provides_preimage b"
    then have "le_bytes 4 (length (segments a)) = le_bytes 4 (length (segments b))"
      "concat (map tag_segment (segments a)) = concat (map tag_segment (segments b))"
      by (simp_all add: pre append_eq_append_conv)
    moreover from this have "length (segments a) = length (segments b)"
      using assms by (intro le_bytes_inject [of _ 4]) (simp_all add: tag_digests_ok_def)
    ultimately show "list_all2 same_spend (segments a) (segments b)"
      using assms by (intro tag_segments_inject) (auto simp: tag_digests_ok_def)
  next
    assume all: "list_all2 same_spend (segments a) (segments b)"
    then have "map tag_segment (segments a) = map tag_segment (segments b)"
      by (induction rule: list_all2_induct) (simp_all add: same_spend_tag)
    then show "provides_preimage a = provides_preimage b"
      using list_all2_lengthD [OF all] by (simp add: pre)
  qed
qed

theorem provides_tag_nullifiers_witness:
  "provides_preimage sample_bundle = provides_preimage \<lparr>segments = [sample_segment\<lparr>seg_slots :=
     [sample_real_slot\<lparr>rs_nullifiers := (digest_of_limbs [2, 0, 0, 0], digest_of_limbs [1, 0, 0, 0]), rs_fee := 77\<rparr>]\<rparr>]\<rparr>"
  by (rule iffD2 [OF provides_tag_nullifiers])
    (simp_all add: tag_digests_ok_def sample_bundle_def sample_segment_def seg_nullifiers_def slot_nullifiers_def
      sample_real_slot_def same_spend_def)

end
