(* ===== verification/Operations.thy ===== *)
theory Operations
  imports Prelude
begin

text \<open>
  Operations that write storage and may fail. Inside the runtime an error is a value and what was
  written before it stays written until the outer transaction is rolled back, so an operation returns
  its result together with the storage it leaves, on success and on failure.
\<close>

type_synonym ('s, 'e, 'a) op = "'s \<Rightarrow> ('e, 'a) result \<times> 's"

definition op_return :: "'a \<Rightarrow> ('s, 'e, 'a) op" where
  "op_return x s = (Inr x, s)"

definition op_fail :: "'e \<Rightarrow> ('s, 'e, 'a) op" where
  "op_fail e s = (Inl e, s)"

definition op_bind :: "('s, 'e, 'a) op \<Rightarrow> ('a \<Rightarrow> ('s, 'e, 'b) op) \<Rightarrow> ('s, 'e, 'b) op" where
  "op_bind m f s = (case m s of (Inl e, s') \<Rightarrow> (Inl e, s') | (Inr x, s') \<Rightarrow> f x s')"

definition op_then :: "('s, 'e, 'a) op \<Rightarrow> ('s, 'e, 'b) op \<Rightarrow> ('s, 'e, 'b) op" where
  "op_then m n = op_bind m (\<lambda>_. n)"

definition op_gets :: "('s \<Rightarrow> 'a) \<Rightarrow> ('s, 'e, 'a) op" where
  "op_gets g s = (Inr (g s), s)"

definition op_modify :: "('s \<Rightarrow> 's) \<Rightarrow> ('s, 'e, unit) op" where
  "op_modify h s = (Inr (), h s)"

definition op_of :: "('e, 'a) result \<Rightarrow> ('s, 'e, 'a) op" where
  "op_of r s = (r, s)"

definition op_ensure :: "bool \<Rightarrow> 'e \<Rightarrow> ('s, 'e, unit) op" where
  "op_ensure c e s = (if c then Inr () else Inl e, s)"

definition op_when :: "bool \<Rightarrow> ('s, 'e, unit) op \<Rightarrow> ('s, 'e, unit) op" where
  "op_when c m = (if c then m else op_return ())"

text \<open>\<open>let _ = m;\<close>: run \<open>m\<close>, keep what it wrote, drop its result.\<close>

definition op_ignore :: "('s, 'e, 'a) op \<Rightarrow> ('s, 'f, unit) op" where
  "op_ignore m s = (Inr (), snd (m s))"

lemmas op_simps [simp] = op_return_def op_fail_def op_gets_def op_modify_def op_of_def op_ensure_def op_ignore_def

lemma op_bind_Inr: "op_bind m f s = (Inr y, s'') \<longleftrightarrow> (\<exists>x s'. m s = (Inr x, s') \<and> f x s' = (Inr y, s''))"
  by (auto simp: op_bind_def split: prod.splits sum.splits)

lemma op_then_Inr: "op_then m n s = (Inr y, s'') \<longleftrightarrow> (\<exists>x s'. m s = (Inr x, s') \<and> n s' = (Inr y, s''))"
  by (simp add: op_then_def op_bind_Inr)

lemma op_when_Inr: "op_when c m s = (Inr u, s') \<longleftrightarrow> (if c then m s = (Inr u, s') else s' = s)"
  by (simp add: op_when_def eq_commute)

lemma op_bind_run:
  "m s = (Inr x, s') \<Longrightarrow> op_bind m f s = f x s'"
  "m s = (Inl e, s') \<Longrightarrow> op_bind m f s = (Inl e, s')"
  by (simp_all add: op_bind_def)

lemma op_then_run:
  "m s = (Inr x, s') \<Longrightarrow> op_then m n s = n s'"
  "m s = (Inl e, s') \<Longrightarrow> op_then m n s = (Inl e, s')"
  by (simp_all add: op_then_def op_bind_def)

lemma op_run:
  "op_bind (op_gets g) f s = f (g s) s"
  "op_bind (op_of r) f s = (case r of Inl e \<Rightarrow> (Inl e, s) | Inr x \<Rightarrow> f x s)"
  "op_bind (op_return x) f s = f x s"
  "op_then (op_modify h) m s = m (h s)"
  "op_then (op_ignore n) m s = m (snd (n s))"
  "op_then (op_of r) m s = (case r of Inl e \<Rightarrow> (Inl e, s) | Inr x \<Rightarrow> m s)"
  by (simp_all add: op_bind_def op_then_def)

end
