(* ===== verification/Accounts.thy ===== *)
theory Accounts
  imports Operations
begin

text \<open>
  The account store of \<open>chain/pallets/frame-system/src/lib.rs\<close> with the balances of
  \<open>chain/pallets/balances/src/types.rs\<close> as its data: reference counting, and
  \<open>StoredMap::try_mutate_exists\<close>. An absent account reads as the default one. The events and
  errors are those the operations of the development deposit and return, of both pallets.
\<close>

section \<open>Account data\<close>

record AccountData =
  free :: nat
  reserved :: nat
  frozen :: nat
  flags :: nat

definition IS_NEW_LOGIC :: nat where
  "IS_NEW_LOGIC = 2 ^ 127"

definition is_new_logic :: "AccountData \<Rightarrow> bool" where
  "is_new_logic d \<longleftrightarrow> flags d div IS_NEW_LOGIC mod 2 = 1"

definition set_new_logic :: "AccountData \<Rightarrow> AccountData" where
  "set_new_logic d = (if is_new_logic d then d else d\<lparr>flags := flags d + IS_NEW_LOGIC\<rparr>)"

definition data_total :: "AccountData \<Rightarrow> nat" where
  "data_total d = sat_add 128 (free d) (reserved d)"

definition default_data :: AccountData where
  "default_data = \<lparr>free = 0, reserved = 0, frozen = 0, flags = IS_NEW_LOGIC\<rparr>"

record AccountInfo =
  nonce :: nat
  consumers :: nat
  providers :: nat
  sufficients :: nat
  data :: AccountData

definition default_info :: AccountInfo where
  "default_info = \<lparr>nonce = 0, consumers = 0, providers = 0, sufficients = 0, data = default_data\<rparr>"

section \<open>Storage\<close>

datatype 'acc bal_event =
    NewAccount 'acc | KilledAccount 'acc
  | Endowed 'acc nat | DustLost 'acc nat | Transfer 'acc 'acc nat
  | Deposit 'acc nat | Withdraw 'acc nat | Minted 'acc nat | Burned 'acc nat
  | MintedCredit nat | BurnedDebt nat | Upgraded 'acc | Issued nat | Rescinded nat
  | Reserved 'acc nat | Unreserved 'acc nat

record 'acc bal_state =
  Account :: "'acc \<rightharpoonup> AccountInfo"
  TotalIssuance :: nat
  InactiveIssuance :: nat
  bal_events :: "'acc bal_event list"

record bal_config =
  ExistentialDeposit :: nat
  MaxConsumers :: nat

datatype bal_error =
    ConsumerRemaining | TooManyConsumers | NoProviders
  | InsufficientBalance | LiquidityRestrictions | Expendability
  | FundsUnavailable | OnlyProvider | Frozen | NotExpendable | BelowMinimum
  | CannotCreate | UnknownAsset | Blocked | ArithmeticOverflow | ArithmeticUnderflow | BalBadOrigin

type_synonym ('acc, 'a) bal_op = "('acc bal_state, bal_error, 'a) op"

definition acct :: "'acc bal_state \<Rightarrow> 'acc \<Rightarrow> AccountInfo" where
  "acct s who = (case Account s who of None \<Rightarrow> default_info | Some i \<Rightarrow> i)"

definition set_acct :: "'acc \<Rightarrow> AccountInfo \<Rightarrow> 'acc bal_state \<Rightarrow> 'acc bal_state" where
  "set_acct who i s = s\<lparr>Account := (Account s)(who \<mapsto> i)\<rparr>"

definition remove_acct :: "'acc \<Rightarrow> 'acc bal_state \<Rightarrow> 'acc bal_state" where
  "remove_acct who s = s\<lparr>Account := (Account s)(who := None)\<rparr>"

definition emit :: "'acc bal_event \<Rightarrow> 'acc bal_state \<Rightarrow> 'acc bal_state" where
  "emit e s = s\<lparr>bal_events := bal_events s @ [e]\<rparr>"

section \<open>Reference counts\<close>

datatype IncRefStatus = Created | Existed

datatype DecRefStatus = Reaped | Exists

definition inc_providers :: "'acc \<Rightarrow> ('acc, IncRefStatus) bal_op" where
  "inc_providers who s =
     (let a = acct s who
      in if providers a = 0 \<and> sufficients a = 0
         then (Inr Created, set_acct who (a\<lparr>providers := 1\<rparr>) (emit (NewAccount who) s))
         else (Inr Existed, set_acct who (a\<lparr>providers := sat_add 32 (providers a) 1\<rparr>) s))"

definition dec_providers :: "'acc \<Rightarrow> ('acc, DecRefStatus) bal_op" where
  "dec_providers who s =
     (case Account s who of
        None \<Rightarrow> (Inr Reaped, s)
      | Some a0 \<Rightarrow>
          let a = (if providers a0 = 0 then a0\<lparr>providers := 1\<rparr> else a0)
          in if providers a = 1 \<and> consumers a = 0 \<and> sufficients a = 0
             then (Inr Reaped, remove_acct who (emit (KilledAccount who) s))
             else if providers a = 1 \<and> 0 < consumers a then (Inl ConsumerRemaining, s)
             else (Inr Exists, set_acct who (a\<lparr>providers := providers a - 1\<rparr>) s))"

definition inc_sufficients :: "'acc \<Rightarrow> ('acc, IncRefStatus) bal_op" where
  "inc_sufficients who s =
     (let a = acct s who
      in if providers a + sufficients a = 0
         then (Inr Created, set_acct who (a\<lparr>sufficients := 1\<rparr>) (emit (NewAccount who) s))
         else (Inr Existed, set_acct who (a\<lparr>sufficients := sat_add 32 (sufficients a) 1\<rparr>) s))"

definition dec_sufficients :: "'acc \<Rightarrow> ('acc, DecRefStatus) bal_op" where
  "dec_sufficients who s =
     (case Account s who of
        None \<Rightarrow> (Inr Reaped, s)
      | Some a \<Rightarrow>
          if sufficients a \<le> 1 \<and> providers a = 0
          then (Inr Reaped, remove_acct who (emit (KilledAccount who) s))
          else (Inr Exists, set_acct who (a\<lparr>sufficients := sufficients a - 1\<rparr>) s))"

definition inc_consumers :: "bal_config \<Rightarrow> 'acc \<Rightarrow> ('acc, unit) bal_op" where
  "inc_consumers bc who s =
     (let a = acct s who
      in if 0 < providers a
         then if consumers a < MaxConsumers bc
              then (Inr (), set_acct who (a\<lparr>consumers := sat_add 32 (consumers a) 1\<rparr>) s)
              else (Inl TooManyConsumers, s)
         else (Inl NoProviders, s))"

definition inc_consumers_without_limit :: "'acc \<Rightarrow> ('acc, unit) bal_op" where
  "inc_consumers_without_limit who s =
     (let a = acct s who
      in if 0 < providers a
         then (Inr (), set_acct who (a\<lparr>consumers := sat_add 32 (consumers a) 1\<rparr>) s)
         else (Inl NoProviders, s))"

definition dec_consumers :: "'acc \<Rightarrow> ('acc, unit) bal_op" where
  "dec_consumers who s =
     (let a = acct s who
      in (Inr (), set_acct who (if 0 < consumers a then a\<lparr>consumers := consumers a - 1\<rparr> else a) s))"

definition can_dec_provider :: "'acc bal_state \<Rightarrow> 'acc \<Rightarrow> bool" where
  "can_dec_provider s who \<longleftrightarrow> consumers (acct s who) = 0 \<or> 1 < providers (acct s who)"

definition can_accrue_consumers :: "bal_config \<Rightarrow> 'acc bal_state \<Rightarrow> 'acc \<Rightarrow> nat \<Rightarrow> bool" where
  "can_accrue_consumers bc s who amount \<longleftrightarrow>
     (case checked_add 32 (consumers (acct s who)) amount of
        None \<Rightarrow> False | Some c \<Rightarrow> 0 < providers (acct s who) \<and> c \<le> MaxConsumers bc)"

text \<open>
  \<open>StoredMap::try_mutate_exists\<close> of the account store: the closure sees no data where the data is
  the default one; what it leaves is written back only to an account that still has a provider or a
  sufficient reference, and otherwise the account is removed.
\<close>

definition store_back :: "'acc \<Rightarrow> AccountData option \<Rightarrow> 'acc bal_state \<Rightarrow> 'acc bal_state" where
  "store_back who some_data s =
     (if 0 < providers (acct s who) \<or> 0 < sufficients (acct s who)
      then set_acct who ((acct s who)\<lparr>data := (case some_data of None \<Rightarrow> default_data | Some d \<Rightarrow> d)\<rparr>) s
      else remove_acct who s)"

definition try_mutate_exists ::
  "'acc \<Rightarrow> (AccountData option \<Rightarrow> ('acc, AccountData option \<times> 'r) bal_op) \<Rightarrow> ('acc, 'r) bal_op" where
  "try_mutate_exists who f =
     op_bind (op_gets (\<lambda>s. data (acct s who))) (\<lambda>d.
       op_bind (f (if d = default_data then None else Some d)) (\<lambda>(some_data, r).
         op_then (op_modify (store_back who some_data)) (op_return r)))"

end
