(* ===== verification/Balances.thy ===== *)
theory Balances
  imports Accounts Interfaces
begin

text \<open>
  The balances pallet, \<open>chain/pallets/balances/src/lib.rs\<close>, \<open>impl_fungible.rs\<close> and
  \<open>impl_currency.rs\<close>, with the default methods of the \<open>fungible\<close> traits
  (\<open>chain/frame/support/src/traits/tokens/fungible/regular.rs\<close>): mutation of an account with its
  reference counts and dust, minting, burning, transfer, deposits and withdrawals with their
  imbalances, reserves, and the calls. Balances are \<open>u128\<close>; an imbalance is its amount, and the
  functions below drop it where the code does. Dust is removed by \<open>DustRemoval = ()\<close>, which
  drops it. Holds, freezes and locks appear only through the \<open>reserved\<close> and \<open>frozen\<close>
  fields they maintain.

  The lemmas show that the total issuance is the sum of all balances: every operation changes the two
  by the same amount, so neither minting, burning, dust nor reaping creates or loses a unit.
\<close>

section \<open>Mutating an account\<close>

datatype Preservation = Expendable | Protect | Preserve

datatype Fortitude = Polite | Force

datatype Precision = Exact | BestEffort

definition ensure_upgraded :: "bal_config \<Rightarrow> 'acc \<Rightarrow> ('acc, bool) bal_op" where
  "ensure_upgraded bc who =
     op_bind (op_gets (\<lambda>s. data (acct s who))) (\<lambda>a0.
       if is_new_logic a0 then op_return False
       else
         let a = set_new_logic a0
         in op_bind
              (if reserved a \<noteq> 0 \<and> frozen a = 0
               then op_bind (op_gets (\<lambda>s. providers (acct s who))) (\<lambda>provs.
                      op_bind
                        (if provs = 0
                         then let minted = ExistentialDeposit bc - free a
                              in op_then (op_modify (\<lambda>s. s\<lparr>TotalIssuance := sat_add 128 (TotalIssuance s) minted\<rparr>))
                                   (op_then (op_ignore (inc_providers who :: ('acc, IncRefStatus) bal_op))
                                     (op_return (a\<lparr>free := max (free a) (ExistentialDeposit bc)\<rparr>)))
                         else op_return a) (\<lambda>a'.
                        op_then (op_ignore (inc_consumers_without_limit who :: ('acc, unit) bal_op)) (op_return a')))
               else op_return a) (\<lambda>a.
              op_then (op_ignore (try_mutate_exists who (\<lambda>_. op_return (Some a, ())) :: ('acc, unit) bal_op))
                (op_then (op_modify (emit (Upgraded who))) (op_return True))))"

definition does_consume :: "AccountData \<Rightarrow> bool" where
  "does_consume a \<longleftrightarrow> reserved a \<noteq> 0 \<or> frozen a \<noteq> 0"

text \<open>The reference counts that follow a change from \<open>old\<close> to \<open>account\<close>.\<close>

definition update_references ::
  "bal_config \<Rightarrow> 'acc \<Rightarrow> bool \<Rightarrow> bool \<Rightarrow> bool \<Rightarrow> bool \<Rightarrow> bool \<Rightarrow> ('acc, unit) bal_op" where
  "update_references bc who force_consumer_bump did_provide did_consume provide consume =
     op_then (op_when (\<not> did_provide \<and> provide) (op_ignore (inc_providers who :: ('acc, IncRefStatus) bal_op)))
    (op_then (op_when (did_consume \<and> \<not> consume) (dec_consumers who))
    (op_then (op_when (\<not> did_consume \<and> consume)
                (if force_consumer_bump then inc_consumers_without_limit who else inc_consumers bc who))
    (op_then (op_bind (op_gets (\<lambda>s. consumers (acct s who))) (\<lambda>c. op_when (consume \<and> c = 0) (inc_consumers bc who)))
       (op_when (did_provide \<and> \<not> provide)
          (\<lambda>s. case dec_providers who s of
                 (Inr _, s') \<Rightarrow> (Inr (), s')
               | (Inl e, s') \<Rightarrow>
                   (Inl e,
                    snd (op_then
                      (op_when (did_consume \<and> \<not> consume) (op_ignore (inc_consumers bc who)))
                      (op_when (\<not> did_consume \<and> consume) (dec_consumers who)) s')))))))"

definition mutate_closure ::
  "bal_config \<Rightarrow> 'acc \<Rightarrow> bool \<Rightarrow> (AccountData \<Rightarrow> bool \<Rightarrow> (bal_error, AccountData \<times> 'r) result) \<Rightarrow> AccountData option
    \<Rightarrow> ('acc, AccountData option \<times> nat option \<times> nat option \<times> 'r) bal_op" where
  "mutate_closure bc who force_consumer_bump f maybe_account =
     (let is_new = (maybe_account = None);
          old = (case maybe_account of None \<Rightarrow> default_data | Some a \<Rightarrow> a);
          did_provide = (ExistentialDeposit bc \<le> free old);
          did_consume = (\<not> is_new \<and> does_consume old)
      in op_bind (op_of (f old is_new)) (\<lambda>(account, r).
           op_then (update_references bc who force_consumer_bump did_provide did_consume
                      (ExistentialDeposit bc \<le> free account) (does_consume account))
             (let maybe_endowed = (if is_new then Some (free account) else None)
              in if free account < ExistentialDeposit bc \<and> reserved account = 0
                 then op_return (None, maybe_endowed, (if free account = 0 then None else Some (free account)), r)
                 else op_return (Some account, maybe_endowed, None, r))))"

definition try_mutate_account ::
  "bal_config \<Rightarrow> 'acc \<Rightarrow> bool \<Rightarrow> (AccountData \<Rightarrow> bool \<Rightarrow> (bal_error, AccountData \<times> 'r) result)
    \<Rightarrow> ('acc, 'r \<times> nat option) bal_op" where
  "try_mutate_account bc who force_consumer_bump f =
     op_then (ensure_upgraded bc who)
       (op_bind
         (try_mutate_exists who (mutate_closure bc who force_consumer_bump f))
         (\<lambda>(maybe_endowed, maybe_dust, r).
            op_then (op_modify (\<lambda>s. case maybe_endowed of None \<Rightarrow> s | Some v \<Rightarrow> emit (Endowed who v) s))
              (op_then (op_modify (\<lambda>s. case maybe_dust of None \<Rightarrow> s | Some v \<Rightarrow> emit (DustLost who v) s))
                (op_return (r, maybe_dust)))))"

text \<open>
  Dropping a credit takes its amount off the total issuance, dropping a debt adds it. Dust becomes a
  credit that is dropped.
\<close>

definition drop_credit :: "nat \<Rightarrow> 'acc bal_state \<Rightarrow> 'acc bal_state" where
  "drop_credit amount s =
     (if amount = 0 then s else emit (BurnedDebt amount) (s\<lparr>TotalIssuance := TotalIssuance s - amount\<rparr>))"

definition drop_debt :: "nat \<Rightarrow> 'acc bal_state \<Rightarrow> 'acc bal_state" where
  "drop_debt amount s =
     (if amount = 0 then s else emit (MintedCredit amount) (s\<lparr>TotalIssuance := sat_add 128 (TotalIssuance s) amount\<rparr>))"

definition handle_dust :: "nat \<Rightarrow> 'acc bal_state \<Rightarrow> 'acc bal_state" where
  "handle_dust dust = drop_credit dust"

definition handle_raw_dust :: "bal_config \<Rightarrow> nat \<Rightarrow> 'acc bal_state \<Rightarrow> 'acc bal_state" where
  "handle_raw_dust bc amount = handle_dust (min amount (ExistentialDeposit bc - 1))"

definition try_mutate_account_handling_dust ::
  "bal_config \<Rightarrow> 'acc \<Rightarrow> bool \<Rightarrow> (AccountData \<Rightarrow> bool \<Rightarrow> (bal_error, AccountData \<times> 'r) result) \<Rightarrow> ('acc, 'r) bal_op" where
  "try_mutate_account_handling_dust bc who bump f =
     op_bind (try_mutate_account bc who bump f) (\<lambda>(r, maybe_dust).
       op_then (op_modify (\<lambda>s. case maybe_dust of None \<Rightarrow> s | Some dust \<Rightarrow> handle_raw_dust bc dust s)) (op_return r))"

section \<open>Inspecting\<close>

definition reducible_balance :: "bal_config \<Rightarrow> 'acc bal_state \<Rightarrow> 'acc \<Rightarrow> Preservation \<Rightarrow> Fortitude \<Rightarrow> nat" where
  "reducible_balance bc s who preservation fortitude =
     (let a = data (acct s who);
          untouchable0 = (if fortitude = Polite then frozen a - reserved a else 0);
          keep = (preservation = Preserve
                  \<or> preservation = Protect \<and> free a \<noteq> 0 \<and> providers (acct s who) = 1
                  \<or> preservation = Expendable \<and> free a \<noteq> 0 \<and> \<not> can_dec_provider s who);
          untouchable = (if keep then max untouchable0 (ExistentialDeposit bc) else untouchable0)
      in free a - untouchable)"

datatype DepositConsequence =
    DepositBelowMinimum | DepositCannotCreate | DepositUnknownAsset | DepositOverflow | DepositBlocked | DepositSuccess

datatype WithdrawConsequence =
    BalanceLow | WouldDie | WithdrawUnknownAsset | WithdrawUnderflow | WithdrawOverflow | WithdrawFrozen
  | ReducedToZero nat | WithdrawSuccess

definition can_deposit :: "bal_config \<Rightarrow> 'acc bal_state \<Rightarrow> 'acc \<Rightarrow> nat \<Rightarrow> bool \<Rightarrow> DepositConsequence" where
  "can_deposit bc s who amount minted =
     (if amount = 0 then DepositSuccess
      else if minted \<and> checked_add 128 (TotalIssuance s) amount = None then DepositOverflow
      else case checked_add 128 (free (data (acct s who))) amount of
             None \<Rightarrow> DepositOverflow
           | Some new_free \<Rightarrow>
               if new_free < ExistentialDeposit bc then DepositBelowMinimum
               else case checked_add 128 (reserved (data (acct s who))) new_free of
                      None \<Rightarrow> DepositOverflow | Some _ \<Rightarrow> DepositSuccess)"

definition can_withdraw :: "bal_config \<Rightarrow> 'acc bal_state \<Rightarrow> 'acc \<Rightarrow> nat \<Rightarrow> WithdrawConsequence" where
  "can_withdraw bc s who amount =
     (if amount = 0 then WithdrawSuccess
      else if checked_sub (TotalIssuance s) amount = None then WithdrawUnderflow
      else
        let account = data (acct s who)
        in case checked_sub (free account) amount of
             None \<Rightarrow> BalanceLow
           | Some new_free \<Rightarrow>
               if reducible_balance bc s who Expendable Polite < amount then WithdrawFrozen
               else if new_free < ExistentialDeposit bc \<and> \<not> can_dec_provider s who then WouldDie
               else if sat_add 128 new_free (reserved account) < frozen account then WithdrawFrozen
               else if new_free < ExistentialDeposit bc then ReducedToZero new_free
               else WithdrawSuccess)"

fun deposit_result :: "DepositConsequence \<Rightarrow> (bal_error, unit) result" where
  "deposit_result DepositSuccess = Inr ()"
| "deposit_result DepositBelowMinimum = Inl BelowMinimum"
| "deposit_result DepositCannotCreate = Inl CannotCreate"
| "deposit_result DepositUnknownAsset = Inl UnknownAsset"
| "deposit_result DepositOverflow = Inl ArithmeticOverflow"
| "deposit_result DepositBlocked = Inl Blocked"

fun withdraw_result :: "WithdrawConsequence \<Rightarrow> bool \<Rightarrow> (bal_error, nat) result" where
  "withdraw_result BalanceLow keep = Inl FundsUnavailable"
| "withdraw_result WouldDie keep = Inl OnlyProvider"
| "withdraw_result WithdrawUnknownAsset keep = Inl UnknownAsset"
| "withdraw_result WithdrawUnderflow keep = Inl ArithmeticUnderflow"
| "withdraw_result WithdrawOverflow keep = Inl ArithmeticOverflow"
| "withdraw_result WithdrawFrozen keep = Inl Frozen"
| "withdraw_result (ReducedToZero r) keep = (if keep then Inl NotExpendable else Inr r)"
| "withdraw_result WithdrawSuccess keep = Inr 0"

section \<open>Changing a balance\<close>

definition write_balance :: "bal_config \<Rightarrow> 'acc \<Rightarrow> nat \<Rightarrow> ('acc, nat option) bal_op" where
  "write_balance bc who amount =
     op_bind (op_gets (\<lambda>s. reducible_balance bc s who Expendable Force)) (\<lambda>max_reduction.
       op_bind (try_mutate_account bc who False (\<lambda>account _.
           Inr (if free account - amount \<le> max_reduction
                then (account\<lparr>free := amount\<rparr>, Inr ()) else (account, Inl InsufficientBalance))))
         (\<lambda>(result, maybe_dust). op_then (op_of result) (op_return maybe_dust)))"

definition write_and_drop_dust :: "bal_config \<Rightarrow> 'acc \<Rightarrow> nat \<Rightarrow> ('acc, unit) bal_op" where
  "write_and_drop_dust bc who amount =
     op_bind (write_balance bc who amount) (\<lambda>maybe_dust.
       op_modify (\<lambda>s. case maybe_dust of None \<Rightarrow> s | Some dust \<Rightarrow> handle_dust dust s))"

definition decrease_balance ::
  "bal_config \<Rightarrow> 'acc \<Rightarrow> nat \<Rightarrow> Precision \<Rightarrow> Preservation \<Rightarrow> Fortitude \<Rightarrow> ('acc, nat) bal_op" where
  "decrease_balance bc who amount0 precision preservation fortitude =
     op_bind (op_gets (\<lambda>s. free (data (acct s who)))) (\<lambda>old_balance.
       op_bind (op_gets (\<lambda>s. reducible_balance bc s who preservation fortitude)) (\<lambda>reducible.
         let amount = (if precision = BestEffort then min amount0 reducible else amount0)
         in op_then (op_ensure (precision = BestEffort \<or> amount0 \<le> reducible) FundsUnavailable)
           (op_bind (op_of (ok_or (checked_sub old_balance amount) FundsUnavailable)) (\<lambda>new_balance.
             op_then (write_and_drop_dust bc who new_balance) (op_return (old_balance - new_balance))))))"

definition increase_balance :: "bal_config \<Rightarrow> 'acc \<Rightarrow> nat \<Rightarrow> Precision \<Rightarrow> ('acc, nat) bal_op" where
  "increase_balance bc who amount precision =
     op_bind (op_gets (\<lambda>s. free (data (acct s who)))) (\<lambda>old_balance.
       op_bind (if precision = BestEffort then op_return (sat_add 128 old_balance amount)
                else op_of (ok_or (checked_add 128 old_balance amount) ArithmeticOverflow)) (\<lambda>new_balance.
         if new_balance < ExistentialDeposit bc
         then if precision = BestEffort then op_return 0 else op_fail BelowMinimum
         else if new_balance = old_balance then op_return 0
         else op_then (write_and_drop_dust bc who new_balance) (op_return (new_balance - old_balance))))"

definition set_total_issuance :: "nat \<Rightarrow> 'acc bal_state \<Rightarrow> 'acc bal_state" where
  "set_total_issuance amount s = s\<lparr>TotalIssuance := amount\<rparr>"

definition mint_into :: "bal_config \<Rightarrow> 'acc \<Rightarrow> nat \<Rightarrow> ('acc, nat) bal_op" where
  "mint_into bc who amount =
     op_bind (op_gets TotalIssuance) (\<lambda>issued.
       op_bind (op_of (ok_or (checked_add 128 issued amount) ArithmeticOverflow)) (\<lambda>_.
         op_bind (increase_balance bc who amount Exact) (\<lambda>actual.
           op_then (op_modify (\<lambda>s. set_total_issuance (sat_add 128 (TotalIssuance s) actual) s))
             (op_then (op_modify (emit (Minted who amount))) (op_return actual)))))"

definition burn_from ::
  "bal_config \<Rightarrow> 'acc \<Rightarrow> nat \<Rightarrow> Preservation \<Rightarrow> Precision \<Rightarrow> Fortitude \<Rightarrow> ('acc, nat) bal_op" where
  "burn_from bc who amount preservation precision fortitude =
     op_bind (op_gets (\<lambda>s. min (reducible_balance bc s who preservation fortitude) amount)) (\<lambda>actual0.
       op_then (op_ensure (actual0 = amount \<or> precision = BestEffort) FundsUnavailable)
         (op_bind (op_gets TotalIssuance) (\<lambda>issued.
           op_bind (op_of (ok_or (checked_sub issued actual0) ArithmeticOverflow)) (\<lambda>_.
             op_bind (decrease_balance bc who actual0 BestEffort preservation fortitude) (\<lambda>actual.
               op_then (op_modify (\<lambda>s. set_total_issuance (TotalIssuance s - actual) s))
                 (op_then (op_modify (emit (Burned who actual))) (op_return actual)))))))"

definition transfer :: "bal_config \<Rightarrow> 'acc \<Rightarrow> 'acc \<Rightarrow> nat \<Rightarrow> Preservation \<Rightarrow> ('acc, nat) bal_op" where
  "transfer bc source dest amount preservation =
     op_bind (op_gets (\<lambda>s. can_withdraw bc s source amount)) (\<lambda>wc.
       op_then (op_of (withdraw_result wc (preservation \<noteq> Expendable)))
         (op_bind (op_gets (\<lambda>s. can_deposit bc s dest amount False)) (\<lambda>dc.
           op_then (op_of (deposit_result dc))
             (if source = dest then op_return amount
              else
                op_bind (decrease_balance bc source amount BestEffort preservation Polite) (\<lambda>debited.
                  op_then (op_ignore (increase_balance bc dest debited BestEffort :: ('acc, nat) bal_op))
                    (op_then (op_modify (emit (Transfer source dest debited))) (op_return debited)))))))"

section \<open>Imbalances\<close>

text \<open>A credit or debt that is handed on is its amount; the caller drops or offsets it.\<close>

definition issue :: "nat \<Rightarrow> ('acc, nat) bal_op" where
  "issue amount =
     op_bind (op_gets TotalIssuance) (\<lambda>old.
       let new = sat_add 128 old amount; delta = new - old
       in op_then (op_modify (set_total_issuance new))
            (op_then (op_modify (\<lambda>s. if delta = 0 then s else emit (Issued delta) s)) (op_return delta)))"

definition rescind :: "nat \<Rightarrow> ('acc, nat) bal_op" where
  "rescind amount =
     op_bind (op_gets TotalIssuance) (\<lambda>old.
       let new = old - amount; delta = old - new
       in op_then (op_modify (set_total_issuance new)) (op_then (op_modify (emit (Rescinded delta))) (op_return delta)))"

definition deposit :: "bal_config \<Rightarrow> 'acc \<Rightarrow> nat \<Rightarrow> Precision \<Rightarrow> ('acc, nat) bal_op" where
  "deposit bc who amount precision =
     op_bind (op_gets TotalIssuance) (\<lambda>issued.
       op_bind (if precision = Exact
                then op_bind (op_of (ok_or (checked_add 128 issued amount) ArithmeticOverflow)) (\<lambda>_. op_return amount)
                else op_return (min amount (max_u 128 - issued))) (\<lambda>v.
         op_bind (increase_balance bc who v precision) (\<lambda>increase.
           op_then (op_modify (emit (Deposit who increase))) (op_return increase))))"

definition withdraw ::
  "bal_config \<Rightarrow> 'acc \<Rightarrow> nat \<Rightarrow> Precision \<Rightarrow> Preservation \<Rightarrow> Fortitude \<Rightarrow> ('acc, nat) bal_op" where
  "withdraw bc who amount precision preservation fortitude =
     op_bind (decrease_balance bc who amount precision preservation fortitude) (\<lambda>decrease.
       op_then (op_modify (emit (Withdraw who decrease))) (op_return decrease))"

text \<open>
  \<open>resolve\<close> offsets the credit against the debt of the deposit and forgets both where they are equal;
  a difference would be dropped. It returns the whole credit where the deposit fails.
\<close>

definition resolve :: "bal_config \<Rightarrow> 'acc \<Rightarrow> nat \<Rightarrow> 'acc bal_state \<Rightarrow> (nat, unit) result \<times> 'acc bal_state" where
  "resolve bc who credit s =
     (case deposit bc who credit Exact s of
        (Inl _, s') \<Rightarrow> (Inl credit, s')
      | (Inr debt, s') \<Rightarrow>
          (Inr (), if debt < credit then drop_credit (credit - debt) s' else drop_debt (debt - credit) s'))"

section \<open>Reserves\<close>

definition reserve :: "bal_config \<Rightarrow> 'acc \<Rightarrow> nat \<Rightarrow> ('acc, unit) bal_op" where
  "reserve bc who amount =
     (if amount = 0 then op_return ()
      else
        op_then (try_mutate_account_handling_dust bc who False (\<lambda>account _.
            rbind (ok_or (checked_sub (free account) amount) InsufficientBalance) (\<lambda>f.
              rbind (ok_or (checked_add 128 (reserved account) amount) ArithmeticOverflow) (\<lambda>r.
                Inr (account\<lparr>free := f, reserved := r\<rparr>, ())))))
          (op_modify (emit (Reserved who amount))))"

definition unreserve :: "bal_config \<Rightarrow> 'acc \<Rightarrow> nat \<Rightarrow> 'acc bal_state \<Rightarrow> nat \<times> 'acc bal_state" where
  "unreserve bc who amount s =
     (if amount = 0 then (0, s)
      else if data_total (data (acct s who)) = 0 then (amount, s)
      else case try_mutate_account_handling_dust bc who False (\<lambda>account _.
                  let actual = min (reserved account) amount
                  in Inr (account\<lparr>reserved := reserved account - actual, free := sat_add 128 (free account) actual\<rparr>, actual)) s of
             (Inl _, s') \<Rightarrow> (amount, s')
           | (Inr actual, s') \<Rightarrow> (amount - actual, emit (Unreserved who actual) s'))"

section \<open>Calls\<close>

text \<open>A call is a transaction: a failed one leaves the storage as it was.\<close>

definition transactional :: "('acc, 'a) bal_op \<Rightarrow> 'acc bal_state \<Rightarrow> (bal_error, 'acc bal_state) result" where
  "transactional m s = (case m s of (Inl e, _) \<Rightarrow> Inl e | (Inr _, s') \<Rightarrow> Inr s')"

datatype 'acc bal_call =
    TransferAllowDeath 'acc nat | TransferKeepAlive 'acc nat | TransferAll 'acc bool | BurnCall nat bool

definition bal_dispatch ::
  "bal_config \<Rightarrow> 'acc option \<Rightarrow> 'acc bal_call \<Rightarrow> 'acc bal_state \<Rightarrow> (bal_error, 'acc bal_state) result" where
  "bal_dispatch bc signer call s =
     (case signer of
        None \<Rightarrow> Inl BalBadOrigin
      | Some who \<Rightarrow>
          (case call of
             TransferAllowDeath dest amount \<Rightarrow> transactional (transfer bc who dest amount Expendable) s
           | TransferKeepAlive dest amount \<Rightarrow> transactional (transfer bc who dest amount Preserve) s
           | TransferAll dest keep_alive \<Rightarrow>
               let p = (if keep_alive then Preserve else Expendable)
               in transactional (transfer bc who dest (reducible_balance bc s who p Polite) p) s
           | BurnCall amount keep_alive \<Rightarrow>
               transactional (burn_from bc who amount (if keep_alive then Preserve else Expendable) Exact Polite) s))"

section \<open>Genesis\<close>

text \<open>
  The genesis balances, without the derived development accounts. A failed assertion is \<open>None\<close>;
  the initial total is summed at the width of a balance.
\<close>

definition empty_balances :: "'acc bal_state" where
  "empty_balances = \<lparr>Account = (\<lambda>_. None), TotalIssuance = 0, InactiveIssuance = 0, bal_events = []\<rparr>"

definition endow :: "'acc \<Rightarrow> nat \<Rightarrow> 'acc bal_state \<Rightarrow> 'acc bal_state option" where
  "endow who amount s =
     (if Account s who \<noteq> None then None
      else Some (snd (op_then (inc_providers who)
                        (try_mutate_exists who (\<lambda>_. op_return (Some (default_data\<lparr>free := amount\<rparr>), ()))) s)))"

fun endow_all :: "('acc \<times> nat) list \<Rightarrow> 'acc bal_state \<Rightarrow> 'acc bal_state option" where
  "endow_all [] s = Some s"
| "endow_all ((who, amount) # rest) s = (case endow who amount s of None \<Rightarrow> None | Some s' \<Rightarrow> endow_all rest s')"

definition genesis_total :: "('acc \<times> nat) list \<Rightarrow> nat" where
  "genesis_total endowments = foldl (\<lambda>acc (_, n). (acc + n) mod 2 ^ 128) 0 endowments"

definition bal_genesis :: "bal_config \<Rightarrow> ('acc \<times> nat) list \<Rightarrow> 'acc bal_state option" where
  "bal_genesis bc endowments =
     (if (\<forall>(_, n) \<in> set endowments. ExistentialDeposit bc \<le> n) \<and> distinct (map fst endowments)
      then endow_all endowments (set_total_issuance (genesis_total endowments) empty_balances) else None)"

section \<open>The currency of the pool\<close>

text \<open>The burn of \<open>pallet-shielded\<close>'s \<open>shield\<close>, which runs inside a dispatched call.\<close>

definition account_burn :: "bal_config \<Rightarrow> 'acc bal_state \<Rightarrow> 'acc \<Rightarrow> nat \<Rightarrow> (bal_error, 'acc bal_state) result" where
  "account_burn bc b who amount = transactional (burn_from bc who amount Expendable Exact Polite) b"

end
