(* ===== verification/BalancesInv.thy ===== *)
theory BalancesInv
  imports Balances
begin

text \<open>
  What the operations of the balances pallet keep: the accounts are well formed (a balance of at
  least the existential deposit holds a provider reference, a reserve or a freeze holds a consumer
  reference, no free balance is dust), and the balances of all accounts add up to the total issuance.
\<close>

named_theorems acct_simps \<open>reading the account store after a write\<close>

section \<open>The account store\<close>

lemma acct_set [simp, acct_simps]: "acct (set_acct who i s) w = (if w = who then i else acct s w)"
  by (simp add: acct_def set_acct_def)

lemma acct_remove [simp, acct_simps]: "acct (remove_acct who s) w = (if w = who then default_info else acct s w)"
  by (simp add: acct_def remove_acct_def)

lemma acct_emit [simp, acct_simps]: "acct (emit e s) w = acct s w"
  by (simp add: acct_def emit_def)

lemma Account_writes [simp, acct_simps]:
  "Account (set_acct who i s) = (Account s)(who \<mapsto> i)"
  "Account (remove_acct who s) = (Account s)(who := None)"
  "Account (emit e s) = Account s"
  by (simp_all add: set_acct_def remove_acct_def emit_def)

lemma issuance_writes [simp, acct_simps]:
  "TotalIssuance (set_acct who i s) = TotalIssuance s"
  "TotalIssuance (remove_acct who s) = TotalIssuance s"
  "TotalIssuance (emit e s) = TotalIssuance s"
  by (simp_all add: set_acct_def remove_acct_def emit_def)

lemma default_info_simps [simp]:
  "providers default_info = 0" "consumers default_info = 0" "sufficients default_info = 0"
  "data default_info = default_data"
  by (simp_all add: default_info_def)

lemma default_data_simps [simp]:
  "free default_data = 0" "reserved default_data = 0" "frozen default_data = 0" "is_new_logic default_data"
  by (simp_all add: default_data_def is_new_logic_def IS_NEW_LOGIC_def)

lemma is_new_logic_flags: "flags d' = flags d \<Longrightarrow> is_new_logic d' = is_new_logic d"
  by (simp add: is_new_logic_def)

lemma acct_Some: "Account s who = Some i \<Longrightarrow> acct s who = i"
  by (simp add: acct_def)

lemma acct_None: "Account s who = None \<Longrightarrow> acct s who = default_info"
  by (simp add: acct_def)

text \<open>Nothing but the account \<open>who\<close> (and the event log) changes.\<close>

definition only_acct :: "'acc \<Rightarrow> 'acc bal_state \<Rightarrow> 'acc bal_state \<Rightarrow> bool" where
  "only_acct who s s' \<longleftrightarrow> (\<forall>w. w \<noteq> who \<longrightarrow> Account s' w = Account s w) \<and> TotalIssuance s' = TotalIssuance s"

lemma only_acct_refl [simp, intro]: "only_acct who s s"
  by (simp add: only_acct_def)

lemma only_acct_trans: "only_acct who s s' \<Longrightarrow> only_acct who s' s'' \<Longrightarrow> only_acct who s s''"
  by (simp add: only_acct_def)

lemma only_acct_writes [simp, intro]:
  "only_acct who s s' \<Longrightarrow> only_acct who s (set_acct who i s')"
  "only_acct who s s' \<Longrightarrow> only_acct who s (remove_acct who s')"
  "only_acct who s s' \<Longrightarrow> only_acct who s (emit e s')"
  by (simp_all add: only_acct_def)

lemma only_acct_other: "only_acct who s s' \<Longrightarrow> w \<noteq> who \<Longrightarrow> acct s' w = acct s w"
  by (simp add: only_acct_def acct_def)

lemma only_acct_issuance: "only_acct who s s' \<Longrightarrow> TotalIssuance s' = TotalIssuance s"
  by (simp add: only_acct_def)

section \<open>The balances held\<close>

definition funds :: "AccountData \<Rightarrow> nat" where
  "funds d = free d + reserved d"

definition held :: "'acc bal_state \<Rightarrow> nat" where
  "held s = (\<Sum>who \<in> dom (Account s). funds (data (acct s who)))"

lemma funds_default [simp]: "funds default_data = 0"
  by (simp add: funds_def)

lemma held_superset:
  assumes "finite B" "dom (Account s) \<subseteq> B"
  shows "held s = (\<Sum>who \<in> B. funds (data (acct s who)))"
proof -
  have "funds (data (acct s w)) = 0" if "w \<in> B - dom (Account s)" for w
    using that by (cases "Account s w") (auto simp: acct_None)
  then show ?thesis
    unfolding held_def using assms by (intro sum.mono_neutral_left) auto
qed

lemma dom_only_acct: "only_acct who s s' \<Longrightarrow> dom (Account s') \<subseteq> insert who (dom (Account s))"
  by (auto simp: only_acct_def dom_def)

lemma finite_only_acct: "only_acct who s s' \<Longrightarrow> finite (dom (Account s)) \<Longrightarrow> finite (dom (Account s'))"
  using dom_only_acct finite_subset finite_insert by metis

lemma held_split:
  assumes "finite (dom (Account s))"
  shows "held s = funds (data (acct s who)) + (\<Sum>w \<in> dom (Account s) - {who}. funds (data (acct s w)))"
proof -
  have "held s = (\<Sum>w \<in> insert who (dom (Account s)). funds (data (acct s w)))"
    using assms by (intro held_superset) auto
  also have "\<dots> = funds (data (acct s who)) + (\<Sum>w \<in> dom (Account s) - {who}. funds (data (acct s w)))"
    using assms by (simp add: sum.insert_remove)
  finally show ?thesis .
qed

lemma held_only_acct:
  assumes "only_acct who s s'" "finite (dom (Account s))"
  shows "held s' + funds (data (acct s who)) = held s + funds (data (acct s' who))"
proof -
  have "dom (Account s') - {who} = dom (Account s) - {who}"
    using assms(1) by (auto simp: only_acct_def dom_def)
  moreover have "acct s' w = acct s w" if "w \<in> dom (Account s) - {who}" for w
    using only_acct_other [OF assms(1)] that by auto
  ultimately show ?thesis
    using held_split [OF assms(2), of who] held_split [OF finite_only_acct [OF assms], of who] by simp
qed

lemma funds_le_held: "finite (dom (Account s)) \<Longrightarrow> funds (data (acct s who)) \<le> held s"
  using held_split [of s who] by simp

lemma held_two:
  assumes "finite (dom (Account s))" "w \<noteq> who"
  shows "funds (data (acct s who)) + funds (data (acct s w)) \<le> held s"
proof -
  have "held s = (\<Sum>x \<in> insert who (insert w (dom (Account s))). funds (data (acct s x)))"
    using assms by (intro held_superset) auto
  also have "\<dots> \<ge> (\<Sum>x \<in> {who, w}. funds (data (acct s x)))"
    using assms(1) by (intro sum_mono2) auto
  finally show ?thesis using assms(2) by simp
qed

section \<open>Well-formed accounts\<close>

definition account_ok :: "bal_config \<Rightarrow> AccountInfo \<Rightarrow> bool" where
  "account_ok bc i \<longleftrightarrow>
     is_new_logic (data i)
     \<and> (ExistentialDeposit bc \<le> free (data i) \<longrightarrow> 0 < providers i)
     \<and> (free (data i) = 0 \<or> ExistentialDeposit bc \<le> free (data i) \<or> reserved (data i) \<noteq> 0)
     \<and> (does_consume (data i) \<longrightarrow> 0 < consumers i)
     \<and> (0 < consumers i \<longrightarrow> 0 < providers i)"

definition bal_wf :: "bal_config \<Rightarrow> 'acc bal_state \<Rightarrow> bool" where
  "bal_wf bc s \<longleftrightarrow>
     0 < ExistentialDeposit bc \<and> finite (dom (Account s)) \<and> (\<forall>who. account_ok bc (acct s who))"

text \<open>\<open>bal_inv bc c s\<close>: the accounts are well formed, and their balances and the credits \<open>c\<close> not yet
  placed add up to the total issuance.\<close>

definition bal_inv :: "bal_config \<Rightarrow> nat \<Rightarrow> 'acc bal_state \<Rightarrow> bool" where
  "bal_inv bc c s \<longleftrightarrow> bal_wf bc s \<and> held s + c = TotalIssuance s \<and> TotalIssuance s < 2 ^ 128"

lemma account_ok_default: "0 < ExistentialDeposit bc \<Longrightarrow> account_ok bc default_info"
  by (simp add: account_ok_def does_consume_def)

lemma bal_wf_acct: "bal_wf bc s \<Longrightarrow> account_ok bc (acct s who)"
  by (simp add: bal_wf_def)

lemma bal_wf_only_acct:
  "bal_wf bc s \<Longrightarrow> only_acct who s s' \<Longrightarrow> account_ok bc (acct s' who) \<Longrightarrow> bal_wf bc s'"
  unfolding bal_wf_def using finite_only_acct only_acct_other by metis

lemma bal_wf_emit [simp]: "bal_wf bc (emit e s) = bal_wf bc s"
  by (simp add: bal_wf_def)

lemma held_emit [simp]: "held (emit e s) = held s"
  by (simp add: held_def)

lemma bal_inv_emit [simp]: "bal_inv bc c (emit e s) = bal_inv bc c s"
  by (simp add: bal_inv_def)

lemma issuance_update [simp]:
  "acct (s\<lparr>TotalIssuance := v\<rparr>) w = acct s w"
  "held (s\<lparr>TotalIssuance := v\<rparr>) = held s"
  "bal_wf bc (s\<lparr>TotalIssuance := v\<rparr>) = bal_wf bc s"
  by (simp_all add: acct_def held_def bal_wf_def)

section \<open>Reference counts\<close>

lemma inc_providers_effect:
  "only_acct who s (snd (inc_providers who s))" "0 < providers (acct (snd (inc_providers who s)) who)"
  "consumers (acct (snd (inc_providers who s)) who) = consumers (acct s who)"
  by (auto simp: inc_providers_def Let_def sat_add_def)

lemma dec_consumers_effect:
  assumes "dec_consumers who s = (r, s')"
  shows "only_acct who s s'" "providers (acct s' who) = providers (acct s who)"
    "consumers (acct s' who) = consumers (acct s who) - 1"
  using assms by (auto simp: dec_consumers_def Let_def split: if_splits)

lemma inc_consumers_effect:
  assumes "inc_consumers bc who s = (Inr u, s') \<or> inc_consumers_without_limit who s = (Inr u, s')"
  shows "only_acct who s s'" "0 < providers (acct s' who)" "0 < consumers (acct s' who)"
  using assms
  by (auto simp: inc_consumers_def inc_consumers_without_limit_def Let_def sat_add_def split: if_splits)

lemma dec_providers_effect:
  assumes "dec_providers who s = (Inr r, s')" "0 < consumers (acct s who) \<longrightarrow> 0 < providers (acct s who)"
  shows "only_acct who s s'" "consumers (acct s' who) = consumers (acct s who)"
    "0 < consumers (acct s' who) \<longrightarrow> 0 < providers (acct s' who)"
  using assms by (auto simp: dec_providers_def Let_def acct_None acct_Some split: if_splits option.splits)

definition refs_ok :: "AccountInfo \<Rightarrow> bool" where
  "refs_ok i \<longleftrightarrow> (0 < consumers i \<longrightarrow> 0 < providers i)"

lemma update_references_effect:
  fixes s s' :: "'acc bal_state"
  assumes run: "update_references bc who bump did_provide did_consume provide consume s = (Inr u, s')"
    and ok: "refs_ok (acct s who)"
    and dp: "did_provide \<longrightarrow> 0 < providers (acct s who)"
    and dc: "did_consume \<longrightarrow> 0 < consumers (acct s who)"
  shows "only_acct who s s'" "refs_ok (acct s' who)" "provide \<longrightarrow> 0 < providers (acct s' who)"
    "consume \<longrightarrow> 0 < consumers (acct s' who)"
proof -
  let ?A = "\<lambda>t. only_acct who s t \<and> refs_ok (acct t who) \<and> (did_provide \<or> provide \<longrightarrow> 0 < providers (acct t who))"
  obtain s1 s2 s3 s4 u1 u2 u3 u4 where
    r1: "(op_when (\<not> did_provide \<and> provide) (op_ignore (inc_providers who)) :: ('acc, unit) bal_op) s = (Inr u1, s1)" and
    r2: "op_when (did_consume \<and> \<not> consume) (dec_consumers who) s1 = (Inr u2, s2)" and
    r3: "op_when (\<not> did_consume \<and> consume)
           (if bump then inc_consumers_without_limit who else inc_consumers bc who) s2 = (Inr u3, s3)" and
    r4: "op_bind (op_gets (\<lambda>s. consumers (acct s who))) (\<lambda>c. op_when (consume \<and> c = 0) (inc_consumers bc who)) s3
           = (Inr u4, s4)" and
    r5: "op_when (did_provide \<and> \<not> provide)
           (\<lambda>s. case dec_providers who s of
                  (Inr _, s') \<Rightarrow> (Inr (), s')
                | (Inl e, s') \<Rightarrow>
                    (Inl e,
                     snd (op_then
                       (op_when (did_consume \<and> \<not> consume) (op_ignore (inc_consumers bc who)))
                       (op_when (\<not> did_consume \<and> consume) (dec_consumers who)) s'))) s4 = (Inr u, s')"
    using run unfolding update_references_def op_then_Inr by blast
  have 1: "?A s1 \<and> consumers (acct s1 who) = consumers (acct s who)"
    using r1 ok dp inc_providers_effect [of who s]
    by (auto simp: op_when_Inr refs_ok_def split: if_splits)
  have 2: "?A s2 \<and> (consume \<and> did_consume \<longrightarrow> 0 < consumers (acct s2 who))"
    using r2 1 dc dec_consumers_effect [of who s1 "Inr u2" s2]
    by (auto simp: op_when_Inr refs_ok_def split: if_splits intro: only_acct_trans)
  have 3: "?A s3 \<and> (consume \<longrightarrow> 0 < consumers (acct s3 who))"
    using r3 2 inc_consumers_effect [of bc who s2 u3 s3]
    by (auto simp: op_when_Inr refs_ok_def split: if_splits intro: only_acct_trans)
  have 4: "?A s4 \<and> (consume \<longrightarrow> 0 < consumers (acct s4 who))"
    using r4 3 by (auto simp: op_bind_def op_when_Inr split: if_splits)
  show "only_acct who s s'" "refs_ok (acct s' who)" "provide \<longrightarrow> 0 < providers (acct s' who)"
    "consume \<longrightarrow> 0 < consumers (acct s' who)"
    using r5 4 dec_providers_effect [of who s4 _ s']
    by (auto simp: refs_ok_def op_when_Inr split: if_splits sum.splits prod.splits intro: only_acct_trans)
qed

section \<open>Mutating an account\<close>

lemma ensure_upgraded_new: "is_new_logic (data (acct s who)) \<Longrightarrow> ensure_upgraded bc who s = (Inr False, s)"
  by (simp add: ensure_upgraded_def op_bind_def)

lemma store_back_only: "only_acct who s s' \<Longrightarrow> only_acct who s (store_back who d s')"
  by (simp add: store_back_def)

text \<open>What is kept of the new balance: an account below the existential deposit with nothing reserved is emptied.\<close>

definition kept_data :: "bal_config \<Rightarrow> AccountData \<Rightarrow> AccountData" where
  "kept_data bc a = (if free a < ExistentialDeposit bc \<and> reserved a = 0 then default_data else a)"

definition lost_dust :: "bal_config \<Rightarrow> AccountData \<Rightarrow> nat option" where
  "lost_dust bc a =
     (if free a < ExistentialDeposit bc \<and> reserved a = 0 \<and> free a \<noteq> 0 then Some (free a) else None)"

lemma kept_and_lost: "funds (kept_data bc a) + (case lost_dust bc a of None \<Rightarrow> 0 | Some d \<Rightarrow> d) = funds a"
  by (auto simp: kept_data_def lost_dust_def funds_def)

definition mutation_events :: "bal_config \<Rightarrow> 'acc \<Rightarrow> bool \<Rightarrow> AccountData \<Rightarrow> 'acc bal_state \<Rightarrow> 'acc bal_state" where
  "mutation_events bc who is_new a s =
     (let s1 = (if is_new then emit (Endowed who (free a)) s else s)
      in case lost_dust bc a of None \<Rightarrow> s1 | Some v \<Rightarrow> emit (DustLost who v) s1)"

lemma mutation_events_simps [simp]:
  "acct (mutation_events bc who n a s) w = acct s w"
  "TotalIssuance (mutation_events bc who n a s) = TotalIssuance s"
  "only_acct who t (mutation_events bc who n a s) = only_acct who t s"
  by (auto simp: mutation_events_def Let_def only_acct_def split: option.splits)

abbreviation references_for ::
  "bal_config \<Rightarrow> 'acc \<Rightarrow> bool \<Rightarrow> AccountData \<Rightarrow> AccountData \<Rightarrow> ('acc, unit) bal_op" where
  "references_for bc who bump d a \<equiv>
     update_references bc who bump (ExistentialDeposit bc \<le> free d) (d \<noteq> default_data \<and> does_consume d)
       (ExistentialDeposit bc \<le> free a) (does_consume a)"

lemma mutate_closure_run:
  "mutate_closure bc who bump f (if d = default_data then None else Some d) s =
     (case f d (d = default_data) of
        Inl e \<Rightarrow> (Inl e, s)
      | Inr (a, r) \<Rightarrow>
          (case references_for bc who bump d a s of
             (Inl e, s1) \<Rightarrow> (Inl e, s1)
           | (Inr _, s1) \<Rightarrow>
               (Inr (if free a < ExistentialDeposit bc \<and> reserved a = 0 then None else Some a,
                     if d = default_data then Some (free a) else None, lost_dust bc a, r), s1)))"
  by (cases "d = default_data")
    (auto simp: mutate_closure_def op_bind_def op_then_def lost_dust_def Let_def split: prod.split sum.split)

lemma try_mutate_account_run:
  assumes "is_new_logic (data (acct s who))"
  shows "try_mutate_account bc who bump f s =
     (let d = data (acct s who); n = (d = default_data)
      in case f d n of
        Inl e \<Rightarrow> (Inl e, s)
      | Inr (a, r) \<Rightarrow>
          (case references_for bc who bump d a s of
             (Inl e, s1) \<Rightarrow> (Inl e, s1)
           | (Inr _, s1) \<Rightarrow>
               (Inr (r, lost_dust bc a),
                mutation_events bc who n a
                  (store_back who (if free a < ExistentialDeposit bc \<and> reserved a = 0 then None else Some a) s1))))"
  unfolding try_mutate_account_def op_then_def op_bind_def try_mutate_exists_def ensure_upgraded_new [OF assms]
  by (simp add: mutate_closure_run mutation_events_def Let_def split: prod.split sum.split option.split)

lemma account_ok_stored:
  assumes ed: "0 < ExistentialDeposit bc" and new: "is_new_logic a"
    and refs: "refs_ok i" "ExistentialDeposit bc \<le> free a \<longrightarrow> 0 < providers i" "does_consume a \<longrightarrow> 0 < consumers i"
  shows "account_ok bc (i\<lparr>data := kept_data bc a\<rparr>)"
  using assms by (auto simp: account_ok_def kept_data_def refs_ok_def does_consume_def)

lemma store_back_kept:
  assumes "refs_ok (acct s who)" "ExistentialDeposit bc \<le> free a \<longrightarrow> 0 < providers (acct s who)"
    "does_consume a \<longrightarrow> 0 < consumers (acct s who)"
  shows "data (acct (store_back who (if free a < ExistentialDeposit bc \<and> reserved a = 0 then None else Some a) s) who)
           = kept_data bc a"
  using assms by (auto simp: store_back_def kept_data_def refs_ok_def does_consume_def)

lemma store_back_ok:
  assumes "0 < ExistentialDeposit bc" "is_new_logic a" "refs_ok (acct s who)"
    "ExistentialDeposit bc \<le> free a \<longrightarrow> 0 < providers (acct s who)"
    "does_consume a \<longrightarrow> 0 < consumers (acct s who)"
  shows "account_ok bc
           (acct (store_back who (if free a < ExistentialDeposit bc \<and> reserved a = 0 then None else Some a) s) who)"
  using account_ok_stored [OF assms] account_ok_default [OF assms(1)]
  by (auto simp: store_back_def kept_data_def split: if_splits)

lemma try_mutate_account_Inr:
  assumes wf: "bal_wf bc s" and run: "try_mutate_account bc who bump f s = (Inr (r, dust), s')"
    and keeps: "\<And>d n d' r. f d n = Inr (d', r) \<Longrightarrow> flags d' = flags d"
  obtains a where "f (data (acct s who)) (data (acct s who) = default_data) = Inr (a, r)"
    "dust = lost_dust bc a" "data (acct s' who) = kept_data bc a" "only_acct who s s'" "bal_wf bc s'"
proof -
  let ?d = "data (acct s who)"
  have acc: "account_ok bc (acct s who)" and ed: "0 < ExistentialDeposit bc"
    using wf by (simp_all add: bal_wf_def)
  then have new: "is_new_logic ?d" by (simp add: account_ok_def)
  obtain a u s1 where fa: "f ?d (?d = default_data) = Inr (a, r)"
    and upd: "references_for bc who bump ?d a s = (Inr u, s1)" and dust: "dust = lost_dust bc a"
    and s': "s' = mutation_events bc who (?d = default_data) a
       (store_back who (if free a < ExistentialDeposit bc \<and> reserved a = 0 then None else Some a) s1)"
    using run unfolding try_mutate_account_run [OF new] Let_def
    by (auto split: sum.splits prod.splits)
  have refs: "only_acct who s s1" "refs_ok (acct s1 who)"
      "ExistentialDeposit bc \<le> free a \<longrightarrow> 0 < providers (acct s1 who)" "does_consume a \<longrightarrow> 0 < consumers (acct s1 who)"
    using update_references_effect [OF upd] acc by (auto simp: account_ok_def refs_ok_def)
  have "only_acct who s s'" using store_back_only [OF refs(1)] by (simp add: s')
  moreover have "data (acct s' who) = kept_data bc a" using store_back_kept [OF refs(2-4)] by (simp add: s')
  moreover have "account_ok bc (acct s' who)"
    using store_back_ok [OF ed _ refs(2-4)] is_new_logic_flags [OF keeps [OF fa]] new by (simp add: s')
  ultimately show ?thesis
    using that [OF fa dust] bal_wf_only_acct [OF wf] by blast
qed

end
