(* ===== verification/BalancesMoves.thy ===== *)
theory BalancesMoves
  imports BalancesInv
begin

text \<open>
  The effect of the fungible operations: what a withdrawal, a deposit, a mint, a burn and a transfer do
  to the accounts and to the total issuance, and that each keeps the invariant.
\<close>

section \<open>Writing a balance\<close>

definition dust_of :: "bal_config \<Rightarrow> AccountData \<Rightarrow> nat" where
  "dust_of bc a = (case lost_dust bc a of None \<Rightarrow> 0 | Some d \<Rightarrow> d)"

lemma kept_dust: "funds (kept_data bc a) + dust_of bc a = funds a"
  by (simp add: dust_of_def kept_and_lost)

lemma dust_of_le: "dust_of bc a \<le> free a"
  by (simp add: dust_of_def lost_dust_def)

text \<open>The free balance of \<open>who\<close> becomes \<open>v\<close>, dust is burned, and nothing else changes.\<close>

definition rewritten :: "bal_config \<Rightarrow> 'acc \<Rightarrow> nat \<Rightarrow> 'acc bal_state \<Rightarrow> 'acc bal_state \<Rightarrow> bool" where
  "rewritten bc who v s s' \<longleftrightarrow>
     bal_wf bc s' \<and> (\<forall>w. w \<noteq> who \<longrightarrow> acct s' w = acct s w)
     \<and> data (acct s' who) = kept_data bc ((data (acct s who))\<lparr>free := v\<rparr>)
     \<and> held s' + funds (data (acct s who)) = held s + funds (data (acct s' who))
     \<and> TotalIssuance s' = TotalIssuance s - dust_of bc ((data (acct s who))\<lparr>free := v\<rparr>)"

lemma write_balance_Inr:
  assumes wf: "bal_wf bc s" and run: "write_balance bc who v s = (Inr dust, s')"
  shows "dust = lost_dust bc ((data (acct s who))\<lparr>free := v\<rparr>)"
    "data (acct s' who) = kept_data bc ((data (acct s who))\<lparr>free := v\<rparr>)"
    "only_acct who s s'" "bal_wf bc s'"
proof -
  let ?max = "reducible_balance bc s who Expendable Force"
  let ?f = "\<lambda>account (_::bool). Inr (if free account - v \<le> ?max
              then (account\<lparr>free := v\<rparr>, Inr ()) else (account, Inl InsufficientBalance)) :: (bal_error, _) result"
  have m: "try_mutate_account bc who False ?f s = (Inr (Inr (), dust), s')"
    using run by (auto simp: write_balance_def op_bind_Inr op_then_Inr)
  have keeps: "\<And>d n d' r. ?f d n = Inr (d', r) \<Longrightarrow> flags d' = flags d"
    by (auto split: if_splits)
  obtain a where a: "?f (data (acct s who)) (data (acct s who) = default_data) = Inr (a, Inr ())"
    and rest: "dust = lost_dust bc a" "data (acct s' who) = kept_data bc a" "only_acct who s s'" "bal_wf bc s'"
    using try_mutate_account_Inr [OF wf m] keeps by blast
  have "a = (data (acct s who))\<lparr>free := v\<rparr>" using a by (auto split: if_splits)
  with rest show "dust = lost_dust bc ((data (acct s who))\<lparr>free := v\<rparr>)"
    "data (acct s' who) = kept_data bc ((data (acct s who))\<lparr>free := v\<rparr>)" "only_acct who s s'" "bal_wf bc s'"
    by simp_all
qed

lemma drop_credit_simps [simp]:
  "acct (drop_credit n s) w = acct s w"
  "held (drop_credit n s) = held s"
  "bal_wf bc (drop_credit n s) = bal_wf bc s"
  "TotalIssuance (drop_credit n s) = TotalIssuance s - n"
  by (simp_all add: drop_credit_def)

lemma write_and_drop_dust_Inr:
  assumes wf: "bal_wf bc s" and run: "write_and_drop_dust bc who v s = (Inr u, s')"
  shows "rewritten bc who v s s'"
proof -
  obtain dust s1 where w: "write_balance bc who v s = (Inr dust, s1)"
    and s': "s' = (case dust of None \<Rightarrow> s1 | Some d \<Rightarrow> handle_dust d s1)"
    using run by (auto simp: write_and_drop_dust_def op_bind_Inr)
  note e = write_balance_Inr [OF wf w]
  have "held s1 + funds (data (acct s who)) = held s + funds (data (acct s1 who))"
    using held_only_acct [OF e(3)] wf by (simp add: bal_wf_def)
  then show ?thesis
    using e only_acct_other [OF e(3)] only_acct_issuance [OF e(3)]
    by (simp add: rewritten_def s' dust_of_def handle_dust_def split: option.splits)
qed

lemma update_references_raise:
  assumes "consume \<longrightarrow> 0 < consumers (acct s who)"
  shows "update_references bc who bump did_provide consume True consume s =
           (Inr (), if did_provide then s else snd (inc_providers who s))"
  using assms inc_providers_effect(3) [of who s]
  by (cases consume; cases did_provide) (simp_all add: update_references_def op_then_def op_bind_def op_when_def)

lemma references_raise:
  assumes ok: "account_ok bc (acct s who)" and v: "ExistentialDeposit bc \<le> v"
  shows "\<exists>s1. references_for bc who bump (data (acct s who)) ((data (acct s who))\<lparr>free := v\<rparr>) s = (Inr (), s1)"
proof -
  let ?d = "data (acct s who)"
  have c: "does_consume (?d\<lparr>free := v\<rparr>) = does_consume ?d" "(?d \<noteq> default_data \<and> does_consume ?d) = does_consume ?d"
    by (auto simp: does_consume_def)
  have p: "(ExistentialDeposit bc \<le> free (?d\<lparr>free := v\<rparr>)) = True" using v by simp
  have "does_consume ?d \<longrightarrow> 0 < consumers (acct s who)" using ok by (simp add: account_ok_def)
  then show ?thesis unfolding c p by (simp add: update_references_raise)
qed

lemma write_balance_raise:
  assumes wf: "bal_wf bc s" and v: "free (data (acct s who)) \<le> v" "ExistentialDeposit bc \<le> v"
  shows "\<exists>s'. write_balance bc who v s = (Inr None, s')"
proof -
  let ?d = "data (acct s who)"
  have ok: "account_ok bc (acct s who)" using wf by (simp add: bal_wf_def)
  then have new: "is_new_logic ?d" by (simp add: account_ok_def)
  obtain s1 where "references_for bc who False ?d (?d\<lparr>free := v\<rparr>) s = (Inr (), s1)"
    using references_raise [OF ok v(2)] by blast
  then show ?thesis
    using v by (simp add: write_balance_def op_bind_def op_then_def try_mutate_account_run [OF new] Let_def lost_dust_def)
qed

lemma write_and_drop_dust_raise:
  assumes "bal_wf bc s" "free (data (acct s who)) \<le> v" "ExistentialDeposit bc \<le> v"
  obtains s' where "write_and_drop_dust bc who v s = (Inr (), s')" "rewritten bc who v s s'"
proof -
  obtain s' where "write_and_drop_dust bc who v s = (Inr (), s')"
    using write_balance_raise [OF assms] by (auto simp: write_and_drop_dust_def op_bind_def)
  with that write_and_drop_dust_Inr [OF assms(1)] show ?thesis by blast
qed

section \<open>Decreasing and increasing\<close>

lemma reducible_le_free: "reducible_balance bc s who p f \<le> free (data (acct s who))"
  by (simp add: reducible_balance_def Let_def)

lemma rewritten_inv:
  assumes inv: "bal_inv bc c s" and rw: "rewritten bc who v s s'"
    and "v \<le> free (data (acct s who))" "x = free (data (acct s who)) - v"
  shows "bal_inv bc (c + x) s'" "TotalIssuance s' \<le> TotalIssuance s"
proof -
  let ?d = "data (acct s who)"
  have le: "funds ?d \<le> held s" using funds_le_held [of s who] inv by (simp add: bal_inv_def bal_wf_def)
  have k: "funds (data (acct s' who)) + dust_of bc (?d\<lparr>free := v\<rparr>) = v + reserved ?d"
    using rw kept_dust [of bc "?d\<lparr>free := v\<rparr>"] by (simp add: rewritten_def funds_def)
  have "funds ?d = free ?d + reserved ?d" by (simp add: funds_def)
  then show "bal_inv bc (c + x) s'" "TotalIssuance s' \<le> TotalIssuance s"
    using inv rw le k dust_of_le [of bc "?d\<lparr>free := v\<rparr>"] assms(3,4) unfolding bal_inv_def rewritten_def
    by auto
qed

lemma decrease_balance_Inr:
  assumes inv: "bal_inv bc c s" and run: "decrease_balance bc who amount precision p f s = (Inr got, s')"
  shows "got = min amount (reducible_balance bc s who p f)" "precision = Exact \<Longrightarrow> got = amount"
    "rewritten bc who (free (data (acct s who)) - got) s s'" "bal_inv bc (c + got) s'"
    "TotalIssuance s' \<le> TotalIssuance s"
proof -
  let ?free = "free (data (acct s who))" and ?red = "reducible_balance bc s who p f"
  have wf: "bal_wf bc s" using inv by (simp add: bal_inv_def)
  have red: "?red \<le> ?free" by (rule reducible_le_free)
  show got: "got = min amount ?red"
    using run red by (cases precision) (auto simp: decrease_balance_def op_bind_Inr op_then_Inr Let_def split: if_splits)
  show "precision = Exact \<Longrightarrow> got = amount"
    using run red by (auto simp: decrease_balance_def op_bind_Inr op_then_Inr Let_def split: if_splits)
  have "\<exists>u. write_and_drop_dust bc who (?free - got) s = (Inr u, s')"
    using run red by (cases precision) (auto simp: decrease_balance_def op_bind_Inr op_then_Inr Let_def split: if_splits)
  then show rw: "rewritten bc who (?free - got) s s'" using write_and_drop_dust_Inr [OF wf] by blast
  show "bal_inv bc (c + got) s'" "TotalIssuance s' \<le> TotalIssuance s"
    using rewritten_inv [OF inv rw, of got] got red by auto
qed

lemma rewritten_credited:
  assumes "rewritten bc who (free (data (acct s who)) + x) s s'" "ExistentialDeposit bc \<le> free (data (acct s who)) + x"
  shows "data (acct s' who) = (data (acct s who))\<lparr>free := free (data (acct s who)) + x\<rparr>"
    "held s' = held s + x" "TotalIssuance s' = TotalIssuance s" "bal_wf bc s'" "w \<noteq> who \<Longrightarrow> acct s' w = acct s w"
  using assms by (auto simp: rewritten_def kept_data_def dust_of_def lost_dust_def funds_def)

text \<open>\<open>credited bc who x s s'\<close>: the free balance of \<open>who\<close> grew by \<open>x\<close>; the issuance did not.\<close>

definition credited :: "bal_config \<Rightarrow> 'acc \<Rightarrow> nat \<Rightarrow> 'acc bal_state \<Rightarrow> 'acc bal_state \<Rightarrow> bool" where
  "credited bc who x s s' \<longleftrightarrow>
     data (acct s' who) = (data (acct s who))\<lparr>free := free (data (acct s who)) + x\<rparr>
     \<and> (\<forall>w. w \<noteq> who \<longrightarrow> acct s' w = acct s w)
     \<and> held s' = held s + x \<and> TotalIssuance s' = TotalIssuance s \<and> bal_wf bc s'"

lemma credited_refl: "bal_wf bc s \<Longrightarrow> credited bc who 0 s s"
  by (simp add: credited_def)

lemma increase_balance_Inr:
  assumes wf: "bal_wf bc s" and run: "increase_balance bc who amount precision s = (Inr got, s')"
    and w: "free (data (acct s who)) < 2 ^ 128"
  shows "credited bc who got s s'" "got \<le> amount" "precision = Exact \<Longrightarrow> got = amount"
proof -
  let ?free = "free (data (acct s who))"
  let ?new = "if precision = BestEffort then sat_add 128 ?free amount else ?free + amount"
  have new: "?free \<le> ?new" "?new \<le> ?free + amount" using w by (auto simp: sat_add_def)
  have alts: "got = 0 \<and> s' = s \<and> (precision = Exact \<longrightarrow> amount = 0)
      \<or> got = ?new - ?free \<and> ExistentialDeposit bc \<le> ?new \<and> (\<exists>u. write_and_drop_dust bc who ?new s = (Inr u, s'))"
    using run by (cases precision) (auto simp: increase_balance_def op_bind_Inr op_then_Inr split: if_splits)
  then show "credited bc who got s s'"
  proof (elim disjE conjE exE)
    fix u assume g: "got = ?new - ?free" "ExistentialDeposit bc \<le> ?new" and wr: "write_and_drop_dust bc who ?new s = (Inr u, s')"
    have eq: "?free + got = ?new" using g(1) new(1) by linarith
    have "rewritten bc who (?free + got) s s'" using write_and_drop_dust_Inr [OF wf wr] eq by simp
    then show ?thesis using rewritten_credited [of bc who s got s'] g(2) eq by (simp add: credited_def)
  qed (simp add: credited_refl wf)
  show "got \<le> amount" "precision = Exact \<Longrightarrow> got = amount" using alts new by auto
qed

lemma increase_balance_total:
  assumes wf: "bal_wf bc s" and "ExistentialDeposit bc \<le> free (data (acct s who)) + amount"
    "free (data (acct s who)) + amount < 2 ^ 128"
  shows "\<exists>s'. increase_balance bc who amount precision s = (Inr amount, s')"
proof -
  let ?new = "free (data (acct s who)) + amount"
  obtain s' where "write_and_drop_dust bc who ?new s = (Inr (), s')"
    using write_and_drop_dust_raise [OF wf, of who ?new] assms(2) by auto
  then show ?thesis
    using assms by (cases precision) (auto simp: increase_balance_def op_bind_def op_then_def sat_add_exact checked_add_def)
qed

lemma increase_balance_Inl:
  assumes wf: "bal_wf bc s" and run: "increase_balance bc who amount precision s = (Inl e, s')"
    and w: "free (data (acct s who)) < 2 ^ 128"
  shows "s' = s" "free (data (acct s who)) + amount < ExistentialDeposit bc \<or> 2 ^ 128 \<le> free (data (acct s who)) + amount"
proof -
  let ?free = "free (data (acct s who))"
  have nw: "write_and_drop_dust bc who v s \<noteq> (Inl e', t)" if "?free \<le> v" "ExistentialDeposit bc \<le> v" for v e' t
    using write_and_drop_dust_raise [OF wf that] by (metis Inl_Inr_False prod.inject)
  have "?free \<le> sat_add 128 ?free amount" using w by (simp add: sat_add_def)
  then show "s' = s" "?free + amount < ExistentialDeposit bc \<or> 2 ^ 128 \<le> ?free + amount"
    using run nw [of "sat_add 128 ?free amount"] nw [of "?free + amount"]
    by (auto simp: increase_balance_def op_bind_def op_then_def checked_add_def split: if_splits prod.splits sum.splits)
qed

end
