(* ===== verification/BalancesFlow.thy ===== *)
theory BalancesFlow
  imports BalancesMoves
begin

text \<open>
  Minting, burning, transfers, withdrawals and deposits with their imbalances, reserves and the calls of
  the balances pallet against the invariant of \<open>BalancesInv\<close>.
\<close>

section \<open>Minting and burning\<close>

lemma free_bound: "bal_inv bc c s \<Longrightarrow> free (data (acct s who)) < 2 ^ 128"
  using funds_le_held [of s who] unfolding bal_inv_def bal_wf_def funds_def by linarith

lemma set_total_issuance_simps [simp]:
  "acct (set_total_issuance v s) w = acct s w"
  "held (set_total_issuance v s) = held s"
  "bal_wf bc (set_total_issuance v s) = bal_wf bc s"
  "TotalIssuance (set_total_issuance v s) = v"
  by (simp_all add: set_total_issuance_def)

lemma mint_into_Inr:
  assumes inv: "bal_inv bc c s" and run: "mint_into bc who amount s = (Inr got, s')"
  shows "got = amount" "bal_inv bc c s'" "TotalIssuance s' = TotalIssuance s + amount"
    "data (acct s' who) = (data (acct s who))\<lparr>free := free (data (acct s who)) + amount\<rparr>"
    "w \<noteq> who \<Longrightarrow> acct s' w = acct s w"
proof -
  have wf: "bal_wf bc s" using inv by (simp add: bal_inv_def)
  obtain s1 where room: "TotalIssuance s + amount < 2 ^ 128" and inc: "increase_balance bc who amount Exact s = (Inr got, s1)"
    and s': "s' = emit (Minted who amount) (set_total_issuance (sat_add 128 (TotalIssuance s1) got) s1)"
    using run by (auto simp: mint_into_def op_bind_Inr op_then_Inr)
  note e = increase_balance_Inr [OF wf inc free_bound [OF inv]]
  show g: "got = amount" using e by simp
  show "bal_inv bc c s'" "TotalIssuance s' = TotalIssuance s + amount"
    "data (acct s' who) = (data (acct s who))\<lparr>free := free (data (acct s who)) + amount\<rparr>"
    "w \<noteq> who \<Longrightarrow> acct s' w = acct s w"
    using inv e(1) room g unfolding s' by (simp_all add: credited_def bal_inv_def sat_add_exact)
qed

lemma mint_into_total:
  assumes inv: "bal_inv bc c s" and "TotalIssuance s + amount < 2 ^ 128"
    and "ExistentialDeposit bc \<le> free (data (acct s who)) + amount"
  shows "\<exists>s'. mint_into bc who amount s = (Inr amount, s')"
proof -
  have "free (data (acct s who)) \<le> TotalIssuance s"
    using funds_le_held [of s who] inv unfolding bal_inv_def bal_wf_def funds_def by linarith
  then obtain s1 where "increase_balance bc who amount Exact s = (Inr amount, s1)"
    using increase_balance_total [of bc s who amount Exact] inv assms by (auto simp: bal_inv_def)
  then show ?thesis using assms(2) by (simp add: mint_into_def op_bind_def op_then_def checked_add_def)
qed

lemma mint_into_Inl:
  assumes inv: "bal_inv bc c s" and run: "mint_into bc who amount s = (Inl e, s')"
  shows "s' = s"
  using run increase_balance_Inl(1) [of bc s who amount Exact e s'] inv free_bound [OF inv, of who]
  by (auto simp: mint_into_def op_bind_def op_then_def bal_inv_def split: prod.splits sum.splits)

lemma burn_from_Inr:
  assumes inv: "bal_inv bc c s" and run: "burn_from bc who amount p precision f s = (Inr got, s')"
  shows "got = min amount (reducible_balance bc s who p f)" "precision = Exact \<Longrightarrow> got = amount"
    "bal_inv bc c s'"
    "TotalIssuance s' + got + dust_of bc ((data (acct s who))\<lparr>free := free (data (acct s who)) - got\<rparr>) = TotalIssuance s"
    "data (acct s' who) = kept_data bc ((data (acct s who))\<lparr>free := free (data (acct s who)) - got\<rparr>)"
    "w \<noteq> who \<Longrightarrow> acct s' w = acct s w"
proof -
  let ?red = "reducible_balance bc s who p f" and ?d = "data (acct s who)"
  obtain s1 where ex: "min ?red amount = amount \<or> precision = BestEffort"
    and dec: "decrease_balance bc who (min ?red amount) BestEffort p f s = (Inr got, s1)"
    and s': "s' = emit (Burned who got) (set_total_issuance (TotalIssuance s1 - got) s1)"
    using run by (auto simp: burn_from_def op_bind_Inr op_then_Inr split: if_splits)
  note e = decrease_balance_Inr [OF inv dec]
  show g: "got = min amount ?red" using e(1) by simp
  show "precision = Exact \<Longrightarrow> got = amount" using ex g by auto
  have i: "bal_inv bc (c + got) s1" by (rule e(4))
  have dust: "TotalIssuance s1 = TotalIssuance s - dust_of bc (?d\<lparr>free := free ?d - got\<rparr>)"
    using e(3) by (simp add: rewritten_def)
  have "funds ?d \<le> TotalIssuance s"
    using funds_le_held [of s who] inv unfolding bal_inv_def bal_wf_def by linarith
  then have "dust_of bc (?d\<lparr>free := free ?d - got\<rparr>) \<le> TotalIssuance s"
    using dust_of_le [of bc "?d\<lparr>free := free ?d - got\<rparr>"] by (simp add: funds_def)
  then show "TotalIssuance s' + got + dust_of bc (?d\<lparr>free := free ?d - got\<rparr>) = TotalIssuance s"
    using dust i unfolding s' bal_inv_def by simp linarith
  show "bal_inv bc c s'" using i by (auto simp: s' bal_inv_def)
  show "data (acct s' who) = kept_data bc (?d\<lparr>free := free ?d - got\<rparr>)" "w \<noteq> who \<Longrightarrow> acct s' w = acct s w"
    using e(3) by (simp_all add: s' rewritten_def)
qed

section \<open>Imbalances\<close>

lemma withdraw_Inr:
  assumes inv: "bal_inv bc c s" and run: "withdraw bc who amount precision p f s = (Inr got, s')"
  shows "got = min amount (reducible_balance bc s who p f)" "precision = Exact \<Longrightarrow> got = amount"
    "bal_inv bc (c + got) s'" "TotalIssuance s' \<le> TotalIssuance s"
proof -
  obtain s1 where dec: "decrease_balance bc who amount precision p f s = (Inr got, s1)"
    and s': "s' = emit (Withdraw who got) s1"
    using run by (auto simp: withdraw_def op_bind_Inr op_then_Inr)
  show "got = min amount (reducible_balance bc s who p f)" "precision = Exact \<Longrightarrow> got = amount"
    "bal_inv bc (c + got) s'" "TotalIssuance s' \<le> TotalIssuance s"
    using decrease_balance_Inr [OF inv dec] by (simp_all add: s')
qed

lemma drop_credit_inv: "bal_inv bc (c + x) s \<Longrightarrow> bal_inv bc c (drop_credit x s)"
  by (auto simp: bal_inv_def)

text \<open>Placing a credit: it goes into the account whole, or comes back whole with nothing changed.\<close>

lemma resolve_cases:
  assumes inv: "bal_inv bc (c + credit) s"
  obtains (placed) s' where "resolve bc who credit s = (Inr (), s')" "bal_inv bc c s'"
      "TotalIssuance s' = TotalIssuance s"
  | (returned) "resolve bc who credit s = (Inl credit, s)"
proof (cases "deposit bc who credit Exact s")
  case (Pair r s1)
  show thesis
  proof (cases r)
    case (Inl e)
    have "s1 = s"
      using Pair Inl increase_balance_Inl(1) [of bc s who credit Exact _ s1] inv free_bound [OF inv, of who]
      by (auto simp: deposit_def op_bind_def op_then_def bal_inv_def split: prod.splits sum.splits)
    then show thesis using Pair Inl returned by (simp add: resolve_def)
  next
    case (Inr debt)
    obtain s2 where inc: "increase_balance bc who credit Exact s = (Inr debt, s2)" and s1: "s1 = emit (Deposit who debt) s2"
      using Pair Inr by (auto simp: deposit_def op_bind_Inr op_then_Inr)
    have wf: "bal_wf bc s" using inv by (simp add: bal_inv_def)
    note e = increase_balance_Inr [OF wf inc free_bound [OF inv]]
    have "resolve bc who credit s = (Inr (), s1)"
      using Pair Inr e(3) by (simp add: resolve_def drop_debt_def)
    moreover have "bal_inv bc c s1" "TotalIssuance s1 = TotalIssuance s"
      using inv e(1,3) by (simp_all add: s1 credited_def bal_inv_def)
    ultimately show thesis by (rule placed)
  qed
qed

section \<open>Transfers\<close>

lemma withdraw_allows:
  assumes "withdraw_result (can_withdraw bc s source amount) (p \<noteq> Expendable) = Inr r" "p \<noteq> Protect"
  shows "amount \<le> reducible_balance bc s source p Polite"
  using assms
  by (cases p)
    (auto simp: can_withdraw_def reducible_balance_def Let_def checked_sub_def split: if_splits option.splits)

lemma deposit_allows:
  assumes "deposit_result (can_deposit bc s dest amount m) = Inr u" "0 < amount"
  shows "ExistentialDeposit bc \<le> free (data (acct s dest)) + amount" "free (data (acct s dest)) + amount < 2 ^ 128"
  using assms by (auto simp: can_deposit_def checked_add_def split: if_splits option.splits)

lemma transfer_steps:
  assumes run: "transfer bc source dest amount p s = (Inr got, s')"
  shows "\<exists>r. withdraw_result (can_withdraw bc s source amount) (p \<noteq> Expendable) = Inr r"
    "\<exists>u. deposit_result (can_deposit bc s dest amount False) = Inr u"
    "source = dest \<Longrightarrow> got = amount \<and> s' = s"
    "source \<noteq> dest \<Longrightarrow> \<exists>s1. decrease_balance bc source amount BestEffort p Polite s = (Inr got, s1)
       \<and> s' = emit (Transfer source dest got) (snd (increase_balance bc dest got BestEffort s1))"
proof -
  let ?w = "withdraw_result (can_withdraw bc s source amount) (p \<noteq> Expendable)"
    and ?d = "deposit_result (can_deposit bc s dest amount False)"
  note run' = run [unfolded transfer_def op_run]
  show w: "\<exists>r. ?w = Inr r" using run' by (cases ?w) simp_all
  then obtain r where r: "?w = Inr r" by blast
  note run'' = run' [unfolded r sum.case op_run]
  show "\<exists>u. ?d = Inr u" using run'' by (cases ?d) simp_all
  then obtain u where u: "?d = Inr u" by blast
  note run3 = run'' [unfolded u sum.case]
  show "source = dest \<Longrightarrow> got = amount \<and> s' = s" using run3 by simp
  assume "source \<noteq> dest"
  then have "op_bind (decrease_balance bc source amount BestEffort p Polite) (\<lambda>debited s.
       (Inr debited, emit (Transfer source dest debited) (snd (increase_balance bc dest debited BestEffort s)))) s = (Inr got, s')"
    using run3 by simp
  then show "\<exists>s1. decrease_balance bc source amount BestEffort p Polite s = (Inr got, s1)
       \<and> s' = emit (Transfer source dest got) (snd (increase_balance bc dest got BestEffort s1))"
    unfolding op_bind_Inr by (elim exE conjE, simp only: prod.inject sum.inject) blast
qed

lemma increase_best_effort:
  assumes wf: "bal_wf bc s" and fb: "free (data (acct s dest)) < 2 ^ 128"
    and room: "0 < amount \<Longrightarrow> ExistentialDeposit bc \<le> free (data (acct s dest)) + amount \<and> free (data (acct s dest)) + amount < 2 ^ 128"
  shows "credited bc dest amount s (snd (increase_balance bc dest amount BestEffort s))"
proof (cases "0 < amount")
  case True
  obtain t where t: "increase_balance bc dest amount BestEffort s = (Inr amount, t)"
    using increase_balance_total [OF wf, of dest amount BestEffort] room [OF True] by blast
  show ?thesis unfolding t snd_conv by (rule increase_balance_Inr(1) [OF wf t fb])
next
  case False
  then have "increase_balance bc dest amount BestEffort s = (Inr 0, s)"
    using fb by (simp add: increase_balance_def op_bind_def sat_add_def)
  then show ?thesis using False credited_refl [OF wf] by simp
qed

lemma transfer_Inr:
  assumes inv: "bal_inv bc c s" and p: "p \<noteq> Protect" and run: "transfer bc source dest amount p s = (Inr got, s')"
  shows "got = amount" "bal_inv bc c s'"
    "source \<noteq> dest \<Longrightarrow>
       data (acct s' source) = kept_data bc ((data (acct s source))\<lparr>free := free (data (acct s source)) - amount\<rparr>)
       \<and> data (acct s' dest) = (data (acct s dest))\<lparr>free := free (data (acct s dest)) + amount\<rparr>
       \<and> (\<forall>w. w \<noteq> source \<longrightarrow> w \<noteq> dest \<longrightarrow> acct s' w = acct s w)"
    "source = dest \<Longrightarrow> s' = s"
    "amount \<le> free (data (acct s source))" "TotalIssuance s' \<le> TotalIssuance s"
    "source \<noteq> dest \<Longrightarrow> TotalIssuance s' =
       TotalIssuance s - dust_of bc ((data (acct s source))\<lparr>free := free (data (acct s source)) - amount\<rparr>)"
proof -
  note steps = transfer_steps [OF run]
  obtain r u where w: "withdraw_result (can_withdraw bc s source amount) (p \<noteq> Expendable) = Inr r"
    and d: "deposit_result (can_deposit bc s dest amount False) = Inr u"
    using steps(1,2) by blast
  have red: "amount \<le> reducible_balance bc s source p Polite" by (rule withdraw_allows [OF w p])
  then show "amount \<le> free (data (acct s source))" using reducible_le_free [of bc s source p Polite] by simp
  show same: "source = dest \<Longrightarrow> s' = s" using steps(3) by simp
  have main: "got = amount \<and> bal_inv bc c s' \<and> TotalIssuance s' =
       TotalIssuance s - dust_of bc ((data (acct s source))\<lparr>free := free (data (acct s source)) - amount\<rparr>)
     \<and> data (acct s' source) = kept_data bc ((data (acct s source))\<lparr>free := free (data (acct s source)) - amount\<rparr>)
     \<and> data (acct s' dest) = (data (acct s dest))\<lparr>free := free (data (acct s dest)) + amount\<rparr>
     \<and> (\<forall>w. w \<noteq> source \<longrightarrow> w \<noteq> dest \<longrightarrow> acct s' w = acct s w)" if ne: "source \<noteq> dest"
  proof -
    obtain s1 where dec: "decrease_balance bc source amount BestEffort p Polite s = (Inr got, s1)"
      and s': "s' = emit (Transfer source dest got) (snd (increase_balance bc dest got BestEffort s1))"
      using steps(4) [OF ne] by blast
    note e = decrease_balance_Inr [OF inv dec]
    have got: "got = amount" using e(1) red by simp
    have other: "\<And>w. w \<noteq> source \<Longrightarrow> acct s1 w = acct s w"
      and src: "data (acct s1 source) = kept_data bc ((data (acct s source))\<lparr>free := free (data (acct s source)) - amount\<rparr>)"
      using e(3) by (simp_all add: rewritten_def got)
    have wf1: "bal_wf bc s1" using e(4) by (simp add: bal_inv_def)
    have cr: "credited bc dest amount s1 (snd (increase_balance bc dest amount BestEffort s1))"
      using deposit_allows [OF d] other [of dest] ne by (intro increase_best_effort wf1 free_bound [OF e(4)]) simp
    let ?s2 = "snd (increase_balance bc dest amount BestEffort s1)"
    have "bal_inv bc c ?s2" using cr e(4) unfolding credited_def bal_inv_def got by linarith
    moreover have "data (acct ?s2 source) = data (acct s1 source)" using cr ne by (simp add: credited_def)
    moreover have "data (acct ?s2 dest) = (data (acct s dest))\<lparr>free := free (data (acct s dest)) + amount\<rparr>"
      using cr other [of dest] ne by (simp add: credited_def)
    moreover have "\<forall>w. w \<noteq> source \<longrightarrow> w \<noteq> dest \<longrightarrow> acct ?s2 w = acct s w"
      using cr other by (simp add: credited_def)
    moreover have "TotalIssuance ?s2 =
        TotalIssuance s - dust_of bc ((data (acct s source))\<lparr>free := free (data (acct s source)) - amount\<rparr>)"
      using cr e(3) by (simp add: credited_def rewritten_def got)
    ultimately show ?thesis
      unfolding s' got using src by simp
  qed
  show "got = amount" using main steps(3) by (cases "source = dest") simp_all
  show "bal_inv bc c s'" "TotalIssuance s' \<le> TotalIssuance s" using main same inv by (cases "source = dest", simp, simp)+
  show "source \<noteq> dest \<Longrightarrow> TotalIssuance s' =
       TotalIssuance s - dust_of bc ((data (acct s source))\<lparr>free := free (data (acct s source)) - amount\<rparr>)"
    using main by blast
  show "source \<noteq> dest \<Longrightarrow>
       data (acct s' source) = kept_data bc ((data (acct s source))\<lparr>free := free (data (acct s source)) - amount\<rparr>)
       \<and> data (acct s' dest) = (data (acct s dest))\<lparr>free := free (data (acct s dest)) + amount\<rparr>
       \<and> (\<forall>w. w \<noteq> source \<longrightarrow> w \<noteq> dest \<longrightarrow> acct s' w = acct s w)"
    using main by blast
qed

section \<open>Reserves\<close>

lemma mutate_handling_dust_Inr:
  assumes inv: "bal_inv bc c s" and run: "try_mutate_account_handling_dust bc who bump f s = (Inr r, s')"
    and keeps: "\<And>d n d' r. f d n = Inr (d', r) \<Longrightarrow> flags d' = flags d"
    and same: "\<And>a r. f (data (acct s who)) (data (acct s who) = default_data) = Inr (a, r) \<Longrightarrow> funds a = funds (data (acct s who))"
  shows "bal_inv bc c s'" "w \<noteq> who \<Longrightarrow> acct s' w = acct s w"
proof -
  obtain dust s1 where m: "try_mutate_account bc who bump f s = (Inr (r, dust), s1)"
    and s': "s' = (case dust of None \<Rightarrow> s1 | Some d \<Rightarrow> handle_raw_dust bc d s1)"
    using run by (auto simp: try_mutate_account_handling_dust_def op_bind_Inr op_then_Inr)
  have wf: "bal_wf bc s" using inv by (simp add: bal_inv_def)
  obtain a where a: "f (data (acct s who)) (data (acct s who) = default_data) = Inr (a, r)"
    and e: "dust = lost_dust bc a" "data (acct s1 who) = kept_data bc a" "only_acct who s s1" "bal_wf bc s1"
    using try_mutate_account_Inr [OF wf m] keeps by blast
  have h: "held s1 + funds (data (acct s who)) = held s + funds (kept_data bc a)"
    using held_only_acct [OF e(3)] e(2) wf by (simp add: bal_wf_def)
  have dust: "s' = drop_credit (dust_of bc a) s1"
    using e(1) by (auto simp: s' handle_raw_dust_def handle_dust_def dust_of_def lost_dust_def drop_credit_def min_def split: if_splits)
  have "funds (data (acct s who)) \<le> held s" using funds_le_held wf by (auto simp: bal_wf_def)
  then show "bal_inv bc c s'"
    using inv e(4) h kept_dust [of bc a] same [OF a] only_acct_issuance [OF e(3)]
    unfolding dust bal_inv_def by auto
  show "w \<noteq> who \<Longrightarrow> acct s' w = acct s w"
    using only_acct_other [OF e(3)] by (simp add: dust)
qed

lemma reserve_Inr:
  assumes inv: "bal_inv bc c s" and run: "reserve bc who amount s = (Inr u, s')"
  shows "bal_inv bc c s'"
proof (cases "amount = 0")
  case False
  let ?f = "\<lambda>account (_::bool). rbind (ok_or (checked_sub (free account) amount) InsufficientBalance) (\<lambda>f.
              rbind (ok_or (checked_add 128 (reserved account) amount) ArithmeticOverflow) (\<lambda>r.
                Inr (account\<lparr>free := f, reserved := r\<rparr>, ()))) :: (bal_error, AccountData \<times> unit) result"
  obtain v s1 where m: "try_mutate_account_handling_dust bc who False ?f s = (Inr v, s1)" and s': "s' = emit (Reserved who amount) s1"
    using run False by (auto simp: reserve_def op_then_Inr)
  have "bal_inv bc c s1" by (rule mutate_handling_dust_Inr(1) [OF inv m]) (auto simp: funds_def)
  then show ?thesis by (simp add: s')
qed (use assms in \<open>simp add: reserve_def\<close>)

lemma update_references_lower:
  assumes "did_provide \<longrightarrow> provide" "consume \<longrightarrow> did_consume" "did_consume \<longrightarrow> 0 < consumers (acct s who)"
  shows "\<exists>s1. update_references bc who bump did_provide did_consume provide consume s = (Inr (), s1)"
  using assms inc_providers_effect(3) [of who s]
  by (cases consume; cases did_consume; cases provide; cases did_provide)
    (simp_all add: update_references_def op_then_def op_bind_def op_when_def dec_consumers_def Let_def)

lemma unreserve_inv:
  assumes inv: "bal_inv bc c s"
  shows "bal_inv bc c (snd (unreserve bc who amount s))"
    "fst (unreserve bc who amount s) = amount - min (reserved (data (acct s who))) amount"
proof -
  let ?d = "data (acct s who)"
  let ?act = "min (reserved ?d) amount"
  let ?f = "\<lambda>account (_::bool). let actual = min (reserved account) amount
       in Inr (account\<lparr>reserved := reserved account - actual, free := sat_add 128 (free account) actual\<rparr>, actual)
       :: (bal_error, AccountData \<times> nat) result"
  let ?a = "?d\<lparr>reserved := reserved ?d - ?act, free := sat_add 128 (free ?d) ?act\<rparr>"
  have ok: "account_ok bc (acct s who)" using inv by (simp add: bal_inv_def bal_wf_def)
  then have new: "is_new_logic ?d" by (simp add: account_ok_def)
  have le: "free ?d + reserved ?d < 2 ^ 128"
    using funds_le_held [of s who] inv unfolding bal_inv_def bal_wf_def funds_def by linarith
  then have fr: "sat_add 128 (free ?d) ?act = free ?d + ?act" by (intro sat_add_exact) linarith
  have "\<exists>s1. references_for bc who False ?d ?a s = (Inr (), s1)"
    using ok by (intro update_references_lower) (auto simp: fr does_consume_def account_ok_def)
  then obtain s1 where m: "try_mutate_account_handling_dust bc who False ?f s = (Inr ?act, s1)"
    by (auto simp: try_mutate_account_handling_dust_def try_mutate_account_run [OF new] Let_def op_bind_def op_then_def)
  have i: "bal_inv bc c s1"
    by (rule mutate_handling_dust_Inr(1) [OF inv m]) (auto simp: funds_def Let_def fr)
  show "bal_inv bc c (snd (unreserve bc who amount s))" "fst (unreserve bc who amount s) = amount - ?act"
    using inv m i fr le by (auto simp: unreserve_def data_total_def sat_add_exact)
qed

section \<open>Calls\<close>

lemma dispatch_inv:
  assumes inv: "bal_inv bc c s" and run: "bal_dispatch bc signer call s = Inr s'"
  shows "bal_inv bc c s' \<and> TotalIssuance s' \<le> TotalIssuance s"
proof -
  obtain who where [simp]: "signer = Some who" using run by (cases signer) (simp_all add: bal_dispatch_def)
  have t: "transactional (transfer bc who dest n p) s = Inr s' \<Longrightarrow> p \<noteq> Protect \<Longrightarrow>
      bal_inv bc c s' \<and> TotalIssuance s' \<le> TotalIssuance s" for dest n p
    using transfer_Inr(2,6) [OF inv] by (auto simp: transactional_def split: prod.splits sum.splits)
  have b: "transactional (burn_from bc who n p q f) s = Inr s' \<Longrightarrow>
      bal_inv bc c s' \<and> TotalIssuance s' \<le> TotalIssuance s" for n p q f
    using burn_from_Inr(3,4) [OF inv] by (fastforce simp: transactional_def split: prod.splits sum.splits)
  show ?thesis
  proof (cases call)
    case (BurnCall amount keep_alive)
    then show ?thesis using run b by (simp add: bal_dispatch_def)
  qed (use run t in \<open>auto simp: bal_dispatch_def Let_def split: if_splits\<close>)
qed

section \<open>Genesis\<close>

lemma endow_Some:
  assumes "endow who amount s = Some s'" "bal_wf bc s" "ExistentialDeposit bc \<le> amount"
  shows "bal_wf bc s'" "held s' = held s + amount" "TotalIssuance s' = TotalIssuance s"
proof -
  have ed: "0 < ExistentialDeposit bc" using assms(2) by (simp add: bal_wf_def)
  have none: "acct s who = default_info" using assms(1) by (cases "Account s who") (auto simp: endow_def acct_None split: if_splits)
  have s': "s' = set_acct who (default_info\<lparr>providers := 1, data := default_data\<lparr>free := amount\<rparr>\<rparr>)
      (set_acct who (default_info\<lparr>providers := 1\<rparr>) (emit (NewAccount who) s))"
    using assms(1) none
    by (auto simp: endow_def inc_providers_def try_mutate_exists_def store_back_def op_then_def op_bind_def split: if_splits)
  have only: "only_acct who s s'" by (simp add: s')
  have "account_ok bc (acct s' who)"
    using ed assms(3) is_new_logic_flags [of "default_data\<lparr>free := amount\<rparr>" default_data]
    by (auto simp: s' account_ok_def does_consume_def)
  then show "bal_wf bc s'" using bal_wf_only_acct [OF assms(2) only] by simp
  show "held s' = held s + amount"
    using held_only_acct [OF only] assms(2) by (simp add: bal_wf_def none) (simp add: s' funds_def)
  show "TotalIssuance s' = TotalIssuance s" by (simp add: s')
qed

lemma endow_all_Some:
  "endow_all l s = Some s' \<Longrightarrow> bal_wf bc s \<Longrightarrow> \<forall>(_, n) \<in> set l. ExistentialDeposit bc \<le> n \<Longrightarrow>
   bal_wf bc s' \<and> held s' = held s + sum_list (map snd l) \<and> TotalIssuance s' = TotalIssuance s"
proof (induction l s rule: endow_all.induct)
  case (2 who amount rest s)
  then obtain s1 where e: "endow who amount s = Some s1" and r: "endow_all rest s1 = Some s'"
    by (auto split: option.splits)
  have ed: "ExistentialDeposit bc \<le> amount" using "2.prems"(3) by simp
  show ?case using "2.IH" [OF e r] endow_Some [OF e "2.prems"(2) ed] "2.prems"(3) by simp
qed simp

lemma genesis_total_exact:
  "sum_list (map snd l) < 2 ^ 128 \<Longrightarrow> genesis_total l = sum_list (map snd l)"
proof -
  have "k + sum_list (map snd l) < 2 ^ 128 \<Longrightarrow> foldl (\<lambda>acc (_, n). (acc + n) mod 2 ^ 128) k l = k + sum_list (map snd l)" for k
    by (induction l arbitrary: k) (auto simp: add.assoc)
  then show "sum_list (map snd l) < 2 ^ 128 \<Longrightarrow> ?thesis" by (simp add: genesis_total_def)
qed

lemma genesis_inv:
  assumes "bal_genesis bc l = Some s" "0 < ExistentialDeposit bc" "sum_list (map snd l) < 2 ^ 128"
  shows "bal_inv bc 0 s" "TotalIssuance s = sum_list (map snd l)"
proof -
  let ?s0 = "set_total_issuance (genesis_total l) empty_balances :: 'a bal_state"
  have ed: "\<forall>(_, n) \<in> set l. ExistentialDeposit bc \<le> n" and run: "endow_all l ?s0 = Some s"
    using assms(1) by (auto simp: bal_genesis_def split: if_splits)
  have acct0: "acct ?s0 who = default_info" for who by (simp add: acct_def set_total_issuance_def empty_balances_def)
  have "bal_wf bc ?s0" unfolding bal_wf_def acct0
    using assms(2) account_ok_default by (auto simp: set_total_issuance_def empty_balances_def)
  moreover have "held ?s0 = 0" by (simp add: held_def set_total_issuance_def empty_balances_def)
  ultimately show "bal_inv bc 0 s" "TotalIssuance s = sum_list (map snd l)"
    using endow_all_Some [OF run _ ed] genesis_total_exact [OF assms(3)] assms(3) by (simp_all add: bal_inv_def)
qed

section \<open>The currency of the pool\<close>

interpretation account_currency: burnable_currency "account_burn bc" TotalIssuance "bal_inv bc c"
  for bc :: bal_config and c :: nat
proof
  fix b b' :: "'acc bal_state" and who :: 'acc and amount :: nat
  assume inv: "bal_inv bc c b" and run: "account_burn bc b who amount = Inr b'"
  obtain got where burn: "burn_from bc who amount Expendable Exact Polite b = (Inr got, b')"
    using run by (auto simp: account_burn_def transactional_def split: prod.splits sum.splits)
  note e = burn_from_Inr [OF inv burn]
  show "bal_inv bc c b'" by (rule e(3))
  show "TotalIssuance b' + amount \<le> TotalIssuance b" using e(2,4) by simp
qed

section \<open>Every history\<close>

text \<open>One operation on the balances that succeeded.\<close>

inductive bal_step :: "bal_config \<Rightarrow> 'acc bal_state \<Rightarrow> 'acc bal_state \<Rightarrow> bool" for bc where
  bal_call: "bal_dispatch bc signer call s = Inr s' \<Longrightarrow> bal_step bc s s'"
| bal_mint: "mint_into bc who amount s = (Inr got, s') \<Longrightarrow> bal_step bc s s'"
| bal_burn: "burn_from bc who amount p precision f s = (Inr got, s') \<Longrightarrow> bal_step bc s s'"
| bal_reserve: "reserve bc who amount s = (Inr u, s') \<Longrightarrow> bal_step bc s s'"
| bal_unreserve: "unreserve bc who amount s = (r, s') \<Longrightarrow> bal_step bc s s'"
| bal_withdraw_drop: "withdraw bc who amount precision p f s = (Inr credit, s') \<Longrightarrow> bal_step bc s (drop_credit credit s')"

inductive bal_reachable :: "bal_config \<Rightarrow> ('acc \<times> nat) list \<Rightarrow> 'acc bal_state \<Rightarrow> bool" for bc endowments where
  bal_start: "bal_genesis bc endowments = Some s \<Longrightarrow> bal_reachable bc endowments s"
| bal_next: "bal_reachable bc endowments s \<Longrightarrow> bal_step bc s s' \<Longrightarrow> bal_reachable bc endowments s'"

lemma bal_step_inv: "bal_step bc s s' \<Longrightarrow> bal_inv bc 0 s \<Longrightarrow> bal_inv bc 0 s'"
proof (induction rule: bal_step.induct)
  case (bal_call signer call s s')
  then show ?case using dispatch_inv by blast
next
  case (bal_mint who amount s got s')
  show ?case by (rule mint_into_Inr(2) [OF bal_mint(2,1)])
next
  case (bal_burn who amount p precision f s got s')
  show ?case by (rule burn_from_Inr(3) [OF bal_burn(2,1)])
next
  case (bal_reserve who amount s u s')
  show ?case by (rule reserve_Inr [OF bal_reserve(2,1)])
next
  case (bal_unreserve who amount s r s')
  then show ?case using unreserve_inv(1) [of bc 0 s who amount] by simp
next
  case (bal_withdraw_drop who amount precision p f s credit s')
  show ?case by (rule drop_credit_inv) (rule withdraw_Inr(3) [OF bal_withdraw_drop(2,1)])
qed

lemma bal_reachable_inv:
  assumes "bal_reachable bc endowments s" "0 < ExistentialDeposit bc" "sum_list (map snd endowments) < 2 ^ 128"
  shows "bal_inv bc 0 s"
  using assms(1)
proof induction
  case (bal_start s)
  then show ?case using genesis_inv(1) assms(2,3) by blast
next
  case (bal_next s s')
  then show ?case using bal_step_inv by blast
qed

section \<open>Properties\<close>

definition sample_accounts :: bal_config where
  "sample_accounts = \<lparr>ExistentialDeposit = 10, MaxConsumers = 16\<rparr>"

definition sample_account :: "nat \<Rightarrow> AccountInfo" where
  "sample_account amount =
     \<lparr>nonce = 0, consumers = 0, providers = 1, sufficients = 0,
      data = \<lparr>free = amount, reserved = 0, frozen = 0, flags = IS_NEW_LOGIC\<rparr>\<rparr>"

definition sample_funds :: "nat bal_state" where
  "sample_funds =
     \<lparr>Account = [1 \<mapsto> sample_account 100, 2 \<mapsto> sample_account 50], TotalIssuance = 150, InactiveIssuance = 0,
      bal_events = [NewAccount 1, NewAccount 2]\<rparr>"

lemma is_new_logic_flag [simp]: "is_new_logic \<lparr>free = a, reserved = b, frozen = c, flags = IS_NEW_LOGIC\<rparr>"
  by (simp add: is_new_logic_def IS_NEW_LOGIC_def)

lemmas evaluate_genesis = bal_genesis_def endow_def inc_providers_def try_mutate_exists_def store_back_def op_then_def
  op_bind_def genesis_total_def set_total_issuance_def empty_balances_def set_acct_def emit_def acct_def
  default_info_def default_data_def

lemma sample_genesis: "bal_genesis sample_accounts [(1, 100), (2, 50)] = Some sample_funds"
  by (simp add: evaluate_genesis sample_accounts_def sample_funds_def sample_account_def fun_upd_def fun_eq_iff)

lemmas evaluate_balances = bal_dispatch_def transactional_def transfer_def reserve_def can_withdraw_def can_deposit_def
  decrease_balance_def increase_balance_def write_and_drop_dust_def write_balance_def reducible_balance_def
  try_mutate_account_handling_dust_def try_mutate_account_run mutation_events_def lost_dust_def update_references_def
  can_dec_provider_def inc_consumers_def dec_consumers_def dec_providers_def inc_providers_def does_consume_def
  store_back_def handle_dust_def handle_raw_dust_def drop_credit_def op_then_def op_bind_def op_when_def Let_def
  set_acct_def remove_acct_def emit_def acct_def sample_funds_def sample_account_def sample_accounts_def
  default_data_def default_info_def sat_add_def checked_add_def checked_sub_def

lemma sample_funds_inv: "bal_inv sample_accounts 0 sample_funds"
  by (rule genesis_inv(1) [OF sample_genesis]) (simp_all add: sample_accounts_def)

text \<open>
  C18: Issuance is what the accounts hold. In every state reached from genesis by calls, mints, burns,
  reserves, unreserves and withdrawals whose credit is dropped, the total issuance is the sum of the free
  and reserved balances of all accounts and fits a \<open>u128\<close>; a free balance of at least the existential
  deposit holds a provider reference, one below it is zero unless something is reserved, and a reserve or
  freeze holds a consumer reference.
\<close>

theorem issuance_is_sum:
  assumes "bal_reachable bc endowments s" "0 < ExistentialDeposit bc" "sum_list (map snd endowments) < 2 ^ 128"
  shows "TotalIssuance s = (\<Sum>who \<in> dom (Account s). free (data (acct s who)) + reserved (data (acct s who)))
    \<and> TotalIssuance s < 2 ^ 128 \<and> (\<forall>who. account_ok bc (acct s who))"
proof -
  have inv: "bal_inv bc 0 s" by (rule bal_reachable_inv [OF assms])
  have "TotalIssuance s = held s" "TotalIssuance s < 2 ^ 128" "\<forall>who. account_ok bc (acct s who)"
    using inv by (simp_all add: bal_inv_def bal_wf_def)
  then show ?thesis by (simp add: held_def funds_def)
qed

theorem issuance_is_sum_witness:
  "TotalIssuance (snd (reserve sample_accounts 1 30 sample_funds)) = 150
   \<and> (\<Sum>who \<in> dom (Account (snd (reserve sample_accounts 1 30 sample_funds))).
        free (data (acct (snd (reserve sample_accounts 1 30 sample_funds)) who))
        + reserved (data (acct (snd (reserve sample_accounts 1 30 sample_funds)) who))) = 150"
proof -
  let ?s = "snd (reserve sample_accounts 1 30 sample_funds)"
  have "fst (reserve sample_accounts 1 30 sample_funds) = Inr ()" by (simp add: evaluate_balances)
  then have r: "reserve sample_accounts 1 30 sample_funds = (Inr (), ?s)" by (simp add: prod_eq_iff)
  have "bal_reachable sample_accounts [(1, 100), (2, 50)] ?s"
    by (rule bal_next [OF bal_start [OF sample_genesis] bal_reserve [OF r]])
  from issuance_is_sum [OF this] have "TotalIssuance ?s =
      (\<Sum>who \<in> dom (Account ?s). free (data (acct ?s who)) + reserved (data (acct ?s who)))"
    by (simp add: sample_accounts_def)
  moreover have "TotalIssuance ?s = 150" by (simp add: evaluate_balances)
  ultimately show ?thesis by simp
qed

text \<open>
  C19: A transfer moves the amount and nothing else. When a transfer call between two different accounts
  succeeds, the recipient's free balance grows by the amount, the sender's shrinks by it, a sender left
  below the existential deposit with nothing reserved is emptied and that dust, and only it, leaves the
  total issuance; reserves, freezes and every other account are unchanged.
\<close>

theorem transfer_exact:
  assumes inv: "bal_inv bc 0 s" and ne: "source \<noteq> dest"
    and run: "bal_dispatch bc (Some source) (TransferAllowDeath dest amount) s = Inr s'
      \<or> bal_dispatch bc (Some source) (TransferKeepAlive dest amount) s = Inr s'"
  shows "\<exists>left. free (data (acct s source)) = left + amount
    \<and> data (acct s' dest) = (data (acct s dest))\<lparr>free := free (data (acct s dest)) + amount\<rparr>
    \<and> (if left < ExistentialDeposit bc \<and> reserved (data (acct s source)) = 0
       then data (acct s' source) = default_data \<and> TotalIssuance s' + left = TotalIssuance s
       else data (acct s' source) = (data (acct s source))\<lparr>free := left\<rparr> \<and> TotalIssuance s' = TotalIssuance s)
    \<and> (\<forall>w. w \<noteq> source \<longrightarrow> w \<noteq> dest \<longrightarrow> acct s' w = acct s w)"
proof -
  obtain p got where p: "p \<noteq> Protect" and t: "transfer bc source dest amount p s = (Inr got, s')"
    using run by (auto simp: bal_dispatch_def transactional_def split: prod.splits sum.splits)
  note e = transfer_Inr [OF inv p t]
  let ?left = "free (data (acct s source)) - amount"
  have dust: "dust_of bc ((data (acct s source))\<lparr>free := ?left\<rparr>) =
      (if ?left < ExistentialDeposit bc \<and> reserved (data (acct s source)) = 0 then ?left else 0)"
    by (simp add: dust_of_def lost_dust_def)
  have "free (data (acct s source)) \<le> TotalIssuance s"
    using funds_le_held [of s source] inv unfolding bal_inv_def bal_wf_def funds_def by linarith
  then show ?thesis
    using e(3) [OF ne] e(5) e(7) [OF ne] dust by (intro exI [of _ ?left]) (simp add: kept_data_def)
qed

theorem transfer_exact_witness:
  "\<exists>s'. bal_dispatch sample_accounts (Some 2) (TransferAllowDeath 1 45) sample_funds = Inr s'
     \<and> free (data (acct s' 1)) = 145 \<and> data (acct s' 2) = default_data \<and> TotalIssuance s' = 145"
proof -
  let ?r = "bal_dispatch sample_accounts (Some 2) (TransferAllowDeath 1 45) sample_funds"
  have ok: "is_ok ?r" by (simp add: evaluate_balances)
  then obtain s' where s': "?r = Inr s'" by (auto simp: is_ok_iff)
  have f: "free (data (acct sample_funds 2)) = 50" "free (data (acct sample_funds 1)) = 100"
    "reserved (data (acct sample_funds 2)) = 0" "TotalIssuance sample_funds = 150"
    by (simp_all add: sample_funds_def acct_def sample_account_def)
  have "(2::nat) \<noteq> 1" by simp
  from transfer_exact [OF sample_funds_inv this disjI1 [OF s']] f s' show ?thesis
    by (auto simp: sample_accounts_def)
qed

end
