(* ===== verification/MiningRewards.thy ===== *)
theory MiningRewards
  imports Interfaces ZkTree
begin

text \<open>
  The mining rewards pallet, \<open>chain/pallets/mining-rewards/src/lib.rs\<close>: fees are collected
  during a block; at its end the block reward is computed from the supply still unminted, and reward
  and fees together are handed, rounded down to the pool quantum, to the coinbase sink. What the sink
  does not take, the remainder of the rounding, and the whole credit of a block without an author stay
  in \<open>CollectedFees\<close>.

  The sink, the issuance and the shielded supply are the pallet's \<open>Config\<close> types; they are
  arguments over a state \<open>'w\<close> of the other pallets.
\<close>

section \<open>State\<close>

datatype rewards_event =
    CoinbaseCredited nat | FeesCollected nat nat | PayoutDeferred nat | CoinbaseRejected nat

record rewards =
  CollectedFees :: nat
  rewards_events :: "rewards_event list"

record 'w rewards_config =
  rw_deposit_coinbase :: "'w \<Rightarrow> nat \<Rightarrow> 'w \<times> (nat, unit) result"
  rw_shielded_supply :: "'w \<Rightarrow> nat"
  rw_total_issuance :: "'w \<Rightarrow> nat"
  rw_has_author :: "'w \<Rightarrow> bool"
  MaxSupply :: nat
  EmissionDivisor :: nat

definition emit_reward :: "rewards_event \<Rightarrow> rewards \<Rightarrow> rewards" where
  "emit_reward e r = r\<lparr>rewards_events := rewards_events r @ [e]\<rparr>"

section \<open>Operations\<close>

definition collect_transaction_fees :: "nat \<Rightarrow> rewards \<Rightarrow> rewards" where
  "collect_transaction_fees fees r =
     (let r' = r\<lparr>CollectedFees := sat_add 128 (CollectedFees r) fees\<rparr>
      in emit_reward (FeesCollected fees (CollectedFees r')) r')"

definition leaf_quantum :: nat where
  "leaf_quantum = AMOUNT_SCALE_DOWN_FACTOR"

definition quantize :: "nat \<Rightarrow> nat \<times> nat" where
  "quantize amount = (let remainder = amount mod leaf_quantum in (amount - remainder, remainder))"

definition retain_unminted :: "nat \<Rightarrow> rewards \<Rightarrow> rewards" where
  "retain_unminted reward r = r\<lparr>CollectedFees := sat_add 128 (CollectedFees r) reward\<rparr>"

definition pay_coinbase :: "'w rewards_config \<Rightarrow> nat \<Rightarrow> rewards \<times> 'w \<Rightarrow> rewards \<times> 'w" where
  "pay_coinbase rc amount = (\<lambda>(r, w).
     case rw_deposit_coinbase rc w amount of
       (w', Inr _) \<Rightarrow> (emit_reward (CoinbaseCredited amount) r, w')
     | (w', Inl returned) \<Rightarrow>
         if returned = 0 then (r, w')
         else (emit_reward (CoinbaseRejected returned) (retain_unminted returned r), w'))"

text \<open>\<open>checked_div\<close> of the remaining supply; a zero divisor pays nothing.\<close>

definition block_reward :: "'w rewards_config \<Rightarrow> 'w \<Rightarrow> nat \<Rightarrow> nat" where
  "block_reward rc w tx_fees =
     (let current_supply = sat_add 128 (sat_add 128 (rw_total_issuance rc w) tx_fees) (rw_shielded_supply rc w);
          remaining_supply = MaxSupply rc - current_supply
      in if EmissionDivisor rc = 0 then 0 else remaining_supply div EmissionDivisor rc)"

definition rewards_on_finalize :: "'w rewards_config \<Rightarrow> rewards \<times> 'w \<Rightarrow> rewards \<times> 'w" where
  "rewards_on_finalize rc = (\<lambda>(r0, w).
     let tx_fees = CollectedFees r0;
         r = r0\<lparr>CollectedFees := 0\<rparr>;
         total_reward = block_reward rc w tx_fees;
         miner_gross = sat_add 128 tx_fees total_reward
     in if \<not> rw_has_author rc w
        then let r' = retain_unminted miner_gross r
             in (if miner_gross = 0 then r' else emit_reward (PayoutDeferred miner_gross) r', w)
        else
          let (quantized, dust) = quantize miner_gross;
              (r', w') = pay_coinbase rc quantized (r, w)
          in (retain_unminted dust r', w'))"

section \<open>Lemmas\<close>

lemma CollectedFees_emit [simp]: "CollectedFees (emit_reward e r) = CollectedFees r"
  by (simp add: emit_reward_def)

lemma CollectedFees_retain: "CollectedFees (retain_unminted x r) = sat_add 128 (CollectedFees r) x"
  by (simp add: retain_unminted_def)

lemma leaf_quantum_pos [simp]: "0 < leaf_quantum"
  by (simp add: leaf_quantum_def AMOUNT_SCALE_DOWN_FACTOR_def)

lemma quantize_spec:
  "quantize amount = (q, d) \<Longrightarrow> q + d = amount \<and> d < leaf_quantum \<and> q mod leaf_quantum = 0"
  by (auto simp: quantize_def Let_def minus_mod_eq_mult_div)

text \<open>The reward never takes the supply beyond the maximum.\<close>

lemma block_reward_bound:
  assumes "rw_total_issuance rc w + fees + rw_shielded_supply rc w < 2 ^ 128"
  shows "block_reward rc w fees \<le> MaxSupply rc - (rw_total_issuance rc w + fees + rw_shielded_supply rc w)"
proof -
  have "sat_add 128 (sat_add 128 (rw_total_issuance rc w) fees) (rw_shielded_supply rc w)
      = rw_total_issuance rc w + fees + rw_shielded_supply rc w"
    using assms by (simp add: sat_add_exact)
  then show ?thesis by (simp add: block_reward_def Let_def)
qed

text \<open>The whole supply: what is issued to accounts, what stands behind the sink, and what waits to be paid.\<close>

definition whole_supply :: "'w rewards_config \<Rightarrow> rewards \<times> 'w \<Rightarrow> nat" where
  "whole_supply rc s = rw_total_issuance rc (snd s) + CollectedFees (fst s) + rw_shielded_supply rc (snd s)"

text \<open>
  A payer over a coinbase sink that leaves the transparent issuance alone.
\<close>

locale reward_payer = coinbase_sink deposit sink_supply sinv
  for deposit :: "'w \<Rightarrow> nat \<Rightarrow> 'w \<times> (nat, unit) result" and sink_supply :: "'w \<Rightarrow> nat" and sinv :: "'w \<Rightarrow> bool" +
  fixes rc :: "'w rewards_config"
  assumes rc_deposit: "rw_deposit_coinbase rc = deposit"
    and rc_supply: "rw_shielded_supply rc = sink_supply"
    and rc_max: "MaxSupply rc < 2 ^ 128"
    and rc_issuance: "rw_total_issuance rc (fst (deposit w amount)) = rw_total_issuance rc w"
begin

lemma pay_coinbase_supply:
  assumes inv: "sinv w" and room: "whole_supply rc (r, w) + amount < 2 ^ 128" and run: "pay_coinbase rc amount (r, w) = (r', w')"
  shows "sinv w' \<and> whole_supply rc (r', w') = whole_supply rc (r, w) + amount \<and> rw_total_issuance rc w' = rw_total_issuance rc w"
proof -
  obtain w1 res where d: "deposit w amount = (w1, res)" by (cases "deposit w amount") blast
  have small: "sink_supply w + amount < 2 ^ 128" using room by (simp add: whole_supply_def rc_supply)
  have w1: "w' = w1" using run d by (auto simp: pay_coinbase_def rc_deposit split: sum.splits if_splits)
  have kept: "sinv w'" "rw_total_issuance rc w' = rw_total_issuance rc w"
    using deposit_inv [OF inv small] rc_issuance [of w amount] d w1 by simp_all
  show ?thesis
  proof (cases res)
    case (Inr u)
    then have "CollectedFees r' = CollectedFees r" using run d by (auto simp: pay_coinbase_def rc_deposit)
    then show ?thesis using kept deposit_taken [OF inv small, of w1] d Inr w1 by (simp add: whole_supply_def rc_supply)
  next
    case (Inl ret)
    then have ret: "ret = amount" "sink_supply w' = sink_supply w" using deposit_refused [OF inv, of amount w1 ret] d w1 by simp_all
    have "CollectedFees r + amount < 2 ^ 128" using room by (simp add: whole_supply_def rc_supply)
    then have "CollectedFees r' = CollectedFees r + amount"
      using run d Inl ret(1)
      by (auto simp: pay_coinbase_def rc_deposit CollectedFees_retain sat_add_exact split: if_splits)
    then show ?thesis using kept ret(2) by (simp add: whole_supply_def rc_supply)
  qed
qed

lemma on_finalize_supply:
  assumes inv: "sinv w" and cap: "whole_supply rc (r, w) \<le> MaxSupply rc" and run: "rewards_on_finalize rc (r, w) = (r', w')"
  shows "sinv w' \<and> whole_supply rc (r', w') = whole_supply rc (r, w) + block_reward rc w (CollectedFees r)
    \<and> whole_supply rc (r', w') \<le> MaxSupply rc \<and> rw_total_issuance rc w' = rw_total_issuance rc w"
proof -
  let ?fees = "CollectedFees r" and ?r0 = "r\<lparr>CollectedFees := 0\<rparr>"
  let ?reward = "block_reward rc w ?fees"
  have small: "whole_supply rc (r, w) < 2 ^ 128" using cap rc_max by linarith
  then have reward: "whole_supply rc (r, w) + ?reward \<le> MaxSupply rc"
    using block_reward_bound [of rc w ?fees] cap by (simp add: whole_supply_def rc_supply)
  then have gross: "sat_add 128 ?fees ?reward = ?fees + ?reward"
    using rc_max by (intro sat_add_exact) (simp add: whole_supply_def rc_supply)
  have base: "whole_supply rc (?r0, w) + ?fees = whole_supply rc (r, w)" by (simp add: whole_supply_def rc_supply)
  show ?thesis
  proof (cases "rw_has_author rc w")
    case False
    have "CollectedFees r' = ?fees + ?reward" "w' = w"
      using run False gross reward rc_max
      by (auto simp: rewards_on_finalize_def Let_def CollectedFees_retain whole_supply_def sat_add_def)
    then show ?thesis using inv reward by (simp add: whole_supply_def rc_supply)
  next
    case True
    obtain q d where qd: "quantize (?fees + ?reward) = (q, d)" by (cases "quantize (?fees + ?reward)") blast
    obtain r1 where pay: "pay_coinbase rc q (?r0, w) = (r1, w')" and r': "r' = retain_unminted d r1"
      using run True qd gross by (auto simp: rewards_on_finalize_def Let_def split: prod.splits)
    note spec = quantize_spec [OF qd]
    have "whole_supply rc (?r0, w) + q < 2 ^ 128" using base spec reward rc_max by linarith
    note paid = pay_coinbase_supply [OF inv this pay]
    then have "CollectedFees r1 + d < 2 ^ 128" using base spec reward rc_max by (simp add: whole_supply_def rc_supply)
    then have "whole_supply rc (r', w') = whole_supply rc (r1, w') + d" by (simp add: whole_supply_def r' CollectedFees_retain sat_add_exact)
    then show ?thesis using paid base spec reward by simp
  qed
qed

end

lemma rewards_world:
  "snd (rewards_on_finalize rc (r, w)) = w \<or> (\<exists>q. snd (rewards_on_finalize rc (r, w)) = fst (rw_deposit_coinbase rc w q))"
proof (cases "rw_has_author rc w")
  case True
  have "snd (pay_coinbase rc q (r', w)) = fst (rw_deposit_coinbase rc w q)" for q r'
    by (auto simp: pay_coinbase_def split: prod.splits sum.splits)
  with True show ?thesis
    by (auto simp: rewards_on_finalize_def Let_def split: prod.splits) (metis snd_conv)
qed (simp add: rewards_on_finalize_def Let_def)

section \<open>Properties\<close>

text \<open>The hook over a run of blocks with the states the other pallets have at the end of each, and the rewards it computed.\<close>

fun finalize_blocks :: "'w rewards_config \<Rightarrow> rewards \<Rightarrow> 'w list \<Rightarrow> rewards \<times> nat" where
  "finalize_blocks rc r [] = (r, 0)"
| "finalize_blocks rc r (w # ws) =
     (let (r', rest) = finalize_blocks rc (fst (rewards_on_finalize rc (r, w))) ws
      in (r', block_reward rc w (CollectedFees r) + rest))"

lemma authorless_block:
  assumes "\<not> rw_has_author rc w" "CollectedFees r + block_reward rc w (CollectedFees r) < 2 ^ 128"
  shows "CollectedFees (fst (rewards_on_finalize rc (r, w))) = CollectedFees r + block_reward rc w (CollectedFees r)"
  using assms by (auto simp: rewards_on_finalize_def Let_def CollectedFees_retain sat_add_exact)

lemma authorless_blocks:
  assumes "\<forall>w \<in> set ws. \<not> rw_has_author rc w" "finalize_blocks rc r ws = (r', accrued)" "CollectedFees r + accrued < 2 ^ 128"
  shows "CollectedFees r' = CollectedFees r + accrued"
  using assms
proof (induction ws arbitrary: r accrued)
  case (Cons w ws)
  let ?reward = "block_reward rc w (CollectedFees r)" and ?r1 = "fst (rewards_on_finalize rc (r, w))"
  obtain rest where rest: "finalize_blocks rc ?r1 ws = (r', rest)" "accrued = ?reward + rest"
    using Cons.prems(2) by (auto split: prod.splits)
  have "CollectedFees ?r1 = CollectedFees r + ?reward"
    using authorless_block [of rc w r] Cons.prems(1,3) rest(2) by simp
  then show ?case using Cons.IH [OF _ rest(1)] Cons.prems(1,3) rest(2) by simp
qed simp

text \<open>
  C21: A deferred reward is paid by the next block that can pay it. After any run of blocks without an
  author, the next block with an author hands the sink every fee and reward of the run and its own,
  rounded down to the pool quantum, in one deposit; when the sink takes it, only the remainder, less
  than one quantum, is left waiting, and when it returns it, the whole amount is.
\<close>

theorem deferred_reward_paid:
  assumes "\<forall>w \<in> set ws. \<not> rw_has_author rc w" and "finalize_blocks rc r ws = (r1, deferred)"
    and "rw_has_author rc w"
    and due: "due = CollectedFees r + deferred + block_reward rc w (CollectedFees r1)" "due < 2 ^ 128"
  shows "snd (rewards_on_finalize rc (r1, w)) = fst (rw_deposit_coinbase rc w (due - due mod leaf_quantum))
    \<and> (snd (rw_deposit_coinbase rc w (due - due mod leaf_quantum)) = Inr () \<longrightarrow>
         CollectedFees (fst (rewards_on_finalize rc (r1, w))) = due mod leaf_quantum)
    \<and> (snd (rw_deposit_coinbase rc w (due - due mod leaf_quantum)) = Inl (due - due mod leaf_quantum) \<longrightarrow>
         CollectedFees (fst (rewards_on_finalize rc (r1, w))) = due)"
proof -
  let ?q = "due - due mod leaf_quantum"
  have "CollectedFees r1 = CollectedFees r + deferred" using authorless_blocks [OF assms(1,2)] due by simp
  then have gross: "sat_add 128 (CollectedFees r1) (block_reward rc w (CollectedFees r1)) = due"
    using due by (simp add: sat_add_exact)
  have le: "due mod leaf_quantum \<le> due" by simp
  obtain w' res where d: "rw_deposit_coinbase rc w ?q = (w', res)" by (cases "rw_deposit_coinbase rc w ?q") blast
  have "sat_add 128 0 (due mod leaf_quantum) = 0 + due mod leaf_quantum" "sat_add 128 0 ?q = 0 + ?q"
    "sat_add 128 ?q (due mod leaf_quantum) = ?q + due mod leaf_quantum"
    using le due(2) by (intro sat_add_exact, linarith)+
  then have sums: "sat_add 128 0 (due mod leaf_quantum) = due mod leaf_quantum" "sat_add 128 0 ?q = ?q"
    "sat_add 128 ?q (due mod leaf_quantum) = due"
    using le by simp_all
  show ?thesis
    using assms(3) le d
    by (cases res) (auto simp: rewards_on_finalize_def Let_def gross quantize_def pay_coinbase_def CollectedFees_retain sums intro: le_antisym)
qed

definition sample_rewards :: "bool rewards_config" where
  "sample_rewards =
     \<lparr>rw_deposit_coinbase = (\<lambda>w amount. (w, Inr ())), rw_shielded_supply = (\<lambda>_. 0), rw_total_issuance = (\<lambda>_. 0),
      rw_has_author = (\<lambda>w. w), MaxSupply = 1000 * leaf_quantum, EmissionDivisor = 1000\<rparr>"

theorem deferred_reward_paid_witness:
  "CollectedFees (fst (rewards_on_finalize sample_rewards
     (fst (finalize_blocks sample_rewards \<lparr>CollectedFees = 3, rewards_events = []\<rparr> [False]), True))) = 9990000001"
proof -
  let ?r = "\<lparr>CollectedFees = 3, rewards_events = []\<rparr>"
  have f: "finalize_blocks sample_rewards ?r [False] = (fst (finalize_blocks sample_rewards ?r [False]), 9999999999)"
    by (simp add: sample_rewards_def leaf_quantum_def AMOUNT_SCALE_DOWN_FACTOR_def block_reward_def sat_add_def Let_def split: prod.splits)
  have c: "CollectedFees (fst (finalize_blocks sample_rewards ?r [False])) = 10000000002"
    using authorless_blocks [OF _ f] by (simp add: sample_rewards_def)
  have b: "block_reward sample_rewards True 10000000002 = 9989999999"
    by (simp add: sample_rewards_def leaf_quantum_def AMOUNT_SCALE_DOWN_FACTOR_def block_reward_def sat_add_def Let_def)
  have "CollectedFees (fst (rewards_on_finalize sample_rewards (fst (finalize_blocks sample_rewards ?r [False]), True)))
      = 19990000001 mod leaf_quantum"
    using deferred_reward_paid [OF _ f, of True 19990000001] c b by (simp add: sample_rewards_def)
  then show ?thesis by (simp add: leaf_quantum_def AMOUNT_SCALE_DOWN_FACTOR_def)
qed

end
