(* ===== verification/TransactionPayment.thy ===== *)
theory TransactionPayment
  imports BalancesFlow MiningRewards
begin

text \<open>
  Transaction fees, \<open>chain/pallets/transaction-payment/src/lib.rs\<close> and \<open>payment.rs\<close> with the
  runtime's \<open>HighSecurityFungibleAdapter\<close> (\<open>chain/runtime/src/transaction_extensions.rs\<close>) and
  the fee collector of the mining rewards: the fee of a call, its withdrawal before the call, the credit
  that is held while it runs, and the refund and collection after it.

  The conversions of weight and length to a fee and the multiplier are arguments; a credit in flight is
  its amount. The lemmas show that charging a fee moves value from the accounts to
  \<open>CollectedFees\<close> and creates or loses none on the way.
\<close>

section \<open>The fee of a call\<close>

datatype Pays = PaysYes | PaysNo

datatype DispatchClass = NormalClass | OperationalClass | MandatoryClass

record 'weight fee_config =
  WeightToFee :: "'weight \<Rightarrow> nat"
  LengthToFee :: "nat \<Rightarrow> nat"
  saturating_mul_int :: "nat \<Rightarrow> nat"
  weight_min :: "'weight \<Rightarrow> 'weight \<Rightarrow> 'weight"
  max_block :: 'weight
  base_extrinsic :: "DispatchClass \<Rightarrow> 'weight"

record InclusionFee =
  base_fee :: nat
  len_fee :: nat
  adjusted_weight_fee :: nat

record FeeDetails =
  inclusion_fee :: "InclusionFee option"
  fd_tip :: nat

definition inclusion_fee_total :: "InclusionFee \<Rightarrow> nat" where
  "inclusion_fee_total i = sat_add 128 (sat_add 128 (base_fee i) (len_fee i)) (adjusted_weight_fee i)"

definition final_fee :: "FeeDetails \<Rightarrow> nat" where
  "final_fee d = sat_add 128 (case inclusion_fee d of None \<Rightarrow> 0 | Some i \<Rightarrow> inclusion_fee_total i) (fd_tip d)"

definition weight_to_fee :: "'weight fee_config \<Rightarrow> 'weight \<Rightarrow> nat" where
  "weight_to_fee fc weight = WeightToFee fc (weight_min fc weight (max_block fc))"

definition compute_fee_raw :: "'weight fee_config \<Rightarrow> nat \<Rightarrow> 'weight \<Rightarrow> nat \<Rightarrow> Pays \<Rightarrow> DispatchClass \<Rightarrow> FeeDetails" where
  "compute_fee_raw fc len weight tip pays_fee class =
     (if pays_fee = PaysYes
      then \<lparr>inclusion_fee = Some \<lparr>base_fee = weight_to_fee fc (base_extrinsic fc class), len_fee = LengthToFee fc len,
              adjusted_weight_fee = saturating_mul_int fc (weight_to_fee fc weight)\<rparr>, fd_tip = tip\<rparr>
      else \<lparr>inclusion_fee = None, fd_tip = tip\<rparr>)"

section \<open>State\<close>

record 'acc fee_store =
  fs_balances :: "'acc bal_state"
  TxPaymentCredit :: "nat option"
  fs_rewards :: rewards

datatype validity_error = InvalidPayment | HighSecurityTipForbidden

type_synonym ('acc, 'a) fee_op = "('acc fee_store, validity_error, 'a) op"

definition deposit_txfee :: "nat \<Rightarrow> 'acc fee_store \<Rightarrow> 'acc fee_store" where
  "deposit_txfee amount fs =
     fs\<lparr>TxPaymentCredit := Some (case TxPaymentCredit fs of Some c \<Rightarrow> sat_add 128 c amount | None \<Rightarrow> amount)\<rparr>"

definition withdraw_txfee :: "nat \<Rightarrow> 'acc fee_store \<Rightarrow> nat option \<times> 'acc fee_store" where
  "withdraw_txfee amount fs =
     (case TxPaymentCredit fs of
        None \<Rightarrow> (None, fs)
      | Some c \<Rightarrow> if c < amount then (None, fs) else (Some amount, fs\<lparr>TxPaymentCredit := Some (c - amount)\<rparr>))"

definition remaining_txfee :: "'acc fee_store \<Rightarrow> nat" where
  "remaining_txfee fs = (case TxPaymentCredit fs of None \<Rightarrow> 0 | Some c \<Rightarrow> c)"

text \<open>\<open>Imbalance::split\<close>.\<close>

definition credit_split :: "nat \<Rightarrow> nat \<Rightarrow> nat \<times> nat" where
  "credit_split credit amount = (let first = min credit amount in (first, credit - first))"

section \<open>Charging\<close>

definition fungible_withdraw_fee :: "bal_config \<Rightarrow> 'acc \<Rightarrow> nat \<Rightarrow> nat \<Rightarrow> ('acc, nat option) fee_op" where
  "fungible_withdraw_fee bc who fee_with_tip tip fs =
     (if fee_with_tip = 0 then (Inr None, fs)
      else case withdraw bc who fee_with_tip Exact Preserve Polite (fs_balances fs) of
             (Inl _, b) \<Rightarrow> (Inl InvalidPayment, fs\<lparr>fs_balances := b\<rparr>)
           | (Inr credit, b) \<Rightarrow>
               let (tip_credit, fee_credit) = credit_split credit tip
               in (Inr (Some tip_credit), deposit_txfee fee_credit (fs\<lparr>fs_balances := b\<rparr>)))"

definition fungible_can_withdraw_fee :: "bal_config \<Rightarrow> 'acc \<Rightarrow> nat \<Rightarrow> 'acc fee_store \<Rightarrow> (validity_error, unit) result" where
  "fungible_can_withdraw_fee bc who fee_with_tip fs =
     (if fee_with_tip = 0 then Inr ()
      else if can_withdraw bc (fs_balances fs) who fee_with_tip = WithdrawSuccess then Inr () else Inl InvalidPayment)"

text \<open>
  \<open>TransactionFeesCollector::on_unbalanceds\<close>: the merged amount is recorded, and the credit that
  carried it is dropped, which takes it off the total issuance.
\<close>

definition on_unbalanceds :: "nat \<Rightarrow> nat option \<Rightarrow> 'acc fee_store \<Rightarrow> 'acc fee_store" where
  "on_unbalanceds fee_credit tip_credit fs =
     (let amount = (case tip_credit of None \<Rightarrow> fee_credit | Some t \<Rightarrow> sat_add 128 fee_credit t)
      in if amount = 0 then fs
         else fs\<lparr>fs_rewards := collect_transaction_fees amount (fs_rewards fs),
                 fs_balances := drop_credit amount (fs_balances fs)\<rparr>)"

definition correct_and_deposit_fee :: "bal_config \<Rightarrow> 'acc \<Rightarrow> nat \<Rightarrow> nat \<Rightarrow> nat option \<Rightarrow> 'acc fee_store \<Rightarrow> 'acc fee_store" where
  "correct_and_deposit_fee bc who corrected_fee_with_tip tip tip_credit fs0 =
     (let corrected_fee = corrected_fee_with_tip - tip;
          remaining_credit = remaining_txfee fs0;
          fs = fs0\<lparr>TxPaymentCredit := None\<rparr>;
          (fee_credit, fs') =
            (if Account (fs_balances fs) who \<noteq> None
             then let (fee_credit, refund_credit) = credit_split remaining_credit corrected_fee
                  in if refund_credit \<noteq> 0
                     then case resolve bc who refund_credit (fs_balances fs) of
                            (Inl not_refunded, b) \<Rightarrow> (sat_add 128 fee_credit not_refunded, fs\<lparr>fs_balances := b\<rparr>)
                          | (Inr _, b) \<Rightarrow> (fee_credit, fs\<lparr>fs_balances := b\<rparr>)
                     else (fee_credit, fs)
             else (remaining_credit, fs))
      in on_unbalanceds fee_credit tip_credit fs')"

definition reject_high_security_tip :: "('acc \<Rightarrow> bool) \<Rightarrow> 'acc \<Rightarrow> nat \<Rightarrow> (validity_error, unit) result" where
  "reject_high_security_tip is_high_security who tip =
     (if tip \<noteq> 0 \<and> is_high_security who then Inl HighSecurityTipForbidden else Inr ())"

definition withdraw_fee :: "('acc \<Rightarrow> bool) \<Rightarrow> bal_config \<Rightarrow> 'acc \<Rightarrow> nat \<Rightarrow> nat \<Rightarrow> ('acc, nat option) fee_op" where
  "withdraw_fee hs bc who fee_with_tip tip =
     op_then (op_of (reject_high_security_tip hs who tip)) (fungible_withdraw_fee bc who fee_with_tip tip)"

definition can_withdraw_fee ::
  "('acc \<Rightarrow> bool) \<Rightarrow> bal_config \<Rightarrow> 'acc \<Rightarrow> nat \<Rightarrow> nat \<Rightarrow> 'acc fee_store \<Rightarrow> (validity_error, unit) result" where
  "can_withdraw_fee hs bc who fee_with_tip tip fs =
     rbind (reject_high_security_tip hs who tip) (\<lambda>_. fungible_can_withdraw_fee bc who fee_with_tip fs)"

text \<open>
  \<open>ChargeTransactionPayment\<close> around a call: \<open>validate\<close>, \<open>prepare\<close>, the call
  itself (which sees the balances after the withdrawal and may fail), and \<open>post_dispatch_details\<close>
  with the fee computed from what the call really used. An error before the call refuses the
  transaction, which then changes nothing.
\<close>

definition charge_transaction ::
  "('acc \<Rightarrow> bool) \<Rightarrow> bal_config \<Rightarrow> 'acc \<Rightarrow> nat \<Rightarrow> nat \<Rightarrow> nat \<Rightarrow> ('acc bal_state \<Rightarrow> 'acc bal_state)
    \<Rightarrow> 'acc fee_store \<Rightarrow> (validity_error, 'acc fee_store) result" where
  "charge_transaction hs bc who fee_with_tip tip actual_fee_with_tip call fs =
     rbind (can_withdraw_fee hs bc who fee_with_tip tip fs) (\<lambda>_.
       case withdraw_fee hs bc who fee_with_tip tip fs of
         (Inl e, _) \<Rightarrow> Inl e
       | (Inr tip_credit, fs1) \<Rightarrow>
           let fs2 = fs1\<lparr>fs_balances := call (fs_balances fs1)\<rparr>
           in Inr (correct_and_deposit_fee bc who actual_fee_with_tip tip tip_credit fs2))"

definition payment_on_finalize :: "'acc fee_store \<Rightarrow> 'acc fee_store" where
  "payment_on_finalize fs =
     (case TxPaymentCredit fs of
        None \<Rightarrow> fs
      | Some c \<Rightarrow> fs\<lparr>TxPaymentCredit := None, fs_balances := drop_credit c (fs_balances fs)\<rparr>)"

section \<open>Lemmas\<close>

definition tip_amount :: "nat option \<Rightarrow> nat" where
  "tip_amount t = (case t of None \<Rightarrow> 0 | Some v \<Rightarrow> v)"

lemma tip_amount_simps [simp]: "tip_amount None = 0" "tip_amount (Some v) = v"
  by (simp_all add: tip_amount_def)

text \<open>Issued value and collected fees together.\<close>

definition issued_or_collected :: "'acc fee_store \<Rightarrow> nat" where
  "issued_or_collected fs = TotalIssuance (fs_balances fs) + CollectedFees (fs_rewards fs)"

text \<open>
  The invariant of the fee store: the credit held for the running transaction and the tip \<open>t\<close> in
  its \<open>Pre\<close> are the only value outside the accounts.
\<close>

definition fee_inv :: "bal_config \<Rightarrow> nat \<Rightarrow> 'acc fee_store \<Rightarrow> bool" where
  "fee_inv bc t fs \<longleftrightarrow> bal_inv bc (remaining_txfee fs + t) (fs_balances fs) \<and> issued_or_collected fs < 2 ^ 128"

lemma remaining_txfee_simps [simp]:
  "remaining_txfee (fs\<lparr>TxPaymentCredit := c\<rparr>) = tip_amount c"
  "remaining_txfee (fs\<lparr>fs_balances := b\<rparr>) = remaining_txfee fs"
  "remaining_txfee (fs\<lparr>fs_rewards := r\<rparr>) = remaining_txfee fs"
  by (simp_all add: remaining_txfee_def tip_amount_def)

lemma withdraw_fee_Inr:
  assumes inv: "fee_inv bc 0 fs" and none: "TxPaymentCredit fs = None"
    and run: "withdraw_fee hs bc who fee_with_tip tip fs = (Inr tip_credit, fs')"
  shows "fee_inv bc (tip_amount tip_credit) fs'" "remaining_txfee fs' + tip_amount tip_credit = fee_with_tip"
    "tip_amount tip_credit = min fee_with_tip tip" "fs_rewards fs' = fs_rewards fs"
    "issued_or_collected fs' \<le> issued_or_collected fs" "tip \<noteq> 0 \<longrightarrow> \<not> hs who"
proof -
  have f: "fungible_withdraw_fee bc who fee_with_tip tip fs = (Inr tip_credit, fs')" and tip: "tip \<noteq> 0 \<longrightarrow> \<not> hs who"
    using run by (auto simp: withdraw_fee_def op_then_Inr reject_high_security_tip_def split: if_splits)
  show "tip \<noteq> 0 \<longrightarrow> \<not> hs who" by (rule tip)
  have i: "bal_inv bc 0 (fs_balances fs)" "issued_or_collected fs < 2 ^ 128"
    using inv none by (simp_all add: fee_inv_def remaining_txfee_def)
  have "fee_inv bc (tip_amount tip_credit) fs' \<and> remaining_txfee fs' + tip_amount tip_credit = fee_with_tip
      \<and> tip_amount tip_credit = min fee_with_tip tip \<and> fs_rewards fs' = fs_rewards fs
      \<and> issued_or_collected fs' \<le> issued_or_collected fs"
  proof (cases "fee_with_tip = 0")
    case True
    then show "fee_inv bc (tip_amount tip_credit) fs' \<and> remaining_txfee fs' + tip_amount tip_credit = fee_with_tip
      \<and> tip_amount tip_credit = min fee_with_tip tip \<and> fs_rewards fs' = fs_rewards fs
      \<and> issued_or_collected fs' \<le> issued_or_collected fs"
      using f inv none by (auto simp: fungible_withdraw_fee_def remaining_txfee_def)
  next
    case False
    then obtain credit b where w: "withdraw bc who fee_with_tip Exact Preserve Polite (fs_balances fs) = (Inr credit, b)"
      and tc: "tip_credit = Some (min credit tip)"
      and fs': "fs' = deposit_txfee (credit - min credit tip) (fs\<lparr>fs_balances := b\<rparr>)"
      using f by (auto simp: fungible_withdraw_fee_def credit_split_def Let_def split: prod.splits sum.splits)
    note e = withdraw_Inr [OF i(1) w]
    have credit: "credit = fee_with_tip" using e(2) by simp
    have rem: "remaining_txfee fs' = fee_with_tip - min fee_with_tip tip"
      by (simp add: fs' deposit_txfee_def none credit)
    have bal: "fs_balances fs' = b" "fs_rewards fs' = fs_rewards fs" by (simp_all add: fs' deposit_txfee_def)
    then have iss: "issued_or_collected fs' \<le> issued_or_collected fs" using e(4) by (simp add: issued_or_collected_def)
    show "fee_inv bc (tip_amount tip_credit) fs' \<and> remaining_txfee fs' + tip_amount tip_credit = fee_with_tip
      \<and> tip_amount tip_credit = min fee_with_tip tip \<and> fs_rewards fs' = fs_rewards fs
      \<and> issued_or_collected fs' \<le> issued_or_collected fs"
      using e(3) rem bal iss i(2) by (simp add: fee_inv_def tc credit)
  qed
  then show "fee_inv bc (tip_amount tip_credit) fs'" "remaining_txfee fs' + tip_amount tip_credit = fee_with_tip"
    "tip_amount tip_credit = min fee_with_tip tip" "fs_rewards fs' = fs_rewards fs"
    "issued_or_collected fs' \<le> issued_or_collected fs"
    by blast+
qed

lemma on_unbalanceds_effect:
  assumes inv: "bal_inv bc (fee + tip_amount t) (fs_balances fs)" and small: "issued_or_collected fs < 2 ^ 128"
  shows "bal_inv bc 0 (fs_balances (on_unbalanceds fee t fs))"
    "CollectedFees (fs_rewards (on_unbalanceds fee t fs)) = CollectedFees (fs_rewards fs) + fee + tip_amount t"
    "issued_or_collected (on_unbalanceds fee t fs) = issued_or_collected fs"
    "TxPaymentCredit (on_unbalanceds fee t fs) = TxPaymentCredit fs"
proof -
  let ?a = "fee + tip_amount t"
  have le: "?a \<le> TotalIssuance (fs_balances fs)" "?a < 2 ^ 128" using inv unfolding bal_inv_def by linarith+
  have a: "(case t of None \<Rightarrow> fee | Some t \<Rightarrow> sat_add 128 fee t) = ?a"
    using le(2) by (cases t) (simp_all add: sat_add_exact)
  have c: "CollectedFees (collect_transaction_fees ?a (fs_rewards fs)) = CollectedFees (fs_rewards fs) + ?a"
    using small le by (simp add: collect_transaction_fees_def Let_def issued_or_collected_def sat_add_exact)
  have d: "bal_inv bc 0 (drop_credit ?a (fs_balances fs))" using drop_credit_inv [of bc 0 ?a] inv by simp
  show "bal_inv bc 0 (fs_balances (on_unbalanceds fee t fs))"
    "CollectedFees (fs_rewards (on_unbalanceds fee t fs)) = CollectedFees (fs_rewards fs) + fee + tip_amount t"
    "issued_or_collected (on_unbalanceds fee t fs) = issued_or_collected fs"
    "TxPaymentCredit (on_unbalanceds fee t fs) = TxPaymentCredit fs"
    using c d le inv by (auto simp: on_unbalanceds_def a Let_def issued_or_collected_def)
qed

text \<open>
  After the call: the refund reaches the payer or joins the fee, and fee and tip are collected.
\<close>

lemma correct_and_deposit_fee_effect:
  assumes inv: "fee_inv bc (tip_amount t) fs"
    and fs': "fs' = correct_and_deposit_fee bc who corrected tip t fs"
  shows "fee_inv bc 0 fs'" "TxPaymentCredit fs' = None" "issued_or_collected fs' = issued_or_collected fs"
    "CollectedFees (fs_rewards fs') \<le> CollectedFees (fs_rewards fs) + remaining_txfee fs + tip_amount t"
    "CollectedFees (fs_rewards fs) + min (remaining_txfee fs) (corrected - tip) + tip_amount t \<le> CollectedFees (fs_rewards fs')"
proof -
  let ?rem = "remaining_txfee fs" and ?b = "fs_balances fs"
  have i: "bal_inv bc (?rem + tip_amount t) ?b" "issued_or_collected fs < 2 ^ 128" using inv by (simp_all add: fee_inv_def)
  have w: "?rem < 2 ^ 128" using i(1) unfolding bal_inv_def by linarith
  obtain fee b where fee: "min ?rem (corrected - tip) \<le> fee" "fee \<le> ?rem"
    and b: "bal_inv bc (fee + tip_amount t) b" "TotalIssuance b = TotalIssuance ?b"
    and u: "fs' = on_unbalanceds fee t (fs\<lparr>TxPaymentCredit := None, fs_balances := b\<rparr>)"
  proof (cases "Account ?b who \<noteq> None \<and> ?rem - min ?rem (corrected - tip) \<noteq> 0")
    case False
    then have "fs' = on_unbalanceds ?rem t (fs\<lparr>TxPaymentCredit := None, fs_balances := ?b\<rparr>)"
      unfolding fs' correct_and_deposit_fee_def credit_split_def Let_def by (auto simp: min_def split: if_splits)
    then show thesis using that [of ?rem ?b] i(1) by simp
  next
    case True
    let ?fee = "min ?rem (corrected - tip)"
    have "bal_inv bc (?fee + tip_amount t + (?rem - ?fee)) ?b" using i(1) by (simp add: add.commute add.assoc)
    then show thesis
    proof (cases rule: resolve_cases [where who = who])
      case (placed b)
      then have "fs' = on_unbalanceds ?fee t (fs\<lparr>TxPaymentCredit := None, fs_balances := b\<rparr>)"
        using True unfolding fs' correct_and_deposit_fee_def credit_split_def Let_def by simp
      then show thesis using that [of ?fee b] placed by simp
    next
      case returned
      then have "fs' = on_unbalanceds ?rem t (fs\<lparr>TxPaymentCredit := None, fs_balances := ?b\<rparr>)"
        using True w unfolding fs' correct_and_deposit_fee_def credit_split_def Let_def by (simp add: sat_add_exact)
      then show thesis using that [of ?rem ?b] i(1) by simp
    qed
  qed
  let ?fs1 = "fs\<lparr>TxPaymentCredit := None, fs_balances := b\<rparr>"
  have same: "issued_or_collected ?fs1 = issued_or_collected fs" using b(2) by (simp add: issued_or_collected_def)
  have inv1: "bal_inv bc (fee + tip_amount t) (fs_balances ?fs1)" using b(1) by simp
  note e = on_unbalanceds_effect [OF inv1, unfolded same, OF i(2), folded u]
  show "TxPaymentCredit fs' = None" using e(4) by simp
  then show "fee_inv bc 0 fs'" using e(1,3) i(2) by (simp add: fee_inv_def remaining_txfee_def)
  show "issued_or_collected fs' = issued_or_collected fs" by (rule e(3))
  show "CollectedFees (fs_rewards fs') \<le> CollectedFees (fs_rewards fs) + ?rem + tip_amount t"
    "CollectedFees (fs_rewards fs) + min ?rem (corrected - tip) + tip_amount t \<le> CollectedFees (fs_rewards fs')"
    using e(2) fee by simp_all
qed

section \<open>Properties\<close>

text \<open>The balances after a signed call that was charged for: a failed call leaves them as the withdrawal did.\<close>

definition run_call :: "bal_config \<Rightarrow> 'acc \<Rightarrow> 'acc bal_call \<Rightarrow> 'acc bal_state \<Rightarrow> 'acc bal_state" where
  "run_call bc who call b = (case bal_dispatch bc (Some who) call b of Inl _ \<Rightarrow> b | Inr b' \<Rightarrow> b')"

lemma run_call_inv: "bal_inv bc c b \<Longrightarrow> bal_inv bc c (run_call bc who call b) \<and> TotalIssuance (run_call bc who call b) \<le> TotalIssuance b"
  by (cases "bal_dispatch bc (Some who) call b") (auto simp: run_call_def dest: dispatch_inv)

lemma charge_steps:
  assumes "charge_transaction hs bc who fee_with_tip tip actual call fs = Inr fs'"
  obtains tip_credit fs1 where "withdraw_fee hs bc who fee_with_tip tip fs = (Inr tip_credit, fs1)"
    "fs' = correct_and_deposit_fee bc who actual tip tip_credit (fs1\<lparr>fs_balances := call (fs_balances fs1)\<rparr>)"
  using assms by (auto simp: charge_transaction_def Let_def split: prod.splits sum.splits)

text \<open>
  C20: Charging a signed balances call moves its fee from the accounts to the collected fees. When the
  transaction is admitted, whatever the call does, no credit stays behind, the accounts are well formed
  and add up to the issuance, issuance and collected fees together do not grow, and the collected fees
  grow by at least the fee computed after the call and at most the fee withdrawn before it; a tip is
  never taken from a high-security account.
\<close>

theorem fee_charged:
  assumes inv: "fee_inv bc 0 fs" and none: "TxPaymentCredit fs = None"
    and run: "charge_transaction hs bc who fee_with_tip tip actual_fee_with_tip (run_call bc who call) fs = Inr fs'"
    and fee: "tip \<le> actual_fee_with_tip" "actual_fee_with_tip \<le> fee_with_tip"
  shows "bal_inv bc 0 (fs_balances fs') \<and> TxPaymentCredit fs' = None
    \<and> issued_or_collected fs' \<le> issued_or_collected fs
    \<and> CollectedFees (fs_rewards fs) + actual_fee_with_tip \<le> CollectedFees (fs_rewards fs')
    \<and> CollectedFees (fs_rewards fs') \<le> CollectedFees (fs_rewards fs) + fee_with_tip
    \<and> (tip \<noteq> 0 \<longrightarrow> \<not> hs who)"
proof -
  obtain t fs1 where w: "withdraw_fee hs bc who fee_with_tip tip fs = (Inr t, fs1)"
    and fs': "fs' = correct_and_deposit_fee bc who actual_fee_with_tip tip t
       (fs1\<lparr>fs_balances := run_call bc who call (fs_balances fs1)\<rparr>)"
    by (rule charge_steps [OF run])
  note e = withdraw_fee_Inr [OF inv none w]
  let ?fs2 = "fs1\<lparr>fs_balances := run_call bc who call (fs_balances fs1)\<rparr>"
  have c: "bal_inv bc (remaining_txfee fs1 + tip_amount t) (fs_balances ?fs2)" "issued_or_collected ?fs2 \<le> issued_or_collected fs1"
    using e(1) run_call_inv [of bc "remaining_txfee fs1 + tip_amount t" "fs_balances fs1" who call] by (simp_all add: fee_inv_def issued_or_collected_def)
  then have "fee_inv bc (tip_amount t) ?fs2" using e(1) by (simp add: fee_inv_def)
  note d = correct_and_deposit_fee_effect [OF this fs']
  have t: "tip_amount t = tip" "remaining_txfee fs1 = fee_with_tip - tip" using e(2,3) fee by simp_all
  show ?thesis
    using d e(4,5,6) c(2) t fee by (auto simp: fee_inv_def remaining_txfee_def)
qed

definition sample_fees :: "nat fee_store" where
  "sample_fees = \<lparr>fs_balances = sample_funds, TxPaymentCredit = None, fs_rewards = \<lparr>CollectedFees = 7, rewards_events = []\<rparr>\<rparr>"

theorem fee_charged_witness:
  "\<exists>fs'. charge_transaction (\<lambda>_. False) sample_accounts 1 20 5 15 (run_call sample_accounts 1 (TransferKeepAlive 2 10)) sample_fees
      = Inr fs' \<and> 22 \<le> CollectedFees (fs_rewards fs') \<and> CollectedFees (fs_rewards fs') \<le> 27 \<and> bal_inv sample_accounts 0 (fs_balances fs')"
proof -
  let ?r = "charge_transaction (\<lambda>_. False) sample_accounts 1 20 5 15 (run_call sample_accounts 1 (TransferKeepAlive 2 10)) sample_fees"
  have "is_ok ?r"
    by (simp add: charge_transaction_def can_withdraw_fee_def fungible_can_withdraw_fee_def reject_high_security_tip_def
        withdraw_fee_def fungible_withdraw_fee_def withdraw_def sample_fees_def credit_split_def op_run evaluate_balances)
  then obtain fs' where fs': "?r = Inr fs'" by (auto simp: is_ok_iff)
  have inv: "fee_inv sample_accounts 0 sample_fees" "TxPaymentCredit sample_fees = None"
    using sample_funds_inv by (simp_all add: fee_inv_def sample_fees_def remaining_txfee_def issued_or_collected_def sample_funds_def)
  show ?thesis using fee_charged [OF inv fs'] fs' by (simp add: sample_fees_def)
qed

end
