(* ===== verification/Supply.thy ===== *)
theory Supply
  imports ShieldedSafety TransactionPayment
begin

text \<open>
  The pallets that hold value, wired as \<open>chain/runtime/src/configs/mod.rs\<close> and
  \<open>chain/runtime/src/lib.rs\<close> wire them: accounts, the fee credit of the running transaction, the
  shielded pool with its commitment tree, and the mining rewards. \<open>chain_step\<close> is one event of a
  block: the payment extension before and after a call, a call of the balances or the shielded pallet,
  a hook. The invariant \<open>chain_inv\<close> has the maximum supply in it.
\<close>

section \<open>Constants of the runtime\<close>

definition UNIT :: nat where
  "UNIT = 1000000000000"

definition MILLI_UNIT :: nat where
  "MILLI_UNIT = 1000000000"

definition MAX_SUPPLY :: nat where
  "MAX_SUPPLY = 21000000 * UNIT"

definition EMISSION_DIVISOR :: nat where
  "EMISSION_DIVISOR = 5000000"

definition runtime_accounts :: bal_config where
  "runtime_accounts = \<lparr>ExistentialDeposit = MILLI_UNIT, MaxConsumers = 16\<rparr>"

section \<open>The chain state\<close>

text \<open>
  \<open>ch_payer\<close> is \<open>Pre::Charge\<close> of the running transaction: who pays, the tip, and the
  tip's credit.
\<close>

record 'acc chain =
  ch_world :: "(zk_tree, 'acc bal_state, 'acc) world"
  ch_credit :: "nat option"
  ch_payer :: "('acc \<times> nat \<times> nat option) option"
  ch_rewards :: rewards

definition fees_of :: "'acc chain \<Rightarrow> 'acc fee_store" where
  "fees_of c = \<lparr>fs_balances = balances (ch_world c), TxPaymentCredit = ch_credit c, fs_rewards = ch_rewards c\<rparr>"

definition put_fees :: "'acc fee_store \<Rightarrow> 'acc chain \<Rightarrow> 'acc chain" where
  "put_fees fs c =
     c\<lparr>ch_world := (ch_world c)\<lparr>balances := fs_balances fs\<rparr>, ch_credit := TxPaymentCredit fs, ch_rewards := fs_rewards fs\<rparr>"

definition wire_accounts ::
  "bal_config \<Rightarrow> (zk_tree, 'acc bal_state, 'acc, bal_error) shielded_config
    \<Rightarrow> (zk_tree, 'acc bal_state, 'acc, bal_error) shielded_config" where
  "wire_accounts bc base = base\<lparr>cfg_burn_from := account_burn bc\<rparr>"

definition wire_rewards ::
  "(zk_tree, 'acc bal_state, 'acc, bal_error) shielded_config
    \<Rightarrow> (zk_tree, 'acc bal_state, 'acc) world rewards_config" where
  "wire_rewards cfg =
     \<lparr>rw_deposit_coinbase = deposit_coinbase cfg, rw_shielded_supply = shielded_supply,
      rw_total_issuance = (\<lambda>w. TotalIssuance (balances w)), rw_has_author = (\<lambda>w. block_author cfg w \<noteq> None),
      MaxSupply = MAX_SUPPLY, EmissionDivisor = EMISSION_DIVISOR\<rparr>"

text \<open>
  The hooks at the end of a block, in the order of the pallet indices: the fee pallet drops a credit left
  behind, the rewards are paid into the pool, and the tree folds the block's leaves.
\<close>

definition chain_on_finalize ::
  "poseidon \<Rightarrow> (zk_tree, 'acc bal_state, 'acc) world rewards_config \<Rightarrow> 'acc chain \<Rightarrow> 'acc chain option" where
  "chain_on_finalize pc rc c =
     (let c1 = put_fees (payment_on_finalize (fees_of c)) c;
          (r, w) = rewards_on_finalize rc (ch_rewards c1, ch_world c1)
      in map_option (\<lambda>t. c1\<lparr>ch_world := w\<lparr>tree := t\<rparr>, ch_rewards := r\<rparr>) (zk_on_finalize pc (tree w)))"

definition chain_on_initialize ::
  "nat \<Rightarrow> (nat \<Rightarrow> hash256) \<Rightarrow> (byte list \<times> byte list) list \<Rightarrow> 'acc chain \<Rightarrow> 'acc chain" where
  "chain_on_initialize n h d c =
     c\<lparr>ch_world := shielded_on_initialize
         ((ch_world c)\<lparr>sys_block_number := n, sys_block_hash := h, sys_pre_runtime := d\<rparr>)\<rparr>"

inductive chain_step ::
  "poseidon \<Rightarrow> ('acc \<Rightarrow> bool) \<Rightarrow> (zk_tree, 'acc bal_state, 'acc, bal_error) shielded_config \<Rightarrow> 'acc chain \<Rightarrow> 'acc chain \<Rightarrow> bool"
  for pc hs cfg where
  chain_prepare: "ch_payer c = None \<Longrightarrow> withdraw_fee hs runtime_accounts who fee_with_tip tip (fees_of c) = (Inr t, fs) \<Longrightarrow>
    chain_step pc hs cfg c ((put_fees fs c)\<lparr>ch_payer := Some (who, tip, t)\<rparr>)"
| chain_post_dispatch: "ch_payer c = Some (who, tip, t) \<Longrightarrow>
    fs = correct_and_deposit_fee runtime_accounts who actual_fee_with_tip tip t (fees_of c) \<Longrightarrow>
    chain_step pc hs cfg c ((put_fees fs c)\<lparr>ch_payer := None\<rparr>)"
| chain_balances: "bal_dispatch runtime_accounts signer bcall (balances (ch_world c)) = Inr b \<Longrightarrow>
    chain_step pc hs cfg c (c\<lparr>ch_world := (ch_world c)\<lparr>balances := b\<rparr>\<rparr>)"
| chain_shielded: "dispatch cfg (ch_world c) origin call = Inr w \<Longrightarrow> length (call_outputs call) < 2 ^ 32 \<Longrightarrow>
    chain_step pc hs cfg c (c\<lparr>ch_world := w\<rparr>)"
| chain_initialize: "chain_step pc hs cfg c (chain_on_initialize n h d c)"
| chain_upgrade: "chain_step pc hs cfg c
    (c\<lparr>ch_world := shielded_on_runtime_upgrade cfg (ch_world c)\<rparr>)"
| chain_finalize: "ch_payer c = None \<Longrightarrow> chain_on_finalize pc (wire_rewards cfg) c = Some c' \<Longrightarrow>
    chain_step pc hs cfg c c'"

definition genesis_chain ::
  "(zk_tree, 'acc bal_state, 'acc, bal_error) shielded_config \<Rightarrow> 'acc bal_state \<Rightarrow> (nat \<Rightarrow> hash256) \<Rightarrow> 'acc chain" where
  "genesis_chain cfg b h =
     \<lparr>ch_world = \<lparr>pool = shielded_genesis_build cfg genesis_pool, tree = genesis_tree, balances = b, sys_block_number = 0,
        sys_block_hash = h, sys_pre_runtime = []\<rparr>,
      ch_credit = None, ch_payer = None, ch_rewards = \<lparr>CollectedFees = 0, rewards_events = []\<rparr>\<rparr>"

inductive chain_reachable ::
  "poseidon \<Rightarrow> ('acc \<Rightarrow> bool) \<Rightarrow> (zk_tree, 'acc bal_state, 'acc, bal_error) shielded_config
    \<Rightarrow> ('acc \<times> nat) list \<Rightarrow> 'acc chain \<Rightarrow> bool"
  for pc hs cfg endowments where
  chain_genesis: "bal_genesis runtime_accounts endowments = Some b \<Longrightarrow>
    chain_reachable pc hs cfg endowments (genesis_chain cfg b h)"
| chain_next: "chain_reachable pc hs cfg endowments c \<Longrightarrow>
    chain_step pc hs cfg c c' \<Longrightarrow>
    chain_reachable pc hs cfg endowments c'"

section \<open>The invariant\<close>

text \<open>Everything that is or will become money: balances, the pool, the author's pending share, fees to pay out.\<close>

definition chain_supply :: "'acc chain \<Rightarrow> nat" where
  "chain_supply c =
     TotalIssuance (balances (ch_world c)) + CollectedFees (ch_rewards c)
     + (PoolValue (pool (ch_world c)) + PendingCoinbaseFee (pool (ch_world c)))"

definition in_flight :: "'acc chain \<Rightarrow> nat" where
  "in_flight c = tip_amount (ch_credit c) + (case ch_payer c of None \<Rightarrow> 0 | Some (_, _, t) \<Rightarrow> tip_amount t)"

definition chain_inv ::
  "poseidon \<Rightarrow> (zk_tree, 'acc bal_state, 'acc, bal_error) shielded_config \<Rightarrow> 'acc chain \<Rightarrow> bool" where
  "chain_inv pc cfg c \<longleftrightarrow>
     pool_inv (tree_inv pc) cfg (ch_world c) \<and> bal_inv runtime_accounts (in_flight c) (balances (ch_world c))
     \<and> (ch_payer c = None \<longrightarrow> ch_credit c = None) \<and> chain_supply c \<le> MAX_SUPPLY"

section \<open>Calls of the pool\<close>

text \<open>A pool whose deposits are burned from a currency.\<close>

locale pool_currency = shielded_pool insert_cm remaining leaf_total leaves rinv cfg + burnable_currency burn issuance binv
  for insert_cm :: "'t \<Rightarrow> hash256 \<Rightarrow> (zk_error, 't \<times> nat) result"
    and remaining :: "'t \<Rightarrow> nat" and leaf_total :: "'t \<Rightarrow> nat" and leaves :: "'t \<Rightarrow> hash256 list"
    and rinv :: "'t \<Rightarrow> bool" and cfg :: "('t, 'b, 'acc, 'ce) shielded_config"
    and burn :: "'b \<Rightarrow> 'acc \<Rightarrow> nat \<Rightarrow> ('ce, 'b) result" and issuance :: "'b \<Rightarrow> nat" and binv :: "'b \<Rightarrow> bool" +
  assumes cfg_burn: "cfg_burn_from cfg = burn"
begin

lemma settle_supply:
  assumes "rinv (tree w)" "plan_widths cfg w outputs" "settle cfg w bundle outputs = Inr w'"
    "PoolValue (pool w) + PendingCoinbaseFee (pool w) < 2 ^ 128"
  shows "balances w' = balances w
    \<and> PoolValue (pool w') + PendingCoinbaseFee (pool w') \<le> PoolValue (pool w) + PendingCoinbaseFee (pool w)"
proof -
  note fee = settle_fee [OF assms]
  have "author_share cfg (settling_fee cfg w bundle) * POOL_STEP \<le> settling_fee cfg w bundle * POOL_STEP"
    by (simp add: author_share_def)
  moreover have "balances w' = balances w"
    using settle_effect [OF assms(1-3)] by (simp add: settles_bundle_def same_elsewhere_def)
  ultimately show ?thesis using fee by linarith
qed

lemma dispatch_supply:
  assumes widths: "config_widths cfg" and inv: "pool_inv rinv cfg w" and len: "length (call_outputs call) < 2 ^ 32"
    and ok: "dispatch cfg w origin call = Inr w'" and b: "binv (balances w)"
    and room: "PoolValue (pool w) + PendingCoinbaseFee (pool w) < 2 ^ 128"
  shows "binv (balances w') \<and> issuance (balances w') + (PoolValue (pool w') + PendingCoinbaseFee (pool w'))
    \<le> issuance (balances w) + (PoolValue (pool w) + PendingCoinbaseFee (pool w))"
proof -
  have settled: ?thesis if call: "is_settlement call"
  proof -
    obtain bndl where s: "settle cfg w bndl (call_outputs call) = Inr w'"
      using ok dispatch_settlement [OF call, of cfg w origin] by auto
    have "rinv (tree w)" using inv by (simp add: pool_inv_def)
    then show ?thesis
      using settle_supply [OF _ plan_widthsI [OF widths inv len] s room] b by simp
  qed
  show ?thesis
  proof (cases call)
    case (ShieldCall v inner ciphertext)
    then have "shield cfg w origin v inner ciphertext = Inr w'" using ok by (simp add: dispatch_def)
    then obtain who cm index where "shields cfg w who v cm index w'" by (rule shield_steps)
    then have sh: "burn (balances w) who v = Inr (balances w')"
      "PoolValue (pool w') = sat_add 128 (PoolValue (pool w)) v" "PendingCoinbaseFee (pool w') = PendingCoinbaseFee (pool w)"
      by (simp_all add: shields_def cfg_burn)
    show ?thesis
      using burn_inv [OF b sh(1)] burn_issuance [OF b sh(1)] sat_add_le [of 128 "PoolValue (pool w)" v] sh(2,3) by simp
  next
    case (CoinbaseCall inner ciphertext)
    then show ?thesis using coinbase_steps [of cfg w origin inner ciphertext w'] ok b by (simp add: dispatch_def)
  qed (simp_all add: settled)
qed

end

interpretation chain_pool: pool_currency insert_commitment remaining_capacity LeafCount all_leaves "tree_inv pc"
    "wire_pool px private_artifact public_artifact num_inner num_leaves (wire_accounts bc base)"
    "account_burn bc" TotalIssuance "bal_inv bc c"
  for pc px private_artifact public_artifact num_inner num_leaves bc base c
  by unfold_locales (simp add: wire_pool_def wire_accounts_def)

section \<open>The reward at the end of a block\<close>

lemma deposit_coinbase_balances: "balances (fst (deposit_coinbase cfg w amount)) = balances w"
proof (cases "deposit_coinbase cfg w amount")
  case (Pair w' r)
  show ?thesis using Pair [unfolded deposit_coinbase_def]
    by (cases rule: mint_coinbase_cases) (simp_all add: Pair mint_returned_def mints_def)
qed

interpretation paid: reward_payer
    "deposit_coinbase (wire_pool px private_artifact public_artifact num_inner num_leaves (wire_accounts bc base))"
    shielded_supply "sink_inv (tree_inv pc)"
    "wire_rewards (wire_pool px private_artifact public_artifact num_inner num_leaves (wire_accounts bc base))"
  for px private_artifact public_artifact num_inner num_leaves bc base pc
  by unfold_locales (simp_all add: wire_rewards_def deposit_coinbase_balances MAX_SUPPLY_def UNIT_def)

section \<open>Every step keeps the invariant\<close>

definition runtime_pool ::
  "('fc, 'fp, 'cr, 'pf) plonky2 \<Rightarrow> byte list \<Rightarrow> byte list \<Rightarrow> nat \<Rightarrow> nat
    \<Rightarrow> (zk_tree, 'acc bal_state, 'acc, bal_error) shielded_config \<Rightarrow> (zk_tree, 'acc bal_state, 'acc, bal_error) shielded_config" where
  "runtime_pool px private_artifact public_artifact num_inner num_leaves base =
     wire_pool px private_artifact public_artifact num_inner num_leaves (wire_accounts runtime_accounts base)"

lemma MAX_SUPPLY_u128: "MAX_SUPPLY < 2 ^ 128"
  by (simp add: MAX_SUPPLY_def UNIT_def)

lemma pool_inv_balances [simp]: "pool_inv rinv cfg (w\<lparr>balances := b\<rparr>) = pool_inv rinv cfg w"
  by (simp add: pool_inv_def nullifier_log_def outputs_written_this_block_def)

lemma fees_of_simps [simp]:
  "fs_balances (fees_of c) = balances (ch_world c)" "TxPaymentCredit (fees_of c) = ch_credit c"
  "fs_rewards (fees_of c) = ch_rewards c" "remaining_txfee (fees_of c) = tip_amount (ch_credit c)"
  by (simp_all add: fees_of_def remaining_txfee_def tip_amount_def)

lemma put_fees_simps [simp]:
  "pool (ch_world (put_fees fs c)) = pool (ch_world c)" "balances (ch_world (put_fees fs c)) = fs_balances fs"
  "ch_credit (put_fees fs c) = TxPaymentCredit fs" "ch_rewards (put_fees fs c) = fs_rewards fs"
  "ch_payer (put_fees fs c) = ch_payer c"
  "ch_world (put_fees fs c) = (ch_world c)\<lparr>balances := fs_balances fs\<rparr>"
  by (simp_all add: put_fees_def)

lemma chain_supply_fees:
  "chain_supply (c\<lparr>ch_payer := x\<rparr>) = chain_supply c"
  "chain_supply (put_fees fs c) = issued_or_collected fs + (PoolValue (pool (ch_world c)) + PendingCoinbaseFee (pool (ch_world c)))"
  "chain_supply c = issued_or_collected (fees_of c) + (PoolValue (pool (ch_world c)) + PendingCoinbaseFee (pool (ch_world c)))"
  by (simp_all add: chain_supply_def issued_or_collected_def)

lemma chain_fee_inv:
  assumes "chain_inv pc cfg c"
  shows "fee_inv runtime_accounts (case ch_payer c of None \<Rightarrow> 0 | Some (_, _, t) \<Rightarrow> tip_amount t) (fees_of c)"
  using assms MAX_SUPPLY_u128 unfolding chain_inv_def fee_inv_def in_flight_def chain_supply_fees(3) fees_of_simps
  by linarith

lemma put_fees_inv:
  assumes inv: "chain_inv pc cfg c" and f: "fee_inv runtime_accounts t fs" "issued_or_collected fs \<le> issued_or_collected (fees_of c)"
    and p: "t = (case p of None \<Rightarrow> 0 | Some (_, _, t') \<Rightarrow> tip_amount t')" "p = None \<longrightarrow> TxPaymentCredit fs = None"
  shows "chain_inv pc cfg ((put_fees fs c)\<lparr>ch_payer := p\<rparr>)"
proof -
  have "in_flight ((put_fees fs c)\<lparr>ch_payer := p\<rparr>) = remaining_txfee fs + t"
    by (simp add: in_flight_def p(1) remaining_txfee_def tip_amount_def)
  moreover have "chain_supply ((put_fees fs c)\<lparr>ch_payer := p\<rparr>) \<le> chain_supply c"
    unfolding chain_supply_fees(1,2) unfolding chain_supply_fees(3) [of c] using f(2) by simp
  ultimately show ?thesis
    using inv f p(2) by (simp add: chain_inv_def fee_inv_def)
qed

lemma prepare_inv:
  assumes inv: "chain_inv pc cfg c" and "ch_payer c = None"
    and run: "withdraw_fee hs runtime_accounts who fee tip (fees_of c) = (Inr t, fs)"
  shows "chain_inv pc cfg ((put_fees fs c)\<lparr>ch_payer := Some (who, tip, t)\<rparr>)"
proof -
  have none: "TxPaymentCredit (fees_of c) = None" using inv assms(2) by (simp add: chain_inv_def)
  have "fee_inv runtime_accounts 0 (fees_of c)" using chain_fee_inv [OF inv] assms(2) by simp
  note e = withdraw_fee_Inr [OF this none run]
  show ?thesis by (rule put_fees_inv [OF inv e(1,5)]) simp_all
qed

lemma post_dispatch_inv:
  assumes inv: "chain_inv pc cfg c" and p: "ch_payer c = Some (who, tip, t)"
    and fs: "fs = correct_and_deposit_fee runtime_accounts who corrected tip t (fees_of c)"
  shows "chain_inv pc cfg ((put_fees fs c)\<lparr>ch_payer := None\<rparr>)"
proof -
  have "fee_inv runtime_accounts (tip_amount t) (fees_of c)" using chain_fee_inv [OF inv] p by simp
  note e = correct_and_deposit_fee_effect [OF this fs]
  show ?thesis by (rule put_fees_inv [OF inv e(1)]) (simp_all add: e(2,3))
qed

lemma balances_call_inv:
  assumes inv: "chain_inv pc cfg c" and run: "bal_dispatch runtime_accounts signer bcall (balances (ch_world c)) = Inr b"
  shows "chain_inv pc cfg (c\<lparr>ch_world := (ch_world c)\<lparr>balances := b\<rparr>\<rparr>)"
  using inv dispatch_inv [OF _ run, of "in_flight c"] by (auto simp: chain_inv_def in_flight_def chain_supply_def)

lemma shielded_call_inv:
  assumes cfg: "cfg = runtime_pool px pa qa m n base" and widths: "config_widths cfg" and inv: "chain_inv pc cfg c"
    and run: "dispatch cfg (ch_world c) origin call = Inr w" and len: "length (call_outputs call) < 2 ^ 32"
  shows "chain_inv pc cfg (c\<lparr>ch_world := w\<rparr>)"
proof -
  have p: "pool_inv (tree_inv pc) cfg (ch_world c)" and b: "bal_inv runtime_accounts (in_flight c) (balances (ch_world c))"
    using inv by (simp_all add: chain_inv_def)
  have room: "PoolValue (pool (ch_world c)) + PendingCoinbaseFee (pool (ch_world c)) < 2 ^ 128"
    using inv MAX_SUPPLY_u128 unfolding chain_inv_def chain_supply_def by linarith
  note facts = widths p len run b room
  have "bal_inv runtime_accounts (in_flight c) (balances w)
      \<and> TotalIssuance (balances w) + (PoolValue (pool w) + PendingCoinbaseFee (pool w))
         \<le> TotalIssuance (balances (ch_world c)) + (PoolValue (pool (ch_world c)) + PendingCoinbaseFee (pool (ch_world c)))"
    using facts unfolding cfg runtime_pool_def by (rule chain_pool.dispatch_supply)
  moreover have "pool_inv (tree_inv pc) cfg w"
    using facts(1-4) unfolding cfg runtime_pool_def by (rule wired.dispatch_pool_inv)
  ultimately show ?thesis using inv by (simp add: chain_inv_def in_flight_def chain_supply_def)
qed

lemma initialize_inv: "chain_inv pc cfg c \<Longrightarrow> chain_inv pc cfg (chain_on_initialize n h d c)"
  by (simp add: chain_on_initialize_def chain_inv_def in_flight_def chain_supply_def pool_inv_def
      shielded_on_initialize_def nullifier_log_def outputs_written_this_block_def)

lemma upgrade_inv: "chain_inv pc cfg c \<Longrightarrow> chain_inv pc cfg (c\<lparr>ch_world := shielded_on_runtime_upgrade cfg (ch_world c)\<rparr>)"
  by (simp add: chain_inv_def in_flight_def chain_supply_def pool_inv_def
      shielded_on_runtime_upgrade_def nullifier_log_def outputs_written_this_block_def Let_def)

text \<open>The end of a block pays the reward out of what the cap leaves.\<close>

lemma deposit_chain_pool_inv:
  assumes "cfg = runtime_pool px pa qa m n base" "pool_inv (tree_inv pc) cfg w"
  shows "pool_inv (tree_inv pc) cfg (fst (deposit_coinbase cfg w q))"
  using wired.deposit_pool_inv [of pc px pa qa m n "wire_accounts runtime_accounts base" w q
      "fst (deposit_coinbase cfg w q)" "snd (deposit_coinbase cfg w q)"] assms
  by (simp add: runtime_pool_def)

lemma rewards_inv:
  assumes cfg: "cfg = runtime_pool px pa qa m n base" and inv: "chain_inv pc cfg c"
    and run: "rewards_on_finalize (wire_rewards cfg) (ch_rewards c, ch_world c) = (r, w)"
  shows "pool_inv (tree_inv pc) cfg w" "balances w = balances (ch_world c)"
    "TotalIssuance (balances w) + CollectedFees r + (PoolValue (pool w) + PendingCoinbaseFee (pool w)) \<le> MAX_SUPPLY"
proof -
  let ?w = "ch_world c"
  have p: "pool_inv (tree_inv pc) cfg ?w" and cap: "chain_supply c \<le> MAX_SUPPLY" using inv by (simp_all add: chain_inv_def)
  have small: "chain_supply c < 2 ^ 128" using cap MAX_SUPPLY_u128 by linarith
  have sink: "sink_inv (tree_inv pc) ?w" using p small by (simp add: sink_inv_def pool_inv_def chain_supply_def)
  have whole: "whole_supply (wire_rewards cfg) (ch_rewards c, ?w) = chain_supply c"
    using shielded_supply_exact [OF sink] by (simp add: whole_supply_def wire_rewards_def chain_supply_def)
  have max: "MaxSupply (wire_rewards cfg) = MAX_SUPPLY" by (simp add: wire_rewards_def)
  have paid: "sink_inv (tree_inv pc) w \<and> whole_supply (wire_rewards cfg) (r, w) \<le> MAX_SUPPLY"
    using paid.on_finalize_supply [of pc ?w px pa qa m n runtime_accounts base "ch_rewards c" r w]
      sink cap run whole max by (simp add: cfg runtime_pool_def)
  have w: "w = ?w \<or> (\<exists>q. w = fst (deposit_coinbase cfg ?w q))"
    using rewards_world [of "wire_rewards cfg" "ch_rewards c" ?w] run by (simp add: wire_rewards_def)
  show "pool_inv (tree_inv pc) cfg w" using w p deposit_chain_pool_inv [OF cfg p] by auto
  show b: "balances w = balances ?w" using w deposit_coinbase_balances by auto
  show "TotalIssuance (balances w) + CollectedFees r + (PoolValue (pool w) + PendingCoinbaseFee (pool w)) \<le> MAX_SUPPLY"
    using paid shielded_supply_exact [of "tree_inv pc" w] by (simp add: whole_supply_def wire_rewards_def)
qed

lemma finalize_inv:
  assumes cfg: "cfg = runtime_pool px pa qa m n base" and widths: "config_widths cfg" and inv: "chain_inv pc cfg c"
    and payer: "ch_payer c = None" and run: "chain_on_finalize pc (wire_rewards cfg) c = Some c'"
  shows "chain_inv pc cfg c'"
proof -
  have none: "ch_credit c = None" using inv payer by (simp add: chain_inv_def)
  then have same: "put_fees (payment_on_finalize (fees_of c)) c = c"
    by (simp add: payment_on_finalize_def put_fees_def)
  obtain r w where rw: "rewards_on_finalize (wire_rewards cfg) (ch_rewards c, ch_world c) = (r, w)"
    by (cases "rewards_on_finalize (wire_rewards cfg) (ch_rewards c, ch_world c)") blast
  obtain t where t: "zk_on_finalize pc (tree w) = Some t" and c': "c' = c\<lparr>ch_world := w\<lparr>tree := t\<rparr>, ch_rewards := r\<rparr>"
    using run rw by (auto simp: chain_on_finalize_def same)
  note e = rewards_inv [OF cfg inv rw]
  have "pool_inv (tree_inv pc) cfg (w\<lparr>tree := t\<rparr>)"
    using pool_step_inv [of px pa qa m n "wire_accounts runtime_accounts base" pc w "w\<lparr>tree := t\<rparr>"]
      e(1) widths pool_tree [OF step_finalize [OF t], of cfg] by (simp add: cfg runtime_pool_def)
  then show ?thesis using inv e(2,3) by (simp add: c' chain_inv_def in_flight_def chain_supply_def)
qed

lemma chain_step_inv:
  assumes cfg: "cfg = runtime_pool px pa qa m n base" and widths: "config_widths cfg" and inv: "chain_inv pc cfg c"
    and step: "chain_step pc hs cfg c c'"
  shows "chain_inv pc cfg c'"
  using step inv
proof cases
  case (chain_prepare who fee tip t fs)
  show ?thesis unfolding chain_prepare(1) by (rule prepare_inv [OF inv chain_prepare(2,3)])
next
  case (chain_post_dispatch who tip t fs actual)
  show ?thesis unfolding chain_post_dispatch(1) by (rule post_dispatch_inv [OF inv chain_post_dispatch(2,3)])
next
  case (chain_balances signer bcall b)
  show ?thesis unfolding chain_balances(1) by (rule balances_call_inv [OF inv chain_balances(2)])
next
  case (chain_shielded origin call w)
  show ?thesis unfolding chain_shielded(1) by (rule shielded_call_inv [OF cfg widths inv chain_shielded(2,3)])
next
  case (chain_initialize n h d)
  show ?thesis unfolding chain_initialize by (rule initialize_inv [OF inv])
next
  case chain_upgrade
  show ?thesis unfolding chain_upgrade by (rule upgrade_inv [OF inv])
next
  case chain_finalize
  show ?thesis by (rule finalize_inv [OF cfg widths inv chain_finalize])
qed

lemma genesis_chain_inv:
  assumes "bal_genesis runtime_accounts endowments = Some b" "sum_list (map snd endowments) \<le> MAX_SUPPLY"
  shows "chain_inv pc cfg (genesis_chain cfg b h)"
proof -
  have ed: "0 < ExistentialDeposit runtime_accounts" by (simp add: runtime_accounts_def MILLI_UNIT_def)
  have "sum_list (map snd endowments) < 2 ^ 128" using assms(2) MAX_SUPPLY_u128 by linarith
  note g = genesis_inv [OF assms(1) ed this]
  have "pool_inv (tree_inv pc) cfg (ch_world (genesis_chain cfg b h))"
    using tree_inv_genesis [of pc]
    by (simp add: genesis_chain_def pool_inv_def shielded_genesis_build_def genesis_pool_def nullifier_log_def
        outputs_written_this_block_def)
  then show ?thesis
    using g assms(2)
    by (simp add: chain_inv_def in_flight_def chain_supply_def genesis_chain_def shielded_genesis_build_def genesis_pool_def)
qed

lemma chain_reachable_inv:
  assumes cfg: "cfg = runtime_pool px pa qa m n base" and widths: "config_widths cfg"
    and fits: "sum_list (map snd endowments) \<le> MAX_SUPPLY"
    and reach: "chain_reachable pc hs cfg endowments c"
  shows "chain_inv pc cfg c"
  using reach
proof (induction rule: chain_reachable.induct)
  case (chain_genesis b h)
  then show ?case using genesis_chain_inv fits by blast
next
  case (chain_next c c')
  then show ?case using chain_step_inv [OF cfg widths] by blast
qed

end
