(* ===== verification/Difficulty.thy ===== *)
theory Difficulty
  imports Prelude
begin

text \<open>
  The difficulty pallet, \<open>chain/pallets/qpow/src/lib.rs\<close>: storage, genesis, and the retarget at
  the end of every block. A \<open>U512\<close> is a natural below \<open>2 ^ 512\<close>; the cast of the time
  factor to \<open>i64\<close> and the subtraction from it wrap at 64 bits.

  The lemmas show that the difficulty never leaves its bounds, moves by at most one step up and
  ninety-nine steps down per block, does not move at the target block time, and rises under fast blocks
  from any value.
\<close>

section \<open>Constants\<close>

definition MIN_RETARGET_BLOCK_TIME_MS :: nat where
  "MIN_RETARGET_BLOCK_TIME_MS = 500"

definition RETARGET_LN2_NUM :: nat where
  "RETARGET_LN2_NUM = 693147"

definition RETARGET_LN2_DEN :: nat where
  "RETARGET_LN2_DEN = 1000000"

definition RETARGET_INCREMENT_DIVISOR :: nat where
  "RETARGET_INCREMENT_DIVISOR = 2048"

definition MAX_RETARGET_DECREASE_UNITS :: int where
  "MAX_RETARGET_DECREASE_UNITS = 99"

definition MAX_RETARGET_INCREASE_UNITS :: int where
  "MAX_RETARGET_INCREASE_UNITS = 1"

definition get_min_difficulty :: nat where
  "get_min_difficulty = 128"

definition get_max_difficulty :: nat where
  "get_max_difficulty = 2 ^ 512 - 1"

section \<open>The retarget\<close>

definition retarget_divisor :: "nat \<Rightarrow> nat" where
  "retarget_divisor target_time_ms = max (sat_mul 64 target_time_ms RETARGET_LN2_NUM div RETARGET_LN2_DEN) 1"

definition wrap_i64 :: "int \<Rightarrow> int" where
  "wrap_i64 x = (x + 2 ^ 63) mod 2 ^ 64 - 2 ^ 63"

definition clamp :: "int \<Rightarrow> int \<Rightarrow> int \<Rightarrow> int" where
  "clamp x lo hi = (if x < lo then lo else if hi < x then hi else x)"

definition retarget_adjustment :: "nat \<Rightarrow> nat \<Rightarrow> int" where
  "retarget_adjustment block_time_ms target_time_ms =
     (let block_time = max block_time_ms MIN_RETARGET_BLOCK_TIME_MS;
          time_factor = wrap_i64 (int (block_time div retarget_divisor target_time_ms))
      in clamp (wrap_i64 (1 - time_factor)) (- MAX_RETARGET_DECREASE_UNITS) MAX_RETARGET_INCREASE_UNITS)"

definition retarget_increment :: "nat \<Rightarrow> nat" where
  "retarget_increment parent_difficulty = max (parent_difficulty div RETARGET_INCREMENT_DIVISOR) 1"

definition calculate_difficulty :: "nat \<Rightarrow> nat \<Rightarrow> nat \<Rightarrow> nat" where
  "calculate_difficulty parent_difficulty block_time_ms target_time_ms =
     (let adjustment = retarget_adjustment block_time_ms target_time_ms;
          increment = retarget_increment parent_difficulty;
          new_difficulty =
            (if 0 \<le> adjustment then sat_add 512 parent_difficulty (sat_mul 512 increment (nat adjustment))
             else parent_difficulty - sat_mul 512 increment (nat (- adjustment)))
      in if new_difficulty < get_min_difficulty then get_min_difficulty
         else if get_max_difficulty < new_difficulty then get_max_difficulty
         else new_difficulty)"

section \<open>State\<close>

datatype qpow_event = DifficultyAdjusted nat nat nat

record qpow =
  LastBlockTime :: nat
  LastBlockDuration :: nat
  CurrentDifficulty :: nat
  TargetBlockTimeMs :: nat
  qpow_events :: "qpow_event list"

record qpow_config =
  InitialDifficulty :: nat
  TargetBlockTime :: nat

definition get_difficulty :: "qpow_config \<Rightarrow> qpow \<Rightarrow> nat" where
  "get_difficulty qc q = (if CurrentDifficulty q = 0 then InitialDifficulty qc else CurrentDifficulty q)"

definition target_block_time :: "qpow_config \<Rightarrow> qpow \<Rightarrow> nat" where
  "target_block_time qc q = (if TargetBlockTimeMs q = 0 then TargetBlockTime qc else TargetBlockTimeMs q)"

definition qpow_genesis :: "nat \<Rightarrow> nat \<Rightarrow> qpow option" where
  "qpow_genesis initial_difficulty genesis_target =
     (if get_min_difficulty \<le> initial_difficulty \<and> initial_difficulty < get_max_difficulty \<and> 0 < genesis_target
      then Some \<lparr>LastBlockTime = 0, LastBlockDuration = 0, CurrentDifficulty = initial_difficulty,
                 TargetBlockTimeMs = genesis_target, qpow_events = []\<rparr>
      else None)"

definition adjust_difficulty :: "qpow_config \<Rightarrow> nat \<Rightarrow> nat \<Rightarrow> qpow \<Rightarrow> qpow" where
  "adjust_difficulty qc now block_number q0 =
     (let current_difficulty = get_difficulty qc q0;
          duration = now - LastBlockTime q0;
          (block_time, q1) =
            (if 1 < block_number then (duration, q0\<lparr>LastBlockDuration := duration\<rparr>)
             else (target_block_time qc q0, q0));
          q2 = q1\<lparr>LastBlockTime := now\<rparr>;
          new_difficulty = calculate_difficulty current_difficulty block_time (target_block_time qc q2)
      in q2\<lparr>CurrentDifficulty := new_difficulty,
            qpow_events := qpow_events q2 @ [DifficultyAdjusted current_difficulty new_difficulty block_time]\<rparr>)"

definition qpow_on_finalize :: "qpow_config \<Rightarrow> nat \<Rightarrow> nat \<Rightarrow> qpow \<Rightarrow> qpow" where
  "qpow_on_finalize qc now block_number q = adjust_difficulty qc now block_number q"

inductive qpow_reachable :: "qpow_config \<Rightarrow> qpow \<Rightarrow> bool" for qc where
  qpow_start: "qpow_genesis d t = Some q \<Longrightarrow> qpow_reachable qc q"
| qpow_block: "qpow_reachable qc q \<Longrightarrow> qpow_reachable qc (qpow_on_finalize qc now n q)"

section \<open>Lemmas\<close>

lemma retarget_divisor_pos [simp]: "0 < retarget_divisor t"
  by (simp add: retarget_divisor_def)

lemma wrap_i64_small: "- (2 ^ 63) \<le> x \<Longrightarrow> x < 2 ^ 63 \<Longrightarrow> wrap_i64 x = x"
  by (simp add: wrap_i64_def)

lemma retarget_adjustment_bounds: "- 99 \<le> retarget_adjustment b t \<and> retarget_adjustment b t \<le> 1"
  by (simp add: retarget_adjustment_def Let_def clamp_def MAX_RETARGET_DECREASE_UNITS_def MAX_RETARGET_INCREASE_UNITS_def)

text \<open>Below \<open>2 ^ 63\<close> time buckets nothing wraps.\<close>

lemma retarget_adjustment_exact:
  assumes "max b 500 div retarget_divisor t < 2 ^ 63"
  shows "retarget_adjustment b t = max (- 99) (1 - int (max b 500 div retarget_divisor t))"
proof -
  let ?q = "max b 500 div retarget_divisor t"
  have q: "int ?q < 2 ^ 63" using assms by (simp add: of_nat_less_iff [of _ "2 ^ 63", simplified])
  have "wrap_i64 (int ?q) = int ?q" using q by (intro wrap_i64_small) simp_all
  moreover have "wrap_i64 (1 - int ?q) = 1 - int ?q" using q by (intro wrap_i64_small) simp_all
  ultimately show ?thesis
    by (simp add: retarget_adjustment_def Let_def clamp_def MIN_RETARGET_BLOCK_TIME_MS_def
        MAX_RETARGET_DECREASE_UNITS_def MAX_RETARGET_INCREASE_UNITS_def)
qed

lemma retarget_divisor_two: "3 \<le> t \<Longrightarrow> 2 \<le> retarget_divisor t"
proof -
  assume "3 \<le> t"
  then have "3 * 693147 \<le> t * 693147" by simp
  then have "2000000 \<le> sat_mul 64 t 693147" by (simp add: sat_mul_def)
  then show ?thesis by (simp add: retarget_divisor_def RETARGET_LN2_NUM_def RETARGET_LN2_DEN_def)
qed

lemma buckets_small:
  assumes "3 \<le> t" "b < 2 ^ 64"
  shows "max b 500 div retarget_divisor t < 2 ^ 63"
proof -
  have "max b 500 div retarget_divisor t \<le> max b 500 div 2"
    using retarget_divisor_two [OF assms(1)] by (intro div_le_mono2) simp_all
  also have "\<dots> < 2 ^ 63" using assms(2) by simp
  finally show ?thesis .
qed

lemma calculate_difficulty_bounds: "get_min_difficulty \<le> calculate_difficulty d b t \<and> calculate_difficulty d b t \<le> get_max_difficulty"
  by (auto simp: calculate_difficulty_def Let_def get_min_difficulty_def get_max_difficulty_def)

lemma increment_small: "d < 2 ^ 512 \<Longrightarrow> k \<le> 99 \<Longrightarrow> retarget_increment d * k < 2 ^ 512"
proof -
  assume d: "d < 2 ^ 512" and k: "k \<le> 99"
  have "retarget_increment d * k \<le> retarget_increment d * 99" using k by (intro mult_le_mono2)
  also have "\<dots> < 2 ^ 512" using d by (simp add: retarget_increment_def RETARGET_INCREMENT_DIVISOR_def)
  finally show ?thesis .
qed

text \<open>The retarget without the width of its numbers.\<close>

lemma calculate_difficulty_exact:
  assumes d: "get_min_difficulty \<le> d" "d \<le> get_max_difficulty" and adj: "a = retarget_adjustment b t"
  shows "calculate_difficulty d b t =
    (if 0 \<le> a then min (d + retarget_increment d * nat a) get_max_difficulty
     else max (d - retarget_increment d * nat (- a)) get_min_difficulty)"
proof -
  have w: "d < 2 ^ 512" using d(2) by (simp add: get_max_difficulty_def)
  have a: "- 99 \<le> a" "a \<le> 1" using retarget_adjustment_bounds [of b t] adj by simp_all
  have up: "sat_mul 512 (retarget_increment d) (nat a) = retarget_increment d * nat a"
    using increment_small [OF w, of "nat a"] a by (intro sat_mul_exact) simp
  have down: "sat_mul 512 (retarget_increment d) (nat (- a)) = retarget_increment d * nat (- a)"
    using increment_small [OF w, of "nat (- a)"] a by (intro sat_mul_exact) simp
  show ?thesis
    using d unfolding calculate_difficulty_def Let_def adj [symmetric] up down
    by (auto simp: sat_add_def get_max_difficulty_def)
qed

lemma reachable_difficulty:
  "qpow_reachable qc q \<Longrightarrow> get_min_difficulty \<le> CurrentDifficulty q \<and> CurrentDifficulty q \<le> get_max_difficulty"
proof (induction rule: qpow_reachable.induct)
  case (qpow_start d t q)
  then show ?case by (auto simp: qpow_genesis_def split: if_splits)
next
  case (qpow_block q now n)
  then show ?case
    using calculate_difficulty_bounds by (simp add: qpow_on_finalize_def adjust_difficulty_def Let_def split: if_splits)
qed

lemma reachable_get_difficulty: "qpow_reachable qc q \<Longrightarrow> get_difficulty qc q = CurrentDifficulty q"
  using reachable_difficulty [of qc q] by (simp add: get_difficulty_def get_min_difficulty_def)

lemma on_finalize_difficulty:
  "\<exists>b. CurrentDifficulty (qpow_on_finalize qc now n q) = calculate_difficulty (get_difficulty qc q) b (target_block_time qc q)"
  by (auto simp: qpow_on_finalize_def adjust_difficulty_def Let_def target_block_time_def split: if_splits)

lemma increment_pos: "0 < retarget_increment d"
  by (simp add: retarget_increment_def)

section \<open>Properties\<close>

text \<open>
  C31: The difficulty stays in range and moves by bounded steps. In every state reached from a genesis the
  pallet accepts, whatever timestamps the authors choose, the difficulty is between 128 and the largest
  \<open>U512\<close>, and one block raises it by at most one increment (a 2048th, at least one) and lowers it
  by at most ninety-nine.
\<close>

theorem difficulty_step_bounds:
  assumes "qpow_reachable qc q"
  shows "128 \<le> get_difficulty qc q \<and> get_difficulty qc q < 2 ^ 512
    \<and> 128 \<le> get_difficulty qc (qpow_on_finalize qc now n q)
    \<and> get_difficulty qc (qpow_on_finalize qc now n q)
        \<le> get_difficulty qc q + max (get_difficulty qc q div 2048) 1
    \<and> get_difficulty qc q
        \<le> get_difficulty qc (qpow_on_finalize qc now n q) + 99 * max (get_difficulty qc q div 2048) 1"
proof -
  let ?d = "get_difficulty qc q" and ?q' = "qpow_on_finalize qc now n q"
  have d: "get_min_difficulty \<le> ?d" "?d \<le> get_max_difficulty"
    using reachable_difficulty [OF assms] reachable_get_difficulty [OF assms] by simp_all
  have reach: "qpow_reachable qc ?q'" by (rule qpow_block [OF assms])
  obtain b where b: "get_difficulty qc ?q' = calculate_difficulty ?d b (target_block_time qc q)"
    using on_finalize_difficulty [of qc now n q] reachable_get_difficulty [OF reach] by auto
  define a where "a = retarget_adjustment b (target_block_time qc q)"
  have a: "nat a \<le> 1" "nat (- a) \<le> 99"
    using retarget_adjustment_bounds [of b "target_block_time qc q"] unfolding a_def by linarith+
  have inc: "retarget_increment ?d = max (?d div 2048) 1" by (simp add: retarget_increment_def RETARGET_INCREMENT_DIVISOR_def)
  have up: "retarget_increment ?d * nat a \<le> retarget_increment ?d" using a(1) mult_le_mono2 [of "nat a" 1] by simp
  have down: "retarget_increment ?d * nat (- a) \<le> 99 * retarget_increment ?d" using a(2) mult_le_mono2 [of "nat (- a)" 99] by (simp add: mult.commute)
  have range: "128 \<le> ?d" "?d < 2 ^ 512" "128 \<le> get_difficulty qc ?q'"
    using d calculate_difficulty_bounds [of ?d b "target_block_time qc q"] b
    by (simp_all add: get_min_difficulty_def get_max_difficulty_def)
  show ?thesis
  proof (cases "0 \<le> a")
    case True
    then have e: "get_difficulty qc ?q' = min (?d + retarget_increment ?d * nat a) get_max_difficulty"
      using calculate_difficulty_exact [OF d a_def] b by simp
    have "get_difficulty qc ?q' \<le> ?d + retarget_increment ?d" "?d \<le> get_difficulty qc ?q'"
      using e up d by linarith+
    then show ?thesis using range unfolding inc by (intro conjI) linarith+
  next
    case False
    then have e: "get_difficulty qc ?q' = max (?d - retarget_increment ?d * nat (- a)) get_min_difficulty"
      using calculate_difficulty_exact [OF d a_def] b by simp
    have "get_difficulty qc ?q' \<le> ?d" using e d by simp
    moreover have "?d \<le> get_difficulty qc ?q' + 99 * retarget_increment ?d" using e down by linarith
    ultimately show ?thesis using range unfolding inc by (intro conjI) linarith+
  qed
qed

definition sample_qpow_config :: qpow_config where
  "sample_qpow_config = \<lparr>InitialDifficulty = 5000, TargetBlockTime = 120000\<rparr>"

definition sample_qpow :: qpow where
  "sample_qpow = \<lparr>LastBlockTime = 0, LastBlockDuration = 0, CurrentDifficulty = 5000, TargetBlockTimeMs = 120000, qpow_events = []\<rparr>"

lemma sample_qpow_genesis: "qpow_genesis 5000 120000 = Some sample_qpow"
  by (simp add: qpow_genesis_def sample_qpow_def get_min_difficulty_def get_max_difficulty_def)

lemma sample_difficulty: "get_difficulty sample_qpow_config sample_qpow = 5000"
  by (simp add: get_difficulty_def sample_qpow_def)

theorem difficulty_step_bounds_witness:
  "get_difficulty sample_qpow_config sample_qpow = 5000
   \<and> get_difficulty sample_qpow_config (qpow_on_finalize sample_qpow_config 10000000 7 sample_qpow) \<le> 5002
   \<and> 4802 \<le> get_difficulty sample_qpow_config (qpow_on_finalize sample_qpow_config 10000000 7 sample_qpow)"
  using difficulty_step_bounds [OF qpow_start [OF sample_qpow_genesis], of sample_qpow_config 10000000 7]
  by (simp add: sample_difficulty)

section \<open>Steering\<close>

lemma calculate_difficulty_up:
  assumes "128 \<le> d" "d < 2 ^ 512" "retarget_adjustment b t = 1"
  shows "calculate_difficulty d b t = min (d + max (d div 2048) 1) (2 ^ 512 - 1)"
  using calculate_difficulty_exact [of d 1 b t] assms
  by (simp add: get_min_difficulty_def get_max_difficulty_def retarget_increment_def RETARGET_INCREMENT_DIVISOR_def)

lemma calculate_difficulty_same:
  assumes "128 \<le> d" "d < 2 ^ 512" "retarget_adjustment b t = 0"
  shows "calculate_difficulty d b t = d"
  using calculate_difficulty_exact [of d 0 b t] assms
  by (simp add: get_min_difficulty_def get_max_difficulty_def)

lemma calculate_difficulty_mono:
  assumes d: "128 \<le> d" "d < 2 ^ 512" and a: "retarget_adjustment b' t \<le> retarget_adjustment b t"
  shows "calculate_difficulty d b' t \<le> calculate_difficulty d b t"
proof -
  have d': "get_min_difficulty \<le> d" "d \<le> get_max_difficulty"
    using d by (simp_all add: get_min_difficulty_def get_max_difficulty_def)
  let ?a = "retarget_adjustment b t" and ?a' = "retarget_adjustment b' t"
  have up: "retarget_increment d * nat ?a' \<le> retarget_increment d * nat ?a" using a by (intro mult_le_mono2) simp
  have down: "retarget_increment d * nat (- ?a) \<le> retarget_increment d * nat (- ?a')" using a by (intro mult_le_mono2) simp
  have e: "calculate_difficulty d b t = (if 0 \<le> ?a then min (d + retarget_increment d * nat ?a) get_max_difficulty
      else max (d - retarget_increment d * nat (- ?a)) get_min_difficulty)"
    and e': "calculate_difficulty d b' t = (if 0 \<le> ?a' then min (d + retarget_increment d * nat ?a') get_max_difficulty
      else max (d - retarget_increment d * nat (- ?a')) get_min_difficulty)"
    by (rule calculate_difficulty_exact [OF d' refl])+
  consider (same) "0 \<le> ?a'" "0 \<le> ?a" | (across) "\<not> 0 \<le> ?a'" "0 \<le> ?a" | (below) "\<not> 0 \<le> ?a'" "\<not> 0 \<le> ?a"
    using a by linarith
  then show ?thesis
  proof cases
    case same
    have "min (d + retarget_increment d * nat ?a') get_max_difficulty \<le> min (d + retarget_increment d * nat ?a) get_max_difficulty"
      using up by (intro min.mono add_left_mono order_refl)
    then show ?thesis unfolding e e' if_P [OF same(1)] if_P [OF same(2)] .
  next
    case across
    have "max (d - retarget_increment d * nat (- ?a')) get_min_difficulty \<le> d"
      using d'(1) by (intro max.boundedI diff_le_self)
    also have "d \<le> min (d + retarget_increment d * nat ?a) get_max_difficulty"
      using d'(2) by (intro min.boundedI le_add1)
    finally show ?thesis unfolding e e' if_not_P [OF across(1)] if_P [OF across(2)] .
  next
    case below
    have "max (d - retarget_increment d * nat (- ?a')) get_min_difficulty \<le> max (d - retarget_increment d * nat (- ?a)) get_min_difficulty"
      using down by (intro max.mono diff_le_mono2 order_refl)
    then show ?thesis unfolding e e' if_not_P [OF below(1)] if_not_P [OF below(2)] .
  qed
qed

lemma target_bucket:
  assumes "500 \<le> t" "t * 693147 < 2 ^ 64"
  shows "max t 500 div retarget_divisor t = 1"
proof -
  define k where "k = t * 693147 div 1000000"
  have k: "retarget_divisor t = k" using assms by (simp add: retarget_divisor_def sat_mul_def max_u_def RETARGET_LN2_NUM_def RETARGET_LN2_DEN_def k_def)
  have "k * 1000000 \<le> t * 693147" unfolding k_def by (rule div_times_less_eq_dividend)
  moreover have "t * 693147 < 1000000 + k * 1000000" unfolding k_def by (rule dividend_less_div_times) simp
  ultimately have kt: "k \<le> t" "t < k + k" using assms(1) by linarith+
  have "max t 500 = t" using assms(1) by simp
  then show ?thesis unfolding k using kt by (intro div_nat_eqI) simp_all
qed

lemma adjustment_antitone:
  assumes "3 \<le> t" "b \<le> b'" "b' < 2 ^ 64"
  shows "retarget_adjustment b' t \<le> retarget_adjustment b t"
proof -
  have "max b 500 div retarget_divisor t \<le> max b' 500 div retarget_divisor t"
    using assms(2) by (intro div_le_mono) simp
  then have "int (max b 500 div retarget_divisor t) \<le> int (max b' 500 div retarget_divisor t)"
    by (simp only: of_nat_le_iff)
  then show ?thesis
    unfolding retarget_adjustment_exact [OF buckets_small [OF assms(1,3)]]
      retarget_adjustment_exact [OF buckets_small [OF assms(1) le_less_trans [OF assms(2,3)]]]
    by linarith
qed

text \<open>
  The retarget steers towards the target. For a target of at least three milliseconds a longer block
  never leaves a higher difficulty than a shorter one; a target from half a second up to the width of the
  multiplication is a fixed point, where the difficulty does not move; and a block inside the first time
  bucket raises it by one increment, up to the maximum.
\<close>

theorem retarget_steers:
  assumes d: "128 \<le> d" "d < 2 ^ 512" and t: "3 \<le> t"
  shows "(b \<le> b' \<and> b' < 2 ^ 64 \<longrightarrow> calculate_difficulty d b' t \<le> calculate_difficulty d b t)
    \<and> (500 \<le> t \<and> t * 693147 < 2 ^ 64 \<longrightarrow> calculate_difficulty d t t = d)
    \<and> (max b 500 < retarget_divisor t \<longrightarrow>
         calculate_difficulty d b t = min (d + max (d div 2048) 1) (2 ^ 512 - 1))"
proof (intro conjI impI)
  assume "b \<le> b' \<and> b' < 2 ^ 64"
  then show "calculate_difficulty d b' t \<le> calculate_difficulty d b t"
    using calculate_difficulty_mono [OF d] adjustment_antitone [OF t] by blast
next
  assume "500 \<le> t \<and> t * 693147 < 2 ^ 64"
  then have "retarget_adjustment t t = 0" using retarget_adjustment_exact [of t t] target_bucket [of t] by simp
  then show "calculate_difficulty d t t = d" by (rule calculate_difficulty_same [OF d])
next
  assume "max b 500 < retarget_divisor t"
  then have "retarget_adjustment b t = 1" using retarget_adjustment_exact [of b t] by (simp add: div_less)
  then show "calculate_difficulty d b t = min (d + max (d div 2048) 1) (2 ^ 512 - 1)"
    by (rule calculate_difficulty_up [OF d])
qed

theorem retarget_steers_witness:
  "calculate_difficulty 5000 300000 120000 \<le> calculate_difficulty 5000 1000 120000
   \<and> calculate_difficulty 5000 120000 120000 = 5000 \<and> calculate_difficulty 5000 1000 120000 = 5002"
  using retarget_steers [of 5000 120000 1000 300000]
  by (simp add: retarget_divisor_def sat_mul_def max_u_def RETARGET_LN2_NUM_def RETARGET_LN2_DEN_def)

text \<open>A run of blocks with the given block times.\<close>

definition after_blocks :: "nat \<Rightarrow> nat \<Rightarrow> nat list \<Rightarrow> nat" where
  "after_blocks d t bs = foldl (\<lambda>d b. calculate_difficulty d b t) d bs"

lemma fast_block_rises:
  assumes "128 \<le> d" "d < 2 ^ 512" "max b 500 < retarget_divisor t"
  shows "min (d + 1) (2 ^ 512 - 1) \<le> calculate_difficulty d b t"
proof -
  have "retarget_adjustment b t = 1" using assms(3) retarget_adjustment_exact [of b t] by (simp add: div_less)
  then show ?thesis using calculate_difficulty_up [OF assms(1,2)] by simp
qed

text \<open>
  The difficulty recovers. From any value in range, the floor included, \<open>n\<close> blocks that are all
  faster than the first time bucket leave the difficulty at least \<open>n\<close> higher or at the maximum: no
  value is a trap.
\<close>

theorem difficulty_recovers:
  assumes "128 \<le> d" "d < 2 ^ 512" "list_all (\<lambda>b. max b 500 < retarget_divisor t) bs"
  shows "min (d + length bs) (2 ^ 512 - 1) \<le> after_blocks d t bs"
  using assms
proof (induction bs arbitrary: d)
  case Nil
  then show ?case by (simp add: after_blocks_def)
next
  case (Cons b bs)
  let ?d = "calculate_difficulty d b t"
  have rise: "min (d + 1) (2 ^ 512 - 1) \<le> ?d" using Cons.prems by (intro fast_block_rises) simp_all
  have "128 \<le> ?d" "?d < 2 ^ 512"
    using calculate_difficulty_bounds [of d b t] by (simp_all add: get_min_difficulty_def get_max_difficulty_def)
  moreover have "list_all (\<lambda>b. max b 500 < retarget_divisor t) bs"
    using Cons.prems(3) by (simp only: list.pred_inject)
  ultimately have "min (?d + length bs) (2 ^ 512 - 1) \<le> after_blocks ?d t bs" by (rule Cons.IH)
  moreover have "after_blocks d t (b # bs) = after_blocks ?d t bs" by (simp add: after_blocks_def)
  moreover have "length (b # bs) = length bs + 1" by simp
  ultimately show ?case using rise by linarith
qed

theorem difficulty_recovers_witness:
  "131 \<le> after_blocks 128 120000 [1000, 0, 60000]"
  using difficulty_recovers [of 128 120000 "[1000, 0, 60000]"]
  by (simp add: retarget_divisor_def sat_mul_def max_u_def RETARGET_LN2_NUM_def RETARGET_LN2_DEN_def)

end
