(* ===== verification/RandomX.thy ===== *)
theory RandomX
  imports Prelude
begin

text \<open>
  The pure rules of the proof of work, \<open>chain/client/consensus/randomx/src\<close>: the seed schedule and
  the walk that finds a seed block (\<open>seed.rs\<close>), the difficulty comparisons (\<open>target.rs\<close>), the
  mining blob (\<open>blob.rs\<close>) and the seal (\<open>seal.rs\<close>).

  The lemmas show that the schedule is Monero's masked rule at powers of two, that the walk finds the
  ancestor within its bound, that the share test and the block test differ at one value only, and that
  blob and seal have no byte the work does not fix.
\<close>

unbundle bit_operations_syntax

section \<open>The seed schedule\<close>

definition seed_height :: "nat \<Rightarrow> nat \<Rightarrow> nat \<Rightarrow> nat" where
  "seed_height height epoch_blocks lag =
     (let epoch = max epoch_blocks 1
      in if height \<le> sat_add 64 epoch lag then 0
         else let anchor = height - lag - 1 in anchor - anchor mod epoch)"

definition next_seed_height :: "nat \<Rightarrow> nat \<Rightarrow> nat \<Rightarrow> nat" where
  "next_seed_height height epoch_blocks lag = seed_height (sat_add 64 height lag) epoch_blocks lag"

text \<open>\<open>ChainView\<close>: the canonical block at a height, and the parent of a block.\<close>

record chain_view =
  canonical_hash :: "nat \<Rightarrow> (string, hash256 option) result"
  parent_of :: "hash256 \<Rightarrow> (string, hash256 option) result"

text \<open>The loop of \<open>resolve_on_branch\<close>, with the iterations left as its first number.\<close>

fun walk_branch :: "chain_view \<Rightarrow> nat \<Rightarrow> nat \<Rightarrow> hash256 \<Rightarrow> nat \<Rightarrow> (string, hash256 option) result" where
  "walk_branch view target_height 0 cursor cursor_height = Inr None"
| "walk_branch view target_height (Suc n) cursor cursor_height =
     (if cursor_height = target_height then Inr (Some cursor)
      else rbind (canonical_hash view cursor_height) (\<lambda>canonical.
        if canonical = Some cursor then canonical_hash view target_height
        else if cursor_height = 0 then Inr None
        else rbind (parent_of view cursor) (\<lambda>parent.
          case parent of
            Some p \<Rightarrow> walk_branch view target_height n p (cursor_height - 1)
          | None \<Rightarrow> Inr None)))"

definition resolve_on_branch ::
  "chain_view \<Rightarrow> hash256 \<Rightarrow> nat \<Rightarrow> nat \<Rightarrow> nat \<Rightarrow> (string, hash256 option) result" where
  "resolve_on_branch view parent_hash height target_height max_walk =
     (if height = 0 \<or> height \<le> target_height then Inr None
      else walk_branch view target_height (max_walk + 1) parent_hash (height - 1))"

section \<open>Difficulty comparisons\<close>

definition hash_as_le_u512 :: "hash256 \<Rightarrow> nat" where
  "hash_as_le_u512 hash = of_le_bytes hash"

definition meets_difficulty :: "hash256 \<Rightarrow> nat \<Rightarrow> bool" where
  "meets_difficulty hash difficulty =
     (if difficulty = 0 then False
      else let product = (hash_as_le_u512 hash * difficulty) mod 2 ^ 512;
               overflowed = 2 ^ 512 \<le> hash_as_le_u512 hash * difficulty
           in \<not> overflowed \<and> product \<le> 2 ^ 256 - 1)"

definition share_target_u64 :: "nat \<Rightarrow> nat" where
  "share_target_u64 share_difficulty = (2 ^ 64 - 1) div max share_difficulty 1"

definition meets_share_target :: "hash256 \<Rightarrow> nat \<Rightarrow> bool" where
  "meets_share_target hash target = (of_le_bytes (take 8 (drop 24 hash)) < target)"

definition difficulty_as_u64 :: "nat \<Rightarrow> nat" where
  "difficulty_as_u64 difficulty = (if 2 ^ 64 - 1 < difficulty then 2 ^ 64 - 1 else difficulty mod 2 ^ 64)"

section \<open>The blob\<close>

definition MINING_BLOB_LEN :: nat where "MINING_BLOB_LEN = 76"
definition NONCE_OFFSET :: nat where "NONCE_OFFSET = 39"
definition NONCE_LEN :: nat where "NONCE_LEN = 4"
definition PRE_HASH_OFFSET :: nat where "PRE_HASH_OFFSET = 7"
definition HEIGHT_OFFSET :: nat where "HEIGHT_OFFSET = 43"
definition EXTRA_NONCE_OFFSET :: nat where "EXTRA_NONCE_OFFSET = 51"

definition DOMAIN_TAG :: "byte list" where
  "DOMAIN_TAG = [0x71, 0x6e, 0x65, 0x72, 0x6f, 0x2f, 0x31]"

text \<open>\<open>buffer[at .. at + bytes.len()].copy_from_slice(bytes)\<close>.\<close>

definition copy_at :: "nat \<Rightarrow> 'a list \<Rightarrow> 'a list \<Rightarrow> 'a list" where
  "copy_at at bytes buffer = take at buffer @ bytes @ drop (at + length bytes) buffer"

definition build_blob :: "hash256 \<Rightarrow> nat \<Rightarrow> nat \<Rightarrow> nat \<Rightarrow> byte list" where
  "build_blob pre_hash height extra_nonce nonce =
     (let blob = replicate MINING_BLOB_LEN 0;
          blob = copy_at 0 DOMAIN_TAG blob;
          blob = copy_at PRE_HASH_OFFSET pre_hash blob;
          blob = copy_at NONCE_OFFSET (le_bytes NONCE_LEN nonce) blob;
          blob = copy_at HEIGHT_OFFSET (le_bytes 8 height) blob
      in copy_at EXTRA_NONCE_OFFSET (le_bytes 4 extra_nonce) blob)"

definition set_nonce :: "byte list \<Rightarrow> nat \<Rightarrow> byte list" where
  "set_nonce blob nonce = copy_at NONCE_OFFSET (le_bytes NONCE_LEN nonce) blob"

definition read_nonce :: "byte list \<Rightarrow> nat" where
  "read_nonce blob = of_le_bytes (take NONCE_LEN (drop NONCE_OFFSET blob))"

section \<open>The seal\<close>

definition SEAL_LEN :: nat where "SEAL_LEN = 64"

definition SEAL_PADDING :: "byte list" where
  "SEAL_PADDING = replicate (SEAL_LEN - 8) 0"

record seal =
  nonce :: nat
  extra_nonce :: nat

datatype seal_error = WrongLength nat | UnpinnedPadding

definition seal_encode :: "seal \<Rightarrow> byte list" where
  "seal_encode s =
     (let bytes = replicate SEAL_LEN 0;
          bytes = copy_at 0 (le_bytes NONCE_LEN (nonce s)) bytes;
          bytes = copy_at NONCE_LEN (le_bytes 4 (extra_nonce s)) bytes
      in copy_at 8 SEAL_PADDING bytes)"

definition seal_decode :: "byte list \<Rightarrow> (seal_error, seal) result" where
  "seal_decode bytes =
     ensure (length bytes = SEAL_LEN) (WrongLength (length bytes))
       (ensure (drop 8 bytes = SEAL_PADDING) UnpinnedPadding
         (Inr \<lparr>nonce = of_le_bytes (take NONCE_LEN bytes),
               extra_nonce = of_le_bytes (take 4 (drop NONCE_LEN bytes))\<rparr>))"

section \<open>Lemmas on the schedule\<close>

lemma seed_height_early: "height \<le> epoch + lag \<Longrightarrow> epoch + lag < 2 ^ 64 \<Longrightarrow> 0 < epoch \<Longrightarrow> seed_height height epoch lag = 0"
  by (simp add: seed_height_def sat_add_exact)

lemma seed_height_late:
  assumes "epoch + lag < height" "epoch + lag < 2 ^ 64" "0 < epoch"
  shows "seed_height height epoch lag = (height - lag - 1) - (height - lag - 1) mod epoch"
  using assms by (cases "epoch = 1") (simp_all add: seed_height_def sat_add_exact max_def Let_def)

lemma seed_height_window:
  assumes "0 < height" "epoch + lag < 2 ^ 64" "0 < epoch"
  shows "seed_height height epoch lag < height \<and> height - 1 - seed_height height epoch lag < epoch + lag"
proof (cases "height \<le> epoch + lag")
  case True
  then show ?thesis using seed_height_early [OF True assms(2,3)] assms(1) by simp
next
  case False
  define a where "a = height - lag - 1"
  have m: "a mod epoch < epoch" "a mod epoch \<le> a" using assms(3) by simp_all
  have "seed_height height epoch lag = a - a mod epoch" using False assms seed_height_late unfolding a_def by simp
  then show ?thesis using m False unfolding a_def by linarith
qed

lemma seed_height_dvd:
  assumes "epoch + lag < 2 ^ 64" "0 < epoch"
  shows "epoch dvd seed_height height epoch lag"
proof (cases "height \<le> epoch + lag")
  case True
  then show ?thesis using seed_height_early assms by simp
next
  case False
  then have "seed_height height epoch lag = (height - lag - 1) div epoch * epoch"
    using seed_height_late assms by (simp add: minus_mod_eq_div_mult)
  then show ?thesis by simp
qed

lemma seed_height_mono:
  assumes "h \<le> h'" "epoch + lag < 2 ^ 64" "0 < epoch"
  shows "seed_height h epoch lag \<le> seed_height h' epoch lag"
proof (cases "h \<le> epoch + lag")
  case True
  then show ?thesis using seed_height_early assms by simp
next
  case False
  have "(h - lag - 1) div epoch * epoch \<le> (h' - lag - 1) div epoch * epoch"
    using assms(1) by (intro mult_le_mono1 div_le_mono) simp
  then show ?thesis using False assms seed_height_late [of epoch lag h] seed_height_late [of epoch lag h']
    by (simp add: minus_mod_eq_div_mult)
qed

text \<open>Monero's masked form, on 64-bit words.\<close>

definition masked_seed_height :: "64 word \<Rightarrow> 64 word \<Rightarrow> 64 word \<Rightarrow> 64 word" where
  "masked_seed_height h epoch lag = (if h \<le> epoch + lag then 0 else (h - lag - 1) AND NOT (epoch - 1))"

lemma and_not_mask_word:
  fixes a :: "64 word"
  shows "unat (a AND NOT (mask k)) = unat a - unat a mod 2 ^ k"
proof -
  have t: "unat (take_bit k a) = unat a mod 2 ^ k"
    unfolding unsigned_take_bit_eq by (rule take_bit_eq_mod)
  have "a AND NOT (mask k) = push_bit k (drop_bit k a)"
    by (rule bit_word_eqI) (auto simp: bit_simps)
  then have "a AND NOT (mask k) = a - take_bit k a" using bits_ident [of k a] by (simp add: eq_diff_eq)
  moreover have "take_bit k a \<le> a" unfolding word_le_nat_alt t by simp
  ultimately show ?thesis by (simp add: unat_sub t)
qed

lemma unat_of_nat_64: "n < 2 ^ 64 \<Longrightarrow> unat (word_of_nat n :: 64 word) = n"
  by (simp add: unat_of_nat)

lemma masked_seed_height_eq:
  assumes "h < 2 ^ 64" "2 ^ k + lag < (2 :: nat) ^ 64"
  shows "unat (masked_seed_height (word_of_nat h) (word_of_nat (2 ^ k)) (word_of_nat lag)) = seed_height h (2 ^ k) lag"
proof -
  have w: "unat (word_of_nat h :: 64 word) = h" "unat (word_of_nat (2 ^ k) + word_of_nat lag :: 64 word) = 2 ^ k + lag"
    using unat_of_nat_64 [OF assms(1)] unat_of_nat_64 [OF assms(2)] by (simp_all only: of_nat_add)
  show ?thesis
  proof (cases "h \<le> 2 ^ k + lag")
    case True
    then have "(word_of_nat h :: 64 word) \<le> word_of_nat (2 ^ k) + word_of_nat lag" by (simp only: word_le_nat_alt w)
    then show ?thesis using True assms(2) by (simp add: masked_seed_height_def seed_height_early)
  next
    case False
    then have gt: "\<not> (word_of_nat h :: 64 word) \<le> word_of_nat (2 ^ k) + word_of_nat lag"
      by (simp only: word_le_nat_alt w not_False_eq_True)
    have anchor: "(word_of_nat h - word_of_nat lag - 1 :: 64 word) = word_of_nat (h - lag - 1)"
      using False by (simp add: of_nat_diff)
    have small: "unat (word_of_nat (h - lag - 1) :: 64 word) = h - lag - 1"
      using assms(1) by (intro unat_of_nat_64) simp
    have mask: "(word_of_nat (2 ^ k) - 1 :: 64 word) = mask k" by (simp add: mask_eq_decr_exp)
    have late: "seed_height h (2 ^ k) lag = h - lag - 1 - (h - lag - 1) mod 2 ^ k"
      using False assms(2) by (intro seed_height_late) simp_all
    have "masked_seed_height (word_of_nat h) (word_of_nat (2 ^ k)) (word_of_nat lag) = word_of_nat (h - lag - 1) AND NOT (mask k)"
      unfolding masked_seed_height_def if_not_P [OF gt] anchor mask by (rule refl)
    then show ?thesis by (simp only: and_not_mask_word small late)
  qed
qed

section \<open>Lemmas on the walk\<close>

text \<open>
  What the client answers about a candidate's ancestry: the parent of every block of the branch, the
  canonical block at every height of it, and that a branch block that is canonical has only canonical
  ancestors.
\<close>

definition sees_branch :: "chain_view \<Rightarrow> (nat \<Rightarrow> hash256) \<Rightarrow> nat \<Rightarrow> bool" where
  "sees_branch view branch height \<longleftrightarrow>
     (\<forall>n. Suc n < height \<longrightarrow> parent_of view (branch (Suc n)) = Inr (Some (branch n)))
     \<and> (\<forall>n<height. is_ok (canonical_hash view n))
     \<and> (\<forall>n<height. canonical_hash view n = Inr (Some (branch n)) \<longrightarrow>
          (\<forall>m\<le>n. canonical_hash view m = Inr (Some (branch m))))"

lemma sees_branchD:
  assumes "sees_branch view branch height"
  shows "Suc n < height \<Longrightarrow> parent_of view (branch (Suc n)) = Inr (Some (branch n))"
    and "n < height \<Longrightarrow> \<exists>x. canonical_hash view n = Inr x"
    and "n < height \<Longrightarrow> canonical_hash view n = Inr (Some (branch n)) \<Longrightarrow> m \<le> n \<Longrightarrow> canonical_hash view m = Inr (Some (branch m))"
  using assms unfolding sees_branch_def is_ok_iff by blast+

lemma walk_branch_finds:
  assumes "sees_branch view branch height" "t \<le> c" "c < height" "c - t < n"
  shows "walk_branch view t n (branch c) c = Inr (Some (branch t))"
  using assms(2-)
proof (induction n arbitrary: c)
  case 0
  then show ?case by simp
next
  case (Suc n)
  show ?case
  proof (cases "c = t")
    case True
    then show ?thesis by simp
  next
    case False
    then obtain c' where c: "c = Suc c'" using Suc.prems(1) by (cases c) simp_all
    obtain x where x: "canonical_hash view c = Inr x"
      using sees_branchD(2) [OF assms(1) Suc.prems(2)] by blast
    have parent: "parent_of view (branch c) = Inr (Some (branch c'))"
      using sees_branchD(1) [OF assms(1)] Suc.prems(2) c by simp
    have low: "x = Some (branch c) \<Longrightarrow> canonical_hash view t = Inr (Some (branch t))"
      using sees_branchD(3) [OF assms(1) Suc.prems(2) _ Suc.prems(1)] x by simp
    have "walk_branch view t n (branch c') c' = Inr (Some (branch t))"
      using Suc.prems False c by (intro Suc.IH) simp_all
    then show ?thesis using False x parent low c by simp
  qed
qed

lemma resolve_on_branch_finds:
  assumes "sees_branch view branch height" "t < height" "height - 1 - t \<le> max_walk"
  shows "resolve_on_branch view (branch (height - 1)) height t max_walk = Inr (Some (branch t))"
proof -
  have "walk_branch view t (max_walk + 1) (branch (height - 1)) (height - 1) = Inr (Some (branch t))"
    using assms by (intro walk_branch_finds [OF assms(1)]) simp_all
  then show ?thesis using assms(2) by (simp only: resolve_on_branch_def) auto
qed

lemma next_seed_window:
  assumes "0 < height" "height + lag < 2 ^ 64" "epoch + lag < 2 ^ 64" "0 < epoch"
  shows "seed_height height epoch lag \<le> next_seed_height height epoch lag
    \<and> next_seed_height height epoch lag < height \<and> height - 1 - next_seed_height height epoch lag < epoch + lag"
proof -
  have e: "next_seed_height height epoch lag = seed_height (height + lag) epoch lag"
    using assms(2) by (simp add: next_seed_height_def sat_add_exact)
  have "seed_height height epoch lag \<le> seed_height (height + lag) epoch lag"
    using assms by (intro seed_height_mono) simp_all
  moreover have "seed_height (height + lag) epoch lag < height"
  proof (cases "height + lag \<le> epoch + lag")
    case True
    then show ?thesis using assms by (simp add: seed_height_early)
  next
    case False
    then have "seed_height (height + lag) epoch lag = (height - 1) - (height - 1) mod epoch"
      using seed_height_late [of epoch lag "height + lag"] assms by simp
    then show ?thesis using assms(1) by linarith
  qed
  moreover have "height - 1 - seed_height height epoch lag < epoch + lag"
    using seed_height_window assms by simp
  ultimately show ?thesis unfolding e by linarith
qed

section \<open>Lemmas on the comparisons\<close>

lemma of_le_bytes_append: "of_le_bytes (xs @ ys) = of_le_bytes xs + 256 ^ length xs * of_le_bytes ys"
  by (induction xs) (simp_all add: algebra_simps)

lemma hash_split:
  assumes "length hash = 32"
  obtains low where "low < 2 ^ 192" "of_le_bytes hash = low + 2 ^ 192 * of_le_bytes (take 8 (drop 24 hash))"
proof
  let ?low = "of_le_bytes (take 24 hash)"
  have "256 ^ 24 = (2 :: nat) ^ 192" by simp
  then show "?low < 2 ^ 192" using of_le_bytes_bound [of "take 24 hash"] assms by simp
  have top: "drop 24 hash = take 8 (drop 24 hash)" using assms by simp
  have "256 ^ length (take 24 hash) = (2 :: nat) ^ 192" using assms by simp
  then show "of_le_bytes hash = ?low + 2 ^ 192 * of_le_bytes (take 8 (drop 24 hash))"
    using of_le_bytes_append [of "take 24 hash" "drop 24 hash"] unfolding top [symmetric] append_take_drop_id by simp
qed

lemma product_fits:
  fixes x a b :: nat
  assumes "b < a" "0 < b"
  shows "(\<not> a \<le> x \<and> x mod a \<le> b - 1) \<longleftrightarrow> x < b"
  using assms by (cases "x < a") auto

lemma meets_difficulty_iff:
  assumes "0 < d"
  shows "meets_difficulty hash d \<longleftrightarrow> of_le_bytes hash * d < 2 ^ 256"
proof -
  have "(2 :: nat) ^ 256 < 2 ^ 512" by (rule power_strict_increasing) simp_all
  from product_fits [OF this zero_less_power [OF zero_less_numeral], of "of_le_bytes hash * d"] show ?thesis
    unfolding meets_difficulty_def hash_as_le_u512_def Let_def if_not_P [OF assms [THEN gr_implies_not0]] .
qed

lemma div_upper:
  fixes a b c :: nat
  assumes "0 < c"
  shows "a \<le> b div c \<longleftrightarrow> a * c \<le> b"
  using assms by (simp add: less_eq_div_iff_mult_less_eq)

lemma top_block:
  fixes low top d :: nat
  assumes "low < 2 ^ 192" "(low + 2 ^ 192 * top) * d < 2 ^ 256"
  shows "top * d < 2 ^ 64"
proof -
  have "2 ^ 192 * (top * d) \<le> (low + 2 ^ 192 * top) * d" by (simp add: algebra_simps)
  also note assms(2)
  finally have "2 ^ 192 * (top * d) < 2 ^ 192 * (2 ^ 64)" by simp
  then show ?thesis by (rule mult_left_less_imp_less) simp
qed

lemma top_share:
  fixes low top d :: nat
  assumes "low < 2 ^ 192" "(top + 1) * d < 2 ^ 64"
  shows "(low + 2 ^ 192 * top) * d < 2 ^ 256"
proof -
  have "(low + 2 ^ 192 * top) * d \<le> (2 ^ 192 * (top + 1)) * d" using assms(1) by (intro mult_le_mono1) simp
  also have "\<dots> = 2 ^ 192 * ((top + 1) * d)" by (rule mult.assoc)
  also have "\<dots> < 2 ^ 192 * 2 ^ 64" using assms(2) by (intro mult_strict_left_mono) simp_all
  finally show ?thesis by simp
qed

section \<open>Lemmas on the layouts\<close>

lemmas layout_defs = MINING_BLOB_LEN_def NONCE_OFFSET_def NONCE_LEN_def PRE_HASH_OFFSET_def HEIGHT_OFFSET_def
  EXTRA_NONCE_OFFSET_def SEAL_LEN_def SEAL_PADDING_def

lemma length_DOMAIN_TAG [simp]: "length DOMAIN_TAG = 7"
  by (simp add: DOMAIN_TAG_def)

lemma build_blob_layout:
  assumes "length pre_hash = 32"
  shows "build_blob pre_hash height extra n =
    DOMAIN_TAG @ pre_hash @ le_bytes 4 n @ le_bytes 8 height @ le_bytes 4 extra @ replicate 21 0"
  using assms by (simp add: build_blob_def copy_at_def layout_defs Let_def)

lemma seal_encode_layout: "seal_encode s = le_bytes 4 (nonce s) @ le_bytes 4 (extra_nonce s) @ replicate 56 0"
  by (simp add: seal_encode_def copy_at_def layout_defs Let_def)

lemma seal_decode_iff:
  "seal_decode bytes = Inr s \<longleftrightarrow> nonce s < 2 ^ 32 \<and> extra_nonce s < 2 ^ 32 \<and> bytes = seal_encode s"
proof
  assume ok: "seal_decode bytes = Inr s"
  then have len: "length bytes = 64" and pad: "drop 8 bytes = replicate 56 0"
    and s: "s = \<lparr>nonce = of_le_bytes (take 4 bytes), extra_nonce = of_le_bytes (take 4 (drop 4 bytes))\<rparr>"
    by (auto simp: seal_decode_def layout_defs)
  have "le_bytes 4 (of_le_bytes (take 4 bytes)) = take 4 bytes"
    "le_bytes 4 (of_le_bytes (take 4 (drop 4 bytes))) = take 4 (drop 4 bytes)"
    using le_bytes_of_le [of "take 4 bytes"] le_bytes_of_le [of "take 4 (drop 4 bytes)"] len by simp_all
  moreover have "bytes = take 4 bytes @ take 4 (drop 4 bytes) @ drop 8 bytes"
    by (metis add_2_eq_Suc' append_take_drop_id drop_drop numeral_Bit0)
  ultimately have "bytes = seal_encode s" using s pad by (simp add: seal_encode_layout)
  moreover have "of_le_bytes (take 4 bytes) < 2 ^ 32" "of_le_bytes (take 4 (drop 4 bytes)) < 2 ^ 32"
    using of_le_bytes_bound [of "take 4 bytes"] of_le_bytes_bound [of "take 4 (drop 4 bytes)"] len by simp_all
  ultimately show "nonce s < 2 ^ 32 \<and> extra_nonce s < 2 ^ 32 \<and> bytes = seal_encode s" using s by simp
next
  assume "nonce s < 2 ^ 32 \<and> extra_nonce s < 2 ^ 32 \<and> bytes = seal_encode s"
  then show "seal_decode bytes = Inr s"
    by (simp add: seal_decode_def seal_encode_layout layout_defs of_le_le_bytes)
qed

lemma build_blob_inject:
  assumes "length p = 32" "length p' = 32" "h < 2 ^ 64" "h' < 2 ^ 64" "e < 2 ^ 32" "e' < 2 ^ 32" "n < 2 ^ 32" "n' < 2 ^ 32"
  shows "build_blob p h e n = build_blob p' h' e' n' \<longleftrightarrow> p = p' \<and> h = h' \<and> e = e' \<and> n = n'"
proof -
  have "le_bytes 4 n = le_bytes 4 n' \<longleftrightarrow> n = n'" "le_bytes 4 e = le_bytes 4 e' \<longleftrightarrow> e = e'"
    using assms le_bytes_inject [of n 4 n'] le_bytes_inject [of e 4 e'] by auto
  moreover have "le_bytes 8 h = le_bytes 8 h' \<longleftrightarrow> h = h'"
    using assms le_bytes_inject [of h 8 h'] by auto
  ultimately show ?thesis using assms(1,2) by (auto simp: build_blob_layout)
qed

section \<open>Properties\<close>

text \<open>
  The seed schedule is Monero's. At every power-of-two epoch the truncating division equals the masked
  rule on 64-bit words; the seed is a strict ancestor at a multiple of the epoch, never moves back as the
  chain grows, and the seed announced for the next epoch is never older and already an ancestor too.
\<close>

theorem seed_schedule:
  assumes "0 < h" "h \<le> h'" "h' + lag < 2 ^ 64" "2 ^ k + lag < (2 :: nat) ^ 64"
  shows "seed_height h (2 ^ k) lag = unat (masked_seed_height (word_of_nat h) (word_of_nat (2 ^ k)) (word_of_nat lag))
    \<and> 2 ^ k dvd seed_height h (2 ^ k) lag
    \<and> seed_height h (2 ^ k) lag < h
    \<and> seed_height h (2 ^ k) lag \<le> seed_height h' (2 ^ k) lag
    \<and> seed_height h (2 ^ k) lag \<le> next_seed_height h (2 ^ k) lag
    \<and> next_seed_height h (2 ^ k) lag < h"
  using masked_seed_height_eq [of h k lag] seed_height_dvd [of "2 ^ k" lag h] seed_height_window [of h "2 ^ k" lag]
    seed_height_mono [of h h' "2 ^ k" lag] next_seed_window [of h lag "2 ^ k"] assms by simp

text \<open>The block after which the folk formula and the rule part, with the chain's constants.\<close>

theorem seed_schedule_witness:
  "seed_height 2177 (2 ^ 11) 128 = unat (masked_seed_height (word_of_nat 2177) (word_of_nat (2 ^ 11)) (word_of_nat 128))
   \<and> seed_height 2177 (2 ^ 11) 128 = 2048 \<and> seed_height 2177 (2 ^ 11) 128 \<le> seed_height 9000 (2 ^ 11) 128
   \<and> 2177 - 2177 mod 2048 - 128 = (1920 :: nat)"
proof -
  have "seed_height 2177 (2 ^ 11) 128 = 2048" by (simp add: seed_height_def sat_add_def)
  then show ?thesis using seed_schedule [of 2177 9000 128 11] by simp
qed

text \<open>
  C37: The seed walk reaches its block. For a candidate whose ancestry the client can read, on the canonical
  chain or on any fork, the bounded walk of \<open>epoch + lag\<close> steps returns the seed block and the next
  seed block of the candidate's own branch; it never gives up early and never answers from another branch.
\<close>

theorem seed_walk_reaches:
  assumes "sees_branch view branch height" "0 < height" "height + lag < 2 ^ 64" "epoch + lag < 2 ^ 64" "0 < epoch"
  shows "resolve_on_branch view (branch (height - 1)) height (seed_height height epoch lag) (epoch + lag)
      = Inr (Some (branch (seed_height height epoch lag)))
    \<and> resolve_on_branch view (branch (height - 1)) height (next_seed_height height epoch lag) (epoch + lag)
      = Inr (Some (branch (next_seed_height height epoch lag)))"
  using seed_height_window [OF assms(2,4,5)] next_seed_window [OF assms(2-5)]
    resolve_on_branch_finds [OF assms(1)] by simp

text \<open>A fork of height four whose blocks are named by one byte, off a canonical chain of other bytes.\<close>

definition fork_view :: chain_view where
  "fork_view = \<lparr>canonical_hash = (\<lambda>n. Inr (Some (if n \<le> 1 then [word_of_nat n] else [100]))),
     parent_of = (\<lambda>h. Inr (if h = [3] then Some [2] else if h = [2] then Some [1] else if h = [1] then Some [0] else None))\<rparr>"

definition fork_branch :: "nat \<Rightarrow> hash256" where
  "fork_branch n = (if n = 0 then [0] else if n = 1 then [1] else if n = 2 then [2] else [3])"

lemma fork_sees: "sees_branch fork_view fork_branch 4"
proof -
  have "n = 0 \<or> n = 1 \<or> n = 2 \<or> n = 3" if "n < 4" for n :: nat using that by linarith
  then show ?thesis
    unfolding sees_branch_def fork_view_def fork_branch_def
    by (auto simp: le_Suc_eq split: if_splits)
qed

theorem seed_walk_reaches_witness:
  "resolve_on_branch fork_view [3] 4 (seed_height 4 2 1) 3 = Inr (Some [2]) \<and> seed_height 4 2 1 = 2"
proof -
  have "seed_height 4 2 1 = 2" using seed_height_late [of 2 1 4] by simp
  then show ?thesis using seed_walk_reaches [OF fork_sees, of 1 2] by (simp add: fork_branch_def)
qed

text \<open>
  The share test approximates the block test and misses it at one value. For a difficulty a share target
  can express, a 32-byte hash wins a block exactly when its little-endian value times the difficulty stays
  below \<open>2 ^ 256\<close>; every hash that passes the share test passes the block test; and a hash that wins a
  block fails the share test only when its top 64 bits equal the target.
\<close>

theorem share_test_vs_block_test:
  assumes "length hash = 32" "0 < d" "d < 2 ^ 64"
  shows "(meets_difficulty hash d \<longleftrightarrow> of_le_bytes hash * d < 2 ^ 256)
    \<and> (meets_share_target hash (share_target_u64 d) \<longrightarrow> meets_difficulty hash d)
    \<and> (meets_difficulty hash d \<longrightarrow> meets_share_target hash (share_target_u64 d)
         \<or> of_le_bytes (drop 24 hash) = share_target_u64 d)"
proof -
  obtain low where low: "low < 2 ^ 192" "of_le_bytes hash = low + 2 ^ 192 * of_le_bytes (take 8 (drop 24 hash))"
    using hash_split [OF assms(1)] by blast
  define top where "top = of_le_bytes (take 8 (drop 24 hash))"
  have top': "of_le_bytes (drop 24 hash) = top" using assms(1) by (simp add: top_def)
  have t: "share_target_u64 d = (2 ^ 64 - 1) div d" using assms(2) by (cases "d = 1") (simp_all add: share_target_u64_def max_def)
  note iff = meets_difficulty_iff [OF assms(2)]
  have le: "x \<le> 2 ^ 64 - 1 \<longleftrightarrow> x < 2 ^ 64" for x :: nat by auto
  have share: "meets_share_target hash (share_target_u64 d) \<longleftrightarrow> (top + 1) * d < 2 ^ 64"
    using div_upper [OF assms(2), of "top + 1" "2 ^ 64 - 1"] unfolding meets_share_target_def t top_def [symmetric] le
    by (simp add: Suc_le_eq)
  have "top \<le> share_target_u64 d" if "meets_difficulty hash d"
    using top_block [OF low(1), of top d] that low(2) div_upper [OF assms(2), of top "2 ^ 64 - 1"]
    unfolding iff t top_def [symmetric] le by (simp only:)
  then have "meets_difficulty hash d \<Longrightarrow> top < share_target_u64 d \<or> top = share_target_u64 d" by (auto simp: le_less)
  moreover have "meets_share_target hash (share_target_u64 d) \<Longrightarrow> meets_difficulty hash d"
    using top_share [OF low(1), of top d] low(2) unfolding iff share top_def [symmetric] by (simp only:)
  ultimately show ?thesis unfolding top' meets_share_target_def top_def [symmetric] using iff by blast
qed

text \<open>A hash at the one value, with difficulty 3: the top 64 bits are the target and the low bits are zero.\<close>

definition edge_hash :: hash256 where
  "edge_hash = replicate 24 0 @ le_bytes 8 (share_target_u64 3)"

theorem share_test_vs_block_test_witness:
  "meets_difficulty edge_hash 3 \<and> \<not> meets_share_target edge_hash (share_target_u64 3)
   \<and> of_le_bytes (drop 24 edge_hash) = share_target_u64 3
   \<and> meets_share_target (replicate 32 0) (share_target_u64 3) \<and> meets_difficulty (replicate 32 0) 3"
proof -
  have len: "length edge_hash = 32" by (simp add: edge_hash_def)
  have t: "share_target_u64 3 = 6148914691236517205" by (simp add: share_target_u64_def)
  have top: "of_le_bytes (drop 24 edge_hash) = share_target_u64 3"
    by (simp add: edge_hash_def of_le_le_bytes t)
  have zero: "of_le_bytes (replicate 24 0) = 0" by (simp add: numeral_eq_Suc)
  have v: "of_le_bytes edge_hash * 3 < 2 ^ 256"
    by (simp add: edge_hash_def of_le_bytes_append of_le_le_bytes zero t)
  have "\<not> meets_share_target edge_hash (share_target_u64 3)" using top len by (simp add: meets_share_target_def)
  moreover have small: "(3 :: nat) < 2 ^ 64" and pos: "0 < (3 :: nat)" and len0: "length (replicate 32 (0 :: byte)) = 32"
    by simp_all
  have zero8: "of_le_bytes (replicate 8 0) = 0" by (simp add: numeral_eq_Suc)
  have "meets_share_target (replicate 32 0) (share_target_u64 3)" by (simp add: meets_share_target_def t zero8)
  moreover note share_test_vs_block_test [OF len pos small] share_test_vs_block_test [OF len0 pos small]
  ultimately show ?thesis using v top by blast
qed

text \<open>
  C38: A proof of work fixes every byte it may choose. A byte string is a seal exactly when it is the encoding
  of a nonce and an extra nonce of 32 bits; and two accepted seals hash the same blob only when the header,
  the height and all 64 bytes of the seal are the same.
\<close>

theorem seal_not_malleable:
  assumes "length pre_hash = 32" "length pre_hash' = 32" "height < 2 ^ 64" "height' < 2 ^ 64"
  shows "(seal_decode bytes = Inr s \<longleftrightarrow> nonce s < 2 ^ 32 \<and> extra_nonce s < 2 ^ 32 \<and> bytes = seal_encode s)
    \<and> (seal_decode bytes = Inr s \<and> seal_decode bytes' = Inr s' \<longrightarrow>
        (build_blob pre_hash height (extra_nonce s) (nonce s) = build_blob pre_hash' height' (extra_nonce s') (nonce s')
          \<longleftrightarrow> pre_hash = pre_hash' \<and> height = height' \<and> bytes = bytes'))"
proof (intro conjI impI)
  show "seal_decode bytes = Inr s \<longleftrightarrow> nonce s < 2 ^ 32 \<and> extra_nonce s < 2 ^ 32 \<and> bytes = seal_encode s"
    by (rule seal_decode_iff)
  assume ok: "seal_decode bytes = Inr s \<and> seal_decode bytes' = Inr s'"
  then have w: "nonce s < 2 ^ 32" "extra_nonce s < 2 ^ 32" "nonce s' < 2 ^ 32" "extra_nonce s' < 2 ^ 32"
    "bytes = seal_encode s" "bytes' = seal_encode s'"
    unfolding seal_decode_iff by blast+
  have "s = s' \<Longrightarrow> bytes = bytes'" using w(5,6) by simp
  moreover have "bytes = bytes' \<Longrightarrow> s = s'"
    using conjunct1 [OF ok] conjunct2 [OF ok] by (simp only: sum.inject)
  moreover have "s = s' \<longleftrightarrow> nonce s = nonce s' \<and> extra_nonce s = extra_nonce s'" by (cases s; cases s') simp
  ultimately show "build_blob pre_hash height (extra_nonce s) (nonce s) = build_blob pre_hash' height' (extra_nonce s') (nonce s')
    \<longleftrightarrow> pre_hash = pre_hash' \<and> height = height' \<and> bytes = bytes'"
    unfolding build_blob_inject [OF assms w(2,4,1,3)] by blast
qed

definition sample_seal :: seal where
  "sample_seal = \<lparr>nonce = 0xdeadbeef, extra_nonce = 7\<rparr>"

theorem seal_not_malleable_witness:
  "seal_decode (seal_encode sample_seal) = Inr sample_seal
   \<and> seal_decode (seal_encode sample_seal @ [0]) = Inl (WrongLength 65)
   \<and> build_blob zero_hash 5 7 0xdeadbeef \<noteq> build_blob zero_hash 5 7 1"
proof -
  have dec: "seal_decode (seal_encode sample_seal) = Inr sample_seal" "seal_decode (seal_encode \<lparr>nonce = 1, extra_nonce = 7\<rparr>) = Inr \<lparr>nonce = 1, extra_nonce = 7\<rparr>"
    by (simp_all add: seal_decode_iff sample_seal_def)
  have "seal_encode sample_seal \<noteq> seal_encode \<lparr>nonce = 1, extra_nonce = 7\<rparr>"
    using dec by (auto simp: sample_seal_def)
  moreover have "seal_decode (seal_encode sample_seal @ [0]) = Inl (WrongLength 65)"
    by (simp add: seal_decode_def ensure_def seal_encode_layout SEAL_LEN_def)
  ultimately show ?thesis
    using dec seal_not_malleable [of zero_hash zero_hash 5 5 "seal_encode sample_seal" sample_seal
      "seal_encode \<lparr>nonce = 1, extra_nonce = 7\<rparr>" "\<lparr>nonce = 1, extra_nonce = 7\<rparr>"]
    by (simp add: zero_hash_def sample_seal_def)
qed

end
