(* ===== verification/Admission.thy ===== *)
theory Admission
  imports Prelude
begin

text \<open>
  Side-branch admission, \<open>chain/client/consensus/randomx/src/admission.rs\<close>: the class of a block
  relative to the tip, the token buckets and the two budgets. Instants and durations are nanoseconds; a
  lock held for the length of one call is that call on the state. Metrics counters are left out.

  The lemmas show that a budget admits at most its capacity and one block per refill interval, that a
  refusal ends when it says it will, and that the cached tip difficulty never changes a verdict.
\<close>

section \<open>Constants\<close>

definition SIDE_BRANCH_DIFFICULTY_FRACTION :: nat where "SIDE_BRANCH_DIFFICULTY_FRACTION = 8"
definition SIDE_BRANCH_BUDGET_CAPACITY :: nat where "SIDE_BRANCH_BUDGET_CAPACITY = 1024"
definition DEFAULT_SIDE_BRANCH_BLOCKS_PER_HOUR :: nat where "DEFAULT_SIDE_BRANCH_BLOCKS_PER_HOUR = 900"
definition SEED_FILL_BUDGET_CAPACITY :: nat where "SEED_FILL_BUDGET_CAPACITY = 4"
definition DEFAULT_SEED_FILLS_PER_HOUR :: nat where "DEFAULT_SEED_FILLS_PER_HOUR = 24"
definition WARN_WINDOW :: nat where "WARN_WINDOW = 60 * 1000000000"

text \<open>\<open>Duration::MAX\<close>, in nanoseconds.\<close>

definition DURATION_MAX :: nat where
  "DURATION_MAX = (2 ^ 64 - 1) * 1000000000 + 999999999"

section \<open>Classification\<close>

definition is_difficulty_admissible :: "nat \<Rightarrow> nat \<Rightarrow> nat \<Rightarrow> bool" where
  "is_difficulty_admissible d_branch d_ref fraction = (d_ref \<le> sat_mul 512 d_branch fraction)"

record tip_view =
  tip :: "hash256 \<times> nat"
  difficulty_after :: "hash256 \<Rightarrow> (string, nat) result"

datatype side_branch_class = ExtendsTip | WithinFraction nat | Cheap nat

definition classify_side_branch :: "tip_view \<Rightarrow> hash256 \<Rightarrow> nat \<Rightarrow> nat \<Rightarrow> (string, side_branch_class) result" where
  "classify_side_branch view parent_hash difficulty fraction =
     (let tip_hash = fst (tip view)
      in if parent_hash = tip_hash then Inr ExtendsTip
         else rbind (difficulty_after view tip_hash) (\<lambda>tip_difficulty.
           Inr (if is_difficulty_admissible difficulty tip_difficulty fraction
                then WithinFraction tip_difficulty else Cheap tip_difficulty)))"

section \<open>The token bucket\<close>

record token_bucket =
  capacity :: nat
  refill_every :: nat
  tokens :: nat
  last_refill :: "nat option"

definition bucket_new :: "nat \<Rightarrow> nat \<Rightarrow> token_bucket" where
  "bucket_new cap every =
     \<lparr>capacity = max cap 1, refill_every = every, tokens = max cap 1, last_refill = None\<rparr>"

definition refill :: "nat \<Rightarrow> token_bucket \<Rightarrow> token_bucket" where
  "refill now b =
     (case last_refill b of
        None \<Rightarrow> b\<lparr>last_refill := Some now\<rparr>
      | Some last_time \<Rightarrow>
          if refill_every b = 0 then b\<lparr>tokens := capacity b, last_refill := Some now\<rparr>
          else
            let elapsed = now - last_time;
                gained = (elapsed div max (refill_every b) 1) mod 2 ^ 64
            in if gained = 0 then b
               else b\<lparr>tokens := min (sat_add 32 (tokens b) (min gained (2 ^ 32 - 1))) (capacity b),
                      last_refill := Some (last_time + min (refill_every b * min gained (2 ^ 32 - 1)) DURATION_MAX)\<rparr>)"

definition try_take :: "nat \<Rightarrow> token_bucket \<Rightarrow> (nat, nat) result \<times> token_bucket" where
  "try_take now b0 =
     (let b = refill now b0
      in if 0 < tokens b then (Inr (tokens b - 1), b\<lparr>tokens := tokens b - 1\<rparr>)
         else let last_time = (case last_refill b of None \<Rightarrow> now | Some l \<Rightarrow> l)
              in (Inl (refill_every b - (now - last_time)), b))"

definition bucket_tokens :: "nat \<Rightarrow> token_bucket \<Rightarrow> nat \<times> token_bucket" where
  "bucket_tokens now b0 = (let b = refill now b0 in (tokens b, b))"

definition hourly_bucket :: "nat \<Rightarrow> nat \<Rightarrow> token_bucket option" where
  "hourly_bucket cap per_hour =
     (if per_hour = 0 then None else Some (bucket_new cap (3600 * 1000000000 div per_hour)))"

section \<open>The budgets\<close>

record throttle =
  window_started :: "nat option"
  suppressed :: nat

datatype budget_kind = SideBranch | SeedFill

record admission_budgets =
  side_branch :: "token_bucket option"
  seed_fill :: "token_bucket option"
  tip_difficulty_cache :: "(hash256 \<times> nat) option"
  side_branch_throttle :: throttle
  seed_fill_throttle :: throttle

definition throttle_default :: throttle where
  "throttle_default = \<lparr>window_started = None, suppressed = 0\<rparr>"

definition budgets_configure :: "nat \<Rightarrow> nat \<Rightarrow> admission_budgets \<Rightarrow> admission_budgets" where
  "budgets_configure side_branch_blocks_per_hour seed_fills_per_hour bs =
     bs\<lparr>side_branch := hourly_bucket SIDE_BRANCH_BUDGET_CAPACITY side_branch_blocks_per_hour,
        seed_fill := hourly_bucket SEED_FILL_BUDGET_CAPACITY seed_fills_per_hour\<rparr>"

definition budgets_new :: admission_budgets where
  "budgets_new =
     budgets_configure DEFAULT_SIDE_BRANCH_BLOCKS_PER_HOUR DEFAULT_SEED_FILLS_PER_HOUR
       \<lparr>side_branch = None, seed_fill = None, tip_difficulty_cache = None,
        side_branch_throttle = throttle_default, seed_fill_throttle = throttle_default\<rparr>"

text \<open>\<open>CachedTip::difficulty_after\<close>: the answer and the cache it leaves.\<close>

definition cached_difficulty_after ::
  "tip_view \<Rightarrow> (hash256 \<times> nat) option \<Rightarrow> hash256 \<Rightarrow> (string, nat) result \<times> (hash256 \<times> nat) option" where
  "cached_difficulty_after view cache h =
     (case (case cache of Some (cached_hash, d) \<Rightarrow> if cached_hash = h then Some d else None | None \<Rightarrow> None) of
        Some d \<Rightarrow> (Inr d, cache)
      | None \<Rightarrow>
          case difficulty_after view h of
            Inl e \<Rightarrow> (Inl e, cache)
          | Inr d \<Rightarrow> (Inr d, Some (h, d)))"

definition classify ::
  "tip_view \<Rightarrow> hash256 \<Rightarrow> nat \<Rightarrow> admission_budgets \<Rightarrow> (string, side_branch_class) result \<times> admission_budgets" where
  "classify view parent_hash difficulty bs =
     (let cached = view\<lparr>difficulty_after := (\<lambda>h. fst (cached_difficulty_after view (tip_difficulty_cache bs) h))\<rparr>;
          tip_hash = fst (tip view)
      in (classify_side_branch cached parent_hash difficulty SIDE_BRANCH_DIFFICULTY_FRACTION,
          if parent_hash = tip_hash then bs
          else bs\<lparr>tip_difficulty_cache := snd (cached_difficulty_after view (tip_difficulty_cache bs) tip_hash)\<rparr>))"

definition charge_bucket :: "nat \<Rightarrow> token_bucket option \<Rightarrow> (nat, nat option) result \<times> token_bucket option" where
  "charge_bucket now b =
     (case b of
        None \<Rightarrow> (Inr None, None)
      | Some k \<Rightarrow>
          case try_take now k of
            (Inr left, k') \<Rightarrow> (Inr (Some left), Some k')
          | (Inl retry, k') \<Rightarrow> (Inl retry, Some k'))"

definition charge_side_branch ::
  "side_branch_class \<Rightarrow> nat \<Rightarrow> admission_budgets \<Rightarrow> (nat, nat option) result \<times> admission_budgets" where
  "charge_side_branch kind now bs =
     (case kind of
        Cheap _ \<Rightarrow> let (r, b) = charge_bucket now (side_branch bs) in (r, bs\<lparr>side_branch := b\<rparr>)
      | _ \<Rightarrow> (Inr None, bs))"

definition charge_seed_fill :: "nat \<Rightarrow> admission_budgets \<Rightarrow> (nat, nat option) result \<times> admission_budgets" where
  "charge_seed_fill now bs = (let (r, b) = charge_bucket now (seed_fill bs) in (r, bs\<lparr>seed_fill := b\<rparr>))"

definition throttle_warn :: "nat \<Rightarrow> throttle \<Rightarrow> nat option \<times> throttle" where
  "throttle_warn now t =
     (case window_started t of
        Some started \<Rightarrow>
          if now - started < WARN_WINDOW then (None, t\<lparr>suppressed := suppressed t + 1\<rparr>)
          else (Some (suppressed t), t\<lparr>suppressed := 0, window_started := Some now\<rparr>)
      | None \<Rightarrow> (Some (suppressed t), t\<lparr>suppressed := 0, window_started := Some now\<rparr>))"

definition should_warn :: "budget_kind \<Rightarrow> nat \<Rightarrow> admission_budgets \<Rightarrow> nat option \<times> admission_budgets" where
  "should_warn kind now bs =
     (case kind of
        SideBranch \<Rightarrow> let (r, t) = throttle_warn now (side_branch_throttle bs) in (r, bs\<lparr>side_branch_throttle := t\<rparr>)
      | SeedFill \<Rightarrow> let (r, t) = throttle_warn now (seed_fill_throttle bs) in (r, bs\<lparr>seed_fill_throttle := t\<rparr>))"

section \<open>Lemmas\<close>

text \<open>A bucket that has been used: its clock is not ahead and it holds no more than its capacity.\<close>

definition bucket_ok :: "nat \<Rightarrow> token_bucket \<Rightarrow> bool" where
  "bucket_ok now b \<longleftrightarrow>
     0 < capacity b \<and> 0 < refill_every b \<and> tokens b \<le> capacity b
     \<and> (case last_refill b of None \<Rightarrow> True | Some l \<Rightarrow> l \<le> now)"

text \<open>What a refill adds is paid for by the time the clock moves on.\<close>

lemma refill_pays:
  assumes "bucket_ok now b" "last_refill b = Some l" "now \<le> DURATION_MAX"
  obtains l' where "last_refill (refill now b) = Some l'" "l \<le> l'" "l' \<le> now"
    "tokens (refill now b) * refill_every b \<le> tokens b * refill_every b + (l' - l)"
    "tokens (refill now b) \<le> capacity b" "capacity (refill now b) = capacity b"
    "refill_every (refill now b) = refill_every b"
proof -
  define R where "R = refill_every b"
  define g where "g = ((now - l) div R) mod 2 ^ 64"
  define k where "k = min g (2 ^ 32 - 1)"
  have R: "0 < R" "l \<le> now" "tokens b \<le> capacity b" using assms by (auto simp: bucket_ok_def R_def)
  have "g \<le> (now - l) div R" unfolding g_def by simp
  then have "k \<le> (now - l) div R" unfolding k_def by simp
  then have "R * k \<le> R * ((now - l) div R)" by (rule mult_le_mono2)
  also have "\<dots> \<le> now - l" by simp
  finally have paid: "R * k \<le> now - l" .
  then have small: "min (R * k) DURATION_MAX = R * k" using assms(3) by simp
  have maxR: "max R 1 = R" using R(1) by simp
  have unfolded: "refill now b = (if R = 0 then b\<lparr>tokens := capacity b, last_refill := Some now\<rparr>
      else if g = 0 then b
      else b\<lparr>tokens := min (sat_add 32 (tokens b) k) (capacity b), last_refill := Some (l + R * k)\<rparr>)"
    unfolding refill_def assms(2) option.case Let_def R_def [symmetric] maxR g_def [symmetric] k_def [symmetric] small
    by (rule refl)
  show ?thesis
  proof (cases "g = 0")
    case True
    then have "refill now b = b" using R(1) unfolded by simp
    then show ?thesis using assms(2) R by (intro that [of l]) simp_all
  next
    case False
    then have e: "refill now b = b\<lparr>tokens := min (sat_add 32 (tokens b) k) (capacity b), last_refill := Some (l + R * k)\<rparr>"
      using R(1) unfolded by simp
    have "min (sat_add 32 (tokens b) k) (capacity b) \<le> tokens b + k" using sat_add_le [of 32 "tokens b" k] by linarith
    then have "min (sat_add 32 (tokens b) k) (capacity b) * R \<le> (tokens b + k) * R" by (rule mult_le_mono1)
    then have "min (sat_add 32 (tokens b) k) (capacity b) * R \<le> tokens b * R + R * k" by (simp add: algebra_simps)
    then show ?thesis using paid R(2) by (intro that [of "l + R * k"]) (simp_all add: e R_def)
  qed
qed

text \<open>How many of a list of requests, by their times, a bucket admits.\<close>

fun admitted :: "token_bucket \<Rightarrow> nat list \<Rightarrow> nat" where
  "admitted b [] = 0"
| "admitted b (t # ts) = (case try_take t b of (Inr _, b') \<Rightarrow> Suc (admitted b' ts) | (Inl _, b') \<Rightarrow> admitted b' ts)"

lemma try_take_ok:
  assumes "bucket_ok now b" "last_refill b = Some l" "now \<le> DURATION_MAX"
  obtains r b' l' where "try_take now b = (r, b')" "last_refill b' = Some l'" "l \<le> l'" "l' \<le> now" "bucket_ok now b'"
    "refill_every b' = refill_every b"
    "((if is_ok r then 1 else 0) + tokens b') * refill_every b \<le> tokens b * refill_every b + (l' - l)"
proof -
  obtain l' where l': "last_refill (refill now b) = Some l'" "l \<le> l'" "l' \<le> now"
    "tokens (refill now b) * refill_every b \<le> tokens b * refill_every b + (l' - l)"
    "tokens (refill now b) \<le> capacity b" "capacity (refill now b) = capacity b"
    "refill_every (refill now b) = refill_every b"
    by (rule refill_pays [OF assms])
  have ok: "bucket_ok now (refill now b)" using assms(1) l' by (simp add: bucket_ok_def)
  show ?thesis
  proof (cases "0 < tokens (refill now b)")
    case True
    then have "try_take now b = (Inr (tokens (refill now b) - 1), (refill now b)\<lparr>tokens := tokens (refill now b) - 1\<rparr>)"
      by (simp add: try_take_def Let_def)
    then show ?thesis
      using that [of _ "(refill now b)\<lparr>tokens := tokens (refill now b) - 1\<rparr>" l'] True l' ok
      by (simp add: bucket_ok_def)
  next
    case False
    then have "try_take now b = (Inl (refill_every b - (now - l')), refill now b)"
      using l' by (simp add: try_take_def Let_def)
    then show ?thesis using that [of _ "refill now b" l'] False l' ok by simp
  qed
qed

lemma bucket_ok_later: "bucket_ok now b \<Longrightarrow> now \<le> now' \<Longrightarrow> bucket_ok now' b"
  by (auto simp: bucket_ok_def split: option.splits)

lemma admitted_pays:
  assumes "bucket_ok now b" "last_refill b = Some l" "sorted (now # ts)" "\<forall>t\<in>set ts. t \<le> T" "now \<le> T" "T \<le> DURATION_MAX"
  shows "admitted b ts * refill_every b \<le> tokens b * refill_every b + (T - l)"
  using assms
proof (induction ts arbitrary: now b l)
  case Nil
  then show ?case by simp
next
  case (Cons t ts)
  have ok: "bucket_ok t b" using Cons.prems by (intro bucket_ok_later [OF Cons.prems(1)]) simp
  have t: "t \<le> T" "t \<le> DURATION_MAX" using Cons.prems by auto
  obtain r b' l' where step: "try_take t b = (r, b')" "last_refill b' = Some l'" "l \<le> l'" "l' \<le> t" "bucket_ok t b'"
    "refill_every b' = refill_every b"
    "((if is_ok r then 1 else 0) + tokens b') * refill_every b \<le> tokens b * refill_every b + (l' - l)"
    by (rule try_take_ok [OF ok Cons.prems(2) t(2)])
  have "admitted b' ts * refill_every b' \<le> tokens b' * refill_every b' + (T - l')"
    using Cons.prems step t by (intro Cons.IH [of t]) simp_all
  moreover have "admitted b (t # ts) = (if is_ok r then 1 else 0) + admitted b' ts"
    by (cases r) (simp_all add: step(1))
  ultimately show ?case using step t by (simp add: add_mult_distrib split: if_splits)
qed

text \<open>A cache that holds what the view says changes no verdict and stays so.\<close>

definition cache_ok :: "tip_view \<Rightarrow> admission_budgets \<Rightarrow> bool" where
  "cache_ok view bs \<longleftrightarrow> (case tip_difficulty_cache bs of None \<Rightarrow> True | Some (h, d) \<Rightarrow> difficulty_after view h = Inr d)"

lemma cached_difficulty_after_ok:
  assumes "cache_ok view bs"
  shows "fst (cached_difficulty_after view (tip_difficulty_cache bs) h) = difficulty_after view h"
  using assms by (auto simp: cache_ok_def cached_difficulty_after_def split: option.splits sum.splits prod.splits if_splits)

lemma classify_uncached:
  assumes "cache_ok view bs"
  shows "fst (classify view parent d bs) = classify_side_branch view parent d SIDE_BRANCH_DIFFICULTY_FRACTION"
    and "cache_ok view (snd (classify view parent d bs))"
proof -
  show "fst (classify view parent d bs) = classify_side_branch view parent d SIDE_BRANCH_DIFFICULTY_FRACTION"
    using cached_difficulty_after_ok [OF assms] by (simp add: classify_def classify_side_branch_def Let_def)
  show "cache_ok view (snd (classify view parent d bs))"
    using assms by (auto simp: classify_def cache_ok_def cached_difficulty_after_def Let_def
        split: option.splits sum.splits prod.splits if_splits)
qed

section \<open>Properties\<close>

text \<open>
  C40: A budget admits at most its burst and its rate. Whatever requests arrive at whatever times, a fresh
  bucket admits at most its capacity plus one for every whole refill interval between the first request and
  the last.
\<close>

theorem budget_rate:
  assumes "0 < every" "sorted (t # ts)" "\<forall>x\<in>set ts. x \<le> T" "t \<le> T" "T \<le> DURATION_MAX"
  shows "admitted (bucket_new cap every) (t # ts) \<le> max cap 1 + (T - t) div every"
proof -
  let ?b = "bucket_new cap every"
  let ?b' = "?b\<lparr>last_refill := Some t, tokens := max cap 1 - 1\<rparr>"
  have "try_take t ?b = (Inr (max cap 1 - 1), ?b')"
    by (simp add: try_take_def refill_def bucket_new_def Let_def less_max_iff_disj)
  then have one: "admitted ?b (t # ts) = Suc (admitted ?b' ts)" by simp
  have "bucket_ok t ?b'" using assms(1) by (simp add: bucket_ok_def bucket_new_def)
  then have "admitted ?b' ts * refill_every ?b' \<le> tokens ?b' * refill_every ?b' + (T - t)"
    using assms by (intro admitted_pays [of t]) simp_all
  then have "admitted ?b' ts * every \<le> (max cap 1 - 1) * every + (T - t)"
    by (simp add: bucket_new_def)
  then have "admitted ?b' ts \<le> ((max cap 1 - 1) * every + (T - t)) div every"
    using assms(1) by (simp only: less_eq_div_iff_mult_less_eq)
  also have "\<dots> = max cap 1 - 1 + (T - t) div every" using assms(1) by simp
  finally show ?thesis unfolding one by simp
qed

theorem budget_rate_witness:
  "admitted (bucket_new 2 10) [0, 1, 2, 12, 13, 25] \<le> 4 \<and> admitted (bucket_new 2 10) [0, 1, 2, 12, 13, 25] = 4"
proof -
  have "admitted (bucket_new 2 10) [0, 1, 2, 12, 13, 25] = 4"
    by (simp add: try_take_def refill_def bucket_new_def Let_def sat_add_def DURATION_MAX_def)
  moreover have "admitted (bucket_new 2 10) [0, 1, 2, 12, 13, 25] \<le> max 2 1 + (25 - 0) div 10"
    by (rule budget_rate) (simp_all add: DURATION_MAX_def)
  ultimately show ?thesis by simp
qed

text \<open>
  No refusal is for good. When a bucket refuses and names a wait, the first request after that wait is
  admitted, whatever burst emptied the bucket before.
\<close>

theorem refusal_ends:
  assumes "bucket_ok now b" "try_take now b = (Inl wait, b')" "now + wait \<le> t"
    and "last_refill b \<noteq> None" "t < 2 ^ 64" "now \<le> DURATION_MAX"
  shows "wait \<le> refill_every b \<and> is_ok (fst (try_take t b'))"
proof -
  obtain l where l: "last_refill b = Some l" using assms(4) by blast
  obtain r b1 l' where step: "try_take now b = (r, b1)" "last_refill b1 = Some l'" "l \<le> l'" "l' \<le> now" "bucket_ok now b1"
    "refill_every b1 = refill_every b" "((if is_ok r then 1 else 0) + tokens b1) * refill_every b \<le> tokens b * refill_every b + (l' - l)"
    by (rule try_take_ok [OF assms(1) l assms(6)])
  then have b1: "b1 = b'" "r = Inl wait" using assms(2) by simp_all
  have wait: "wait = refill_every b - (now - l')"
    using assms(2) step(2,6) b1 by (auto simp: try_take_def Let_def split: if_splits option.splits)
  have "0 < tokens (refill t b')"
  proof -
    have R: "0 < refill_every b'" "0 < capacity b'" using step(5) b1 by (auto simp: bucket_ok_def)
    have "refill_every b' = refill_every b" using step(6) b1 by simp
    then have "refill_every b' \<le> t - l'" using wait assms(3) step(4) by linarith
    then have "0 < (t - l') div refill_every b'" using R(1) by (simp add: div_greater_zero_iff)
    moreover have "(t - l') div refill_every b' < 2 ^ 64"
      using assms(5) by (meson div_le_dividend diff_le_self le_less_trans)
    ultimately have g: "0 < (t - l') div refill_every b' mod 2 ^ 64" by simp
    define g where "g = (t - l') div refill_every b' mod 2 ^ 64"
    have "tokens (refill t b') = min (sat_add 32 (tokens b') (min g (2 ^ 32 - 1))) (capacity b')"
      using R(1) g step(2) b1 by (simp add: refill_def Let_def g_def)
    moreover have "0 < sat_add 32 (tokens b') (min g (2 ^ 32 - 1))"
      using g by (simp add: sat_add_def g_def)
    ultimately show ?thesis using R(2) by simp
  qed
  then show ?thesis using wait by (simp add: try_take_def Let_def)
qed

theorem refusal_ends_witness:
  "\<exists>b wait b'. try_take 3 b = (Inl wait, b') \<and> wait = 7 \<and> is_ok (fst (try_take 10 b'))"
proof -
  let ?b = "\<lparr>capacity = 1, refill_every = 10, tokens = 0, last_refill = Some 0\<rparr> :: token_bucket"
  have take: "try_take 3 ?b = (Inl 7, ?b)" by (simp add: try_take_def refill_def)
  moreover have "is_ok (fst (try_take 10 ?b))"
    using refusal_ends [of 3 ?b 7 ?b 10] take by (simp add: bucket_ok_def DURATION_MAX_def)
  ultimately show ?thesis by blast
qed

end
