(* ===== verification/RandomxEngine.thy ===== *)
theory RandomxEngine
  imports Prelude
begin

text \<open>
  The node's RandomX engine, \<open>chain/client/consensus/randomx/src/vm.rs\<close>: the table of seed caches
  with its two pinned slots and its LRU queue, the pool of idle VMs, and the hash. The C library behind
  \<open>randomx_rs\<close> is a parameter: building a cache, building and re-keying a VM, and hashing.

  The lemmas show that every hash is the library's hash under the seed that was asked for, whatever was
  pinned, evicted or pooled before, and that the table stays within its bound with one entry per seed,
  also while a fill runs beside other requests.
\<close>

section \<open>The library\<close>

record ('c, 'v) randomx_lib =
  rx_cache_new :: "hash256 \<Rightarrow> (string, 'c) result"
  rx_vm_new :: "'c \<Rightarrow> (string, 'v) result"
  rx_reinit_cache :: "'c \<Rightarrow> 'v \<Rightarrow> (string, 'v) result"
  rx_calculate_hash :: "'v \<Rightarrow> byte list \<Rightarrow> (string, byte list) result"

definition RANDOMX_HASH_LEN :: nat where "RANDOMX_HASH_LEN = 32"
definition DEFAULT_MAX_CACHES :: nat where "DEFAULT_MAX_CACHES = 2"

datatype engine_error = RandomX_error string | HashLength nat

section \<open>The cache table\<close>

record 'c pinned_slot =
  slot_seed :: hash256
  slot_cache :: "'c option"

record 'c cache_table =
  pinned :: "'c pinned_slot option list"
  lru :: "(hash256 \<times> 'c) list"

text \<open>\<open>iter().flatten()\<close> over options.\<close>

fun somes :: "'a option list \<Rightarrow> 'a list" where
  "somes [] = []"
| "somes (None # xs) = somes xs"
| "somes (Some x # xs) = x # somes xs"

definition cache_table_default :: "'c cache_table" where
  "cache_table_default = \<lparr>pinned = [None, None], lru = []\<rparr>"

definition pinned_lookup :: "hash256 \<Rightarrow> 'c cache_table \<Rightarrow> 'c option" where
  "pinned_lookup seed t =
     (case find (\<lambda>slot. slot_seed slot = seed) (somes (pinned t)) of
        None \<Rightarrow> None
      | Some slot \<Rightarrow> slot_cache slot)"

definition is_pinned_identity :: "hash256 \<Rightarrow> 'c cache_table \<Rightarrow> bool" where
  "is_pinned_identity seed t = list_ex (\<lambda>slot. slot_seed slot = seed) (somes (pinned t))"

fun remove_key :: "'k \<Rightarrow> ('k \<times> 'c) list \<Rightarrow> ('k \<times> 'c) list" where
  "remove_key k [] = []"
| "remove_key k ((k', c) # xs) = (if k' = k then xs else (k', c) # remove_key k xs)"

definition take_from_lru :: "hash256 \<Rightarrow> 'c cache_table \<Rightarrow> 'c option \<times> 'c cache_table" where
  "take_from_lru seed t =
     (case map_of (lru t) seed of
        None \<Rightarrow> (None, t)
      | Some cache \<Rightarrow> (Some cache, t\<lparr>lru := remove_key seed (lru t)\<rparr>))"

definition touch_lru :: "hash256 \<Rightarrow> 'c cache_table \<Rightarrow> 'c option \<times> 'c cache_table" where
  "touch_lru seed t =
     (case take_from_lru seed t of
        (None, t') \<Rightarrow> (None, t')
      | (Some cache, t') \<Rightarrow> (Some cache, t'\<lparr>lru := lru t' @ [(seed, cache)]\<rparr>))"

text \<open>The eviction loop: pop the front while the queue is longer than it may be.\<close>

fun evict :: "nat \<Rightarrow> 'a list \<Rightarrow> 'a list" where
  "evict m [] = []"
| "evict m (x # xs) = (if m < length (x # xs) then evict m xs else x # xs)"

definition push_lru :: "nat \<Rightarrow> hash256 \<Rightarrow> 'c \<Rightarrow> 'c cache_table \<Rightarrow> 'c cache_table" where
  "push_lru m seed cache t = t\<lparr>lru := evict m (lru t @ [(seed, cache)])\<rparr>"

definition resident :: "'c cache_table \<Rightarrow> nat" where
  "resident t = length (filter (\<lambda>slot. slot_cache slot \<noteq> None) (somes (pinned t))) + length (lru t)"

section \<open>The engine\<close>

record ('c, 'v) engine =
  caches :: "'c cache_table"
  idle :: "('v \<times> hash256) list"
  max_caches :: nat
  max_idle_vms :: nat
  cache_initialisations :: nat

definition with_settings :: "nat \<Rightarrow> nat \<Rightarrow> ('c, 'v) engine" where
  "with_settings idle_vms cache_depth =
     \<lparr>caches = cache_table_default, idle = [], max_caches = max cache_depth 1,
      max_idle_vms = max idle_vms 1, cache_initialisations = 0\<rparr>"

definition reserve_idle_vms :: "nat \<Rightarrow> ('c, 'v) engine \<Rightarrow> ('c, 'v) engine" where
  "reserve_idle_vms at_least e = e\<lparr>max_idle_vms := max (max_idle_vms e) (max at_least 1)\<rparr>"

text \<open>
  The promotion loop of \<open>pin_seeds\<close>: a wanted seed keeps its old slot, or takes its cache out of the
  LRU. At most two slots are kept, so \<open>swap_remove\<close> leaves the other one.
\<close>

fun promote :: "hash256 list \<Rightarrow> 'c pinned_slot list \<Rightarrow> 'c cache_table \<Rightarrow> 'c pinned_slot list \<times> 'c cache_table" where
  "promote [] kept t = ([], t)"
| "promote (seed # wanted) kept t =
     (case find (\<lambda>slot. slot_seed slot = seed) kept of
        Some slot \<Rightarrow>
          let (slots, t') = promote wanted (remove1 slot kept) t in (slot # slots, t')
      | None \<Rightarrow>
          let (cache, t1) = take_from_lru seed t;
              (slots, t2) = promote wanted kept t1
          in (\<lparr>slot_seed = seed, slot_cache = cache\<rparr> # slots, t2))"

fun demote :: "nat \<Rightarrow> 'c pinned_slot list \<Rightarrow> 'c cache_table \<Rightarrow> 'c cache_table" where
  "demote m [] t = t"
| "demote m (slot # slots) t =
     demote m slots (case slot_cache slot of Some cache \<Rightarrow> push_lru m (slot_seed slot) cache t | None \<Rightarrow> t)"

definition pin_table :: "nat \<Rightarrow> hash256 \<Rightarrow> hash256 \<Rightarrow> 'c cache_table \<Rightarrow> 'c cache_table" where
  "pin_table m live next_seed t =
     (let wanted = (if live = next_seed then [live] else [live, next_seed]);
          already = map slot_seed (somes (pinned t))
      in if length already = length wanted \<and> list_all (\<lambda>seed. seed \<in> set already) wanted then t
         else
           let slots = somes (pinned t);
               kept = filter (\<lambda>slot. slot_seed slot \<in> set wanted) slots;
               demoted = filter (\<lambda>slot. slot_seed slot \<notin> set wanted) slots;
               (next_slots, t1) = promote wanted kept (t\<lparr>pinned := [None, None]\<rparr>)
           in demote m demoted (t1\<lparr>pinned := take 2 (map Some next_slots @ [None, None])\<rparr>))"

definition pin_seeds :: "hash256 \<Rightarrow> hash256 \<Rightarrow> ('c, 'v) engine \<Rightarrow> ('c, 'v) engine" where
  "pin_seeds live next_seed e = e\<lparr>caches := pin_table (max_caches e) live next_seed (caches e)\<rparr>"

definition is_pinned :: "hash256 \<Rightarrow> ('c, 'v) engine \<Rightarrow> bool" where
  "is_pinned seed e = is_pinned_identity seed (caches e)"

definition is_resident :: "hash256 \<Rightarrow> ('c, 'v) engine \<Rightarrow> bool" where
  "is_resident seed e =
     (pinned_lookup seed (caches e) \<noteq> None \<or> list_ex (\<lambda>(key, _). key = seed) (lru (caches e)))"

definition resident_caches :: "('c, 'v) engine \<Rightarrow> nat" where
  "resident_caches e = resident (caches e)"

text \<open>One look at the table under its lock: a pinned slot first, then the LRU.\<close>

definition cache_lookup :: "hash256 \<Rightarrow> 'c cache_table \<Rightarrow> 'c option \<times> 'c cache_table" where
  "cache_lookup seed t =
     (case pinned_lookup seed t of
        Some cache \<Rightarrow> (Some cache, t)
      | None \<Rightarrow> touch_lru seed t)"

text \<open>Where a finished fill lands, chosen from the table as it is then.\<close>

fun fill_slot :: "hash256 \<Rightarrow> 'c \<Rightarrow> 'c pinned_slot option list \<Rightarrow> 'c pinned_slot option list" where
  "fill_slot seed cache [] = []"
| "fill_slot seed cache (None # slots) = None # fill_slot seed cache slots"
| "fill_slot seed cache (Some slot # slots) =
     (if slot_seed slot = seed then Some (slot\<lparr>slot_cache := Some cache\<rparr>) # slots
      else Some slot # fill_slot seed cache slots)"

definition cache_insert :: "hash256 \<Rightarrow> 'c \<Rightarrow> ('c, 'v) engine \<Rightarrow> ('c, 'v) engine" where
  "cache_insert seed cache e =
     (let t = caches e
      in e\<lparr>cache_initialisations := cache_initialisations e + 1,
           caches := (if is_pinned_identity seed t then t\<lparr>pinned := fill_slot seed cache (pinned t)\<rparr>
                      else push_lru (max_caches e) seed cache t)\<rparr>)"

definition cache_for ::
  "('c, 'v) randomx_lib \<Rightarrow> hash256 \<Rightarrow> ('c, 'v) engine \<Rightarrow> (engine_error, 'c) result \<times> ('c, 'v) engine" where
  "cache_for lib seed e =
     (case cache_lookup seed (caches e) of
        (Some cache, t) \<Rightarrow> (Inr cache, e\<lparr>caches := t\<rparr>)
      | (None, t) \<Rightarrow>
          let e1 = e\<lparr>caches := t\<rparr>
          in case cache_lookup seed (caches e1) of
               (Some cache, t') \<Rightarrow> (Inr cache, e1\<lparr>caches := t'\<rparr>)
             | (None, t') \<Rightarrow>
                 let e2 = e1\<lparr>caches := t'\<rparr>
                 in case rx_cache_new lib seed of
                      Inl msg \<Rightarrow> (Inl (RandomX_error msg), e2)
                    | Inr cache \<Rightarrow> (Inr cache, cache_insert seed cache e2))"

definition warm :: "('c, 'v) randomx_lib \<Rightarrow> hash256 \<Rightarrow> ('c, 'v) engine \<Rightarrow> (engine_error, unit) result \<times> ('c, 'v) engine" where
  "warm lib seed e = (case cache_for lib seed e of (r, e') \<Rightarrow> (rbind r (\<lambda>_. Inr ()), e'))"

definition acquire ::
  "('c, 'v) randomx_lib \<Rightarrow> hash256 \<Rightarrow> ('c, 'v) engine \<Rightarrow> (engine_error, 'v) result \<times> ('c, 'v) engine" where
  "acquire lib seed e =
     (if idle e = [] then
        (case cache_for lib seed e of
           (Inl err, e') \<Rightarrow> (Inl err, e')
         | (Inr cache, e') \<Rightarrow> (map_err RandomX_error (rx_vm_new lib cache), e'))
      else
        let (vm, vm_seed) = last (idle e);
            e1 = e\<lparr>idle := butlast (idle e)\<rparr>
        in if vm_seed = seed then (Inr vm, e1)
           else
             (case cache_for lib seed e1 of
                (Inl err, e') \<Rightarrow> (Inl err, e')
              | (Inr cache, e') \<Rightarrow> (map_err RandomX_error (rx_reinit_cache lib cache vm), e')))"

definition release :: "'v \<Rightarrow> hash256 \<Rightarrow> ('c, 'v) engine \<Rightarrow> ('c, 'v) engine" where
  "release vm seed e = (if length (idle e) < max_idle_vms e then e\<lparr>idle := idle e @ [(vm, seed)]\<rparr> else e)"

definition lease_hash :: "('c, 'v) randomx_lib \<Rightarrow> 'v \<Rightarrow> byte list \<Rightarrow> (engine_error, hash256) result" where
  "lease_hash lib vm input =
     rbind (map_err RandomX_error (rx_calculate_hash lib vm input)) (\<lambda>h.
       ensure (length h = RANDOMX_HASH_LEN) (HashLength (length h)) (Inr h))"

definition engine_hash ::
  "('c, 'v) randomx_lib \<Rightarrow> hash256 \<Rightarrow> byte list \<Rightarrow> ('c, 'v) engine \<Rightarrow> (engine_error, hash256) result \<times> ('c, 'v) engine" where
  "engine_hash lib seed input e =
     (case acquire lib seed e of
        (Inl err, e') \<Rightarrow> (Inl err, e')
      | (Inr vm, e') \<Rightarrow> (lease_hash lib vm input, release vm seed e'))"

section \<open>The table invariant\<close>

text \<open>
  One entry per seed, over the slots and the queue together; every cache is the one the library builds for
  its seed; the queue is no longer than it may be.
\<close>

definition keyed_slot :: "('c, 'v) randomx_lib \<Rightarrow> 'c pinned_slot \<Rightarrow> bool" where
  "keyed_slot lib slot \<longleftrightarrow> (case slot_cache slot of None \<Rightarrow> True | Some c \<Rightarrow> rx_cache_new lib (slot_seed slot) = Inr c)"

definition keyed_entry :: "('c, 'v) randomx_lib \<Rightarrow> hash256 \<times> 'c \<Rightarrow> bool" where
  "keyed_entry lib = (\<lambda>(seed, c). rx_cache_new lib seed = Inr c)"

definition table_ok :: "('c, 'v) randomx_lib \<Rightarrow> nat \<Rightarrow> 'c cache_table \<Rightarrow> bool" where
  "table_ok lib m t \<longleftrightarrow>
     length (pinned t) = 2 \<and> length (lru t) \<le> m
     \<and> distinct (map slot_seed (somes (pinned t)) @ map fst (lru t))
     \<and> list_all (keyed_slot lib) (somes (pinned t)) \<and> list_all (keyed_entry lib) (lru t)"

lemma evict_drop: "evict m xs = drop (length xs - m) xs"
  by (induction xs) (auto simp: Suc_diff_le not_less)

lemma length_evict: "length (evict m xs) \<le> m"
  by (simp add: evict_drop)

lemma set_evict: "set (evict m xs) \<subseteq> set xs"
  by (simp add: evict_drop set_drop_subset)

lemma evict_distinct:
  assumes "distinct (ps @ map fst xs)"
  shows "distinct (ps @ map fst (evict m xs))"
proof -
  have "map fst (evict m xs) = drop (length xs - m) (map fst xs)" by (simp add: evict_drop drop_map)
  moreover have "set (drop (length xs - m) (map fst xs)) \<subseteq> set (map fst xs)" by (rule set_drop_subset)
  ultimately show ?thesis using assms by (auto simp: distinct_drop)
qed

lemma remove_key_filter: "distinct (map fst xs) \<Longrightarrow> remove_key k xs = filter (\<lambda>e. fst e \<noteq> k) xs"
proof (induction xs)
  case Nil
  then show ?case by simp
next
  case (Cons e xs)
  obtain k' c where e: "e = (k', c)" by (cases e)
  have "k' \<notin> fst ` set xs" using Cons.prems e by simp
  then have "k' = k \<Longrightarrow> filter (\<lambda>e. fst e \<noteq> k) xs = xs" by (auto simp: filter_id_conv)
  with Cons e show ?case by simp
qed

lemma length_somes: "length (somes xs) \<le> length xs"
  by (induction xs rule: somes.induct) simp_all

lemma somes_take_two: "length xs \<le> 2 \<Longrightarrow> somes (take 2 (map Some xs @ [None, None])) = xs"
  by (cases xs; cases "tl xs") auto

lemma take_from_lru_cases:
  assumes "distinct (map fst (lru t))"
  obtains (hit) c where "take_from_lru seed t = (Some c, t\<lparr>lru := filter (\<lambda>e. fst e \<noteq> seed) (lru t)\<rparr>)" "(seed, c) \<in> set (lru t)"
  | (miss) "take_from_lru seed t = (None, t)" "seed \<notin> fst ` set (lru t)"
proof (cases "map_of (lru t) seed")
  case None
  then have "take_from_lru seed t = (None, t)" by (simp add: take_from_lru_def)
  then show ?thesis using miss None by (simp add: map_of_eq_None_iff)
next
  case (Some c)
  then show ?thesis using hit [of c] remove_key_filter [OF assms] by (simp add: take_from_lru_def map_of_SomeD)
qed

lemma find_somes:
  assumes "find (\<lambda>slot. slot_seed slot = seed) slots = Some slot"
  shows "slot \<in> set slots \<and> slot_seed slot = seed"
  using assms by (induction slots) (auto split: if_splits)

lemma cache_lookup_cases:
  assumes "table_ok lib m t"
  obtains (hit) c t' where "cache_lookup seed t = (Some c, t')" "table_ok lib m t'" "rx_cache_new lib seed = Inr c"
      "pinned t' = pinned t" "fst ` set (lru t') = fst ` set (lru t)"
  | (miss) "cache_lookup seed t = (None, t)" "pinned_lookup seed t = None" "seed \<notin> fst ` set (lru t)"
proof (cases "pinned_lookup seed t")
  case (Some c)
  then obtain slot where "find (\<lambda>slot. slot_seed slot = seed) (somes (pinned t)) = Some slot" "slot_cache slot = Some c"
    by (auto simp: pinned_lookup_def split: option.splits)
  then have "slot \<in> set (somes (pinned t))" "slot_seed slot = seed" "slot_cache slot = Some c" using find_somes by blast+
  then have "rx_cache_new lib seed = Inr c" using assms by (auto simp: table_ok_def list_all_iff keyed_slot_def)
  then show ?thesis using hit [of c t] Some assms by (simp add: cache_lookup_def)
next
  case None
  have d: "distinct (map fst (lru t))" using assms by (simp add: table_ok_def)
  show ?thesis
  proof (cases rule: take_from_lru_cases [OF d, of seed])
    case (1 c)
    let ?t' = "t\<lparr>lru := filter (\<lambda>e. fst e \<noteq> seed) (lru t) @ [(seed, c)]\<rparr>"
    have look: "cache_lookup seed t = (Some c, ?t')" using None 1 by (simp add: cache_lookup_def touch_lru_def)
    have key: "rx_cache_new lib seed = Inr c" using assms 1(2) by (auto simp: table_ok_def list_all_iff keyed_entry_def)
    have keys: "fst ` set (lru ?t') = fst ` set (lru t)" using 1(2) by (auto simp: image_iff) force
    have "length (filter (\<lambda>e. fst e \<noteq> seed) (lru t)) < length (lru t)"
      using 1(2) by (intro length_filter_less) auto
    moreover have "distinct (map fst (lru ?t'))" using d by (auto simp: distinct_map_filter)
    ultimately have "table_ok lib m ?t'" using assms keys key
      by (auto simp: table_ok_def list_all_iff keyed_entry_def image_Un)
    then show ?thesis using hit [OF look _ key] keys by simp
  next
    case 2
    then show ?thesis using miss None by (simp add: cache_lookup_def touch_lru_def)
  qed
qed

lemma resident_bound: "table_ok lib m t \<Longrightarrow> resident t \<le> 2 + m"
  using length_somes [of "pinned t"] length_filter_le [of "\<lambda>slot. slot_cache slot \<noteq> None" "somes (pinned t)"]
  unfolding table_ok_def resident_def by linarith

lemma push_lru_ok:
  assumes "table_ok lib m t" "seed \<notin> slot_seed ` set (somes (pinned t))" "seed \<notin> fst ` set (lru t)" "rx_cache_new lib seed = Inr c"
  shows "table_ok lib m (push_lru m seed c t)"
proof -
  have "distinct (map slot_seed (somes (pinned t)) @ map fst (lru t @ [(seed, c)]))"
    using assms by (auto simp: table_ok_def)
  from evict_distinct [OF this, of m] have "distinct (map slot_seed (somes (pinned t)) @ map fst (evict m (lru t @ [(seed, c)])))" .
  moreover have "list_all (keyed_entry lib) (evict m (lru t @ [(seed, c)]))"
    using assms(1,4) set_evict [of m "lru t @ [(seed, c)]"] by (auto simp: table_ok_def list_all_iff keyed_entry_def)
  ultimately show ?thesis using assms(1) length_evict by (simp add: table_ok_def push_lru_def)
qed

lemma fill_slot_seeds [simp]: "map slot_seed (somes (fill_slot seed c slots)) = map slot_seed (somes slots)"
  by (induction seed c slots rule: fill_slot.induct) auto

lemma fill_slot_length [simp]: "length (fill_slot seed c slots) = length slots"
  by (induction seed c slots rule: fill_slot.induct) auto

lemma fill_slot_keyed:
  assumes "rx_cache_new lib seed = Inr c" "list_all (keyed_slot lib) (somes slots)"
  shows "list_all (keyed_slot lib) (somes (fill_slot seed c slots))"
  using assms by (induction seed c slots rule: fill_slot.induct) (auto simp: keyed_slot_def)

lemma fill_slot_seed_set [simp]: "slot_seed ` set (somes (fill_slot seed c slots)) = slot_seed ` set (somes slots)"
  by (metis fill_slot_seeds list.set_map)

lemma is_pinned_identity_iff: "is_pinned_identity seed t \<longleftrightarrow> seed \<in> slot_seed ` set (somes (pinned t))"
  by (auto simp: is_pinned_identity_def list_ex_iff)

definition engine_ok :: "('c, 'v) randomx_lib \<Rightarrow> ('c, 'v) engine \<Rightarrow> bool" where
  "engine_ok lib e \<longleftrightarrow> table_ok lib (max_caches e) (caches e)"

lemma cache_insert_ok:
  assumes "engine_ok lib e" "seed \<notin> fst ` set (lru (caches e))" "rx_cache_new lib seed = Inr c"
  shows "engine_ok lib (cache_insert seed c e)"
proof (cases "is_pinned_identity seed (caches e)")
  case True
  then show ?thesis
    using assms fill_slot_keyed [OF assms(3), of "pinned (caches e)"]
    by (simp add: engine_ok_def cache_insert_def table_ok_def Let_def)
next
  case False
  then show ?thesis
    using assms push_lru_ok [of lib "max_caches e" "caches e" seed c]
    by (simp add: engine_ok_def cache_insert_def is_pinned_identity_iff Let_def)
qed

lemma cache_for_ok:
  assumes "engine_ok lib e" "cache_for lib seed e = (r, e')"
  shows "engine_ok lib e' \<and> (\<forall>c. r = Inr c \<longrightarrow> rx_cache_new lib seed = Inr c) \<and> idle e' = idle e
    \<and> max_idle_vms e' = max_idle_vms e \<and> (is_ok (rx_cache_new lib seed) \<longrightarrow> is_ok r)"
proof (cases rule: cache_lookup_cases [OF assms(1) [unfolded engine_ok_def], of seed])
  case (1 c t')
  then show ?thesis using assms by (auto simp: cache_for_def engine_ok_def)
next
  case 2
  have "e\<lparr>caches := caches e\<rparr> = e" by simp
  then show ?thesis
    using assms 2 cache_insert_ok [OF assms(1) 2(3)]
    by (cases "rx_cache_new lib seed") (auto simp: cache_for_def cache_insert_def Let_def)
qed

section \<open>Pinning\<close>

lemma promote_spec:
  assumes "distinct wanted" "distinct (map slot_seed kept @ map fst (lru t))"
    and "list_all (keyed_slot lib) kept" "list_all (keyed_entry lib) (lru t)"
  shows "map slot_seed (fst (promote wanted kept t)) = wanted
    \<and> pinned (snd (promote wanted kept t)) = pinned t
    \<and> lru (snd (promote wanted kept t)) = filter (\<lambda>e. fst e \<notin> set wanted) (lru t)
    \<and> list_all (keyed_slot lib) (fst (promote wanted kept t))"
  using assms
proof (induction wanted kept t rule: promote.induct)
  case (1 kept t)
  then show ?case by simp
next
  case (2 seed wanted kept t)
  show ?case
  proof (cases "find (\<lambda>slot. slot_seed slot = seed) kept")
    case (Some slot)
    have slot: "slot \<in> set kept" "slot_seed slot = seed" using find_somes [OF Some] by simp_all
    have notin: "seed \<notin> fst ` set (lru t)" using "2.prems"(2) slot by auto
    have "distinct (map slot_seed (remove1 slot kept))"
      using "2.prems"(2) by (auto simp: distinct_map intro: inj_on_diff)
    then have "distinct (map slot_seed (remove1 slot kept) @ map fst (lru t))"
      using "2.prems"(2) set_remove1_subset [of slot kept] by (auto dest: notin_set_remove1)
    moreover have "list_all (keyed_slot lib) (remove1 slot kept)"
      using "2.prems"(3) set_remove1_subset [of slot kept] by (auto simp: list_all_iff)
    ultimately have IH: "map slot_seed (fst (promote wanted (remove1 slot kept) t)) = wanted
      \<and> pinned (snd (promote wanted (remove1 slot kept) t)) = pinned t
      \<and> lru (snd (promote wanted (remove1 slot kept) t)) = filter (\<lambda>e. fst e \<notin> set wanted) (lru t)
      \<and> list_all (keyed_slot lib) (fst (promote wanted (remove1 slot kept) t))"
      using "2.IH"(2) [OF Some] "2.prems" by simp
    have "filter (\<lambda>e. fst e \<notin> set wanted) (lru t) = filter (\<lambda>e. fst e \<notin> set (seed # wanted)) (lru t)"
      using notin by (intro filter_cong) auto
    then show ?thesis using Some IH slot "2.prems"(3) by (auto simp: list_all_iff split: prod.splits)
  next
    case None
    have d: "distinct (map fst (lru t))" using "2.prems"(2) by simp
    obtain cache t1 where take: "take_from_lru seed t = (cache, t1)" by fastforce
    have t1: "pinned t1 = pinned t \<and> lru t1 = filter (\<lambda>e. fst e \<noteq> seed) (lru t)
        \<and> (\<forall>c. cache = Some c \<longrightarrow> rx_cache_new lib seed = Inr c)"
    proof (cases rule: take_from_lru_cases [OF d, of seed])
      case (1 c)
      then show ?thesis using take "2.prems"(4) by (auto simp: list_all_iff keyed_entry_def)
    next
      case 2
      then have "filter (\<lambda>e. fst e \<noteq> seed) (lru t) = lru t" by (auto simp: filter_id_conv)
      then show ?thesis using 2 take by simp
    qed
    have "distinct (map slot_seed kept @ map fst (lru t1))" using "2.prems"(2) t1 by (auto simp: distinct_map_filter)
    moreover have "list_all (keyed_entry lib) (lru t1)" using "2.prems"(4) t1 by (simp add: list_all_iff)
    ultimately have IH: "map slot_seed (fst (promote wanted kept t1)) = wanted
      \<and> pinned (snd (promote wanted kept t1)) = pinned t1
      \<and> lru (snd (promote wanted kept t1)) = filter (\<lambda>e. fst e \<notin> set wanted) (lru t1)
      \<and> list_all (keyed_slot lib) (fst (promote wanted kept t1))"
      using "2.IH"(1) [OF None refl take [symmetric]] "2.prems" by simp
    have "filter (\<lambda>e. fst e \<notin> set wanted) (lru t1) = filter (\<lambda>e. fst e \<notin> set (seed # wanted)) (lru t)"
      using t1 by (auto intro: filter_cong)
    moreover have "keyed_slot lib \<lparr>slot_seed = seed, slot_cache = cache\<rparr>"
      using t1 by (simp add: keyed_slot_def split: option.splits)
    ultimately show ?thesis using None take IH t1 by (auto split: prod.splits)
  qed
qed

lemma disjoint_insert: "c \<subseteq> insert x b \<Longrightarrow> x \<notin> a \<Longrightarrow> a \<inter> b = {} \<Longrightarrow> a \<inter> c = {}"
  by blast

lemma subset_chain: "c \<subseteq> b \<union> f \<Longrightarrow> b \<subseteq> a \<union> x \<Longrightarrow> c \<subseteq> a \<union> (x \<union> f)"
  by blast

lemma demote_ok:
  assumes "table_ok lib m t" "list_all (keyed_slot lib) slots"
    and "distinct (map slot_seed slots)" "slot_seed ` set slots \<inter> slot_seed ` set (somes (pinned t)) = {}"
    and "slot_seed ` set slots \<inter> fst ` set (lru t) = {}"
  shows "table_ok lib m (demote m slots t) \<and> pinned (demote m slots t) = pinned t
    \<and> fst ` set (lru (demote m slots t)) \<subseteq> fst ` set (lru t) \<union> slot_seed ` {slot \<in> set slots. slot_cache slot \<noteq> None}"
  using assms
proof (induction m slots t rule: demote.induct)
  case (1 m t)
  then show ?case by simp
next
  case (2 m slot slots t)
  define t1 where "t1 = (case slot_cache slot of Some c \<Rightarrow> push_lru m (slot_seed slot) c t | None \<Rightarrow> t)"
  have keys: "fst ` set (lru t1) \<subseteq> fst ` set (lru t) \<union> (if slot_cache slot = None then {} else {slot_seed slot})"
    using set_evict [of m "lru t @ [(slot_seed slot, the (slot_cache slot))]"]
    by (auto simp: t1_def push_lru_def split: option.splits)
  have p: "pinned t1 = pinned t" by (simp add: t1_def push_lru_def split: option.splits)
  have "table_ok lib m t1"
    using "2.prems" push_lru_ok [of lib m t "slot_seed slot"]
    by (auto simp: t1_def keyed_slot_def split: option.splits)
  moreover have "slot_seed ` set slots \<inter> fst ` set (lru t1) = {}"
  proof -
    have "fst ` set (lru t1) \<subseteq> insert (slot_seed slot) (fst ` set (lru t))" 
      using keys by (cases "slot_cache slot = None") auto
    moreover have "slot_seed slot \<notin> slot_seed ` set slots" "slot_seed ` set slots \<inter> fst ` set (lru t) = {}"
      using "2.prems"(3,5) by simp_all
    ultimately show ?thesis by (rule disjoint_insert)
  qed
  ultimately have "table_ok lib m (demote m slots t1) \<and> pinned (demote m slots t1) = pinned t1
    \<and> fst ` set (lru (demote m slots t1)) \<subseteq> fst ` set (lru t1) \<union> slot_seed ` {slot \<in> set slots. slot_cache slot \<noteq> None}"
    using "2.IH" "2.prems" p unfolding t1_def [symmetric] by simp
  moreover have "slot_seed ` {s \<in> set (slot # slots). slot_cache s \<noteq> None}
      = (if slot_cache slot = None then {} else {slot_seed slot}) \<union> slot_seed ` {s \<in> set slots. slot_cache s \<noteq> None}"
    by auto
  ultimately show ?case using subset_chain [OF _ keys] p unfolding demote.simps t1_def [symmetric] by simp
qed

lemma pin_table_ok:
  assumes "table_ok lib m t"
  shows "table_ok lib m (pin_table m live next_seed t)
    \<and> set (map slot_seed (somes (pinned (pin_table m live next_seed t)))) = {live, next_seed}
    \<and> fst ` set (lru (pin_table m live next_seed t))
        \<subseteq> fst ` set (lru t) \<union> slot_seed ` {slot \<in> set (somes (pinned t)). slot_cache slot \<noteq> None}"
proof -
  define wanted where "wanted = (if live = next_seed then [live] else [live, next_seed])"
  define slots where "slots = somes (pinned t)"
  define kept where "kept = filter (\<lambda>slot. slot_seed slot \<in> set wanted) slots"
  define demoted where "demoted = filter (\<lambda>slot. slot_seed slot \<notin> set wanted) slots"
  have w: "distinct wanted" "length wanted \<le> 2" "set wanted = {live, next_seed}" by (auto simp: wanted_def)
  have d: "distinct (map slot_seed slots)" "distinct (map fst (lru t))" "slot_seed ` set slots \<inter> fst ` set (lru t) = {}"
    "list_all (keyed_slot lib) slots" "list_all (keyed_entry lib) (lru t)" "length (lru t) \<le> m"
    using assms by (auto simp: table_ok_def slots_def)
  show ?thesis
  proof (cases "length (map slot_seed slots) = length wanted \<and> list_all (\<lambda>seed. seed \<in> set (map slot_seed slots)) wanted")
    case True
    then have "set wanted \<subseteq> set (map slot_seed slots)" by (auto simp: list_all_iff)
    moreover have "card (set (map slot_seed slots)) = card (set wanted)"
      using True d(1) w(1) by (simp only: distinct_card)
    ultimately have "set (map slot_seed slots) = set wanted" by (metis List.finite_set card_subset_eq)
    moreover have "pin_table m live next_seed t = t"
      using True unfolding pin_table_def Let_def wanted_def [symmetric] slots_def [symmetric] by simp
    ultimately show ?thesis using assms w(3) slots_def by auto
  next
    case False
    define t0 where "t0 = t\<lparr>pinned := [None, None]\<rparr>"
    have "distinct (map slot_seed kept @ map fst (lru t0))"
      using d unfolding kept_def t0_def by (auto simp: distinct_map_filter)
    moreover have "list_all (keyed_slot lib) kept" using d(4) by (auto simp: kept_def list_all_iff)
    ultimately have P: "map slot_seed (fst (promote wanted kept t0)) = wanted"
      "lru (snd (promote wanted kept t0)) = filter (\<lambda>e. fst e \<notin> set wanted) (lru t)"
      "list_all (keyed_slot lib) (fst (promote wanted kept t0))"
      using promote_spec [OF w(1), of kept t0 lib] d(5) by (simp_all add: t0_def)
    define next_slots where "next_slots = fst (promote wanted kept t0)"
    define t1 where "t1 = (snd (promote wanted kept t0))\<lparr>pinned := take 2 (map Some next_slots @ [None, None])\<rparr>"
    have len: "length next_slots \<le> 2" using P(1) w(2) by (metis length_map next_slots_def)
    have "pinned t1 = take 2 (map Some next_slots @ [None, None])" by (simp add: t1_def)
    then have s1: "somes (pinned t1) = next_slots" by (simp only: somes_take_two [OF len])
    have l1: "lru t1 = filter (\<lambda>e. fst e \<notin> set wanted) (lru t)" using P(2) by (simp add: t1_def)
    have ns: "map slot_seed next_slots = wanted" "slot_seed ` set next_slots = set wanted"
      using P(1) by (simp_all add: next_slots_def) (metis list.set_map)
    have "length (pinned t1) = 2" using len by (simp add: t1_def)
    moreover have "length (lru t1) \<le> m" unfolding l1 using d(6) by (rule le_trans [OF length_filter_le])
    moreover have "list_all (keyed_slot lib) (somes (pinned t1))" using P(3) s1 by (simp add: next_slots_def)
    moreover have "list_all (keyed_entry lib) (lru t1)" using d(5) l1 by (auto simp: list_all_iff)
    moreover have "distinct (map slot_seed (somes (pinned t1)) @ map fst (lru t1))"
      unfolding s1 l1 ns(1) using w(1) d(2) by (auto simp: distinct_map_filter)
    ultimately have "table_ok lib m t1" by (simp only: table_ok_def)
    moreover have "slot_seed ` set demoted \<inter> slot_seed ` set (somes (pinned t1)) = {}" using s1 ns(2) by (auto simp: demoted_def)
    moreover have "slot_seed ` set demoted \<inter> fst ` set (lru t1) = {}" using d(3) l1 by (auto simp: demoted_def)
    moreover have "list_all (keyed_slot lib) demoted" "distinct (map slot_seed demoted)"
      using d(1,4) by (auto simp: demoted_def list_all_iff distinct_map_filter)
    ultimately have D: "table_ok lib m (demote m demoted t1) \<and> pinned (demote m demoted t1) = pinned t1
      \<and> fst ` set (lru (demote m demoted t1)) \<subseteq> fst ` set (lru t1) \<union> slot_seed ` {slot \<in> set demoted. slot_cache slot \<noteq> None}"
      by (intro demote_ok)
    have e: "pin_table m live next_seed t = demote m demoted t1"
      unfolding pin_table_def Let_def wanted_def [symmetric] slots_def [symmetric] if_not_P [OF False] kept_def [symmetric]
        demoted_def [symmetric] t0_def [symmetric] t1_def next_slots_def by (simp add: case_prod_unfold)
    show ?thesis unfolding e using D s1 ns w(3) l1 by (auto simp: demoted_def slots_def)
  qed
qed

text \<open>Pinning moves caches between the slots and the queue and makes none: a seed resident after it was resident before.\<close>

definition resident_seeds :: "'c cache_table \<Rightarrow> hash256 set" where
  "resident_seeds t = fst ` set (lru t) \<union> slot_seed ` {slot \<in> set (somes (pinned t)). slot_cache slot \<noteq> None}"

lemma remove_key_subset: "set (remove_key k xs) \<subseteq> set xs"
  by (induction k xs rule: remove_key.induct) auto

lemma take_from_lru_subset:
  assumes "take_from_lru seed t = (cache, t1)"
  shows "set (lru t1) \<subseteq> set (lru t) \<and> (cache \<noteq> None \<longrightarrow> seed \<in> fst ` set (lru t))"
  using assms remove_key_subset [of seed "lru t"] map_of_SomeD [of "lru t" seed]
  by (force simp: take_from_lru_def split: option.splits)

lemma promote_filled:
  assumes "slot \<in> set (fst (promote wanted kept t))" "slot_cache slot \<noteq> None"
  shows "slot_seed slot \<in> fst ` set (lru t) \<union> slot_seed ` {s \<in> set kept. slot_cache s \<noteq> None}"
  using assms
proof (induction wanted kept t arbitrary: slot rule: promote.induct)
  case (1 kept t)
  then show ?case by simp
next
  case (2 seed wanted kept t)
  show ?case
  proof (cases "find (\<lambda>s. slot_seed s = seed) kept")
    case (Some s)
    then consider "slot = s" | "slot \<in> set (fst (promote wanted (remove1 s kept) t))"
      using "2.prems"(1) by (auto split: prod.splits)
    then show ?thesis
    proof cases
      case 1
      then show ?thesis using find_somes [OF Some] "2.prems"(2) by auto
    next
      case 2
      then show ?thesis using "2.IH"(2) [OF Some 2 "2.prems"(2)] set_remove1_subset [of s kept] by auto
    qed
  next
    case None
    obtain cache t1 where take: "take_from_lru seed t = (cache, t1)" by fastforce
    consider "slot = \<lparr>slot_seed = seed, slot_cache = cache\<rparr>" | "slot \<in> set (fst (promote wanted kept t1))"
      using "2.prems"(1) None take by (auto split: prod.splits)
    then show ?thesis
    proof cases
      case 1
      then show ?thesis using take_from_lru_subset [OF take] "2.prems"(2) by auto
    next
      case 2
      then show ?thesis
        using "2.IH"(1) [OF None refl take [symmetric] 2 "2.prems"(2)] take_from_lru_subset [OF take] by auto
    qed
  qed
qed

lemma take_two_somes: "set (somes (take 2 (map Some xs @ [None, None]))) \<subseteq> set xs"
proof -
  have "set (somes (take n (map Some xs @ ys))) \<subseteq> set xs" if "somes ys = []" "list_all (\<lambda>y. y = None) ys" for n ys
    using that
  proof (induction xs arbitrary: n)
    case Nil
    have "set (somes (take n ys)) \<subseteq> set (somes ys)" for n
      by (induction ys arbitrary: n rule: somes.induct) (auto simp: take_Cons split: nat.splits)
    then show ?case using Nil by auto
  next
    case (Cons x xs)
    then show ?case by (cases n) auto
  qed
  from this [of "[None, None]" 2] show ?thesis by simp
qed

lemma pin_table_resident:
  assumes "table_ok lib m t"
  shows "resident_seeds (pin_table m live next_seed t) \<subseteq> resident_seeds t"
proof -
  define wanted where "wanted = (if live = next_seed then [live] else [live, next_seed])"
  define slots where "slots = somes (pinned t)"
  let ?same = "length (map slot_seed slots) = length wanted \<and> list_all (\<lambda>seed. seed \<in> set (map slot_seed slots)) wanted"
  have lru: "fst ` set (lru (pin_table m live next_seed t)) \<subseteq> resident_seeds t"
    using pin_table_ok [OF assms, of live next_seed] unfolding resident_seeds_def by blast
  have pin: "slot_seed slot \<in> resident_seeds t"
    if slot: "slot \<in> set (somes (pinned (pin_table m live next_seed t)))" "slot_cache slot \<noteq> None" for slot
  proof (cases ?same)
    case True
    then have "pin_table m live next_seed t = t"
      unfolding pin_table_def Let_def wanted_def [symmetric] slots_def [symmetric] if_P [OF True] by simp
    then show ?thesis using slot by (auto simp: resident_seeds_def)
  next
    case False
    let ?kept = "filter (\<lambda>slot. slot_seed slot \<in> set wanted) slots"
    let ?p = "promote wanted ?kept (t\<lparr>pinned := [None, None]\<rparr>)"
    have "pinned (demote k ss t') = pinned t'" for k ss and t' :: "'a cache_table"
      by (induction k ss t' rule: demote.induct) (auto simp: push_lru_def split: option.splits)
    then have "pinned (pin_table m live next_seed t) = take 2 (map Some (fst ?p) @ [None, None])"
      unfolding pin_table_def Let_def wanted_def [symmetric] slots_def [symmetric] if_not_P [OF False]
      by (simp add: case_prod_unfold)
    then have "slot \<in> set (fst ?p)" using slot(1) take_two_somes [of "fst ?p"] by (simp only:) blast
    from promote_filled [OF this slot(2)] show ?thesis unfolding resident_seeds_def slots_def by auto
  qed
  then show ?thesis using lru unfolding resident_seeds_def [of "pin_table m live next_seed t"] by blast
qed

section \<open>Hashing\<close>

text \<open>
  What the library documents: a VM built on, or re-pointed at, the cache of a seed is keyed to that seed,
  and a keyed VM computes \<open>rx seed input\<close> whenever it returns.
\<close>

definition randomx_ok ::
  "('c, 'v) randomx_lib \<Rightarrow> ('v \<Rightarrow> hash256 \<Rightarrow> bool) \<Rightarrow> (hash256 \<Rightarrow> byte list \<Rightarrow> hash256) \<Rightarrow> bool" where
  "randomx_ok lib keyed rx \<longleftrightarrow>
     (\<forall>s c v. rx_cache_new lib s = Inr c \<and> rx_vm_new lib c = Inr v \<longrightarrow> keyed v s)
     \<and> (\<forall>s c v v'. rx_cache_new lib s = Inr c \<and> rx_reinit_cache lib c v = Inr v' \<longrightarrow> keyed v' s)
     \<and> (\<forall>s v input h. keyed v s \<and> rx_calculate_hash lib v input = Inr h \<longrightarrow> h = rx s input)"

definition pool_ok :: "('v \<Rightarrow> hash256 \<Rightarrow> bool) \<Rightarrow> ('c, 'v) engine \<Rightarrow> bool" where
  "pool_ok keyed e \<longleftrightarrow> list_all (\<lambda>(v, s). keyed v s) (idle e) \<and> length (idle e) \<le> max_idle_vms e"

lemma randomx_okD:
  assumes "randomx_ok lib keyed rx"
  shows "rx_cache_new lib s = Inr c \<Longrightarrow> rx_vm_new lib c = Inr v \<Longrightarrow> keyed v s"
    and "rx_cache_new lib s = Inr c \<Longrightarrow> rx_reinit_cache lib c v = Inr v' \<Longrightarrow> keyed v' s"
    and "keyed v s \<Longrightarrow> rx_calculate_hash lib v input = Inr h \<Longrightarrow> h = rx s input"
  using assms unfolding randomx_ok_def by blast+

lemma pool_ok_release: "pool_ok keyed e \<Longrightarrow> keyed v s \<Longrightarrow> pool_ok keyed (release v s e)"
  by (simp add: pool_ok_def release_def)

lemma pool_ok_butlast:
  assumes "pool_ok keyed e" "idle e \<noteq> []"
  shows "keyed (fst (last (idle e))) (snd (last (idle e))) \<and> pool_ok keyed (e\<lparr>idle := butlast (idle e)\<rparr>)"
proof
  show "keyed (fst (last (idle e))) (snd (last (idle e)))"
    using assms(1) last_in_set [OF assms(2)] by (cases "last (idle e)") (auto simp: pool_ok_def list_all_iff)
  show "pool_ok keyed (e\<lparr>idle := butlast (idle e)\<rparr>)"
    using assms(1) by (auto simp: pool_ok_def list_all_iff dest: in_set_butlastD)
qed

lemma acquire_ok:
  assumes "randomx_ok lib keyed rx" "engine_ok lib e" "pool_ok keyed e" "acquire lib seed e = (r, e')"
  shows "engine_ok lib e' \<and> pool_ok keyed e' \<and> (\<forall>v. r = Inr v \<longrightarrow> keyed v seed)"
proof (cases "idle e = []")
  case True
  obtain r1 e1 where cf: "cache_for lib seed e = (r1, e1)" by fastforce
  show ?thesis
    using assms(3,4) cf cache_for_ok [OF assms(2) cf] True
    by (cases r1) (auto simp: acquire_def pool_ok_def dest: randomx_okD(1) [OF assms(1)])
next
  case False
  let ?e1 = "e\<lparr>idle := butlast (idle e)\<rparr>"
  obtain v s where last: "last (idle e) = (v, s)" by fastforce
  have pool: "keyed v s" "pool_ok keyed ?e1" using pool_ok_butlast [OF assms(3) False] last by simp_all
  have eng: "engine_ok lib ?e1" using assms(2) by (simp add: engine_ok_def)
  obtain r1 e2 where cf: "cache_for lib seed ?e1 = (r1, e2)" by fastforce
  show ?thesis
    using assms(4) False last pool eng cf cache_for_ok [OF eng cf]
    by (cases r1) (auto simp: acquire_def pool_ok_def Let_def split: if_splits dest: randomx_okD(2) [OF assms(1)])
qed

lemma lease_hash_ok:
  assumes "randomx_ok lib keyed rx" "keyed v seed" "lease_hash lib v input = Inr h"
  shows "h = rx seed input \<and> length h = 32"
  using assms(3) randomx_okD(3) [OF assms(1,2)] by (auto simp: lease_hash_def RANDOMX_HASH_LEN_def)

lemma engine_ok_release: "engine_ok lib e \<Longrightarrow> engine_ok lib (release v s e)"
  by (simp add: engine_ok_def release_def)

lemma engine_ok_pin: "engine_ok lib e \<Longrightarrow> engine_ok lib (pin_seeds live next_seed e)"
  using pin_table_ok by (fastforce simp: engine_ok_def pin_seeds_def)

lemma engine_hash_ok:
  assumes "randomx_ok lib keyed rx" "engine_ok lib e" "pool_ok keyed e" "engine_hash lib seed input e = (r, e')"
  shows "engine_ok lib e' \<and> pool_ok keyed e' \<and> (\<forall>h. r = Inr h \<longrightarrow> h = rx seed input \<and> length h = 32)"
proof -
  obtain r1 e1 where aq: "acquire lib seed e = (r1, e1)" by fastforce
  have a: "engine_ok lib e1" "pool_ok keyed e1" "\<And>v. r1 = Inr v \<Longrightarrow> keyed v seed"
    using acquire_ok [OF assms(1-3) aq] by blast+
  show ?thesis
    using assms(4) aq a lease_hash_ok [OF assms(1)] pool_ok_release engine_ok_release
    by (cases r1) (auto simp: engine_hash_def)
qed

lemma with_settings_ok: "engine_ok lib (with_settings n k) \<and> pool_ok keyed (with_settings n k)"
  by (simp add: engine_ok_def pool_ok_def with_settings_def table_ok_def cache_table_default_def)

section \<open>Concurrent use\<close>

text \<open>
  The engine under concurrent callers, one step per critical section: a fill holds the build lock while
  other callers pin, look up and use the table; \<open>handed\<close> are the caches callers hold references to,
  \<open>popped\<close> the VMs popped and not yet leased, \<open>leases\<close> the VMs in use with the seed they were
  asked for.
\<close>

record ('c, 'v) engine_run =
  run_engine :: "('c, 'v) engine"
  building :: "hash256 option"
  handed :: "(hash256 \<times> 'c) list"
  popped :: "('v \<times> hash256) list"
  leases :: "('v \<times> hash256) list"

inductive engine_step :: "('c, 'v) randomx_lib \<Rightarrow> ('c, 'v) engine_run \<Rightarrow> ('c, 'v) engine_run \<Rightarrow> bool" for lib where
  step_pin: "engine_step lib r (r\<lparr>run_engine := pin_seeds live next_seed (run_engine r)\<rparr>)"
| step_reserve: "engine_step lib r (r\<lparr>run_engine := reserve_idle_vms n (run_engine r)\<rparr>)"
| step_hit: "cache_lookup seed (caches (run_engine r)) = (Some c, t) \<Longrightarrow>
    engine_step lib r (r\<lparr>run_engine := (run_engine r)\<lparr>caches := t\<rparr>, handed := (seed, c) # handed r\<rparr>)"
| step_begin: "building r = None \<Longrightarrow> cache_lookup seed (caches (run_engine r)) = (None, t) \<Longrightarrow>
    engine_step lib r (r\<lparr>run_engine := (run_engine r)\<lparr>caches := t\<rparr>, building := Some seed\<rparr>)"
| step_built: "building r = Some seed \<Longrightarrow> rx_cache_new lib seed = Inr c \<Longrightarrow>
    engine_step lib r (r\<lparr>run_engine := cache_insert seed c (run_engine r), building := None, handed := (seed, c) # handed r\<rparr>)"
| step_build_failed: "building r = Some seed \<Longrightarrow> rx_cache_new lib seed = Inl msg \<Longrightarrow>
    engine_step lib r (r\<lparr>building := None\<rparr>)"
| step_pop: "idle (run_engine r) = vms @ [p] \<Longrightarrow>
    engine_step lib r (r\<lparr>run_engine := (run_engine r)\<lparr>idle := vms\<rparr>, popped := p # popped r\<rparr>)"
| step_reuse: "p \<in> set (popped r) \<Longrightarrow> engine_step lib r (r\<lparr>popped := remove1 p (popped r), leases := p # leases r\<rparr>)"
| step_rekey: "p \<in> set (popped r) \<Longrightarrow> (seed, c) \<in> set (handed r) \<Longrightarrow> rx_reinit_cache lib c (fst p) = Inr v \<Longrightarrow>
    engine_step lib r (r\<lparr>popped := remove1 p (popped r), leases := (v, seed) # leases r\<rparr>)"
| step_drop: "p \<in> set (popped r) \<Longrightarrow> engine_step lib r (r\<lparr>popped := remove1 p (popped r)\<rparr>)"
| step_new: "(seed, c) \<in> set (handed r) \<Longrightarrow> rx_vm_new lib c = Inr v \<Longrightarrow>
    engine_step lib r (r\<lparr>leases := (v, seed) # leases r\<rparr>)"
| step_release: "p \<in> set (leases r) \<Longrightarrow>
    engine_step lib r (r\<lparr>leases := remove1 p (leases r), run_engine := release (fst p) (snd p) (run_engine r)\<rparr>)"

definition engine_start :: "nat \<Rightarrow> nat \<Rightarrow> ('c, 'v) engine_run" where
  "engine_start n k = \<lparr>run_engine = with_settings n k, building = None, handed = [], popped = [], leases = []\<rparr>"

inductive engine_reachable :: "('c, 'v) randomx_lib \<Rightarrow> ('c, 'v) engine_run \<Rightarrow> bool" for lib where
  reach_start: "engine_reachable lib (engine_start n k)"
| reach_step: "engine_reachable lib r \<Longrightarrow> engine_step lib r r' \<Longrightarrow> engine_reachable lib r'"

definition run_ok :: "('c, 'v) randomx_lib \<Rightarrow> ('v \<Rightarrow> hash256 \<Rightarrow> bool) \<Rightarrow> ('c, 'v) engine_run \<Rightarrow> bool" where
  "run_ok lib keyed r \<longleftrightarrow>
     engine_ok lib (run_engine r) \<and> pool_ok keyed (run_engine r)
     \<and> (case building r of None \<Rightarrow> True | Some s \<Rightarrow> s \<notin> resident_seeds (caches (run_engine r)))
     \<and> list_all (keyed_entry lib) (handed r)
     \<and> list_all (\<lambda>(v, s). keyed v s) (popped r) \<and> list_all (\<lambda>(v, s). keyed v s) (leases r)"

lemma list_all_remove1: "list_all P xs \<Longrightarrow> list_all P (remove1 x xs)"
  using set_remove1_subset [of x xs] by (auto simp: list_all_iff)

lemma find_distinct:
  assumes "distinct (map f xs)" "x \<in> set xs" "f x = k"
  shows "find (\<lambda>y. f y = k) xs = Some x"
  using assms by (induction xs) (auto simp: image_iff)

lemma lookup_keeps:
  assumes "engine_ok lib e" "cache_lookup seed (caches e) = (found, t)"
  shows "engine_ok lib (e\<lparr>caches := t\<rparr>) \<and> resident_seeds t = resident_seeds (caches e)
    \<and> (\<forall>c. found = Some c \<longrightarrow> rx_cache_new lib seed = Inr c)
    \<and> (found = None \<longrightarrow> seed \<notin> resident_seeds (caches e))"
proof (cases rule: cache_lookup_cases [OF assms(1) [unfolded engine_ok_def], of seed])
  case (1 c t')
  then show ?thesis using assms by (auto simp: engine_ok_def resident_seeds_def)
next
  case 2
  have "slot_cache slot = None" if slot: "slot \<in> set (somes (pinned (caches e)))" "slot_seed slot = seed" for slot
  proof -
    have "distinct (map slot_seed (somes (pinned (caches e))))" using assms(1) by (simp add: engine_ok_def table_ok_def)
    then have "find (\<lambda>s. slot_seed s = seed) (somes (pinned (caches e))) = Some slot"
      using slot by (intro find_distinct)
    then show ?thesis using 2(2) by (simp add: pinned_lookup_def)
  qed
  then show ?thesis using 2 assms by (auto simp: engine_ok_def resident_seeds_def)
qed

lemma resident_lru: "seed \<notin> resident_seeds t \<Longrightarrow> seed \<notin> fst ` set (lru t)"
  by (simp add: resident_seeds_def)

lemma engine_step_ok:
  assumes "randomx_ok lib keyed rx" "engine_step lib r r'" "run_ok lib keyed r"
  shows "run_ok lib keyed r'"
  using assms(2,3)
proof cases
  case (step_pin live next_seed)
  have "resident_seeds (caches (pin_seeds live next_seed (run_engine r))) \<subseteq> resident_seeds (caches (run_engine r))"
    using assms(3) pin_table_resident by (fastforce simp: run_ok_def engine_ok_def pin_seeds_def)
  then show ?thesis
    using assms(3) step_pin engine_ok_pin
    by (auto simp: run_ok_def pool_ok_def pin_seeds_def split: option.splits)
next
  case (step_reserve n)
  then show ?thesis using assms(3)
    by (auto simp: run_ok_def engine_ok_def pool_ok_def reserve_idle_vms_def split: option.splits)
next
  case (step_hit seed c t)
  then show ?thesis
    using assms(3) lookup_keeps [of lib "run_engine r" seed "Some c" t]
    by (auto simp: run_ok_def pool_ok_def keyed_entry_def split: option.splits)
next
  case (step_begin seed t)
  then show ?thesis
    using assms(3) lookup_keeps [of lib "run_engine r" seed None t] by (auto simp: run_ok_def pool_ok_def)
next
  case (step_built seed c)
  then have "seed \<notin> fst ` set (lru (caches (run_engine r)))"
    using assms(3) resident_lru by (auto simp: run_ok_def)
  then have "engine_ok lib (cache_insert seed c (run_engine r))"
    using assms(3) step_built by (intro cache_insert_ok) (auto simp: run_ok_def)
  then show ?thesis
    using assms(3) step_built by (auto simp: run_ok_def pool_ok_def keyed_entry_def cache_insert_def Let_def)
next
  case (step_build_failed seed msg)
  then show ?thesis using assms(3) by (auto simp: run_ok_def)
next
  case (step_pop vms p)
  then show ?thesis using assms(3) by (auto simp: run_ok_def engine_ok_def pool_ok_def split: option.splits)
next
  case (step_reuse p)
  then show ?thesis using assms(3) by (auto simp: run_ok_def list_all_remove1 list_all_iff dest: notin_set_remove1 split: option.splits)
next
  case (step_rekey p seed c v)
  then have "keyed v seed" using assms(3) by (auto simp: run_ok_def list_all_iff keyed_entry_def intro: randomx_okD(2) [OF assms(1)])
  then show ?thesis using assms(3) step_rekey by (auto simp: run_ok_def list_all_remove1 split: option.splits)
next
  case (step_drop p)
  then show ?thesis using assms(3) by (auto simp: run_ok_def list_all_remove1 split: option.splits)
next
  case (step_new seed c v)
  then have "keyed v seed" using assms(3) by (auto simp: run_ok_def list_all_iff keyed_entry_def intro: randomx_okD(1) [OF assms(1)])
  then show ?thesis using assms(3) step_new by (auto simp: run_ok_def split: option.splits)
next
  case (step_release p)
  then have "keyed (fst p) (snd p)" using assms(3) by (auto simp: run_ok_def list_all_iff)
  then have "pool_ok keyed (release (fst p) (snd p) (run_engine r))"
    using assms(3) by (intro pool_ok_release) (auto simp: run_ok_def)
  moreover have "caches (release (fst p) (snd p) (run_engine r)) = caches (run_engine r)" by (simp add: release_def)
  ultimately show ?thesis
    using assms(3) step_release engine_ok_release by (auto simp: run_ok_def list_all_remove1 split: option.splits)
qed

lemma engine_reachable_ok:
  assumes "randomx_ok lib keyed rx" "engine_reachable lib r"
  shows "run_ok lib keyed r"
  using assms(2)
proof (induction rule: engine_reachable.induct)
  case (reach_start n k)
  then show ?case using with_settings_ok by (fastforce simp: run_ok_def engine_start_def)
next
  case (reach_step r r')
  then show ?case using engine_step_ok [OF assms(1)] by blast
qed

section \<open>Properties\<close>

text \<open>
  C35: The engine computes the hash it was asked for. In every state concurrent callers can bring the engine
  to, by pinning, looking up, filling, pooling and releasing in any order, a hash under a seed that returns
  is the library's hash under that seed, 32 bytes long; and so is a hash on any VM that is leased out.
\<close>

theorem engine_hash_refines:
  assumes "randomx_ok lib keyed rx" "engine_reachable lib r" "fst (engine_hash lib seed input (run_engine r)) = Inr h"
  shows "h = rx seed input \<and> length h = 32
    \<and> (\<forall>v s. (v, s) \<in> set (leases r) \<longrightarrow> lease_hash lib v input \<in> range Inl \<union> {Inr (rx s input)})"
proof -
  have ok: "run_ok lib keyed r" by (rule engine_reachable_ok [OF assms(1,2)])
  obtain x e' where x: "engine_hash lib seed input (run_engine r) = (x, e')" by fastforce
  have "h = rx seed input \<and> length h = 32"
    using engine_hash_ok [OF assms(1) _ _ x] ok assms(3) x by (auto simp: run_ok_def)
  moreover have "lease_hash lib v input \<in> range Inl \<union> {Inr (rx s input)}" if "(v, s) \<in> set (leases r)" for v s
  proof -
    have "keyed v s" using ok that by (auto simp: run_ok_def list_all_iff)
    then show ?thesis using lease_hash_ok [OF assms(1)] by (cases "lease_hash lib v input") auto
  qed
  ultimately show ?thesis by blast
qed

text \<open>
  C36: The cache table stays in bounds. In every reachable state no seed has two entries, at most
  \<open>2 + max_caches\<close> caches are resident, and the pool holds no more idle VMs than it may; and naming two
  seeds pins exactly those two and makes no cache resident that was not.
\<close>

theorem cache_table_bounded:
  assumes "randomx_ok lib keyed rx" "engine_reachable lib r"
  shows "distinct (map slot_seed (somes (pinned (caches (run_engine r)))) @ map fst (lru (caches (run_engine r))))
    \<and> resident_caches (run_engine r) \<le> 2 + max_caches (run_engine r)
    \<and> length (idle (run_engine r)) \<le> max_idle_vms (run_engine r)
    \<and> (is_pinned seed (pin_seeds live next_seed (run_engine r)) \<longleftrightarrow> seed = live \<or> seed = next_seed)
    \<and> resident_seeds (caches (pin_seeds live next_seed (run_engine r))) \<subseteq> resident_seeds (caches (run_engine r))"
proof -
  have ok: "run_ok lib keyed r" by (rule engine_reachable_ok [OF assms])
  then have t: "table_ok lib (max_caches (run_engine r)) (caches (run_engine r))" by (simp add: run_ok_def engine_ok_def)
  have "is_pinned seed (pin_seeds live next_seed (run_engine r)) \<longleftrightarrow> seed \<in> {live, next_seed}"
    using pin_table_ok [OF t, of live next_seed] by (simp add: is_pinned_def is_pinned_identity_iff pin_seeds_def)
  then show ?thesis
    using t ok resident_bound [OF t] pin_table_resident [OF t]
    by (simp add: table_ok_def resident_caches_def run_ok_def pool_ok_def pin_seeds_def)
qed

text \<open>A library whose cache and VM are the seed itself and whose hash repeats the sum of seed and input.\<close>

definition toy_randomx :: "hash256 \<Rightarrow> byte list \<Rightarrow> hash256" where
  "toy_randomx seed input = replicate 32 (sum_list seed + sum_list input)"

definition toy_lib :: "(hash256, hash256) randomx_lib" where
  "toy_lib = \<lparr>rx_cache_new = Inr, rx_vm_new = Inr, rx_reinit_cache = (\<lambda>c v. Inr c),
              rx_calculate_hash = (\<lambda>v input. Inr (toy_randomx v input))\<rparr>"

lemma toy_lib_ok: "randomx_ok toy_lib (\<lambda>v s. v = s) toy_randomx"
  by (simp add: randomx_ok_def toy_lib_def)

theorem engine_hash_refines_witness:
  "\<exists>h. fst (engine_hash toy_lib [3] [4] (run_engine (engine_start 1 2))) = Inr h \<and> h = replicate 32 7"
proof -
  have run: "fst (engine_hash toy_lib [3] [4] (run_engine (engine_start 1 2))) = Inr (toy_randomx [3] [4])"
    by (simp add: engine_hash_def acquire_def cache_for_def cache_lookup_def pinned_lookup_def touch_lru_def take_from_lru_def
        engine_start_def with_settings_def cache_table_default_def toy_lib_def lease_hash_def toy_randomx_def RANDOMX_HASH_LEN_def)
  from engine_hash_refines [OF toy_lib_ok reach_start run] run show ?thesis by (simp add: toy_randomx_def)
qed

theorem cache_table_bounded_witness:
  "\<exists>r. engine_reachable toy_lib r \<and> is_pinned [1] (run_engine r) \<and> is_pinned [2] (pin_seeds [2] [3] (run_engine r))
    \<and> resident_caches (run_engine r) \<le> 4"
proof -
  let ?r = "(engine_start 1 2)\<lparr>run_engine := pin_seeds [1] [2] (run_engine (engine_start 1 2))\<rparr> :: (hash256, hash256) engine_run"
  have reach: "engine_reachable toy_lib ?r" by (rule reach_step [OF reach_start step_pin])
  have "is_pinned [1] (run_engine ?r)"
    using cache_table_bounded [OF toy_lib_ok reach_start [of toy_lib 1 2], of "[1]" "[1]" "[2]"] by simp
  moreover have "is_pinned [2] (pin_seeds [2] [3] (run_engine ?r))"
    using cache_table_bounded [OF toy_lib_ok reach, of "[2]" "[2]" "[3]"] by simp
  moreover have "max_caches (run_engine ?r) = 2" by (simp add: engine_start_def pin_seeds_def with_settings_def)
  then have "resident_caches (run_engine ?r) \<le> 4"
    using cache_table_bounded [OF toy_lib_ok reach, of "[2]" "[2]" "[3]"] by simp
  ultimately show ?thesis using reach by blast
qed

end
