(* ===== verification/Header.thy ===== *)
theory Header
  imports Prelude
begin

text \<open>
  The block header, \<open>chain/primitives/header/src/lib.rs\<close>: its fields, the commitment window of its
  digest and the preimage its hash is taken over. The hash crate and the SCALE encoding of a digest are
  parameters.

  The lemmas show that outside the legacy heights an importable header is fixed by its hash preimage up to
  what the encoding of the two Blake2 roots drops, and exactly so in its parent, number, tree root and
  digest.
\<close>

section \<open>Digests\<close>

datatype digest_item =
    PreRuntime "byte list" "byte list"
  | Consensus "byte list" "byte list"
  | Seal_item "byte list" "byte list"
  | Other_item "byte list"
  | RuntimeEnvironmentUpdated

type_synonym digest = "digest_item list"

text \<open>
  The third-party functions: the lossy and the injective encodings of \<open>qp_poseidon_core\<close> and the
  SCALE encoding of a digest.
\<close>

record header_crypto =
  hc_hash_to_bytes :: "goldilocks list \<Rightarrow> hash256"
  bytes_to_digest_lossy :: "hash256 \<Rightarrow> goldilocks list"
  bytes_to_felts :: "byte list \<Rightarrow> goldilocks list"
  digest_encode :: "digest \<Rightarrow> byte list"

text \<open>
  Documented behaviour: eight bytes per felt, reduced modulo the prime; four bytes per felt and a
  terminator, injective on equal lengths; distinct digests have distinct encodings; and a hash is four
  canonical limbs.
\<close>

definition header_crypto_ok :: "header_crypto \<Rightarrow> bool" where
  "header_crypto_ok hc \<longleftrightarrow>
     (\<forall>fs. length (hc_hash_to_bytes hc fs) = 32 \<and> canonical_limbs (hc_hash_to_bytes hc fs))
     \<and> (\<forall>bs. length bs = 32 \<longrightarrow> bytes_to_digest_lossy hc bs = map felt_from_u64 (limbs bs))
     \<and> (\<forall>xs ys. length xs = length ys \<and> bytes_to_felts hc xs = bytes_to_felts hc ys \<longrightarrow> xs = ys)
     \<and> inj (digest_encode hc)"

section \<open>The commitment window\<close>

definition DIGEST_LOGS_SIZE :: nat where "DIGEST_LOGS_SIZE = 110"
definition MAX_ENCODED_DIGEST_SIZE :: nat where "MAX_ENCODED_DIGEST_SIZE = DIGEST_LOGS_SIZE + 1"
definition LEGACY_DIGEST_CUTOFF :: nat where "LEGACY_DIGEST_CUTOFF = 1000000"

definition max_encoded_digest_size :: "nat \<Rightarrow> nat" where
  "max_encoded_digest_size block_number =
     (if block_number \<le> LEGACY_DIGEST_CUTOFF then MAX_ENCODED_DIGEST_SIZE else DIGEST_LOGS_SIZE)"

definition check_digest_commitment_window :: "header_crypto \<Rightarrow> digest \<Rightarrow> nat \<Rightarrow> (nat, unit) result" where
  "check_digest_commitment_window hc d block_number =
     (let encoded_len = length (digest_encode hc d)
      in if encoded_len = DIGEST_LOGS_SIZE then Inr ()
         else
           let reu_count = length (filter (\<lambda>item. item = RuntimeEnvironmentUpdated) d)
           in if reu_count = 1 \<and> encoded_len = DIGEST_LOGS_SIZE + 1 \<and> block_number \<le> LEGACY_DIGEST_CUTOFF
              then Inr () else Inl encoded_len)"

section \<open>The header\<close>

record header =
  hdr_parent_hash :: hash256
  hdr_number :: nat
  hdr_state_root :: hash256
  hdr_extrinsics_root :: hash256
  hdr_zk_tree_root :: hash256
  hdr_digest :: digest

definition header_new :: "nat \<Rightarrow> hash256 \<Rightarrow> hash256 \<Rightarrow> hash256 \<Rightarrow> digest \<Rightarrow> header" where
  "header_new number extrinsics_root state_root parent_hash digest =
     \<lparr>hdr_parent_hash = parent_hash, hdr_number = number, hdr_state_root = state_root,
      hdr_extrinsics_root = extrinsics_root, hdr_zk_tree_root = zero_hash, hdr_digest = digest\<rparr>"

definition set_zk_tree_root :: "hash256 \<Rightarrow> header \<Rightarrow> header" where
  "set_zk_tree_root root h = h\<lparr>hdr_zk_tree_root := root\<rparr>"

definition digest_window :: "byte list \<Rightarrow> byte list" where
  "digest_window encoded =
     (let copy_len = min (length encoded) DIGEST_LOGS_SIZE
      in take copy_len encoded @ replicate (DIGEST_LOGS_SIZE - copy_len) 0)"

definition header_preimage :: "header_crypto \<Rightarrow> header \<Rightarrow> goldilocks list" where
  "header_preimage hc h =
     bytes_to_digest_lossy hc (hdr_parent_hash h)
     @ [felt_from_u64 (hdr_number h)]
     @ bytes_to_digest_lossy hc (hdr_state_root h)
     @ bytes_to_digest_lossy hc (hdr_extrinsics_root h)
     @ bytes_to_digest_lossy hc (hdr_zk_tree_root h)
     @ bytes_to_felts hc (digest_window (digest_encode hc (hdr_digest h)))"

definition header_hash :: "header_crypto \<Rightarrow> header \<Rightarrow> hash256" where
  "header_hash hc h = hc_hash_to_bytes hc (header_preimage hc h)"

section \<open>Lemmas\<close>

definition header_ok :: "header \<Rightarrow> bool" where
  "header_ok h \<longleftrightarrow> length (hdr_parent_hash h) = 32 \<and> length (hdr_state_root h) = 32
     \<and> length (hdr_extrinsics_root h) = 32 \<and> length (hdr_zk_tree_root h) = 32 \<and> hdr_number h < 2 ^ 32"

text \<open>Equal modulo the prime in each of the four limbs: what the lossy encoding keeps of a digest.\<close>

definition same_limbs :: "hash256 \<Rightarrow> hash256 \<Rightarrow> bool" where
  "same_limbs a b \<longleftrightarrow> map (\<lambda>l. l mod GOLDILOCKS_P) (limbs a) = map (\<lambda>l. l mod GOLDILOCKS_P) (limbs b)"

lemma header_crypto_okD:
  assumes "header_crypto_ok hc"
  shows "length bs = 32 \<Longrightarrow> bytes_to_digest_lossy hc bs = map felt_from_u64 (limbs bs)"
    and "length xs = length ys \<Longrightarrow> bytes_to_felts hc xs = bytes_to_felts hc ys \<longleftrightarrow> xs = ys"
    and "digest_encode hc d = digest_encode hc d' \<longleftrightarrow> d = d'"
  using assms unfolding header_crypto_ok_def inj_def by blast+

lemma map_felt_mod: "map felt_from_u64 xs = map felt_from_u64 ys \<longleftrightarrow> map (\<lambda>l. l mod GOLDILOCKS_P) xs = map (\<lambda>l. l mod GOLDILOCKS_P) ys"
proof -
  have "felt_from_u64 a = felt_from_u64 b \<longleftrightarrow> a mod GOLDILOCKS_P = b mod GOLDILOCKS_P" for a b
    by (simp add: felt_eq_iff)
  then show ?thesis by (simp add: list_eq_iff_nth_eq cong: conj_cong)
qed

lemma lossy_eq:
  assumes "header_crypto_ok hc" "length a = 32" "length b = 32"
  shows "bytes_to_digest_lossy hc a = bytes_to_digest_lossy hc b \<longleftrightarrow> same_limbs a b"
  using assms by (simp add: header_crypto_okD(1) map_felt_mod same_limbs_def)

lemma lossy_length: "header_crypto_ok hc \<Longrightarrow> length a = 32 \<Longrightarrow> length (bytes_to_digest_lossy hc a) = 4"
  by (simp add: header_crypto_okD(1) length_limbs)

lemma same_limbs_canonical:
  assumes "length a = 32" "length b = 32" "canonical_limbs a" "canonical_limbs b"
  shows "same_limbs a b \<longleftrightarrow> a = b"
  using canonical_digest_inject [OF assms] by (auto simp: same_limbs_def map_felt_mod)

lemma number_felt: "n < 2 ^ 32 \<Longrightarrow> m < 2 ^ 32 \<Longrightarrow> felt_from_u64 n = felt_from_u64 m \<longleftrightarrow> n = m"
  by (simp add: felt_eq_iff GOLDILOCKS_P_def)

lemma length_digest_window [simp]: "length (digest_window e) = DIGEST_LOGS_SIZE"
  by (simp add: digest_window_def Let_def)

lemma digest_window_full: "length e = DIGEST_LOGS_SIZE \<Longrightarrow> digest_window e = e"
  by (simp add: digest_window_def Let_def)

lemma window_full:
  assumes "check_digest_commitment_window hc d n = Inr ()" "LEGACY_DIGEST_CUTOFF < n"
  shows "length (digest_encode hc d) = DIGEST_LOGS_SIZE"
  using assms by (auto simp: check_digest_commitment_window_def Let_def split: if_splits)

lemma header_preimage_eq:
  assumes "header_crypto_ok hc" "header_ok h" "header_ok h'"
  shows "header_preimage hc h = header_preimage hc h' \<longleftrightarrow>
    same_limbs (hdr_parent_hash h) (hdr_parent_hash h') \<and> hdr_number h = hdr_number h'
    \<and> same_limbs (hdr_state_root h) (hdr_state_root h') \<and> same_limbs (hdr_extrinsics_root h) (hdr_extrinsics_root h')
    \<and> same_limbs (hdr_zk_tree_root h) (hdr_zk_tree_root h')
    \<and> digest_window (digest_encode hc (hdr_digest h)) = digest_window (digest_encode hc (hdr_digest h'))"
  using assms(2,3) unfolding header_preimage_def header_ok_def
  by (auto simp: lossy_eq [OF assms(1)] lossy_length [OF assms(1)] number_felt header_crypto_okD(2) [OF assms(1)])

section \<open>Properties\<close>

text \<open>
  C39: The hash preimage binds the header. Two headers with canonical parent hash and tree root that pass the
  commitment-window check above the legacy cutoff have the same hash preimage exactly when they agree in
  parent, number, tree root and the whole digest, seal included, and in the two Blake2 roots limb by limb
  modulo the prime.
\<close>

theorem header_preimage_binds:
  assumes "header_crypto_ok hc" "header_ok h" "header_ok h'"
    and "canonical_limbs (hdr_parent_hash h)" "canonical_limbs (hdr_parent_hash h')"
    and "canonical_limbs (hdr_zk_tree_root h)" "canonical_limbs (hdr_zk_tree_root h')"
    and "check_digest_commitment_window hc (hdr_digest h) (hdr_number h) = Inr ()" "LEGACY_DIGEST_CUTOFF < hdr_number h"
    and "check_digest_commitment_window hc (hdr_digest h') (hdr_number h') = Inr ()" "LEGACY_DIGEST_CUTOFF < hdr_number h'"
  shows "header_preimage hc h = header_preimage hc h' \<longleftrightarrow>
    hdr_parent_hash h = hdr_parent_hash h' \<and> hdr_number h = hdr_number h' \<and> hdr_zk_tree_root h = hdr_zk_tree_root h'
    \<and> hdr_digest h = hdr_digest h'
    \<and> same_limbs (hdr_state_root h) (hdr_state_root h') \<and> same_limbs (hdr_extrinsics_root h) (hdr_extrinsics_root h')"
proof -
  have "digest_window (digest_encode hc (hdr_digest h)) = digest_window (digest_encode hc (hdr_digest h'))
    \<longleftrightarrow> hdr_digest h = hdr_digest h'"
    using window_full [OF assms(8,9)] window_full [OF assms(10,11)] header_crypto_okD(3) [OF assms(1)]
    by (simp add: digest_window_full)
  then show ?thesis
    using assms(2-7) unfolding header_preimage_eq [OF assms(1-3)]
    by (auto simp: header_ok_def same_limbs_canonical)
qed
text \<open>
  An instance of the third-party contract. A digest of one label of 32 bytes and one seal of 64 takes 110
  bytes; in any other, bytes are escaped, strings end with a zero and items start with a tag.
\<close>

fun escape_bytes :: "byte list \<Rightarrow> byte list" where
  "escape_bytes [] = [0]"
| "escape_bytes (b # bs) = 1 # b # escape_bytes bs"

fun item_bytes :: "digest_item \<Rightarrow> byte list" where
  "item_bytes (PreRuntime i bs) = 6 # escape_bytes i @ escape_bytes bs"
| "item_bytes (Consensus i bs) = 4 # escape_bytes i @ escape_bytes bs"
| "item_bytes (Seal_item i bs) = 5 # escape_bytes i @ escape_bytes bs"
| "item_bytes (Other_item bs) = 0 # escape_bytes bs"
| "item_bytes RuntimeEnvironmentUpdated = [8]"

fun canonical_shape :: "digest \<Rightarrow> bool" where
  "canonical_shape [PreRuntime i l, Seal_item j b] = (length i = 4 \<and> length l = 32 \<and> length j = 4 \<and> length b = 64)"
| "canonical_shape d = False"

definition digest_bytes :: "digest \<Rightarrow> byte list" where
  "digest_bytes d =
     (if canonical_shape d then
        (case d of [PreRuntime i l, Seal_item j b] \<Rightarrow> [7, 7, 7, 7, 7, 7] @ i @ l @ j @ b | _ \<Rightarrow> [])
      else 9 # concat (map item_bytes d))"

definition sample_header_crypto :: header_crypto where
  "sample_header_crypto =
     \<lparr>hc_hash_to_bytes = hash_to_bytes sample_poseidon,
      bytes_to_digest_lossy = (\<lambda>bs. map felt_from_u64 (limbs bs)),
      bytes_to_felts = map (\<lambda>b. felt_from_u64 (unat b)),
      digest_encode = digest_bytes\<rparr>"

lemma escape_bytes_inject: "escape_bytes xs @ r = escape_bytes ys @ r' \<longleftrightarrow> xs = ys \<and> r = r'"
  by (induction xs arbitrary: ys) (rename_tac ys, case_tac ys; auto)+

lemma item_bytes_inject: "item_bytes x @ r = item_bytes y @ r' \<longleftrightarrow> x = y \<and> r = r'"
  by (cases x; cases y) (auto simp: escape_bytes_inject)

lemma item_bytes_nonempty [simp]: "item_bytes x \<noteq> []"
  by (cases x) auto

lemma concat_item_bytes_inject: "concat (map item_bytes d) = concat (map item_bytes d') \<longleftrightarrow> d = d'"
proof (induction d arbitrary: d')
  case Nil
  then show ?case by (cases d') auto
next
  case (Cons x d)
  then show ?case by (cases d') (auto simp: item_bytes_inject)
qed

lemma canonical_shapeE:
  assumes "canonical_shape d"
  obtains i l j b where "d = [PreRuntime i l, Seal_item j b]" "length i = 4" "length l = 32" "length j = 4" "length b = 64"
  using assms by (cases d rule: canonical_shape.cases) simp_all

lemma digest_bytes_inject: "digest_bytes d = digest_bytes d' \<longleftrightarrow> d = d'"
proof (cases "canonical_shape d = canonical_shape d'")
  case True
  show ?thesis
  proof (cases "canonical_shape d")
    case shape: True
    then have shape': "canonical_shape d'" using True by simp
    show ?thesis
      by (rule canonical_shapeE [OF shape], rule canonical_shapeE [OF shape'])
        (use shape shape' in \<open>simp add: digest_bytes_def\<close>)
  next
    case False
    then show ?thesis using True by (simp add: digest_bytes_def concat_item_bytes_inject)
  qed
next
  case False
  have "digest_bytes x \<noteq> digest_bytes y" if "canonical_shape x" "\<not> canonical_shape y" for x y
    by (rule canonical_shapeE [OF that(1)]) (use that in \<open>simp add: digest_bytes_def\<close>)
  then show ?thesis using False by metis
qed

lemma byte_felt_inject: "map (\<lambda>b :: byte. felt_from_u64 (unat b)) xs = map (\<lambda>b. felt_from_u64 (unat b)) ys \<Longrightarrow> xs = ys"
proof (rule map_injective, assumption)
  show "inj (\<lambda>b :: byte. felt_from_u64 (unat b))"
  proof (rule injI)
    fix a b :: byte
    assume "felt_from_u64 (unat a) = felt_from_u64 (unat b)"
    then have "unat a = unat b"
      using number_felt [of "unat a" "unat b"] unat_byte_lt [of a] unat_byte_lt [of b] by simp
    then show "a = b" by (simp only: unsigned_word_eqI)
  qed
qed

lemma sample_header_crypto_ok: "header_crypto_ok sample_header_crypto"
  using poseidon_okD(1,2) [OF sample_poseidon_ok] byte_felt_inject
  by (auto simp: header_crypto_ok_def sample_header_crypto_def inj_def digest_bytes_inject)

text \<open>Two sealed headers above the cutoff that differ in the last byte of the seal only.\<close>

definition sample_header :: "byte \<Rightarrow> header" where
  "sample_header b =
     \<lparr>hdr_parent_hash = zero_hash, hdr_number = 1000001, hdr_state_root = zero_hash, hdr_extrinsics_root = zero_hash,
      hdr_zk_tree_root = zero_hash,
      hdr_digest = [PreRuntime (replicate 4 1) (replicate 32 2), Seal_item (replicate 4 1) (replicate 63 3 @ [b])]\<rparr>"

lemma sample_header_imports:
  "check_digest_commitment_window sample_header_crypto (hdr_digest (sample_header b)) 1000001 = Inr ()"
  by (simp add: check_digest_commitment_window_def sample_header_def sample_header_crypto_def DIGEST_LOGS_SIZE_def
      digest_bytes_def)

lemma zero_hash_canonical: "length zero_hash = 32" "canonical_limbs zero_hash"
proof -
  show "length zero_hash = 32" by (simp add: zero_hash_def)
  have "0 < GOLDILOCKS_P" by (rule GOLDILOCKS_P_bounds)
  then show "canonical_limbs zero_hash" unfolding zero_hash_limbs by (intro canonical_digest_of_limbs) auto
qed

theorem header_preimage_binds_witness:
  "header_preimage sample_header_crypto (sample_header 0) \<noteq> header_preimage sample_header_crypto (sample_header 1)"
proof -
  have f: "hdr_parent_hash (sample_header b) = zero_hash" "hdr_zk_tree_root (sample_header b) = zero_hash"
    "hdr_number (sample_header b) = 1000001" "header_ok (sample_header b)" for b
    by (simp_all add: sample_header_def header_ok_def zero_hash_canonical)
  have "header_preimage sample_header_crypto (sample_header 0) = header_preimage sample_header_crypto (sample_header 1)
    \<Longrightarrow> hdr_digest (sample_header 0) = hdr_digest (sample_header 1)"
    using header_preimage_binds [OF sample_header_crypto_ok f(4) f(4), of 0 1]
    by (simp add: f zero_hash_canonical sample_header_imports LEGACY_DIGEST_CUTOFF_def)
  then show ?thesis by (auto simp: sample_header_def)
qed

end
