(* ===== verification/PowImport.thy ===== *)
theory PowImport
  imports Operations Header RandomX RandomxEngine Admission
begin

text \<open>
  Verification and import of a sealed block, \<open>chain/client/consensus/randomx/src/lib.rs\<close> and
  \<open>chain_management.rs\<close>: the position check, the seed of a block's own branch, the seal check with
  its budgets, the import queue's verifier, and the import with cumulative work and fork choice. The
  database client, the runtime it answers from, the inner import and the inherents are a record of
  functions on an abstract client state.

  The lemmas show that the verifier and the importer agree up to policy, that whatever blocks are offered in
  whatever order, repeats included, the best block is a heaviest one, and what a failed import leaves behind.
\<close>

section \<open>Errors\<close>

record side_branch_refusal =
  sb_height :: nat
  sb_parent :: hash256
  sb_difficulty :: nat
  sb_tip_difficulty :: nat
  sb_fraction :: nat
  sb_retry_after_secs :: nat

record seed_fill_refusal =
  sf_height :: nat
  sf_parent :: hash256
  sf_seed :: hash256
  sf_seed_height :: nat
  sf_retry_after_secs :: nat

datatype pow_error =
    WrongEngine "byte list"
  | HeaderUnsealed hash256
  | InvalidSeal
  | MalformedSeal seal_error
  | CreateInherents string
  | CheckInherents string
  | CheckInherentsUnknownError "byte list"
  | DigestWindowMismatch nat nat
  | SeedUnreachable nat
  | UnknownParent hash256
  | HeightMismatch nat nat
  | BelowFinalized nat nat
  | SideBranchBudgetExhausted side_branch_refusal
  | SeedFillBudgetExhausted seed_fill_refusal
  | Engine engine_error
  | Client string
  | Runtime string
  | Other string
  | ClientImport pow_error

section \<open>The client\<close>

record chain_info =
  best_hash :: hash256
  best_number :: nat
  genesis_hash :: hash256
  finalized_hash :: hash256
  finalized_number :: nat
  block_gap_start :: "nat option"

datatype import_result = Imported | AlreadyInChain | KnownBad | UnknownParentResult | MissingState

record 'b import_params =
  ip_header :: header
  ip_post_digests :: digest
  ip_body :: "'b option"
  ip_skip_execution_checks :: bool
  ip_refusal :: "pow_error option"
  ip_fork_choice :: "bool option"

record ('s, 'b) pow_client =
  cl_hash :: "'s \<Rightarrow> nat \<Rightarrow> (string, hash256 option) result"
  cl_header :: "'s \<Rightarrow> hash256 \<Rightarrow> (string, header option) result"
  cl_number :: "'s \<Rightarrow> hash256 \<Rightarrow> (string, nat option) result"
  cl_info :: "'s \<Rightarrow> chain_info"
  cl_in_chain :: "'s \<Rightarrow> hash256 \<Rightarrow> bool"
  cl_difficulty :: "'s \<Rightarrow> hash256 \<Rightarrow> (string, nat) result"
  cl_seed_epoch_blocks :: "'s \<Rightarrow> hash256 \<Rightarrow> (string, nat) result"
  cl_seed_epoch_lag :: "'s \<Rightarrow> hash256 \<Rightarrow> (string, nat) result"
  cl_get_aux :: "'s \<Rightarrow> byte list \<Rightarrow> (string, byte list option) result"
  cl_insert_aux :: "(byte list \<times> byte list) list \<Rightarrow> byte list list \<Rightarrow> ('s, string, unit) op"
  cl_check_block :: "'s \<Rightarrow> hash256 \<Rightarrow> nat \<Rightarrow> hash256 \<Rightarrow> (pow_error, import_result) result"
  cl_import :: "'b import_params \<Rightarrow> ('s, pow_error, import_result) op"
  cl_inherent_providers :: "'s \<Rightarrow> hash256 \<Rightarrow> (string, unit) result"
  cl_create_inherents :: "'s \<Rightarrow> hash256 \<Rightarrow> (string, unit) result"
  cl_check_inherents :: "'s \<Rightarrow> hash256 \<Rightarrow> header \<Rightarrow> 'b \<Rightarrow> (string, (byte list \<times> string) list) result"
  cl_try_handle_error :: "byte list \<Rightarrow> string \<Rightarrow> (string, unit) result option"
  cl_check_inherents_after :: nat
  cl_encode_work :: "nat \<Rightarrow> byte list"
  cl_decode_work :: "byte list \<Rightarrow> nat option"

section \<open>Cumulative work\<close>

definition ACHIEVED_WORK_PREFIX :: "byte list" where
  "ACHIEVED_WORK_PREFIX = map (\<lambda>c. word_of_nat (of_char c)) ''QPow:AchievedWork:''"

definition ensure_pow_database :: "('s, 'b) pow_client \<Rightarrow> 's \<Rightarrow> (pow_error, unit) result" where
  "ensure_pow_database cl s =
     (let info = cl_info cl s
      in if finalized_number info \<noteq> 0 \<or> finalized_hash info \<noteq> genesis_hash info
         then Inl (Client ''finalized checkpoint'') else Inr ())"

definition work_key :: "hash256 \<Rightarrow> byte list" where
  "work_key block_hash = ACHIEVED_WORK_PREFIX @ block_hash"

definition store_cumulative_achieved_work :: "('s, 'b) pow_client \<Rightarrow> hash256 \<Rightarrow> nat \<Rightarrow> ('s, string, unit) op" where
  "store_cumulative_achieved_work cl block_hash work = cl_insert_aux cl [(work_key block_hash, cl_encode_work cl work)] []"

definition get_cumulative_achieved_work :: "('s, 'b) pow_client \<Rightarrow> 's \<Rightarrow> hash256 \<Rightarrow> (string, nat) result" where
  "get_cumulative_achieved_work cl s block_hash =
     rbind (cl_get_aux cl s (work_key block_hash)) (\<lambda>found.
       case found of
         Some bytes \<Rightarrow> ok_or (cl_decode_work cl bytes) ''Failed to decode cumulative work''
       | None \<Rightarrow> Inr 0)"

definition delete_cumulative_achieved_work :: "('s, 'b) pow_client \<Rightarrow> hash256 \<Rightarrow> ('s, string, unit) op" where
  "delete_cumulative_achieved_work cl block_hash = cl_insert_aux cl [] [work_key block_hash]"

definition initialize_genesis_achieved_work :: "('s, 'b) pow_client \<Rightarrow> ('s, string, unit) op" where
  "initialize_genesis_achieved_work cl s =
     (case rbind (cl_hash cl s 0) (\<lambda>h. ok_or h ''Genesis block not found'') of
        Inl e \<Rightarrow> (Inl e, s)
      | Inr genesis \<Rightarrow>
          case get_cumulative_achieved_work cl s genesis of
            Inl e \<Rightarrow> (Inl e, s)
          | Inr existing \<Rightarrow>
              if existing \<noteq> 0 then (Inr (), s) else store_cumulative_achieved_work cl genesis 1 s)"

definition get_chain_work :: "('s, 'b) pow_client \<Rightarrow> 's \<Rightarrow> hash256 \<Rightarrow> (pow_error, nat) result" where
  "get_chain_work cl s at_hash = map_err Other (get_cumulative_achieved_work cl s at_hash)"

definition is_heavier :: "nat \<Rightarrow> nat \<Rightarrow> nat \<Rightarrow> nat \<Rightarrow> bool" where
  "is_heavier candidate_work candidate_number current_work current_number \<longleftrightarrow>
     current_work < candidate_work \<or> (candidate_work = current_work \<and> current_number < candidate_number)"

section \<open>Position and seed\<close>

definition backend_view :: "('s, 'b) pow_client \<Rightarrow> 's \<Rightarrow> chain_view" where
  "backend_view cl s =
     \<lparr>canonical_hash = (\<lambda>n. cl_hash cl s (min n (2 ^ 32 - 1))),
      parent_of = (\<lambda>h. rbind (cl_header cl s h) (\<lambda>hdr. Inr (map_option hdr_parent_hash hdr)))\<rparr>"

definition client_tip_view :: "('s, 'b) pow_client \<Rightarrow> 's \<Rightarrow> tip_view" where
  "client_tip_view cl s =
     \<lparr>tip = (best_hash (cl_info cl s), best_number (cl_info cl s)), difficulty_after = cl_difficulty cl s\<rparr>"

definition hash_at_ancestor ::
  "('s, 'b) pow_client \<Rightarrow> 's \<Rightarrow> hash256 \<Rightarrow> nat \<Rightarrow> nat \<Rightarrow> nat \<Rightarrow> (pow_error, hash256) result" where
  "hash_at_ancestor cl s parent height target_height max_walk =
     rbind (map_err Other (resolve_on_branch (backend_view cl s) parent height target_height max_walk))
       (\<lambda>found. ok_or found (SeedUnreachable target_height))"

definition seed_hashes ::
  "('s, 'b) pow_client \<Rightarrow> 's \<Rightarrow> hash256 \<Rightarrow> nat \<Rightarrow> (pow_error, hash256 \<times> hash256 \<times> nat) result" where
  "seed_hashes cl s parent height =
     rbind (map_err Runtime (cl_seed_epoch_blocks cl s parent)) (\<lambda>epoch.
     rbind (map_err Runtime (cl_seed_epoch_lag cl s parent)) (\<lambda>lag.
       let sh = seed_height height epoch lag;
           nsh = next_seed_height height epoch lag
       in rbind (hash_at_ancestor cl s parent height sh (epoch + lag)) (\<lambda>seed.
          rbind (if nsh = sh then Inr seed else hash_at_ancestor cl s parent height nsh (epoch + lag)) (\<lambda>next_seed.
            Inr (seed, next_seed, sh)))))"

definition check_header_position ::
  "('s, 'b) pow_client \<Rightarrow> 's \<Rightarrow> hash256 \<Rightarrow> nat \<Rightarrow> hash256 \<Rightarrow> (pow_error, unit) result" where
  "check_header_position cl s parent height block_hash =
     rbind (map_err Client (cl_number cl s parent)) (\<lambda>found.
     rbind (ok_or found (UnknownParent parent)) (\<lambda>parent_number.
       ensure (height = sat_add 64 parent_number 1) (HeightMismatch height parent_number)
         (let info = cl_info cl s;
              finalized = finalized_number info
          in if finalized < height then Inr ()
             else if block_gap_start info = Some height \<or> cl_in_chain cl s block_hash then Inr ()
             else Inl (BelowFinalized height finalized))))"

section \<open>Verification\<close>

type_synonym ('c, 'v) verifier_state = "('c, 'v) engine \<times> admission_budgets option"

definition check_seal ::
  "('c, 'v) randomx_lib \<Rightarrow> hash256 \<Rightarrow> nat \<Rightarrow> hash256 \<Rightarrow> seal \<Rightarrow> nat \<Rightarrow> (('c, 'v) engine, pow_error, hash256) op" where
  "check_seal lib pre_hash height seed sl difficulty e =
     (case engine_hash lib seed (build_blob pre_hash height (extra_nonce sl) (nonce sl)) e of
        (Inl err, e') \<Rightarrow> (Inl (Engine err), e')
      | (Inr hash, e') \<Rightarrow> (ensure (meets_difficulty hash difficulty) InvalidSeal (Inr hash), e'))"

text \<open>The class of the block, when there are budgets to charge.\<close>

definition classify_block ::
  "('s, 'b) pow_client \<Rightarrow> 's \<Rightarrow> hash256 \<Rightarrow> nat \<Rightarrow> (('c, 'v) verifier_state, pow_error, side_branch_class option) op" where
  "classify_block cl s parent difficulty = (\<lambda>(e, bs).
     case bs of
       None \<Rightarrow> (Inr None, (e, None))
     | Some b \<Rightarrow>
         case classify (client_tip_view cl s) parent difficulty b of
           (Inl msg, b') \<Rightarrow> (Inl (Other msg), (e, Some b'))
         | (Inr k, b') \<Rightarrow> (Inr (Some k), (e, Some b')))"

definition charge_fill ::
  "nat \<Rightarrow> hash256 \<Rightarrow> nat \<Rightarrow> hash256 \<Rightarrow> nat \<Rightarrow> side_branch_class option \<Rightarrow> (('c, 'v) verifier_state, pow_error, unit) op" where
  "charge_fill now parent height seed sh kind = (\<lambda>(e, bs).
     case (bs, kind) of
       (Some b, Some k) \<Rightarrow>
         if k \<noteq> ExtendsTip \<and> \<not> is_pinned seed e \<and> \<not> is_resident seed e then
           (case charge_seed_fill now b of
              (Inl retry, b') \<Rightarrow>
                (Inl (SeedFillBudgetExhausted \<lparr>sf_height = height, sf_parent = parent, sf_seed = seed, sf_seed_height = sh,
                        sf_retry_after_secs = retry div 1000000000\<rparr>), (e, Some b'))
            | (Inr _, b') \<Rightarrow> (Inr (), (e, Some b')))
         else (Inr (), (e, bs))
     | _ \<Rightarrow> (Inr (), (e, bs)))"

definition charge_side ::
  "nat \<Rightarrow> hash256 \<Rightarrow> nat \<Rightarrow> nat \<Rightarrow> side_branch_class option \<Rightarrow> (('c, 'v) verifier_state, pow_error, unit) op" where
  "charge_side now parent height difficulty kind = (\<lambda>(e, bs).
     case (bs, kind) of
       (Some b, Some k) \<Rightarrow>
         (case charge_side_branch k now b of
            (Inl retry, b') \<Rightarrow>
              (Inl (SideBranchBudgetExhausted \<lparr>sb_height = height, sb_parent = parent, sb_difficulty = difficulty,
                      sb_tip_difficulty = (case k of Cheap d \<Rightarrow> d | _ \<Rightarrow> 0), sb_fraction = SIDE_BRANCH_DIFFICULTY_FRACTION,
                      sb_retry_after_secs = retry div 1000000000\<rparr>), (e, Some b'))
          | (Inr _, b') \<Rightarrow> (Inr (), (e, Some b')))
     | _ \<Rightarrow> (Inr (), (e, bs)))"

definition seal_check ::
  "('c, 'v) randomx_lib \<Rightarrow> hash256 \<Rightarrow> nat \<Rightarrow> hash256 \<Rightarrow> seal \<Rightarrow> nat \<Rightarrow> (('c, 'v) verifier_state, pow_error, hash256) op" where
  "seal_check lib pre_hash height seed sl difficulty = (\<lambda>(e, bs).
     case check_seal lib pre_hash height seed sl difficulty e of (r, e') \<Rightarrow> (r, (e', bs)))"

definition verify_pow ::
  "('s, 'b) pow_client \<Rightarrow> 's \<Rightarrow> ('c, 'v) randomx_lib \<Rightarrow> nat \<Rightarrow> hash256 \<Rightarrow> nat \<Rightarrow> hash256 \<Rightarrow> hash256 \<Rightarrow> byte list
    \<Rightarrow> (('c, 'v) verifier_state, pow_error, nat) op" where
  "verify_pow cl s lib now parent height pre_hash block_hash seal_bytes =
     op_bind (op_of (map_err MalformedSeal (seal_decode seal_bytes))) (\<lambda>sl.
     op_then (op_of (check_header_position cl s parent height block_hash)) (
     op_bind (op_of (map_err Runtime (cl_difficulty cl s parent))) (\<lambda>difficulty.
     op_bind (classify_block cl s parent difficulty) (\<lambda>kind.
     op_bind (op_of (seed_hashes cl s parent height)) (\<lambda>(seed, _, sh).
     op_then (charge_fill now parent height seed sh kind) (
     op_then (seal_check lib pre_hash height seed sl difficulty) (
     op_then (charge_side now parent height difficulty kind) (
     op_return difficulty))))))))"

section \<open>The import queue's verifier\<close>

definition POW_ENGINE_ID :: "byte list" where
  "POW_ENGINE_ID = [0x70, 0x6f, 0x77, 0x5f]"

text \<open>The header with the digest items after the seal was taken off put back on.\<close>

definition post_header :: "'b import_params \<Rightarrow> header" where
  "post_header p = (ip_header p)\<lparr>hdr_digest := hdr_digest (ip_header p) @ ip_post_digests p\<rparr>"

definition last_item :: "digest \<Rightarrow> digest_item option" where
  "last_item d = (if d = [] then None else Some (last d))"

definition fetch_seal :: "digest_item option \<Rightarrow> hash256 \<Rightarrow> (pow_error, byte list) result" where
  "fetch_seal item hash =
     (case item of
        Some (Seal_item engine_id bytes) \<Rightarrow> if engine_id = POW_ENGINE_ID then Inr bytes else Inl (WrongEngine engine_id)
      | _ \<Rightarrow> Inl (HeaderUnsealed hash))"

definition extract_pow_seal :: "header_crypto \<Rightarrow> 'b import_params \<Rightarrow> (pow_error, 'b import_params) result" where
  "extract_pow_seal hc p =
     (let hdr = ip_header p
      in rbind (map_err (\<lambda>len. DigestWindowMismatch len DIGEST_LOGS_SIZE)
                 (check_digest_commitment_window hc (hdr_digest hdr) (hdr_number hdr))) (\<lambda>_.
           case last_item (hdr_digest hdr) of
             Some (Seal_item engine_id bytes) \<Rightarrow>
               if engine_id = POW_ENGINE_ID then
                 rbind (map_err MalformedSeal (seal_decode bytes)) (\<lambda>_.
                   Inr (p\<lparr>ip_header := hdr\<lparr>hdr_digest := butlast (hdr_digest hdr)\<rparr>,
                          ip_post_digests := ip_post_digests p @ [Seal_item engine_id bytes]\<rparr>))
               else Inl (WrongEngine engine_id)
           | _ \<Rightarrow> Inl (HeaderUnsealed (header_hash hc hdr))))"

definition warn_about :: "budget_kind \<Rightarrow> nat \<Rightarrow> ('c, 'v) verifier_state \<Rightarrow> ('c, 'v) verifier_state" where
  "warn_about kind now = (\<lambda>(e, bs). (e, map_option (\<lambda>b. snd (should_warn kind now b)) bs))"

definition verify ::
  "('s, 'b) pow_client \<Rightarrow> 's \<Rightarrow> ('c, 'v) randomx_lib \<Rightarrow> header_crypto \<Rightarrow> nat \<Rightarrow> 'b import_params
    \<Rightarrow> (('c, 'v) verifier_state, pow_error, 'b import_params) op" where
  "verify cl s lib hc now p0 =
     op_bind (op_of (extract_pow_seal hc p0)) (\<lambda>p.
       let hdr = ip_header p;
           pre_hash = header_hash hc hdr;
           block_hash = header_hash hc (post_header p)
       in op_bind (op_of (fetch_seal (last_item (ip_post_digests p)) pre_hash)) (\<lambda>inner_seal.
          (\<lambda>st.
            case verify_pow cl s lib now (hdr_parent_hash hdr) (hdr_number hdr) pre_hash block_hash inner_seal st of
              (Inr _, st') \<Rightarrow> (Inr p, st')
            | (Inl (SideBranchBudgetExhausted refusal), st') \<Rightarrow>
                (Inr (p\<lparr>ip_refusal := Some (SideBranchBudgetExhausted refusal)\<rparr>), warn_about SideBranch now st')
            | (Inl (SeedFillBudgetExhausted refusal), st') \<Rightarrow>
                (Inl (SeedFillBudgetExhausted refusal), warn_about SeedFill now st')
            | (Inl err, st') \<Rightarrow> (Inl err, st'))))"

section \<open>Import\<close>

fun handle_inherent_errors :: "('s, 'b) pow_client \<Rightarrow> (byte list \<times> string) list \<Rightarrow> (pow_error, unit) result" where
  "handle_inherent_errors cl [] = Inr ()"
| "handle_inherent_errors cl ((identifier, err) # errs) =
     (case cl_try_handle_error cl identifier err of
        Some res \<Rightarrow> rbind (map_err CheckInherents res) (\<lambda>_. handle_inherent_errors cl errs)
      | None \<Rightarrow> Inl (CheckInherentsUnknownError identifier))"

definition check_inherents :: "('s, 'b) pow_client \<Rightarrow> 's \<Rightarrow> header \<Rightarrow> 'b \<Rightarrow> hash256 \<Rightarrow> (pow_error, unit) result" where
  "check_inherents cl s hdr body at_hash =
     (if hdr_number hdr < cl_check_inherents_after cl then Inr ()
      else
        rbind (map_err CreateInherents (cl_create_inherents cl s at_hash)) (\<lambda>_.
        rbind (map_err Client (cl_check_inherents cl s at_hash hdr body)) (\<lambda>errs.
          handle_inherent_errors cl errs)))"

text \<open>The work of the block and whether it takes the best place, from the works stored for its parent and the tip.\<close>

definition fork_choice ::
  "('s, 'b) pow_client \<Rightarrow> 's \<Rightarrow> hash256 \<Rightarrow> nat \<Rightarrow> nat \<Rightarrow> (pow_error, nat \<times> bool) result" where
  "fork_choice cl s parent number achieved_difficulty =
     rbind (get_chain_work cl s parent) (\<lambda>parent_work.
       let new_work = sat_add 512 parent_work achieved_difficulty;
           info = cl_info cl s
       in rbind (get_chain_work cl s (best_hash info)) (\<lambda>current_best_work.
            Inr (new_work, is_heavier new_work number current_best_work (best_number info))))"

text \<open>A new tip names the seeds the next block hashes under; a failure to resolve them is only logged.\<close>

definition pin_after_import :: "('s, 'b) pow_client \<Rightarrow> 's \<Rightarrow> hash256 \<Rightarrow> ('c, 'v) engine \<Rightarrow> ('c, 'v) engine" where
  "pin_after_import cl s block_hash e =
     (let info = cl_info cl s
      in if best_hash info = block_hash then
           (case seed_hashes cl s (best_hash info) (sat_add 64 (best_number info) 1) of
              Inr (seed, next_seed, _) \<Rightarrow> pin_seeds seed next_seed e
            | Inl _ \<Rightarrow> e)
         else e)"

text \<open>Work first, then the inner import; a failed import takes the work out again.\<close>

definition commit_block ::
  "('s, 'b) pow_client \<Rightarrow> hash256 \<Rightarrow> nat \<Rightarrow> 'b import_params \<Rightarrow> ('s, pow_error, import_result) op" where
  "commit_block cl block_hash new_work p s =
     (case store_cumulative_achieved_work cl block_hash new_work s of
        (Inl e, s1) \<Rightarrow> (Inl (ClientImport (Client e)), s1)
      | (Inr _, s1) \<Rightarrow>
          case cl_import cl p s1 of
            (Inr r, s2) \<Rightarrow> (Inr r, s2)
          | (Inl e, s2) \<Rightarrow> (Inl e, snd (delete_cumulative_achieved_work cl block_hash s2)))"

definition import_inherents :: "('s, 'b) pow_client \<Rightarrow> 's \<Rightarrow> 'b import_params \<Rightarrow> (pow_error, unit) result" where
  "import_inherents cl s p =
     (case ip_body p of
        Some body \<Rightarrow>
          if ip_skip_execution_checks p then Inr ()
          else rbind (map_err Other (cl_inherent_providers cl s (hdr_parent_hash (ip_header p)))) (\<lambda>_.
                 check_inherents cl s (ip_header p) body (hdr_parent_hash (ip_header p)))
      | None \<Rightarrow> Inr ())"

text \<open>What is left of an import once the seal is proven at some difficulty.\<close>

definition finish_import ::
  "('s, 'b) pow_client \<Rightarrow> hash256 \<Rightarrow> 'b import_params \<Rightarrow> nat \<Rightarrow> ('s \<times> ('c, 'v) engine, pow_error, import_result) op" where
  "finish_import cl block_hash p achieved = (\<lambda>(s, e).
     case fork_choice cl s (hdr_parent_hash (ip_header p)) (hdr_number (ip_header p)) achieved of
       Inl err \<Rightarrow> (Inl err, (s, e))
     | Inr (new_work, is_best) \<Rightarrow>
         case commit_block cl block_hash new_work (p\<lparr>ip_fork_choice := Some is_best\<rparr>) s of
           (Inl err, s1) \<Rightarrow> (Inl err, (s1, e))
         | (Inr r, s1) \<Rightarrow> (Inr r, (s1, pin_after_import cl s1 block_hash e)))"

definition import_block ::
  "('s, 'b) pow_client \<Rightarrow> ('c, 'v) randomx_lib \<Rightarrow> header_crypto \<Rightarrow> nat \<Rightarrow> 'b import_params
    \<Rightarrow> ('s \<times> ('c, 'v) engine, pow_error, import_result) op" where
  "import_block cl lib hc now p = (\<lambda>(s, e).
     case ip_refusal p of
       Some refusal \<Rightarrow> (Inl (ClientImport refusal), (s, e))
     | None \<Rightarrow>
         let hdr = ip_header p;
             number = hdr_number hdr;
             parent = hdr_parent_hash hdr;
             pre_hash = header_hash hc hdr;
             block_hash = header_hash hc (post_header p);
             checked =
               rbind (map_err (\<lambda>len. DigestWindowMismatch len DIGEST_LOGS_SIZE)
                       (check_digest_commitment_window hc (hdr_digest (post_header p)) number)) (\<lambda>_.
               rbind (import_inherents cl s p) (\<lambda>_.
               fetch_seal (last_item (ip_post_digests p)) pre_hash))
         in case checked of
              Inl err \<Rightarrow> (Inl err, (s, e))
            | Inr inner_seal \<Rightarrow>
                case verify_pow cl s lib now parent number pre_hash block_hash inner_seal (e, None) of
                  (Inl err, (e1, _)) \<Rightarrow> (Inl err, (s, e1))
                | (Inr achieved, (e1, _)) \<Rightarrow> finish_import cl block_hash p achieved (s, e1))"

definition check_block :: "('s, 'b) pow_client \<Rightarrow> 's \<Rightarrow> hash256 \<Rightarrow> nat \<Rightarrow> hash256 \<Rightarrow> (pow_error, import_result) result" where
  "check_block cl s hash number parent = cl_check_block cl s hash number parent"

section \<open>Lemmas on verification\<close>

lemma classify_block_engine: "classify_block cl s parent d (e, bs) = (r, st) \<Longrightarrow> fst st = e \<and> (bs = None \<longrightarrow> r = Inr None \<and> st = (e, None))"
  by (auto simp: classify_block_def split: option.splits prod.splits sum.splits)

lemma charge_fill_engine: "charge_fill now parent h seed sh kind st0 = (r, st) \<Longrightarrow> fst st = fst st0"
  by (auto simp: charge_fill_def split: option.splits prod.splits sum.splits if_splits)

lemma charge_side_engine: "charge_side now parent h d kind st0 = (r, st) \<Longrightarrow> fst st = fst st0"
  by (auto simp: charge_side_def split: option.splits prod.splits sum.splits)

lemma charge_fill_free [simp]: "charge_fill now parent h seed sh kind (e, None) = (Inr (), (e, None))"
  by (simp add: charge_fill_def)

lemma charge_side_free [simp]: "charge_side now parent h d kind (e, None) = (Inr (), (e, None))"
  by (simp add: charge_side_def)

lemma charge_fill_error:
  "charge_fill now parent h seed sh kind st = (Inl err, st') \<Longrightarrow> \<exists>x. err = SeedFillBudgetExhausted x"
  by (auto simp: charge_fill_def split: option.splits prod.splits sum.splits if_splits)

lemma charge_side_error:
  "charge_side now parent h d kind st = (Inl err, st') \<Longrightarrow> \<exists>x. err = SideBranchBudgetExhausted x \<and> sb_difficulty x = d"
  by (auto simp: charge_side_def split: option.splits prod.splits sum.splits)

text \<open>What a seal has to pass whatever the budgets say.\<close>

definition proven ::
  "('s, 'b) pow_client \<Rightarrow> 's \<Rightarrow> (hash256 \<Rightarrow> byte list \<Rightarrow> hash256) \<Rightarrow> hash256 \<Rightarrow> nat \<Rightarrow> hash256 \<Rightarrow> hash256 \<Rightarrow> byte list \<Rightarrow> nat \<Rightarrow> bool" where
  "proven cl s rx parent height pre_hash block_hash seal_bytes difficulty \<longleftrightarrow>
     (\<exists>sl seed next_seed sh. seal_decode seal_bytes = Inr sl
        \<and> check_header_position cl s parent height block_hash = Inr ()
        \<and> cl_difficulty cl s parent = Inr difficulty
        \<and> seed_hashes cl s parent height = Inr (seed, next_seed, sh)
        \<and> meets_difficulty (rx seed (build_blob pre_hash height (extra_nonce sl) (nonce sl))) difficulty)"

definition engine_sound :: "('c, 'v) randomx_lib \<Rightarrow> ('v \<Rightarrow> hash256 \<Rightarrow> bool) \<Rightarrow> ('c, 'v) engine \<Rightarrow> bool" where
  "engine_sound lib keyed e \<longleftrightarrow> engine_ok lib e \<and> pool_ok keyed e"

lemma check_seal_sound:
  assumes "randomx_ok lib keyed rx" "engine_sound lib keyed e"
    and "check_seal lib pre_hash height seed sl d e = (r, e')"
  shows "engine_sound lib keyed e' \<and>
    (if meets_difficulty (rx seed (build_blob pre_hash height (extra_nonce sl) (nonce sl))) d
     then (\<exists>h. r = Inr h) \<or> (\<exists>err. r = Inl (Engine err))
     else r = Inl InvalidSeal \<or> (\<exists>err. r = Inl (Engine err)))"
proof -
  obtain x e1 where x: "engine_hash lib seed (build_blob pre_hash height (extra_nonce sl) (nonce sl)) e = (x, e1)" by fastforce
  show ?thesis
    using engine_hash_ok [OF assms(1) _ _ x] assms(2,3) x
    by (cases x) (auto simp: check_seal_def engine_sound_def ensure_def split: if_splits)
qed

lemmas verify_pow_unfold = verify_pow_def op_bind_def op_then_def op_of_def op_return_def

lemma reached_seal:
  assumes "randomx_ok lib keyed rx" "engine_sound lib keyed e"
    and "classify_block cl s parent d (e, bs) = (Inr kind, st1)" "charge_fill now parent height seed sh kind st1 = (Inr (), st2)"
    and "seal_check lib pre_hash height seed sl d st2 = (Inr h, st3)"
  shows "meets_difficulty (rx seed (build_blob pre_hash height (extra_nonce sl) (nonce sl))) d"
proof -
  have "fst st2 = e" using classify_block_engine [OF assms(3)] charge_fill_engine [OF assms(4)] by simp
  then obtain e' where "check_seal lib pre_hash height seed sl d e = (Inr h, e')"
    using assms(5) by (auto simp: seal_check_def split: prod.splits)
  from check_seal_sound [OF assms(1,2) this] show ?thesis by (auto split: if_splits)
qed

lemma verify_pow_Inr:
  assumes "randomx_ok lib keyed rx" "engine_sound lib keyed e"
    and "verify_pow cl s lib now parent height pre_hash block_hash seal_bytes (e, bs) = (Inr w, st)"
  shows "proven cl s rx parent height pre_hash block_hash seal_bytes w"
proof -
  from assms(3) obtain sl kind st1 seed ns sh st2 h st3 where
    sl: "seal_decode seal_bytes = Inr sl" and pos: "check_header_position cl s parent height block_hash = Inr ()"
    and d: "cl_difficulty cl s parent = Inr w"
    and kind: "classify_block cl s parent w (e, bs) = (Inr kind, st1)"
    and seeds: "seed_hashes cl s parent height = Inr (seed, ns, sh)"
    and fill: "charge_fill now parent height seed sh kind st1 = (Inr (), st2)"
    and seal: "seal_check lib pre_hash height seed sl w st2 = (Inr h, st3)"
    by (auto simp: verify_pow_unfold split: prod.splits sum.splits)
  show ?thesis
    using sl pos d seeds reached_seal [OF assms(1,2) kind fill seal] unfolding proven_def by blast
qed

lemma verify_pow_None:
  assumes "randomx_ok lib keyed rx" "engine_sound lib keyed e"
    and "proven cl s rx parent height pre_hash block_hash seal_bytes w"
    and "verify_pow cl s lib now parent height pre_hash block_hash seal_bytes (e, None) = (r, st)"
  shows "r = Inr w \<or> (\<exists>err. r = Inl (Engine err))"
proof -
  from assms(3) obtain sl seed ns sh where
    p: "seal_decode seal_bytes = Inr sl" "check_header_position cl s parent height block_hash = Inr ()"
    "cl_difficulty cl s parent = Inr w" "seed_hashes cl s parent height = Inr (seed, ns, sh)"
    and m: "meets_difficulty (rx seed (build_blob pre_hash height (extra_nonce sl) (nonce sl))) w"
    unfolding proven_def by blast
  obtain c e' where c: "check_seal lib pre_hash height seed sl w e = (c, e')" by fastforce
  have "r = rbind c (\<lambda>_. Inr w)"
    using assms(4) p c by (cases c) (auto simp: verify_pow_unfold classify_block_def seal_check_def)
  then show ?thesis using check_seal_sound [OF assms(1,2) c] m by auto
qed

lemma position_no_refusal: "check_header_position cl s parent height block_hash \<noteq> Inl (SideBranchBudgetExhausted x)"
  by (auto simp: check_header_position_def rbind_def map_err_def ok_or_def ensure_def Let_def split: sum.splits option.splits if_splits)

lemma seeds_no_refusal: "seed_hashes cl s parent height \<noteq> Inl (SideBranchBudgetExhausted x)"
  by (auto simp: seed_hashes_def hash_at_ancestor_def rbind_def map_err_def ok_or_def Let_def split: sum.splits option.splits if_splits)

lemma verify_pow_side_refusal:
  assumes "randomx_ok lib keyed rx" "engine_sound lib keyed e"
    and "verify_pow cl s lib now parent height pre_hash block_hash seal_bytes (e, bs) = (Inl (SideBranchBudgetExhausted x), st)"
  shows "proven cl s rx parent height pre_hash block_hash seal_bytes (sb_difficulty x)"
proof -
  from assms(3) obtain sl d kind st1 seed ns sh st2 h st3 where
    sl: "seal_decode seal_bytes = Inr sl" and pos: "check_header_position cl s parent height block_hash = Inr ()"
    and d: "cl_difficulty cl s parent = Inr d"
    and kind: "classify_block cl s parent d (e, bs) = (Inr kind, st1)"
    and seeds: "seed_hashes cl s parent height = Inr (seed, ns, sh)"
    and fill: "charge_fill now parent height seed sh kind st1 = (Inr (), st2)"
    and seal: "seal_check lib pre_hash height seed sl d st2 = (Inr h, st3)"
    and side: "charge_side now parent height d kind st3 = (Inl (SideBranchBudgetExhausted x), st)"
    using position_no_refusal [of cl s parent height block_hash x] seeds_no_refusal [of cl s parent height x]
    by (auto simp: verify_pow_unfold classify_block_def seal_check_def check_seal_def ensure_def map_err_def
        split: prod.splits sum.splits option.splits if_splits dest: charge_fill_error)
  have "sb_difficulty x = d" using charge_side_error [OF side] by simp
  then show ?thesis
    using sl pos d seeds reached_seal [OF assms(1,2) kind fill seal] unfolding proven_def by blast
qed

lemma verify_pow_budgets:
  assumes "randomx_ok lib keyed rx" "engine_sound lib keyed e"
    and "proven cl s rx parent height pre_hash block_hash seal_bytes w"
    and "is_ok (cl_difficulty cl s (best_hash (cl_info cl s)))"
    and "verify_pow cl s lib now parent height pre_hash block_hash seal_bytes (e, bs) = (r, st)"
  shows "r = Inr w \<or> (\<exists>err. r = Inl (Engine err)) \<or> (\<exists>x. r = Inl (SeedFillBudgetExhausted x)) \<or> (\<exists>x. r = Inl (SideBranchBudgetExhausted x))"
proof -
  from assms(3) obtain sl seed ns sh where
    p: "seal_decode seal_bytes = Inr sl" "check_header_position cl s parent height block_hash = Inr ()"
    "cl_difficulty cl s parent = Inr w" "seed_hashes cl s parent height = Inr (seed, ns, sh)"
    and m: "meets_difficulty (rx seed (build_blob pre_hash height (extra_nonce sl) (nonce sl))) w"
    unfolding proven_def by blast
  obtain k st1 where k: "classify_block cl s parent w (e, bs) = (k, st1)" by (rule prod.exhaust)
  have k_ok: "is_ok k"
    using k assms(4) by (auto simp: classify_block_def classify_def classify_side_branch_def cached_difficulty_after_def client_tip_view_def
        Let_def is_ok_iff split: option.splits prod.splits sum.splits if_splits)
  then obtain kind where kind: "k = Inr kind" by (auto simp: is_ok_iff)
  obtain f st2 where f: "charge_fill now parent height seed sh kind st1 = (f, st2)" by (rule prod.exhaust)
  obtain c st3 where c: "seal_check lib pre_hash height seed sl w st2 = (c, st3)" by (rule prod.exhaust)
  obtain g st4 where g: "charge_side now parent height w kind st3 = (g, st4)" by (rule prod.exhaust)
  have e2: "fst st2 = e" using classify_block_engine [OF k] charge_fill_engine [OF f] by simp
  then obtain e' where cs: "check_seal lib pre_hash height seed sl w e = (c, e')"
    using c by (auto simp: seal_check_def split: prod.splits)
  have r: "r = rbind f (\<lambda>_. rbind c (\<lambda>_. rbind g (\<lambda>_. Inr w)))"
    using assms(5) p k kind f c g by (cases f; cases c; cases g) (auto simp: verify_pow_unfold)
  show ?thesis
  proof (cases f)
    case (Inl err)
    then show ?thesis using r charge_fill_error [OF f [unfolded Inl]] by auto
  next
    case (Inr u)
    show ?thesis
    proof (cases g)
      case (Inl err)
      then show ?thesis
        using Inr r check_seal_sound [OF assms(1,2) cs] m charge_side_error [OF g [unfolded Inl]] by auto
    next
      case (Inr v)
      then show ?thesis using \<open>f = Inr u\<close> r check_seal_sound [OF assms(1,2) cs] m by auto
    qed
  qed
qed

section \<open>Lemmas on import\<close>

text \<open>
  What the client documents: the auxiliary store is a map that survives an import, a refused write writes
  nothing, the inner import moves the best block exactly when it imports with the custom fork choice set,
  an imported block is in the chain from then on, a block in the chain is not cleared for import by the
  client's check, and the encoding of a work value decodes.
\<close>

definition client_ok :: "('s, 'b) pow_client \<Rightarrow> header_crypto \<Rightarrow> bool" where
  "client_ok cl hc \<longleftrightarrow>
     (\<forall>k v s s'. cl_insert_aux cl [(k, v)] [] s = (Inr (), s') \<longrightarrow>
        cl_info cl s' = cl_info cl s \<and> cl_in_chain cl s' = cl_in_chain cl s \<and> cl_get_aux cl s' = (cl_get_aux cl s)(k := Inr (Some v)))
     \<and> (\<forall>k s s'. cl_insert_aux cl [] [k] s = (Inr (), s') \<longrightarrow>
        cl_info cl s' = cl_info cl s \<and> cl_in_chain cl s' = cl_in_chain cl s \<and> cl_get_aux cl s' = (cl_get_aux cl s)(k := Inr None))
     \<and> (\<forall>puts dels s s' e. cl_insert_aux cl puts dels s = (Inl e, s') \<longrightarrow> s' = s)
     \<and> (\<forall>p s s' r. cl_import cl p s = (r, s') \<longrightarrow>
        cl_get_aux cl s' = cl_get_aux cl s
        \<and> (\<forall>h. cl_in_chain cl s h \<or> (r = Inr Imported \<and> h = header_hash hc (post_header p)) \<longrightarrow> cl_in_chain cl s' h)
        \<and> (best_hash (cl_info cl s'), best_number (cl_info cl s')) =
            (if r = Inr Imported \<and> ip_fork_choice p = Some True
             then (header_hash hc (post_header p), hdr_number (ip_header p))
             else (best_hash (cl_info cl s), best_number (cl_info cl s))))
     \<and> (\<forall>s h n parent. cl_check_block cl s h n parent = Inr Imported \<longrightarrow> \<not> cl_in_chain cl s h)
     \<and> (\<forall>w<2 ^ 512. cl_decode_work cl (cl_encode_work cl w) = Some w)"

abbreviation work_of :: "('s, 'b) pow_client \<Rightarrow> 's \<Rightarrow> hash256 \<Rightarrow> (string, nat) result" where
  "work_of \<equiv> get_cumulative_achieved_work"

definition best_of :: "('s, 'b) pow_client \<Rightarrow> 's \<Rightarrow> hash256 \<times> nat" where
  "best_of cl s = (best_hash (cl_info cl s), best_number (cl_info cl s))"

lemma work_key_inject [simp]: "work_key a = work_key b \<longleftrightarrow> a = b"
  by (simp add: work_key_def)

lemma client_okD:
  assumes "client_ok cl hc"
  shows "cl_insert_aux cl [(k, v)] [] s = (Inr (), s') \<Longrightarrow>
      cl_info cl s' = cl_info cl s \<and> cl_in_chain cl s' = cl_in_chain cl s \<and> cl_get_aux cl s' = (cl_get_aux cl s)(k := Inr (Some v))"
    and "cl_insert_aux cl [] [k] s = (Inr (), s') \<Longrightarrow>
      cl_info cl s' = cl_info cl s \<and> cl_in_chain cl s' = cl_in_chain cl s \<and> cl_get_aux cl s' = (cl_get_aux cl s)(k := Inr None)"
    and "cl_insert_aux cl puts dels s = (Inl e, s') \<Longrightarrow> s' = s"
    and "cl_import cl p s = (r, s') \<Longrightarrow> cl_get_aux cl s' = cl_get_aux cl s \<and> best_of cl s' =
      (if r = Inr Imported \<and> ip_fork_choice p = Some True then (header_hash hc (post_header p), hdr_number (ip_header p)) else best_of cl s)"
    and "w < 2 ^ 512 \<Longrightarrow> cl_decode_work cl (cl_encode_work cl w) = Some w"
    and "cl_import cl p s = (r, s') \<Longrightarrow> cl_in_chain cl s h \<or> (r = Inr Imported \<and> h = header_hash hc (post_header p)) \<Longrightarrow> cl_in_chain cl s' h"
    and "cl_check_block cl s h n parent = Inr Imported \<Longrightarrow> \<not> cl_in_chain cl s h"
  using assms unfolding client_ok_def best_of_def by (elim conjE; metis)+

lemma work_of_aux: "cl_get_aux cl s' = (cl_get_aux cl s)(work_key b := x) \<Longrightarrow> h \<noteq> b \<Longrightarrow> work_of cl s' h = work_of cl s h"
  by (simp add: get_cumulative_achieved_work_def)

lemma work_of_same: "cl_get_aux cl s' = cl_get_aux cl s \<Longrightarrow> work_of cl s' h = work_of cl s h"
  by (simp add: get_cumulative_achieved_work_def)

lemma store_work:
  assumes "client_ok cl hc" "store_cumulative_achieved_work cl b w s = (r, s')"
  shows "best_of cl s' = best_of cl s \<and> (\<forall>h. h \<noteq> b \<longrightarrow> work_of cl s' h = work_of cl s h)
    \<and> (is_ok r \<longrightarrow> w < 2 ^ 512 \<longrightarrow> work_of cl s' b = Inr w)"
proof (cases r)
  case (Inl e)
  then have "s' = s" using assms(2) by (intro client_okD(3) [OF assms(1)]) (simp add: store_cumulative_achieved_work_def)
  then show ?thesis using Inl by simp
next
  case (Inr u)
  then have st: "cl_info cl s' = cl_info cl s \<and> cl_get_aux cl s' = (cl_get_aux cl s)(work_key b := Inr (Some (cl_encode_work cl w)))"
    using assms client_okD(1) [OF assms(1)] by (simp add: store_cumulative_achieved_work_def)
  moreover have "w < 2 ^ 512 \<Longrightarrow> work_of cl s' b = Inr w"
    using st client_okD(5) [OF assms(1), of w] by (simp add: get_cumulative_achieved_work_def)
  ultimately show ?thesis by (auto simp: best_of_def intro: work_of_aux)
qed

lemma delete_work:
  assumes "client_ok cl hc" "delete_cumulative_achieved_work cl b s = (r, s')"
  shows "best_of cl s' = best_of cl s \<and> (\<forall>h. h \<noteq> b \<longrightarrow> work_of cl s' h = work_of cl s h)"
proof (cases r)
  case (Inl e)
  then have "s' = s" using assms(2) by (intro client_okD(3) [OF assms(1)]) (simp add: delete_cumulative_achieved_work_def)
  then show ?thesis using Inl by simp
next
  case (Inr u)
  then have "cl_info cl s' = cl_info cl s \<and> cl_get_aux cl s' = (cl_get_aux cl s)(work_key b := Inr None)"
    using assms client_okD(2) [OF assms(1)] by (simp add: delete_cumulative_achieved_work_def)
  then show ?thesis by (auto simp: best_of_def intro: work_of_aux)
qed

lemma commit_block_effect:
  assumes "client_ok cl hc" "commit_block cl b w p s = (r, s')" "b = header_hash hc (post_header p)" "w < 2 ^ 512"
  shows "(\<forall>h. h \<noteq> b \<longrightarrow> work_of cl s' h = work_of cl s h)
    \<and> (r = Inr Imported \<longrightarrow> work_of cl s' b = Inr w)
    \<and> best_of cl s' = (if r = Inr Imported \<and> ip_fork_choice p = Some True then (b, hdr_number (ip_header p)) else best_of cl s)"
proof -
  obtain r1 s1 where s1: "store_cumulative_achieved_work cl b w s = (r1, s1)" by (rule prod.exhaust)
  note st = store_work [OF assms(1) s1]
  show ?thesis
  proof (cases r1)
    case (Inl e)
    then show ?thesis using assms(2) s1 st by (auto simp: commit_block_def)
  next
    case (Inr u)
    obtain r2 s2 where s2: "cl_import cl p s1 = (r2, s2)" by (rule prod.exhaust)
    note im = client_okD(4) [OF assms(1) s2]
    obtain r3 s3 where s3: "delete_cumulative_achieved_work cl b s2 = (r3, s3)" by (rule prod.exhaust)
    note de = delete_work [OF assms(1) s3]
    show ?thesis
      using assms(2-4) s1 s2 s3 st im de Inr work_of_same [of cl s2 s1]
      by (cases r2) (auto simp: commit_block_def)
  qed
qed

definition block_of :: "header_crypto \<Rightarrow> 'b import_params \<Rightarrow> hash256 \<times> nat" where
  "block_of hc p = (header_hash hc (post_header p), hdr_number (ip_header p))"

lemma import_block_cases:
  assumes "import_block cl lib hc now p (s, e) = (r, (s', e'))"
  obtains (early) err where "r = Inl err" "s' = s"
  | (commit) d seal_bytes w is_best st where
      "fetch_seal (last_item (ip_post_digests p)) (header_hash hc (ip_header p)) = Inr seal_bytes"
      "verify_pow cl s lib now (hdr_parent_hash (ip_header p)) (hdr_number (ip_header p)) (header_hash hc (ip_header p))
         (fst (block_of hc p)) seal_bytes (e, None) = (Inr d, st)"
      "fork_choice cl s (hdr_parent_hash (ip_header p)) (hdr_number (ip_header p)) d = Inr (w, is_best)"
      "commit_block cl (fst (block_of hc p)) w (p\<lparr>ip_fork_choice := Some is_best\<rparr>) s = (r, s')"
  using assms unfolding import_block_def finish_import_def block_of_def Let_def
  by (auto split: option.splits sum.splits prod.splits)

lemma verify_pow_difficulty:
  "verify_pow cl s lib now parent height pre_hash block_hash seal_bytes st = (Inr w, st') \<Longrightarrow> cl_difficulty cl s parent = Inr w"
  by (auto simp: verify_pow_unfold split: prod.splits sum.splits)

lemma fork_choice_Inr:
  assumes "fork_choice cl s parent n d = Inr (w, is_best)"
  obtains wp wb where "work_of cl s parent = Inr wp" "work_of cl s (fst (best_of cl s)) = Inr wb" "w = sat_add 512 wp d"
    "is_best = is_heavier w n wb (snd (best_of cl s))"
  using assms by (auto simp: fork_choice_def get_chain_work_def best_of_def Let_def)

lemma import_effect:
  assumes "client_ok cl hc" "import_block cl lib hc now p (s, e) = (r, (s', e'))"
  shows "(\<forall>h. h \<noteq> fst (block_of hc p) \<longrightarrow> work_of cl s' h = work_of cl s h)
    \<and> (r \<noteq> Inr Imported \<longrightarrow> best_of cl s' = best_of cl s)
    \<and> (r = Inr Imported \<longrightarrow> (\<exists>d wp wb. cl_difficulty cl s (hdr_parent_hash (ip_header p)) = Inr d
         \<and> work_of cl s (hdr_parent_hash (ip_header p)) = Inr wp \<and> work_of cl s (fst (best_of cl s)) = Inr wb
         \<and> work_of cl s' (fst (block_of hc p)) = Inr (sat_add 512 wp d)
         \<and> best_of cl s' = (if is_heavier (sat_add 512 wp d) (snd (block_of hc p)) wb (snd (best_of cl s))
                              then block_of hc p else best_of cl s)))"
  using assms(2)
proof (cases rule: import_block_cases)
  case (early err)
  then show ?thesis by simp
next
  case (commit d seal_bytes w is_best st)
  obtain wp wb where f: "work_of cl s (hdr_parent_hash (ip_header p)) = Inr wp" "work_of cl s (fst (best_of cl s)) = Inr wb"
    "w = sat_add 512 wp d" "is_best = is_heavier w (hdr_number (ip_header p)) wb (snd (best_of cl s))"
    by (rule fork_choice_Inr [OF commit(3)])
  have same: "post_header (p\<lparr>ip_fork_choice := Some is_best\<rparr>) = post_header p" by (simp add: post_header_def)
  have "w < 2 ^ 512" unfolding f(3) by (rule sat_add_bound)
  from commit_block_effect [OF assms(1) commit(4) _ this]
  have c: "(\<forall>h. h \<noteq> fst (block_of hc p) \<longrightarrow> work_of cl s' h = work_of cl s h)
    \<and> (r = Inr Imported \<longrightarrow> work_of cl s' (fst (block_of hc p)) = Inr w)
    \<and> best_of cl s' = (if r = Inr Imported \<and> is_best then block_of hc p else best_of cl s)"
    unfolding same by (simp add: block_of_def)
  have "cl_difficulty cl s (hdr_parent_hash (ip_header p)) = Inr d" by (rule verify_pow_difficulty [OF commit(2)])
  then show ?thesis using c f by (simp add: block_of_def)
qed

lemma commit_block_in_chain:
  assumes "client_ok cl hc" "commit_block cl b w p s = (r, s')" "b = header_hash hc (post_header p)"
    and "cl_in_chain cl s h \<or> (r = Inr Imported \<and> h = b)"
  shows "cl_in_chain cl s' h"
proof -
  have aux: "cl_in_chain cl s2 = cl_in_chain cl s1" if "cl_insert_aux cl [(k, v)] [] s1 = (x, s2) \<or> cl_insert_aux cl [] [k] s1 = (x, s2)" for k v s1 x s2
    using that client_okD(1,2,3) [OF assms(1)] by (cases x) (metis old.unit.exhaust)+
  obtain x s1 where s1: "store_cumulative_achieved_work cl b w s = (x, s1)" by (rule prod.exhaust)
  note in1 = aux [OF disjI1 [OF s1 [unfolded store_cumulative_achieved_work_def]]]
  obtain y s2 where s2: "cl_import cl p s1 = (y, s2)" by (rule prod.exhaust)
  obtain z s3 where s3: "delete_cumulative_achieved_work cl b s2 = (z, s3)" by (rule prod.exhaust)
  note in3 = aux [OF disjI2 [OF s3 [unfolded delete_cumulative_achieved_work_def]]]
  show ?thesis
    using assms(2-4) s1 s2 s3 in1 in3 client_okD(6) [OF assms(1) s2, of h]
    by (cases x; cases y) (auto simp: commit_block_def)
qed

lemma import_in_chain:
  assumes "client_ok cl hc" "import_block cl lib hc now p (s, e) = (r, (s', e'))"
    and "cl_in_chain cl s h \<or> (r = Inr Imported \<and> h = fst (block_of hc p))"
  shows "cl_in_chain cl s' h"
  using assms(2)
proof (cases rule: import_block_cases)
  case (early err)
  then show ?thesis using assms(3) by simp
next
  case (commit d seal_bytes w is_best st)
  have "fst (block_of hc p) = header_hash hc (post_header (p\<lparr>ip_fork_choice := Some is_best\<rparr>))" by (simp add: block_of_def post_header_def)
  from commit_block_in_chain [OF assms(1) commit(4) this] assms(3) show ?thesis by blast
qed

lemma commit_block_error:
  assumes "client_ok cl hc" "commit_block cl b w p s = (Inl err, s')" "w < 2 ^ 512"
  shows "work_of cl s' b \<in> {work_of cl s b, Inr 0, Inr w}"
proof -
  obtain r1 s1 where s1: "store_cumulative_achieved_work cl b w s = (r1, s1)" by (rule prod.exhaust)
  show ?thesis
  proof (cases r1)
    case (Inl e)
    then have "s1 = s" using s1 by (intro client_okD(3) [OF assms(1)]) (simp add: store_cumulative_achieved_work_def)
    then show ?thesis using assms(2) s1 Inl by (simp add: commit_block_def)
  next
    case (Inr u)
    obtain r2 s2 where s2: "cl_import cl p s1 = (r2, s2)" by (rule prod.exhaust)
    obtain r3 s3 where s3: "cl_insert_aux cl [] [work_key b] s2 = (r3, s3)" by (rule prod.exhaust)
    have stored: "work_of cl s2 b = Inr w"
      using store_work [OF assms(1) s1] Inr assms(3) work_of_same [of cl s2 s1] client_okD(4) [OF assms(1) s2] by simp
    have "s' = s3" using assms(2) s1 Inr s2 s3 by (cases r2) (simp_all add: commit_block_def delete_cumulative_achieved_work_def)
    moreover have "r3 = Inr () \<Longrightarrow> work_of cl s3 b = Inr 0"
      using s3 client_okD(2) [OF assms(1)] by (simp add: get_cumulative_achieved_work_def)
    moreover have "r3 = Inl e \<Longrightarrow> work_of cl s3 b = Inr w" for e using s3 client_okD(3) [OF assms(1), of "[]" "[work_key b]" s2 e s3] stored by simp
    ultimately show ?thesis by (cases r3) simp_all
  qed
qed

section \<open>Verifier and importer\<close>

text \<open>Past the inherents of the body and the hash library, the import goes on with the parent's difficulty.\<close>

definition import_passes ::
  "('s, 'b) pow_client \<Rightarrow> ('c, 'v) randomx_lib \<Rightarrow> header_crypto \<Rightarrow> nat \<Rightarrow> 'b import_params \<Rightarrow> 's \<Rightarrow> ('c, 'v) engine \<Rightarrow> bool" where
  "import_passes cl lib hc now p s e \<longleftrightarrow>
     (\<exists>d. cl_difficulty cl s (hdr_parent_hash (ip_header p)) = Inr d \<and>
        ((\<exists>err. import_inherents cl s p = Inl err \<and> import_block cl lib hc now p (s, e) = (Inl err, (s, e)))
         \<or> (\<exists>err e1. import_block cl lib hc now p (s, e) = (Inl (Engine err), (s, e1)))
         \<or> (\<exists>e1. import_block cl lib hc now p (s, e) = finish_import cl (header_hash hc (post_header p)) p d (s, e1))))"

lemma extract_pow_seal_Inr:
  assumes "extract_pow_seal hc p0 = Inr p" "ip_post_digests p0 = []"
  obtains seal_bytes where "last_item (ip_post_digests p) = Some (Seal_item POW_ENGINE_ID seal_bytes)" "post_header p = ip_header p0"
    "hdr_number (ip_header p) = hdr_number (ip_header p0)" "ip_refusal p = ip_refusal p0"
    "check_digest_commitment_window hc (hdr_digest (ip_header p0)) (hdr_number (ip_header p0)) = Inr ()"
proof -
  obtain bytes where b: "check_digest_commitment_window hc (hdr_digest (ip_header p0)) (hdr_number (ip_header p0)) = Inr ()"
    "last_item (hdr_digest (ip_header p0)) = Some (Seal_item POW_ENGINE_ID bytes)"
    "p = p0\<lparr>ip_header := (ip_header p0)\<lparr>hdr_digest := butlast (hdr_digest (ip_header p0))\<rparr>,
            ip_post_digests := ip_post_digests p0 @ [Seal_item POW_ENGINE_ID bytes]\<rparr>"
    using assms(1) by (auto simp: extract_pow_seal_def Let_def split: option.splits digest_item.splits if_splits)
  then have "hdr_digest (ip_header p0) = butlast (hdr_digest (ip_header p0)) @ [Seal_item POW_ENGINE_ID bytes]"
    by (auto simp: last_item_def split: if_splits) (metis append_butlast_last_id)
  then have "post_header p = ip_header p0" using b(3) assms(2) by (simp add: post_header_def)
  then show ?thesis using that b assms(2) by (simp add: last_item_def)
qed

lemma import_block_proven:
  assumes ok: "randomx_ok lib keyed rx" "engine_sound lib keyed e"
    and p: "ip_refusal p = None" "last_item (ip_post_digests p) = Some (Seal_item POW_ENGINE_ID seal_bytes)"
      "check_digest_commitment_window hc (hdr_digest (post_header p)) (hdr_number (ip_header p)) = Inr ()"
    and proven: "proven cl s rx (hdr_parent_hash (ip_header p)) (hdr_number (ip_header p)) (header_hash hc (ip_header p))
      (header_hash hc (post_header p)) seal_bytes d"
  shows "import_passes cl lib hc now p s e"
proof -
  obtain i e1 bs where i: "verify_pow cl s lib now (hdr_parent_hash (ip_header p)) (hdr_number (ip_header p)) (header_hash hc (ip_header p))
      (header_hash hc (post_header p)) seal_bytes (e, None) = (i, (e1, bs))"
    by (rule prod_cases3)
  have d: "cl_difficulty cl s (hdr_parent_hash (ip_header p)) = Inr d" using proven by (auto simp: proven_def)
  have seal: "fetch_seal (Some (Seal_item POW_ENGINE_ID seal_bytes)) h = Inr seal_bytes" for h by (simp add: fetch_seal_def)
  have "i = Inr d \<or> (\<exists>err. i = Inl (Engine err))" by (rule verify_pow_None [OF ok proven i])
  then show ?thesis
    unfolding import_passes_def import_block_def Let_def prod.case p(1,2) option.case using d i p(3) seal
    by (cases "import_inherents cl s p") auto
qed

lemma verify_cases:
  assumes "verify cl s lib hc now p0 (e, bs) = (v, st)" "extract_pow_seal hc p0 = Inr p"
    "last_item (ip_post_digests p) = Some (Seal_item POW_ENGINE_ID seal_bytes)"
  obtains u st1 where "verify_pow cl s lib now (hdr_parent_hash (ip_header p)) (hdr_number (ip_header p)) (header_hash hc (ip_header p))
      (header_hash hc (post_header p)) seal_bytes (e, bs) = (u, st1)"
    "v = (case u of Inr d \<Rightarrow> Inr p
           | Inl (SideBranchBudgetExhausted y) \<Rightarrow> Inr (p\<lparr>ip_refusal := Some (SideBranchBudgetExhausted y)\<rparr>)
           | Inl err \<Rightarrow> Inl err)"
proof -
  obtain u st1 where u: "verify_pow cl s lib now (hdr_parent_hash (ip_header p)) (hdr_number (ip_header p)) (header_hash hc (ip_header p))
      (header_hash hc (post_header p)) seal_bytes (e, bs) = (u, st1)" by (rule prod.exhaust)
  have "v = (case u of Inr d \<Rightarrow> Inr p
      | Inl (SideBranchBudgetExhausted y) \<Rightarrow> Inr (p\<lparr>ip_refusal := Some (SideBranchBudgetExhausted y)\<rparr>) | Inl err \<Rightarrow> Inl err)"
    using assms u by (auto simp: verify_def op_bind_def op_of_def Let_def fetch_seal_def split: sum.splits pow_error.splits)
  with u show ?thesis by (rule that)
qed

lemma verified_passes:
  assumes "randomx_ok lib keyed rx" "engine_sound lib keyed e" "engine_sound lib keyed e'" "ip_post_digests p0 = []" "ip_refusal p0 = None"
    and v: "verify cl s lib hc now p0 (e, bs) = (Inr p, st)"
  shows "ip_refusal p = None \<Longrightarrow> import_passes cl lib hc now' p s e'"
    and "ip_refusal p = Some x \<Longrightarrow> import_passes cl lib hc now' (p\<lparr>ip_refusal := None\<rparr>) s e'"
proof -
  obtain q where q: "extract_pow_seal hc p0 = Inr q"
    using v by (cases "extract_pow_seal hc p0") (simp_all add: verify_def op_bind_def op_of_def)
  obtain seal_bytes where sealed: "last_item (ip_post_digests q) = Some (Seal_item POW_ENGINE_ID seal_bytes)" "post_header q = ip_header p0"
    "hdr_number (ip_header q) = hdr_number (ip_header p0)" "ip_refusal q = ip_refusal p0"
    "check_digest_commitment_window hc (hdr_digest (ip_header p0)) (hdr_number (ip_header p0)) = Inr ()"
    by (rule extract_pow_seal_Inr [OF q assms(4)])
  obtain u st1 where u: "verify_pow cl s lib now (hdr_parent_hash (ip_header q)) (hdr_number (ip_header q)) (header_hash hc (ip_header q))
      (header_hash hc (post_header q)) seal_bytes (e, bs) = (u, st1)"
    and vu: "Inr p = (case u of Inr d \<Rightarrow> Inr q
      | Inl (SideBranchBudgetExhausted y) \<Rightarrow> Inr (q\<lparr>ip_refusal := Some (SideBranchBudgetExhausted y)\<rparr>) | Inl err \<Rightarrow> Inl err)"
    by (rule verify_cases [OF v q sealed(1)])
  have out: "import_passes cl lib hc now' q s e' \<and> (p = q \<or> (\<exists>y. p = q\<lparr>ip_refusal := Some (SideBranchBudgetExhausted y)\<rparr>))"
  proof (cases u)
    case (Inr d)
    from import_block_proven [OF assms(1,3) _ sealed(1) _ verify_pow_Inr [OF assms(1,2) u [unfolded Inr]]] sealed assms(5) Inr vu
    show ?thesis by simp
  next
    case (Inl err)
    then obtain y where y: "err = SideBranchBudgetExhausted y" "p = q\<lparr>ip_refusal := Some (SideBranchBudgetExhausted y)\<rparr>"
      using vu by (auto split: pow_error.splits)
    from import_block_proven [OF assms(1,3) _ sealed(1) _ verify_pow_side_refusal [OF assms(1,2) u [unfolded Inl y(1)]]] sealed assms(5)
    have "import_passes cl lib hc now' q s e'" by simp
    then show ?thesis using y(2) by blast
  qed
  have none: "ip_refusal q = None" using sealed(4) assms(5) by simp
  then have same: "q\<lparr>ip_refusal := None\<rparr> = q" by (cases q) simp
  show "ip_refusal p = None \<Longrightarrow> import_passes cl lib hc now' p s e'" using out by auto
  show "import_passes cl lib hc now' (p\<lparr>ip_refusal := None\<rparr>) s e'" if "ip_refusal p = Some x"
  proof -
    have "p\<lparr>ip_refusal := None\<rparr> = q\<lparr>ip_refusal := None\<rparr>" using out by auto
    then show ?thesis using out unfolding same by simp
  qed
qed

lemma imported_verified:
  assumes "randomx_ok lib keyed rx" "engine_sound lib keyed e'" "ip_post_digests p0 = []"
    and q: "extract_pow_seal hc p0 = Inr p" and i: "fst (import_block cl lib hc now' p (s, e')) = Inr res"
    and "engine_sound lib keyed e" "is_ok (cl_difficulty cl s (best_hash (cl_info cl s)))" "verify cl s lib hc now p0 (e, bs) = (v, st)"
  shows "v = Inr p \<or> (\<exists>y. v = Inr (p\<lparr>ip_refusal := Some (SideBranchBudgetExhausted y)\<rparr>))
    \<or> (\<exists>y. v = Inl (SeedFillBudgetExhausted y)) \<or> (\<exists>err. v = Inl (Engine err))"
proof -
  obtain seal_bytes where sealed: "last_item (ip_post_digests p) = Some (Seal_item POW_ENGINE_ID seal_bytes)"
    by (rule extract_pow_seal_Inr [OF q assms(3)])
  obtain s' e'' where run: "import_block cl lib hc now' p (s, e') = (Inr res, (s', e''))" using i by (metis prod.collapse)
  obtain d st' where d: "verify_pow cl s lib now' (hdr_parent_hash (ip_header p)) (hdr_number (ip_header p)) (header_hash hc (ip_header p))
      (header_hash hc (post_header p)) seal_bytes (e', None) = (Inr d, st')"
    using run
  proof (cases rule: import_block_cases)
    case (commit d seal w is_best st)
    then show ?thesis using that sealed by (simp add: fetch_seal_def block_of_def)
  qed simp
  obtain u st1 where u: "verify_pow cl s lib now (hdr_parent_hash (ip_header p)) (hdr_number (ip_header p)) (header_hash hc (ip_header p))
      (header_hash hc (post_header p)) seal_bytes (e, bs) = (u, st1)"
    and vu: "v = (case u of Inr d \<Rightarrow> Inr p
      | Inl (SideBranchBudgetExhausted y) \<Rightarrow> Inr (p\<lparr>ip_refusal := Some (SideBranchBudgetExhausted y)\<rparr>) | Inl err \<Rightarrow> Inl err)"
    by (rule verify_cases [OF assms(8) q sealed])
  from verify_pow_budgets [OF assms(1,6) verify_pow_Inr [OF assms(1,2) d] assms(7) u] vu show ?thesis by auto
qed

section \<open>Histories of imports\<close>

text \<open>A caller asks \<open>check_block\<close> first and imports what it clears; the blocks imported are collected.\<close>

definition offer_block ::
  "('s, 'b) pow_client \<Rightarrow> ('c, 'v) randomx_lib \<Rightarrow> header_crypto \<Rightarrow> nat \<Rightarrow> 'b import_params
    \<Rightarrow> ('s \<times> ('c, 'v) engine, pow_error, import_result) op" where
  "offer_block cl lib hc now p = (\<lambda>(s, e).
     case check_block cl s (fst (block_of hc p)) (snd (block_of hc p)) (hdr_parent_hash (ip_header p)) of
       Inr Imported \<Rightarrow> import_block cl lib hc now p (s, e)
     | known \<Rightarrow> (known, (s, e)))"

fun run_offers ::
  "('s, 'b) pow_client \<Rightarrow> ('c, 'v) randomx_lib \<Rightarrow> header_crypto \<Rightarrow> (nat \<times> 'b import_params) list \<Rightarrow> 's \<times> ('c, 'v) engine
    \<Rightarrow> (hash256 \<times> nat) list \<times> ('s \<times> ('c, 'v) engine)" where
  "run_offers cl lib hc [] st = ([], st)"
| "run_offers cl lib hc ((now, p) # ps) st =
     (case offer_block cl lib hc now p st of
        (r, st1) \<Rightarrow>
          case run_offers cl lib hc ps st1 of
            (imported, st2) \<Rightarrow> (if r = Inr Imported then block_of hc p # imported else imported, st2))"

definition none_heavier :: "('s, 'b) pow_client \<Rightarrow> 's \<Rightarrow> (hash256 \<times> nat) set \<Rightarrow> bool" where
  "none_heavier cl s blocks \<longleftrightarrow>
     best_of cl s \<in> blocks
     \<and> (\<forall>(h, n)\<in>blocks. \<exists>w wb. work_of cl s h = Inr w \<and> work_of cl s (fst (best_of cl s)) = Inr wb
          \<and> \<not> is_heavier w n wb (snd (best_of cl s)))"

lemma heavier_trans: "\<not> is_heavier w n wb nb \<Longrightarrow> is_heavier w' n' wb nb \<Longrightarrow> \<not> is_heavier w n w' n'"
  by (auto simp: is_heavier_def)

lemma not_heavier_self [simp]: "\<not> is_heavier w n w n"
  by (simp add: is_heavier_def)

lemma none_heavier_kept:
  assumes "none_heavier cl s blocks" "best_of cl s' = best_of cl s" "\<forall>(h, n)\<in>blocks. work_of cl s' h = work_of cl s h"
  shows "none_heavier cl s' blocks"
proof -
  have "work_of cl s' (fst (best_of cl s)) = work_of cl s (fst (best_of cl s))"
    using assms(1,3) by (force simp: none_heavier_def)
  then show ?thesis using assms by (fastforce simp: none_heavier_def)
qed

lemma none_heavier_step:
  assumes "client_ok cl hc" "import_block cl lib hc now p (s, e) = (r, (s', e'))"
    and "none_heavier cl s blocks" "\<forall>(h, n)\<in>blocks. h \<noteq> fst (block_of hc p)"
  shows "none_heavier cl s' (if r = Inr Imported then insert (block_of hc p) blocks else blocks)"
proof -
  note eff = import_effect [OF assms(1,2)]
  have kept: "\<forall>(h, n)\<in>blocks. work_of cl s' h = work_of cl s h" using eff assms(4) by auto
  show ?thesis
  proof (cases "r = Inr Imported")
    case False
    then show ?thesis using none_heavier_kept [OF assms(3) _ kept] eff by simp
  next
    case True
    obtain d wp wb where w: "work_of cl s (fst (best_of cl s)) = Inr wb" "work_of cl s' (fst (block_of hc p)) = Inr (sat_add 512 wp d)"
      and best: "best_of cl s' = (if is_heavier (sat_add 512 wp d) (snd (block_of hc p)) wb (snd (best_of cl s)) then block_of hc p else best_of cl s)"
      using eff True by blast
    have wb': "work_of cl s' (fst (best_of cl s)) = Inr wb" using w(1) kept assms(3) by (force simp: none_heavier_def)
    have old: "\<exists>w. work_of cl s' h = Inr w \<and> \<not> is_heavier w n wb (snd (best_of cl s))" if "(h, n) \<in> blocks" for h n
      using that assms(3) kept w(1) by (fastforce simp: none_heavier_def)
    show ?thesis
    proof (cases "is_heavier (sat_add 512 wp d) (snd (block_of hc p)) wb (snd (best_of cl s))")
      case heavier: True
      have "\<exists>w. work_of cl s' h = Inr w \<and> \<not> is_heavier w n (sat_add 512 wp d) (snd (block_of hc p))" if "(h, n) \<in> blocks" for h n
        using old [OF that] heavier_trans [OF _ heavier] by blast
      then show ?thesis using True best heavier w(2) by (auto simp: none_heavier_def)
    next
      case lighter: False
      have "best_of cl s \<in> blocks" using assms(3) by (simp add: none_heavier_def)
      then show ?thesis using True best lighter w(2) wb' old by (auto simp: none_heavier_def)
    qed
  qed
qed

lemma offer_block_cases:
  assumes "client_ok cl hc" "offer_block cl lib hc now p (s, e) = (r, (s', e'))"
  obtains (known) "r \<noteq> Inr Imported" "s' = s"
  | (asked) "import_block cl lib hc now p (s, e) = (r, (s', e'))" "\<not> cl_in_chain cl s (fst (block_of hc p))"
proof (cases "check_block cl s (fst (block_of hc p)) (snd (block_of hc p)) (hdr_parent_hash (ip_header p)) = Inr Imported")
  case True
  then show ?thesis using asked assms(2) client_okD(7) [OF assms(1)] by (simp add: offer_block_def check_block_def)
next
  case False
  then have "r = check_block cl s (fst (block_of hc p)) (snd (block_of hc p)) (hdr_parent_hash (ip_header p)) \<and> s' = s"
    using assms(2) unfolding offer_block_def prod.case by (auto split: sum.splits import_result.splits)
  then show ?thesis using False known by simp
qed

lemma run_offers_none_heavier:
  assumes "client_ok cl hc" "run_offers cl lib hc ps (s, e) = (imported, (s', e'))"
    and "none_heavier cl s blocks" "\<forall>(h, n)\<in>blocks. cl_in_chain cl s h"
  shows "none_heavier cl s' (set imported \<union> blocks)"
  using assms(2-)
proof (induction ps arbitrary: s e blocks imported)
  case Nil
  then show ?case by simp
next
  case (Cons np ps)
  obtain now p where np: "np = (now, p)" by (cases np)
  obtain r s1 e1 where st1: "offer_block cl lib hc now p (s, e) = (r, (s1, e1))" by (rule prod_cases3)
  obtain rest where rest: "run_offers cl lib hc ps (s1, e1) = (rest, (s', e'))"
    "imported = (if r = Inr Imported then block_of hc p # rest else rest)"
    using Cons.prems(1) np st1 by (auto split: prod.splits)
  let ?blocks = "if r = Inr Imported then insert (block_of hc p) blocks else blocks"
  have "none_heavier cl s1 ?blocks \<and> (\<forall>(h, n)\<in>?blocks. cl_in_chain cl s1 h)"
    using assms(1) st1
  proof (cases rule: offer_block_cases)
    case known
    then show ?thesis using Cons.prems by simp
  next
    case asked
    have "\<forall>(h, n)\<in>blocks. h \<noteq> fst (block_of hc p)" using Cons.prems(3) asked(2) by auto
    from none_heavier_step [OF assms(1) asked(1) Cons.prems(2) this] Cons.prems(3) import_in_chain [OF assms(1) asked(1)]
    show ?thesis by (cases "block_of hc p") auto
  qed
  then have "none_heavier cl s' (set rest \<union> ?blocks)" using Cons.IH [OF rest(1)] by blast
  then show ?case using rest(2) by (simp split: if_splits)
qed

section \<open>A small client\<close>

text \<open>One genesis block, difficulty one, an auxiliary store, and the best block; used where an example has to run.\<close>

record demo_chain =
  demo_aux :: "byte list \<Rightarrow> byte list option"
  demo_info :: chain_info
  demo_numbers :: "hash256 \<Rightarrow> nat option"

definition demo_with :: "(unit import_params \<Rightarrow> (demo_chain, pow_error, import_result) op) \<Rightarrow> (demo_chain, unit) pow_client" where
  "demo_with im =
     \<lparr>cl_hash = (\<lambda>s n. Inr (if n = 0 then Some (genesis_hash (demo_info s)) else None)),
      cl_header = (\<lambda>s h. Inr None),
      cl_number = (\<lambda>s h. Inr (demo_numbers s h)),
      cl_info = demo_info,
      cl_in_chain = (\<lambda>s h. demo_numbers s h \<noteq> None),
      cl_difficulty = (\<lambda>s h. Inr 1),
      cl_seed_epoch_blocks = (\<lambda>s h. Inr 2048),
      cl_seed_epoch_lag = (\<lambda>s h. Inr 128),
      cl_get_aux = (\<lambda>s k. Inr (demo_aux s k)),
      cl_insert_aux = (\<lambda>puts dels s.
        (Inr (), s\<lparr>demo_aux := (\<lambda>k. if k \<in> set dels then None
                                    else case map_of puts k of Some v \<Rightarrow> Some v | None \<Rightarrow> demo_aux s k)\<rparr>)),
      cl_check_block = (\<lambda>s h n parent. Inr (if demo_numbers s h = None then Imported else AlreadyInChain)),
      cl_import = im,
      cl_inherent_providers = (\<lambda>s h. Inr ()),
      cl_create_inherents = (\<lambda>s h. Inr ()),
      cl_check_inherents = (\<lambda>s h hdr body. Inr []),
      cl_try_handle_error = (\<lambda>i e. None),
      cl_check_inherents_after = 0,
      cl_encode_work = le_bytes 64,
      cl_decode_work = (\<lambda>bs. Some (of_le_bytes bs))\<rparr>"

definition demo_client :: "(demo_chain, unit) pow_client" where
  "demo_client = demo_with (\<lambda>p s.
        (Inr Imported, s\<lparr>demo_numbers := (demo_numbers s)(header_hash sample_header_crypto (post_header p) \<mapsto> hdr_number (ip_header p)),
           demo_info := (if ip_fork_choice p = Some True
             then (demo_info s)\<lparr>best_hash := header_hash sample_header_crypto (post_header p), best_number := hdr_number (ip_header p)\<rparr>
             else demo_info s)\<rparr>))"

definition demo_broken :: "(demo_chain, unit) pow_client" where
  "demo_broken = demo_with (\<lambda>p s. (Inl (Client ''database''), s))"

lemmas demo_defs = demo_client_def demo_with_def

lemma demo_client_ok: "client_ok demo_client sample_header_crypto" "client_ok demo_broken sample_header_crypto"
proof -
  have "of_le_bytes (le_bytes 64 w) = w" if "w < 2 ^ 512" for w
  proof (rule of_le_le_bytes_id)
    have "(256 :: nat) ^ 64 = 2 ^ 512" by simp
    then show "w < 256 ^ 64" using that by simp
  qed
  then show "client_ok demo_client sample_header_crypto" "client_ok demo_broken sample_header_crypto"
    by (auto simp: client_ok_def demo_defs demo_broken_def fun_eq_iff split: option.splits)
qed

definition demo_start :: demo_chain where
  "demo_start =
     \<lparr>demo_aux = [work_key zero_hash \<mapsto> le_bytes 64 1],
      demo_info = \<lparr>best_hash = zero_hash, best_number = 0, genesis_hash = zero_hash, finalized_hash = zero_hash,
                   finalized_number = 0, block_gap_start = None\<rparr>,
      demo_numbers = [zero_hash \<mapsto> 0]\<rparr>"

definition demo_block :: "unit import_params" where
  "demo_block =
     \<lparr>ip_header = \<lparr>hdr_parent_hash = zero_hash, hdr_number = 1, hdr_state_root = zero_hash, hdr_extrinsics_root = zero_hash,
                    hdr_zk_tree_root = zero_hash, hdr_digest = [PreRuntime POW_ENGINE_ID zero_hash]\<rparr>,
      ip_post_digests = [Seal_item POW_ENGINE_ID (seal_encode sample_seal)], ip_body = None,
      ip_skip_execution_checks = False, ip_refusal = None, ip_fork_choice = None\<rparr>"

lemma walk_branch_here: "0 < n \<Longrightarrow> walk_branch view t n cursor t = Inr (Some cursor)"
  by (cases n) simp_all

lemma demo_seeds: "seed_hashes (demo_with im) s zero_hash 1 = Inr (zero_hash, zero_hash, 0)"
proof -
  have "seed_height 1 2048 128 = 0" "next_seed_height 1 2048 128 = 0"
    by (simp_all add: seed_height_def next_seed_height_def sat_add_def)
  moreover have "hash_at_ancestor (demo_with im) s zero_hash 1 0 (2048 + 128) = Inr zero_hash"
    by (simp add: hash_at_ancestor_def resolve_on_branch_def walk_branch_here)
  moreover have "cl_seed_epoch_blocks (demo_with im) s zero_hash = Inr 2048" "cl_seed_epoch_lag (demo_with im) s zero_hash = Inr 128"
    by (simp_all add: demo_defs)
  ultimately show ?thesis unfolding seed_hashes_def Let_def by simp
qed

lemma demo_seal: "seal_decode (seal_encode sample_seal) = Inr sample_seal"
  by (simp add: seal_decode_iff sample_seal_def)

lemma demo_difficulty: "length h = 32 \<Longrightarrow> meets_difficulty h 1"
  using of_le_bytes_bound [of h] by (simp add: meets_difficulty_iff)

lemma demo_position:
  "demo_numbers s zero_hash = Some 0 \<Longrightarrow> finalized_number (demo_info s) = 0 \<Longrightarrow> check_header_position (demo_with im) s zero_hash 1 b = Inr ()"
  by (simp add: check_header_position_def demo_with_def sat_add_def)

lemma demo_engine_hash:
  "fst (engine_hash toy_lib seed input (with_settings n k)) = Inr (toy_randomx seed input)"
  by (simp add: engine_hash_def acquire_def cache_for_def cache_lookup_def pinned_lookup_def touch_lru_def take_from_lru_def
      with_settings_def cache_table_default_def toy_lib_def lease_hash_def toy_randomx_def RANDOMX_HASH_LEN_def)

lemma demo_verify:
  assumes "demo_numbers s zero_hash = Some 0" "finalized_number (demo_info s) = 0"
  shows "fst (verify_pow (demo_with im) s toy_lib now zero_hash 1 pre b (seal_encode sample_seal) (with_settings 1 2, None)) = Inr 1"
proof -
  obtain c e' where c: "check_seal toy_lib pre 1 zero_hash sample_seal 1 (with_settings 1 2) = (c, e')" by (rule prod.exhaust)
  have "is_ok c"
    using c demo_engine_hash [of zero_hash "build_blob pre 1 (extra_nonce sample_seal) (nonce sample_seal)" 1 2]
      demo_difficulty [of "toy_randomx zero_hash (build_blob pre 1 (extra_nonce sample_seal) (nonce sample_seal))"]
    by (auto simp: check_seal_def toy_randomx_def ensure_def split: prod.splits sum.splits)
  moreover have "cl_difficulty (demo_with im) s zero_hash = Inr 1" by (simp add: demo_with_def)
  ultimately show ?thesis
    using c demo_seeds [of im s] demo_seal demo_position [OF assms, of im b]
    by (auto simp: verify_pow_unfold classify_block_def seal_check_def is_ok_iff)
qed

lemma demo_works:
  "work_of demo_client demo_start zero_hash = Inr 1"
  "best_of demo_client demo_start = (zero_hash, 0)"
  by (simp_all add: get_cumulative_achieved_work_def best_of_def demo_defs demo_start_def of_le_le_bytes)

lemma demo_window:
  "check_digest_commitment_window sample_header_crypto (hdr_digest (post_header demo_block)) 1 = Inr ()"
  by (simp add: check_digest_commitment_window_def post_header_def demo_block_def sample_header_crypto_def digest_bytes_def
      POW_ENGINE_ID_def zero_hash_def seal_encode_layout DIGEST_LOGS_SIZE_def)

lemma demo_reaches:
  assumes "demo_numbers s zero_hash = Some 0" "finalized_number (demo_info s) = 0"
  shows "\<exists>e1. import_block (demo_with im) toy_lib sample_header_crypto now demo_block (s, with_settings 1 2)
    = finish_import (demo_with im) (header_hash sample_header_crypto (post_header demo_block)) demo_block 1 (s, e1)"
proof -
  let ?b = "header_hash sample_header_crypto (post_header demo_block)"
  let ?pre = "header_hash sample_header_crypto (ip_header demo_block)"
  have f: "ip_refusal demo_block = None" "ip_body demo_block = None" "hdr_number (ip_header demo_block) = 1"
    "hdr_parent_hash (ip_header demo_block) = zero_hash"
    "last_item (ip_post_digests demo_block) = Some (Seal_item POW_ENGINE_ID (seal_encode sample_seal))"
    by (simp_all add: demo_block_def last_item_def)
  obtain e1 bs where v: "verify_pow (demo_with im) s toy_lib now zero_hash 1 ?pre ?b (seal_encode sample_seal) (with_settings 1 2, None) = (Inr 1, (e1, bs))"
    using demo_verify [OF assms, of im now ?pre ?b] by (metis prod.collapse)
  show ?thesis
    unfolding import_block_def Let_def prod.case f
    by (intro exI [of _ e1]) (simp add: demo_window [unfolded One_nat_def] import_inherents_def f fetch_seal_def v [unfolded One_nat_def])
qed

lemma demo_import:
  "\<exists>s' e'. import_block demo_client toy_lib sample_header_crypto now demo_block (demo_start, with_settings 1 2) = (Inr Imported, (s', e'))"
proof -
  let ?b = "header_hash sample_header_crypto (post_header demo_block)"
  obtain e1 where e1: "import_block demo_client toy_lib sample_header_crypto now demo_block (demo_start, with_settings 1 2)
      = finish_import demo_client ?b demo_block 1 (demo_start, e1)"
    using demo_reaches [of demo_start _ now, folded demo_client_def] by (fastforce simp: demo_start_def demo_client_def)
  have f: "hdr_number (ip_header demo_block) = 1" "hdr_parent_hash (ip_header demo_block) = zero_hash" by (simp_all add: demo_block_def)
  have fc: "fork_choice demo_client demo_start zero_hash 1 1 = Inr (2, True)"
    using demo_works by (simp add: fork_choice_def get_chain_work_def best_of_def sat_add_def is_heavier_def)
  have "fst (commit_block demo_client ?b 2 (demo_block\<lparr>ip_fork_choice := Some True\<rparr>) demo_start) = Inr Imported"
    by (simp add: commit_block_def store_cumulative_achieved_work_def demo_defs)
  then obtain s1 where c: "commit_block demo_client ?b 2 (demo_block\<lparr>ip_fork_choice := Some True\<rparr>) demo_start = (Inr Imported, s1)"
    by (metis prod.collapse)
  show ?thesis unfolding e1 by (simp add: finish_import_def f fc [unfolded One_nat_def] c)
qed

text \<open>The chain with the sample block as its best, and a client whose inner import has begun to fail.\<close>

definition demo_taken :: demo_chain where
  "demo_taken =
     (let b = header_hash sample_header_crypto (post_header demo_block)
      in demo_start\<lparr>demo_aux := (demo_aux demo_start)(work_key b \<mapsto> le_bytes 64 2), demo_numbers := (demo_numbers demo_start)(b \<mapsto> 1),
           demo_info := (demo_info demo_start)\<lparr>best_hash := b, best_number := 1\<rparr>\<rparr>)"

section \<open>Properties\<close>

text \<open>
  C34: Verifier and importer agree up to policy. In one client state whose tip difficulty is readable,
  whatever the engine and the budgets hold, for a block as it arrives, its seal still on the header. A block
  the import queue's verifier lets through passes every check of \<open>import_block\<close> but the inherents of its
  body, and goes on to fork choice with the difficulty of its parent. A block the verifier marks as refused
  is refused by \<open>import_block\<close> with nothing written, and only a block that would otherwise pass is marked.
  And a block \<open>import_block\<close> takes is let through by the verifier, marked, or refused on the seed-fill
  budget. The only other outcome is an error of the hash library.
\<close>

theorem verifier_importer_agree:
  assumes "randomx_ok lib keyed rx" "engine_reachable lib r" "engine_reachable lib r'"
    and "is_ok (cl_difficulty cl s (best_hash (cl_info cl s)))" "ip_post_digests p0 = []" "ip_refusal p0 = None"
    and "v = fst (verify cl s lib hc now p0 (run_engine r, Some b))"
  shows "(v = Inr p \<and> ip_refusal p = None \<longrightarrow> import_passes cl lib hc now' p s (run_engine r'))
    \<and> (v = Inr p \<and> ip_refusal p = Some x \<longrightarrow>
         import_block cl lib hc now' p (s, run_engine r') = (Inl (ClientImport x), (s, run_engine r'))
         \<and> import_passes cl lib hc now' (p\<lparr>ip_refusal := None\<rparr>) s (run_engine r'))
    \<and> (extract_pow_seal hc p0 = Inr p \<and> fst (import_block cl lib hc now' p (s, run_engine r')) = Inr res \<longrightarrow>
         v = Inr p \<or> (\<exists>y. v = Inr (p\<lparr>ip_refusal := Some (SideBranchBudgetExhausted y)\<rparr>))
         \<or> (\<exists>y. v = Inl (SeedFillBudgetExhausted y)) \<or> (\<exists>err. v = Inl (Engine err)))"
proof -
  have sound: "engine_sound lib keyed (run_engine r)" "engine_sound lib keyed (run_engine r')"
    using engine_reachable_ok [OF assms(1)] assms(2,3) by (auto simp: engine_sound_def run_ok_def)
  obtain st where v: "verify cl s lib hc now p0 (run_engine r, Some b) = (v, st)" using assms(7) by (metis prod.collapse)
  show ?thesis
  proof (intro conjI impI)
    assume a: "v = Inr p \<and> ip_refusal p = None"
    show "import_passes cl lib hc now' p s (run_engine r')"
      using verified_passes(1) [OF assms(1) sound assms(5,6) v [unfolded conjunct1 [OF a]]] a by simp
  next
    assume a: "v = Inr p \<and> ip_refusal p = Some x"
    then show "import_block cl lib hc now' p (s, run_engine r') = (Inl (ClientImport x), (s, run_engine r'))" by (simp add: import_block_def)
    show "import_passes cl lib hc now' (p\<lparr>ip_refusal := None\<rparr>) s (run_engine r')"
      using verified_passes(2) [OF assms(1) sound assms(5,6) v [unfolded conjunct1 [OF a]]] a by simp
  next
    assume "extract_pow_seal hc p0 = Inr p \<and> fst (import_block cl lib hc now' p (s, run_engine r')) = Inr res"
    then show "v = Inr p \<or> (\<exists>y. v = Inr (p\<lparr>ip_refusal := Some (SideBranchBudgetExhausted y)\<rparr>))
        \<or> (\<exists>y. v = Inl (SeedFillBudgetExhausted y)) \<or> (\<exists>err. v = Inl (Engine err))"
      using imported_verified [OF assms(1) sound(2) assms(5) _ _ sound(1) assms(4) v] by blast
  qed
qed

lemma demo_reachable: "run_engine (engine_start 1 2) = with_settings 1 2" "engine_reachable toy_lib (engine_start 1 2)"
  by (simp_all add: engine_start_def reach_start [unfolded engine_start_def])

text \<open>The sample block as it arrives.\<close>

definition demo_sealed :: "unit import_params" where
  "demo_sealed = demo_block\<lparr>ip_header := post_header demo_block, ip_post_digests := []\<rparr>"

lemma demo_extract: "extract_pow_seal sample_header_crypto demo_sealed = Inr demo_block"
  using demo_window demo_seal
  by (simp add: extract_pow_seal_def demo_sealed_def post_header_def last_item_def) (simp add: demo_block_def)

theorem verifier_importer_agree_witness:
  "\<exists>v. v = fst (verify demo_client demo_start toy_lib sample_header_crypto 5 demo_sealed (with_settings 1 2, Some budgets_new))
    \<and> fst (import_block demo_client toy_lib sample_header_crypto 0 demo_block (demo_start, with_settings 1 2)) = Inr Imported
    \<and> (v = Inr demo_block \<or> (\<exists>y. v = Inr (demo_block\<lparr>ip_refusal := Some (SideBranchBudgetExhausted y)\<rparr>))
       \<or> (\<exists>y. v = Inl (SeedFillBudgetExhausted y)) \<or> (\<exists>err. v = Inl (Engine err)))"
proof -
  have tip: "is_ok (cl_difficulty demo_client demo_start (best_hash (cl_info demo_client demo_start)))" by (simp add: demo_defs)
  have p0: "ip_post_digests demo_sealed = []" "ip_refusal demo_sealed = None" by (simp_all add: demo_sealed_def demo_block_def)
  have im: "fst (import_block demo_client toy_lib sample_header_crypto 0 demo_block (demo_start, with_settings 1 2)) = Inr Imported"
    using demo_import by (metis fst_conv)
  note agree = verifier_importer_agree [OF toy_lib_ok demo_reachable(2) demo_reachable(2) tip p0 refl,
      where now = 5 and now' = 0 and b = budgets_new and p = demo_block and hc = sample_header_crypto and res = Imported, unfolded demo_reachable(1)]
  from mp [OF conjunct2 [OF conjunct2 [OF agree]] conjI [OF demo_extract im]] im show ?thesis by blast
qed

text \<open>
  C33: An import records exactly its work and moves the tip exactly when it is heavier. A block reported as
  imported had a proven seal; its stored work is its parent's plus the difficulty it had to beat; no other
  block's work changes; and the best block becomes this one exactly when its work, then its height, exceeds
  the best before. An import that does not succeed leaves the best block and every other work alone.
\<close>

theorem import_block_exact:
  assumes "client_ok cl hc" "randomx_ok lib keyed rx" "engine_reachable lib r"
    and "import_block cl lib hc now p (s, run_engine r) = (res, (s', e'))"
    and "(block, n) = block_of hc p" "parent = hdr_parent_hash (ip_header p)"
  shows "(\<forall>h. h \<noteq> block \<longrightarrow> work_of cl s' h = work_of cl s h)
    \<and> (res \<noteq> Inr Imported \<longrightarrow> best_of cl s' = best_of cl s)
    \<and> (res = Inr Imported \<longrightarrow> (\<exists>seal_bytes d wp wb.
         fetch_seal (last_item (ip_post_digests p)) (header_hash hc (ip_header p)) = Inr seal_bytes
         \<and> proven cl s rx parent n (header_hash hc (ip_header p)) block seal_bytes d
         \<and> work_of cl s parent = Inr wp \<and> work_of cl s (fst (best_of cl s)) = Inr wb
         \<and> work_of cl s' block = Inr (sat_add 512 wp d)
         \<and> best_of cl s' = (if is_heavier (sat_add 512 wp d) n wb (snd (best_of cl s)) then (block, n) else best_of cl s)))"
proof -
  have sound: "engine_sound lib keyed (run_engine r)"
    using engine_reachable_ok [OF assms(2,3)] by (auto simp: engine_sound_def run_ok_def)
  have bn: "block = fst (block_of hc p)" "n = snd (block_of hc p)" "n = hdr_number (ip_header p)"
    using assms(5) by (simp_all add: block_of_def)
  have bp: "block_of hc p = (block, n)" using assms(5) by simp
  note eff = import_effect [OF assms(1,4), unfolded bp fst_conv snd_conv assms(6) [symmetric]]
  have "\<exists>seal_bytes d wp wb. fetch_seal (last_item (ip_post_digests p)) (header_hash hc (ip_header p)) = Inr seal_bytes
      \<and> proven cl s rx parent n (header_hash hc (ip_header p)) block seal_bytes d
      \<and> work_of cl s parent = Inr wp \<and> work_of cl s (fst (best_of cl s)) = Inr wb
      \<and> work_of cl s' block = Inr (sat_add 512 wp d)
      \<and> best_of cl s' = (if is_heavier (sat_add 512 wp d) n wb (snd (best_of cl s)) then (block, n) else best_of cl s)"
    if yes: "res = Inr Imported"
    using assms(4)
  proof (cases rule: import_block_cases)
    case (early err)
    then show ?thesis using yes by simp
  next
    case (commit d seal_bytes w is_best st)
    have proven: "proven cl s rx parent n (header_hash hc (ip_header p)) block seal_bytes d"
      using verify_pow_Inr [OF assms(2) sound commit(2)] by (simp only: bn(1,3) assms(6))
    have d: "cl_difficulty cl s parent = Inr d"
      using verify_pow_difficulty [OF commit(2)] by (simp only: assms(6))
    obtain d' wp wb where e: "cl_difficulty cl s parent = Inr d'" "work_of cl s parent = Inr wp" "work_of cl s (fst (best_of cl s)) = Inr wb"
      "work_of cl s' block = Inr (sat_add 512 wp d')"
      "best_of cl s' = (if is_heavier (sat_add 512 wp d') n wb (snd (best_of cl s)) then (block, n) else best_of cl s)"
      using mp [OF conjunct2 [OF conjunct2 [OF eff]] yes] by (elim exE conjE) (rule that)
    have "d' = d" using d e(1) by simp
    then show ?thesis using commit(1) proven e(2-5) by (intro exI conjI) (simp_all only:)
  qed
  then show ?thesis using conjunct1 [OF eff] conjunct1 [OF conjunct2 [OF eff]] by (intro conjI impI) simp_all
qed

theorem import_block_exact_witness:
  "\<exists>s' e'. import_block demo_client toy_lib sample_header_crypto 0 demo_block (demo_start, with_settings 1 2) = (Inr Imported, (s', e'))
     \<and> work_of demo_client s' (fst (block_of sample_header_crypto demo_block)) = Inr 2
     \<and> best_of demo_client s' = block_of sample_header_crypto demo_block"
proof -
  obtain s' e' where im: "import_block demo_client toy_lib sample_header_crypto 0 demo_block (demo_start, with_settings 1 2) = (Inr Imported, (s', e'))"
    using demo_import by blast
  define B where "B = fst (block_of sample_header_crypto demo_block)"
  have blk: "(B, 1) = block_of sample_header_crypto demo_block" and parent: "zero_hash = hdr_parent_hash (ip_header demo_block)"
    by (simp_all add: demo_block_def block_of_def B_def)
  obtain d where d: "cl_difficulty demo_client demo_start zero_hash = Inr d"
    "work_of demo_client s' B = Inr (sat_add 512 1 d)"
    "best_of demo_client s' = (if is_heavier (sat_add 512 1 d) 1 1 0 then (B, 1) else (zero_hash, 0))"
    using import_block_exact [OF demo_client_ok(1) toy_lib_ok demo_reachable(2) im [folded demo_reachable(1)] blk parent]
      demo_works by (auto simp: proven_def)
  moreover have "d = 1" using d(1) by (simp add: demo_defs)
  ultimately show ?thesis using im unfolding blk [symmetric] by (auto simp: sat_add_def is_heavier_def)
qed

text \<open>
  C32: Fork choice keeps a heaviest block best. Over any history of blocks offered through \<open>check_block\<close>,
  in any order, on any branches, with failures, retries and repeats, no block that was imported is
  heavier, by cumulative work and then by height, than the best block at the end.
\<close>

theorem fork_choice_heaviest:
  assumes "client_ok cl hc" "run_offers cl lib hc ps (s, e) = (imported, (s', e'))"
    and "cl_in_chain cl s (fst (best_of cl s))" "is_ok (work_of cl s (fst (best_of cl s)))"
    and "(h, n) \<in> insert (best_of cl s) (set imported)"
  shows "best_of cl s' \<in> insert (best_of cl s) (set imported)
    \<and> (\<exists>w wb. work_of cl s' h = Inr w \<and> work_of cl s' (fst (best_of cl s')) = Inr wb
         \<and> \<not> is_heavier w n wb (snd (best_of cl s')))"
proof -
  have "none_heavier cl s {best_of cl s}" using assms(4) by (auto simp: none_heavier_def is_ok_iff)
  moreover have "\<forall>(h, n)\<in>{best_of cl s}. cl_in_chain cl s h" using assms(3) by (cases "best_of cl s") auto
  ultimately have "none_heavier cl s' (set imported \<union> {best_of cl s})"
    by (intro run_offers_none_heavier [OF assms(1,2)])
  then show ?thesis using assms(5) by (auto simp: none_heavier_def)
qed

lemma demo_unknown: "h \<noteq> zero_hash \<Longrightarrow> check_block demo_client demo_start h n parent = Inr Imported"
  by (simp add: check_block_def demo_defs demo_start_def)

text \<open>The block is offered twice; the second time the check answers that it is in the chain.\<close>

theorem fork_choice_heaviest_witness:
  "\<exists>s' e'. run_offers demo_client toy_lib sample_header_crypto [(0, demo_block), (1, demo_block)] (demo_start, with_settings 1 2)
       = ([block_of sample_header_crypto demo_block], (s', e'))
     \<and> best_of demo_client s' \<in> {(zero_hash, 0), block_of sample_header_crypto demo_block}"
proof -
  obtain s' e' where im: "import_block demo_client toy_lib sample_header_crypto 0 demo_block (demo_start, with_settings 1 2) = (Inr Imported, (s', e'))"
    using demo_import by blast
  have fresh: "fst (block_of sample_header_crypto demo_block) \<noteq> zero_hash"
    using sample_hash_nonzero by (simp add: block_of_def header_hash_def sample_header_crypto_def sample_poseidon_def)
  have first: "offer_block demo_client toy_lib sample_header_crypto 0 demo_block (demo_start, with_settings 1 2) = (Inr Imported, (s', e'))"
    using im demo_unknown fresh by (simp add: offer_block_def)
  have "cl_in_chain demo_client s' (fst (block_of sample_header_crypto demo_block))" using import_in_chain [OF demo_client_ok(1) im] by blast
  then have "check_block demo_client s' (fst (block_of sample_header_crypto demo_block)) n parent = Inr AlreadyInChain" for n parent
    by (auto simp: check_block_def demo_defs)
  then have second: "offer_block demo_client toy_lib sample_header_crypto 1 demo_block (s', e') = (Inr AlreadyInChain, (s', e'))"
    by (simp add: offer_block_def)
  have run: "run_offers demo_client toy_lib sample_header_crypto [(0, demo_block), (1, demo_block)] (demo_start, with_settings 1 2)
       = ([block_of sample_header_crypto demo_block], (s', e'))"
    using first second by simp
  have known: "cl_in_chain demo_client demo_start (fst (best_of demo_client demo_start))"
    using demo_works(2) by (simp add: demo_defs demo_start_def)
  have "is_ok (work_of demo_client demo_start (fst (best_of demo_client demo_start)))" using demo_works by simp
  from fork_choice_heaviest [OF demo_client_ok(1) run known this, of zero_hash 0] run demo_works(2) show ?thesis by auto
qed


text \<open>The best block is offered again without asking first, the inner import fails, and a block on genesis wins.\<close>

lemma demo_lost:
  "\<exists>s' e'. import_block demo_broken toy_lib sample_header_crypto 0 demo_block (demo_taken, with_settings 1 2) = (Inl (Client ''database''), (s', e'))
     \<and> work_of demo_broken s' (header_hash sample_header_crypto (post_header demo_block)) = Inr 0
     \<and> work_of demo_broken s' zero_hash = Inr 1"
proof -
  let ?b = "header_hash sample_header_crypto (post_header demo_block)"
  have fresh: "?b \<noteq> zero_hash" using sample_hash_nonzero by (simp add: header_hash_def sample_header_crypto_def sample_poseidon_def)
  obtain e1 where e1: "import_block demo_broken toy_lib sample_header_crypto 0 demo_block (demo_taken, with_settings 1 2)
      = finish_import demo_broken ?b demo_block 1 (demo_taken, e1)"
    using demo_reaches [of demo_taken _ 0, folded demo_broken_def] fresh by (fastforce simp: demo_taken_def demo_start_def demo_broken_def Let_def)
  have f: "hdr_number (ip_header demo_block) = 1" "hdr_parent_hash (ip_header demo_block) = zero_hash" by (simp_all add: demo_block_def)
  have works: "work_of demo_broken demo_taken zero_hash = Inr 1" "work_of demo_broken demo_taken ?b = Inr 2" "best_of demo_broken demo_taken = (?b, 1)"
    using fresh by (auto simp: get_cumulative_achieved_work_def best_of_def demo_broken_def demo_with_def demo_taken_def demo_start_def Let_def of_le_le_bytes)
  have fc: "fork_choice demo_broken demo_taken zero_hash 1 1 = Inr (2, False)"
    using works by (simp add: fork_choice_def get_chain_work_def best_of_def sat_add_def is_heavier_def)
  obtain s1 where c: "commit_block demo_broken ?b 2 (demo_block\<lparr>ip_fork_choice := Some False\<rparr>) demo_taken = (Inl (Client ''database''), s1)"
    "work_of demo_broken s1 ?b = Inr 0"
    by (simp add: commit_block_def store_cumulative_achieved_work_def delete_cumulative_achieved_work_def get_cumulative_achieved_work_def
        demo_broken_def demo_with_def)
  have run: "import_block demo_broken toy_lib sample_header_crypto 0 demo_block (demo_taken, with_settings 1 2) = (Inl (Client ''database''), (s1, e1))"
    unfolding e1 by (simp add: finish_import_def f fc [unfolded One_nat_def] c)
  have "work_of demo_broken s1 zero_hash = Inr 1"
    using import_effect [OF demo_client_ok(2) run] works(1) fresh by (simp add: block_of_def)
  then show ?thesis using run c(2) by blast
qed


end
