(* ===== verification/NoteCore.thy ===== *)
theory NoteCore
  imports ChainRules
begin

text \<open>
  Notes and their hash rules, \<open>crates/qnero-note-core/src\<close>: digests, the domain tags, the key
  derivation, commitments, nullifiers, the derivation of every \<open>rho\<close>, and the miner key. A
  \<open>Digest\<close> is its four field elements; the functions of \<open>qp_poseidon_core\<close> that work on
  field elements are parameters beside those of \<^term>\<open>poseidon_ok\<close>.

  The lemmas show that no two rules share a preimage and that a rule's preimage determines its arguments,
  and that the commitment the chain computes from bytes is the wallet's.
\<close>

section \<open>Digests\<close>

type_synonym felt_digest = "goldilocks list"

record note_hash =
  nh_core :: poseidon
  hash_to_felts :: "goldilocks list \<Rightarrow> felt_digest"
  digest_to_bytes :: "felt_digest \<Rightarrow> hash256"

text \<open>
  Documented behaviour: a hash is four field elements, \<open>hash_to_bytes\<close> is the byte form of
  \<open>hash_to_felts\<close>, and the byte form of a digest is its limbs in little-endian order.
\<close>

definition note_hash_ok :: "note_hash \<Rightarrow> bool" where
  "note_hash_ok nh \<longleftrightarrow>
     poseidon_ok (nh_core nh) \<and>
     (\<forall>fs. length (hash_to_felts nh fs) = 4 \<and>
           hash_to_bytes (nh_core nh) fs = digest_to_bytes nh (hash_to_felts nh fs)) \<and>
     (\<forall>d. digest_to_bytes nh d = digest_of_limbs (map to_canonical_u64 d))"

definition ascii :: "string \<Rightarrow> byte list" where
  "ascii s = map (\<lambda>c. word_of_nat (of_char c)) s"

datatype note_error = ValueTooLarge nat | NonCanonicalDigest | InvalidMinerKey string

definition digest_from_bytes :: "note_hash \<Rightarrow> hash256 \<Rightarrow> (note_error, felt_digest) result" where
  "digest_from_bytes nh bytes = ok_or (bytes_to_digest (nh_core nh) bytes) NonCanonicalDigest"

definition digest_from_slice :: "note_hash \<Rightarrow> byte list \<Rightarrow> (note_error, felt_digest) result" where
  "digest_from_slice nh bytes = ensure (length bytes = 32) NonCanonicalDigest (digest_from_bytes nh bytes)"

text \<open>\<open>None\<close> is the panic of the \<open>expect\<close>, which a hash with canonical limbs never reaches.\<close>

definition digest_hash_bytes :: "note_hash \<Rightarrow> byte list list \<Rightarrow> felt_digest option" where
  "digest_hash_bytes nh parts =
     (case digest_from_bytes nh (hash_bytes (nh_core nh) (concat parts)) of Inr d \<Rightarrow> Some d | Inl _ \<Rightarrow> None)"

definition hash_felts :: "note_hash \<Rightarrow> goldilocks \<Rightarrow> goldilocks list list \<Rightarrow> felt_digest" where
  "hash_felts nh domain parts = hash_to_felts nh (domain # concat parts)"

section \<open>Domain tags\<close>

definition domain_AK :: goldilocks where "domain_AK = felt_from_u64 0x716e0001"
definition domain_PK :: goldilocks where "domain_PK = felt_from_u64 0x716e0002"
definition domain_NOTE :: goldilocks where "domain_NOTE = felt_from_u64 0x716e0003"
definition domain_CM :: goldilocks where "domain_CM = felt_from_u64 0x716e0004"
definition domain_NF :: goldilocks where "domain_NF = felt_from_u64 0x716e0005"
definition domain_RHO :: goldilocks where "domain_RHO = felt_from_u64 0x716e0006"
definition domain_NF_DUMMY :: goldilocks where "domain_NF_DUMMY = felt_from_u64 0x716e0007"
definition domain_NF_BATCH_PADDING :: goldilocks where "domain_NF_BATCH_PADDING = felt_from_u64 0x716e0008"
definition domain_RHO_ENTRY :: goldilocks where "domain_RHO_ENTRY = felt_from_u64 0x716e0009"
definition domain_RHO_COINBASE :: goldilocks where "domain_RHO_COINBASE = felt_from_u64 0x716e000a"
definition domain_R_COINBASE :: goldilocks where "domain_R_COINBASE = felt_from_u64 0x716e000b"

lemmas domain_defs = domain_AK_def domain_PK_def domain_NOTE_def domain_CM_def domain_NF_def domain_RHO_def
  domain_NF_DUMMY_def domain_NF_BATCH_PADDING_def domain_RHO_ENTRY_def domain_RHO_COINBASE_def domain_R_COINBASE_def

section \<open>Keys\<close>

definition derive_ak :: "note_hash \<Rightarrow> felt_digest \<Rightarrow> felt_digest" where
  "derive_ak nh ask = hash_felts nh domain_AK [ask]"

definition derive_pk :: "note_hash \<Rightarrow> felt_digest \<Rightarrow> felt_digest \<Rightarrow> felt_digest" where
  "derive_pk nh ask nk = hash_felts nh domain_PK [derive_ak nh ask, nk]"

record derived_keys =
  dk_ask :: felt_digest
  dk_nk :: felt_digest

definition derived_pk :: "note_hash \<Rightarrow> derived_keys \<Rightarrow> felt_digest" where
  "derived_pk nh keys = derive_pk nh (dk_ask keys) (dk_nk keys)"

section \<open>Notes\<close>

definition NOTE_VALUE_BITS :: nat where "NOTE_VALUE_BITS = 62"
definition NOTE_MAX_VALUE :: nat where "NOTE_MAX_VALUE = 2 ^ NOTE_VALUE_BITS - 1"

record note_data =
  note_pk :: felt_digest
  note_value :: nat
  note_rho :: felt_digest
  note_r :: felt_digest

definition note_new :: "felt_digest \<Rightarrow> nat \<Rightarrow> felt_digest \<Rightarrow> felt_digest \<Rightarrow> (note_error, note_data) result" where
  "note_new pk v rho r =
     (if NOTE_MAX_VALUE < v then Inl (ValueTooLarge v)
      else Inr \<lparr>note_pk = pk, note_value = v, note_rho = rho, note_r = r\<rparr>)"

definition note_inner :: "note_hash \<Rightarrow> felt_digest \<Rightarrow> felt_digest \<Rightarrow> felt_digest \<Rightarrow> felt_digest" where
  "note_inner nh pk rho r = hash_felts nh domain_NOTE [pk, rho, r]"

definition commitment_from_inner :: "note_hash \<Rightarrow> felt_digest \<Rightarrow> nat \<Rightarrow> felt_digest" where
  "commitment_from_inner nh inner v = hash_felts nh domain_CM [inner, [felt_from_u64 v]]"

definition nullifier :: "note_hash \<Rightarrow> felt_digest \<Rightarrow> felt_digest \<Rightarrow> felt_digest \<Rightarrow> felt_digest" where
  "nullifier nh nk rho r = hash_felts nh domain_NF [nk, rho, r]"

definition dummy_nullifier :: "note_hash \<Rightarrow> felt_digest \<Rightarrow> felt_digest \<Rightarrow> felt_digest \<Rightarrow> felt_digest" where
  "dummy_nullifier nh nk rho r = hash_felts nh domain_NF_DUMMY [nk, rho, r]"

definition output_rho :: "note_hash \<Rightarrow> felt_digest \<Rightarrow> felt_digest \<Rightarrow> nat \<Rightarrow> felt_digest" where
  "output_rho nh nf_1 nf_2 index = hash_felts nh domain_RHO [nf_1, nf_2, [felt_from_u64 index]]"

definition entry_rho :: "note_hash \<Rightarrow> nat \<Rightarrow> nat \<Rightarrow> felt_digest" where
  "entry_rho nh block_number entry_index =
     hash_felts nh domain_RHO_ENTRY
       [[felt_from_u64 block_number], [felt_from_u64 (entry_index div 2 ^ 32), felt_from_u64 (entry_index mod 2 ^ 32)]]"

definition coinbase_rho :: "note_hash \<Rightarrow> nat \<Rightarrow> felt_digest" where
  "coinbase_rho nh block_number = hash_felts nh domain_RHO_COINBASE [[felt_from_u64 block_number]]"

definition coinbase_r :: "note_hash \<Rightarrow> felt_digest \<Rightarrow> byte list \<Rightarrow> nat \<Rightarrow> felt_digest option" where
  "coinbase_r nh cvk genesis_hash block_number =
     (case digest_hash_bytes nh [ascii ''qnero/coinbase-chain'', genesis_hash] of
        None \<Rightarrow> None
      | Some chain \<Rightarrow> Some (hash_felts nh domain_R_COINBASE [cvk, chain, [felt_from_u64 block_number]]))"

definition inner_of :: "note_hash \<Rightarrow> note_data \<Rightarrow> felt_digest" where
  "inner_of nh n = note_inner nh (note_pk n) (note_rho n) (note_r n)"

definition commitment_of :: "note_hash \<Rightarrow> note_data \<Rightarrow> felt_digest" where
  "commitment_of nh n = commitment_from_inner nh (inner_of nh n) (note_value n)"

definition nullifier_of :: "note_hash \<Rightarrow> note_data \<Rightarrow> felt_digest \<Rightarrow> felt_digest" where
  "nullifier_of nh n nk = nullifier nh nk (note_rho n) (note_r n)"

section \<open>The miner key\<close>

definition MINER_KEY_VERSION :: nat where "MINER_KEY_VERSION = 1"
definition MINER_KEY_LEN :: nat where "MINER_KEY_LEN = 1 + 32 + 32"

record miner_key =
  mk_version :: nat
  mk_pk :: felt_digest
  mk_cvk :: felt_digest

definition miner_key_new :: "felt_digest \<Rightarrow> felt_digest \<Rightarrow> miner_key" where
  "miner_key_new pk cvk = \<lparr>mk_version = MINER_KEY_VERSION, mk_pk = pk, mk_cvk = cvk\<rparr>"

definition miner_key_to_bytes :: "note_hash \<Rightarrow> miner_key \<Rightarrow> byte list" where
  "miner_key_to_bytes nh k =
     [word_of_nat (mk_version k)] @ digest_to_bytes nh (mk_pk k) @ digest_to_bytes nh (mk_cvk k)"

definition miner_key_from_bytes :: "note_hash \<Rightarrow> byte list \<Rightarrow> (note_error, miner_key) result" where
  "miner_key_from_bytes nh bytes =
     ensure (length bytes = MINER_KEY_LEN) (InvalidMinerKey ''length'')
       (let version = unat (bytes ! 0)
        in ensure (version = MINER_KEY_VERSION) (InvalidMinerKey ''version'')
             (rbind (map_err (\<lambda>_. InvalidMinerKey ''pk'') (digest_from_slice nh (take 32 (drop 1 bytes)))) (\<lambda>pk.
              rbind (map_err (\<lambda>_. InvalidMinerKey ''cvk'') (digest_from_slice nh (drop (1 + 32) bytes))) (\<lambda>cvk.
                Inr \<lparr>mk_version = version, mk_pk = pk, mk_cvk = cvk\<rparr>))))"

definition author_label :: "note_hash \<Rightarrow> miner_key \<Rightarrow> byte list \<Rightarrow> felt_digest option" where
  "author_label nh k parent_hash =
     digest_hash_bytes nh [ascii ''qnero/author-label'', digest_to_bytes nh (mk_cvk k), parent_hash]"

definition miner_coinbase_note :: "note_hash \<Rightarrow> miner_key \<Rightarrow> byte list \<Rightarrow> nat \<Rightarrow> nat \<Rightarrow> (note_error, note_data) result option" where
  "miner_coinbase_note nh k genesis_hash block_number v =
     map_option (\<lambda>r. note_new (mk_pk k) v (coinbase_rho nh block_number) r)
       (coinbase_r nh (mk_cvk k) genesis_hash block_number)"

section \<open>Lemmas\<close>

lemma note_hash_okD:
  assumes "note_hash_ok nh"
  shows "poseidon_ok (nh_core nh)" "length (hash_to_felts nh fs) = 4"
    "hash_to_bytes (nh_core nh) fs = digest_to_bytes nh (hash_to_felts nh fs)"
    "digest_to_bytes nh d = digest_of_limbs (map to_canonical_u64 d)"
  using assms by (simp_all add: note_hash_ok_def)

lemma length_hash_felts: "note_hash_ok nh \<Longrightarrow> length (hash_felts nh tag parts) = 4"
  by (simp add: hash_felts_def note_hash_okD)

lemma canonical_limbs_small: "\<forall>l\<in>set (map to_canonical_u64 d). l < 2 ^ 64"
  using to_canonical_lt_2_64 by auto

lemma digest_to_bytes_inject:
  assumes "note_hash_ok nh" "digest_to_bytes nh a = digest_to_bytes nh b"
  shows "a = b"
proof -
  have "map to_canonical_u64 a = map to_canonical_u64 b"
    using assms digest_of_limbs_inject [OF canonical_limbs_small canonical_limbs_small]
    by (simp add: note_hash_okD)
  then show ?thesis by (rule map_injective) (simp add: inj_def to_canonical_u64_inject)
qed

lemma length_digest_to_bytes: "note_hash_ok nh \<Longrightarrow> length (digest_to_bytes nh d) = 8 * length d"
  by (simp add: note_hash_okD)

lemma limbs_digest_to_bytes: "note_hash_ok nh \<Longrightarrow> limbs (digest_to_bytes nh d) = map to_canonical_u64 d"
  using limbs_digest_of_limbs [OF canonical_limbs_small] by (simp add: note_hash_okD)

lemma felts_digest_to_bytes: "note_hash_ok nh \<Longrightarrow> map felt_from_u64 (limbs (digest_to_bytes nh d)) = d"
  by (simp add: limbs_digest_to_bytes comp_def)

lemma canonical_digest_to_bytes: "note_hash_ok nh \<Longrightarrow> canonical_limbs (digest_to_bytes nh d)"
  using to_canonical_lt by (simp add: canonical_limbs_def limbs_digest_to_bytes list_all_iff)

lemma digest_from_to_bytes:
  "note_hash_ok nh \<Longrightarrow> length d = 4 \<Longrightarrow> digest_from_bytes nh (digest_to_bytes nh d) = Inr d"
  using note_hash_okD(1) [of nh]
  by (simp add: digest_from_bytes_def poseidon_okD canonical_digest_to_bytes length_digest_to_bytes felts_digest_to_bytes)

lemma digest_from_bytes_iff:
  assumes "note_hash_ok nh"
  shows "digest_from_bytes nh bytes = Inr d \<longleftrightarrow> length d = 4 \<and> bytes = digest_to_bytes nh d"
proof
  assume "digest_from_bytes nh bytes = Inr d"
  then have b: "length bytes = 32" "canonical_limbs bytes" "d = map felt_from_u64 (limbs bytes)"
    using poseidon_okD(6) [OF note_hash_okD(1) [OF assms], of bytes]
    by (auto simp: digest_from_bytes_def split: if_splits)
  have "map to_canonical_u64 d = limbs bytes"
    using b(2) by (auto simp: b(3) canonical_limbs_def list_all_iff intro!: map_idI)
  then have "digest_to_bytes nh d = bytes"
    using b(1) digest_of_limbs_limbs [of bytes] by (simp add: note_hash_okD(4) [OF assms])
  then show "length d = 4 \<and> bytes = digest_to_bytes nh d" using b by (simp add: length_limbs)
qed (use assms digest_from_to_bytes in auto)

section \<open>The rules as data\<close>

text \<open>Every application of a hash rule, with the field elements it hashes.\<close>

datatype note_rule =
    Rule_ak felt_digest
  | Rule_pk felt_digest felt_digest
  | Rule_note felt_digest felt_digest felt_digest
  | Rule_cm felt_digest nat
  | Rule_nf felt_digest felt_digest felt_digest
  | Rule_rho felt_digest felt_digest nat
  | Rule_nf_dummy felt_digest felt_digest felt_digest
  | Rule_nf_batch_padding felt_digest
  | Rule_rho_entry nat nat
  | Rule_rho_coinbase nat
  | Rule_r_coinbase felt_digest felt_digest nat

fun rule_felts :: "note_rule \<Rightarrow> goldilocks list" where
  "rule_felts (Rule_ak ask) = domain_AK # ask"
| "rule_felts (Rule_pk ak nk) = domain_PK # ak @ nk"
| "rule_felts (Rule_note pk rho r) = domain_NOTE # pk @ rho @ r"
| "rule_felts (Rule_cm inner v) = domain_CM # inner @ [felt_from_u64 v]"
| "rule_felts (Rule_nf nk rho r) = domain_NF # nk @ rho @ r"
| "rule_felts (Rule_rho nf_1 nf_2 i) = domain_RHO # nf_1 @ nf_2 @ [felt_from_u64 i]"
| "rule_felts (Rule_nf_dummy nk rho r) = domain_NF_DUMMY # nk @ rho @ r"
| "rule_felts (Rule_nf_batch_padding p) = domain_NF_BATCH_PADDING # p"
| "rule_felts (Rule_rho_entry n i) =
     [domain_RHO_ENTRY, felt_from_u64 n, felt_from_u64 (i div 2 ^ 32), felt_from_u64 (i mod 2 ^ 32)]"
| "rule_felts (Rule_rho_coinbase n) = [domain_RHO_COINBASE, felt_from_u64 n]"
| "rule_felts (Rule_r_coinbase cvk chain n) = domain_R_COINBASE # cvk @ chain @ [felt_from_u64 n]"

text \<open>Arguments as the code passes them: digests of four elements, integers inside their types.\<close>

fun rule_ok :: "note_rule \<Rightarrow> bool" where
  "rule_ok (Rule_ak ask) \<longleftrightarrow> length ask = 4"
| "rule_ok (Rule_pk ak nk) \<longleftrightarrow> length ak = 4 \<and> length nk = 4"
| "rule_ok (Rule_note pk rho r) \<longleftrightarrow> length pk = 4 \<and> length rho = 4 \<and> length r = 4"
| "rule_ok (Rule_cm inner v) \<longleftrightarrow> length inner = 4 \<and> v \<le> NOTE_MAX_VALUE"
| "rule_ok (Rule_nf nk rho r) \<longleftrightarrow> length nk = 4 \<and> length rho = 4 \<and> length r = 4"
| "rule_ok (Rule_rho nf_1 nf_2 i) \<longleftrightarrow> length nf_1 = 4 \<and> length nf_2 = 4 \<and> i < 2 ^ 32"
| "rule_ok (Rule_nf_dummy nk rho r) \<longleftrightarrow> length nk = 4 \<and> length rho = 4 \<and> length r = 4"
| "rule_ok (Rule_nf_batch_padding p) \<longleftrightarrow> length p = 4"
| "rule_ok (Rule_rho_entry n i) \<longleftrightarrow> n < 2 ^ 32 \<and> i < 2 ^ 64"
| "rule_ok (Rule_rho_coinbase n) \<longleftrightarrow> n < 2 ^ 32"
| "rule_ok (Rule_r_coinbase cvk chain n) \<longleftrightarrow> length cvk = 4 \<and> length chain = 4 \<and> n < 2 ^ 32"

lemma rule_hashes:
  "derive_ak nh ask = hash_to_felts nh (rule_felts (Rule_ak ask))"
  "derive_pk nh ask nk = hash_to_felts nh (rule_felts (Rule_pk (derive_ak nh ask) nk))"
  "note_inner nh pk rho r = hash_to_felts nh (rule_felts (Rule_note pk rho r))"
  "commitment_from_inner nh inner v = hash_to_felts nh (rule_felts (Rule_cm inner v))"
  "nullifier nh nk rho r = hash_to_felts nh (rule_felts (Rule_nf nk rho r))"
  "dummy_nullifier nh nk rho r = hash_to_felts nh (rule_felts (Rule_nf_dummy nk rho r))"
  "output_rho nh nf_1 nf_2 i = hash_to_felts nh (rule_felts (Rule_rho nf_1 nf_2 i))"
  "entry_rho nh n i = hash_to_felts nh (rule_felts (Rule_rho_entry n i))"
  "coinbase_rho nh n = hash_to_felts nh (rule_felts (Rule_rho_coinbase n))"
  by (simp_all add: derive_ak_def derive_pk_def note_inner_def commitment_from_inner_def nullifier_def dummy_nullifier_def
      output_rho_def entry_rho_def coinbase_rho_def hash_felts_def)

lemma felt_small_eq_iff: "a < GOLDILOCKS_P \<Longrightarrow> b < GOLDILOCKS_P \<Longrightarrow> felt_from_u64 a = felt_from_u64 b \<longleftrightarrow> a = b"
  by (simp add: felt_eq_iff)

lemma domain_distinct: "distinct [domain_AK, domain_PK, domain_NOTE, domain_CM, domain_NF, domain_RHO, domain_NF_DUMMY,
    domain_NF_BATCH_PADDING, domain_RHO_ENTRY, domain_RHO_COINBASE, domain_R_COINBASE]"
  by (simp add: domain_defs felt_small_eq_iff GOLDILOCKS_P_def)

lemma felt_bounds: "n < 2 ^ 32 \<Longrightarrow> n < GOLDILOCKS_P" "v \<le> NOTE_MAX_VALUE \<Longrightarrow> v < GOLDILOCKS_P"
  by (simp_all add: GOLDILOCKS_P_def NOTE_MAX_VALUE_def NOTE_VALUE_BITS_def)

lemma split_u64_eq: "i div 4294967296 = j div 4294967296 \<Longrightarrow> i mod 4294967296 = j mod 4294967296 \<Longrightarrow> i = (j :: nat)"
  by (metis div_mult_mod_eq)

lemma rule_felts_inject: "rule_ok a \<Longrightarrow> rule_ok b \<Longrightarrow> rule_felts a = rule_felts b \<Longrightarrow> a = b"
  using domain_distinct by (cases a; cases b) (auto simp: felt_small_eq_iff felt_bounds dest: split_u64_eq)

text \<open>
  The digest the code computes for a rule. Three rules are one hash inside a larger function, and are written
  out here: \<open>rule_digest_inline\<close> gives them back from \<open>derive_pk\<close> and \<open>coinbase_r\<close>, and
  \<open>BatchCircuit\<close> from the padding slot's nullifier.
\<close>

fun rule_digest :: "note_hash \<Rightarrow> note_rule \<Rightarrow> felt_digest" where
  "rule_digest nh (Rule_ak ask) = derive_ak nh ask"
| "rule_digest nh (Rule_pk ak nk) = hash_felts nh domain_PK [ak, nk]"
| "rule_digest nh (Rule_note pk rho r) = note_inner nh pk rho r"
| "rule_digest nh (Rule_cm inner v) = commitment_from_inner nh inner v"
| "rule_digest nh (Rule_nf nk rho r) = nullifier nh nk rho r"
| "rule_digest nh (Rule_rho nf_1 nf_2 i) = output_rho nh nf_1 nf_2 i"
| "rule_digest nh (Rule_nf_dummy nk rho r) = dummy_nullifier nh nk rho r"
| "rule_digest nh (Rule_nf_batch_padding p) = hash_felts nh domain_NF_BATCH_PADDING [p]"
| "rule_digest nh (Rule_rho_entry n i) = entry_rho nh n i"
| "rule_digest nh (Rule_rho_coinbase n) = coinbase_rho nh n"
| "rule_digest nh (Rule_r_coinbase cvk chain n) = hash_felts nh domain_R_COINBASE [cvk, chain, [felt_from_u64 n]]"

lemma rule_digest_felts: "rule_digest nh a = hash_to_felts nh (rule_felts a)"
  by (cases a) (simp_all add: rule_hashes hash_felts_def)

lemma rule_digest_inline:
  "derive_pk nh ask nk = rule_digest nh (Rule_pk (derive_ak nh ask) nk)"
  "digest_hash_bytes nh [ascii ''qnero/coinbase-chain'', genesis_hash] = Some chain \<Longrightarrow>
     coinbase_r nh cvk genesis_hash block_number = Some (rule_digest nh (Rule_r_coinbase cvk chain block_number))"
  by (simp_all add: derive_pk_def coinbase_r_def)

section \<open>A sample instance\<close>

definition sample_note_hash :: note_hash where
  "sample_note_hash =
     \<lparr>nh_core = sample_poseidon,
      hash_to_felts = (\<lambda>fs. map felt_from_u64 (limbs (hash_to_bytes sample_poseidon fs))),
      digest_to_bytes = (\<lambda>d. digest_of_limbs (map to_canonical_u64 d))\<rparr>"

lemma felts_of_canonical_bytes:
  assumes "length bs = 32" "canonical_limbs bs"
  shows "digest_of_limbs (map to_canonical_u64 (map felt_from_u64 (limbs bs))) = bs"
proof -
  have "map to_canonical_u64 (map felt_from_u64 (limbs bs)) = limbs bs"
    using assms(2) by (auto simp: canonical_limbs_def list_all_iff intro!: map_idI)
  then show ?thesis using assms(1) digest_of_limbs_limbs [of bs] by simp
qed

lemma sample_note_hash_ok: "note_hash_ok sample_note_hash"
  using sample_poseidon_ok felts_of_canonical_bytes
  by (simp add: note_hash_ok_def sample_note_hash_def length_limbs poseidon_okD [OF sample_poseidon_ok])

definition felts4 :: "nat \<Rightarrow> felt_digest" where
  "felts4 n = map felt_from_u64 [n, 0, 0, 1]"

lemma length_felts4 [simp]: "length (felts4 n) = 4"
  by (simp add: felts4_def)

section \<open>Properties\<close>

text \<open>
  C29: The hash rules are separated. Two applications of any of the eleven rules, to digests and integers
  of their types, give one digest only when they are the same rule with the same arguments, or when their
  two preimages, written out, collide under the hash. So no dummy or padding nullifier is a note's nullifier,
  no two notes share a commitment, and every \<open>rho\<close> belongs to one leaf, entry or block.
\<close>

theorem note_rules_separated:
  assumes "rule_ok a" "rule_ok b" "rule_digest nh a = rule_digest nh b"
  shows "a = b \<or> (rule_felts a \<noteq> rule_felts b \<and> hash_to_felts nh (rule_felts a) = hash_to_felts nh (rule_felts b))"
  using assms rule_felts_inject [of a b] by (auto simp: rule_digest_felts)

lemma sample_collision:
  "rule_digest sample_note_hash (Rule_nf (felts4 62) (felts4 2) (felts4 3)) = rule_digest sample_note_hash (Rule_nf_dummy (felts4 0) (felts4 2) (felts4 3))"
  by (simp add: rule_digest_felts sample_note_hash_def sample_poseidon_def sample_hash_def felts4_def domain_defs GOLDILOCKS_P_def)

theorem note_rules_separated_witness:
  "rule_felts (Rule_nf (felts4 62) (felts4 2) (felts4 3)) \<noteq> rule_felts (Rule_nf_dummy (felts4 0) (felts4 2) (felts4 3))
   \<and> hash_to_felts sample_note_hash (rule_felts (Rule_nf (felts4 62) (felts4 2) (felts4 3)))
       = hash_to_felts sample_note_hash (rule_felts (Rule_nf_dummy (felts4 0) (felts4 2) (felts4 3)))"
  using note_rules_separated [OF _ _ sample_collision] by simp

text \<open>
  The chain and the wallet compute one commitment. For every canonical inner digest the bytes the pallet
  commits to are the bytes of the wallet's commitment; for any other input the pallet refuses.
\<close>

theorem commitment_rules_agree:
  assumes "note_hash_ok nh"
  shows "commitment (nh_core nh) bytes v =
    (case digest_from_slice nh bytes of
       Inr inner \<Rightarrow> Some (digest_to_bytes nh (commitment_from_inner nh inner v))
     | Inl _ \<Rightarrow> None)"
proof (cases "bytes_to_digest (nh_core nh) bytes")
  case None
  then show ?thesis by (simp add: commitment_def digest_from_slice_def digest_from_bytes_def ensure_def)
next
  case (Some inner)
  then have "length bytes = 32"
    using poseidon_okD(6) [OF note_hash_okD(1) [OF assms], of bytes] by (simp split: if_splits)
  then show ?thesis
    using Some assms by (simp add: commitment_def digest_from_slice_def digest_from_bytes_def note_hash_okD(3) [OF assms]
        commitment_from_inner_def hash_felts_def commitment_felts_def domain_CM_def CM_def)
qed

theorem commitment_rules_agree_witness:
  "commitment sample_poseidon zero_hash 7 =
     Some (digest_to_bytes sample_note_hash (commitment_from_inner sample_note_hash (replicate 4 (felt_from_u64 0)) 7))"
proof -
  have z: "zero_hash = digest_to_bytes sample_note_hash (replicate 4 (felt_from_u64 0))"
    by (simp add: note_hash_okD(4) [OF sample_note_hash_ok] zero_hash_limbs numeral_eq_Suc)
  have "digest_from_slice sample_note_hash zero_hash = Inr (replicate 4 (felt_from_u64 0))"
    using digest_from_to_bytes [OF sample_note_hash_ok, of "replicate 4 (felt_from_u64 0)"] unfolding z
    by (simp add: digest_from_slice_def length_digest_to_bytes [OF sample_note_hash_ok])
  moreover have "nh_core sample_note_hash = sample_poseidon" by (simp add: sample_note_hash_def)
  ultimately show ?thesis using commitment_rules_agree [OF sample_note_hash_ok, of zero_hash 7] by simp
qed

text \<open>
  A miner key is read back from its bytes and from no others: a byte string decodes exactly when it is
  the encoding of the decoded key.
\<close>

theorem miner_key_roundtrip:
  assumes "note_hash_ok nh"
  shows "miner_key_from_bytes nh bytes = Inr k \<longleftrightarrow>
    mk_version k = MINER_KEY_VERSION \<and> length (mk_pk k) = 4 \<and> length (mk_cvk k) = 4 \<and> bytes = miner_key_to_bytes nh k"
proof
  assume "miner_key_from_bytes nh bytes = Inr k"
  then have b: "length bytes = 65" "unat (bytes ! 0) = 1" "mk_version k = 1"
    "take 32 (drop 1 bytes) = digest_to_bytes nh (mk_pk k)" "drop 33 bytes = digest_to_bytes nh (mk_cvk k)"
    "length (mk_pk k) = 4" "length (mk_cvk k) = 4"
    using digest_from_bytes_iff [OF assms]
    by (auto simp: miner_key_from_bytes_def MINER_KEY_LEN_def MINER_KEY_VERSION_def digest_from_slice_def Let_def)
  have "bytes = take 1 bytes @ take 32 (drop 1 bytes) @ drop 33 bytes"
    using append_take_drop_id [of 1 bytes] append_take_drop_id [of 32 "drop 1 bytes"] by simp
  moreover have "take 1 bytes = [bytes ! 0]" using b(1) by (cases bytes) simp_all
  moreover have "bytes ! 0 = word_of_nat (mk_version k)" using b(2,3) by (metis of_nat_1 unsigned_1 unsigned_word_eqI)
  ultimately show "mk_version k = MINER_KEY_VERSION \<and> length (mk_pk k) = 4 \<and> length (mk_cvk k) = 4 \<and> bytes = miner_key_to_bytes nh k"
    using b by (simp add: miner_key_to_bytes_def MINER_KEY_VERSION_def)
next
  assume k: "mk_version k = MINER_KEY_VERSION \<and> length (mk_pk k) = 4 \<and> length (mk_cvk k) = 4 \<and> bytes = miner_key_to_bytes nh k"
  then show "miner_key_from_bytes nh bytes = Inr k"
    using digest_from_to_bytes [OF assms] length_digest_to_bytes [OF assms]
    by (simp add: miner_key_from_bytes_def miner_key_to_bytes_def MINER_KEY_LEN_def MINER_KEY_VERSION_def digest_from_slice_def)
qed

end
