(* ===== verification/Gadgets.thy ===== *)
theory Gadgets
  imports NoteCore
begin

text \<open>
  The gadgets of the spend leaf, \<open>crates/qnero-circuit/src\<close>: comparisons (\<open>gadgets.rs\<close>), the
  note hashes in circuit (\<open>note_gadget.rs\<close>) and the walk along a Merkle path (\<open>merkle.rs\<close>).

  A circuit is modelled by its evaluation. A target is the field element an assignment gives it; an operation
  of plonky2's \<open>CircuitBuilder\<close> computes the element of its output, or, where it adds a constraint,
  whether the assignment satisfies it. The operations are third-party code and a parameter. A gadget that adds
  constraints returns its output together with whether they hold.

  The lemmas say what each gadget computes on any assignment: the comparison is the order on integers, the
  note gadgets are the hash rules of \<open>qnero-note-core\<close>, and the walk hashes exactly the first
  \<open>depth\<close> levels of the path.
\<close>

section \<open>The circuit builder\<close>

record circuit_builder =
  g_add :: "goldilocks \<Rightarrow> goldilocks \<Rightarrow> goldilocks"
  g_sub :: "goldilocks \<Rightarrow> goldilocks \<Rightarrow> goldilocks"
  g_mul :: "goldilocks \<Rightarrow> goldilocks \<Rightarrow> goldilocks"
  g_is_equal :: "goldilocks \<Rightarrow> goldilocks \<Rightarrow> goldilocks"
  g_select :: "goldilocks \<Rightarrow> goldilocks \<Rightarrow> goldilocks \<Rightarrow> goldilocks"
  g_and :: "goldilocks \<Rightarrow> goldilocks \<Rightarrow> goldilocks"
  g_or :: "goldilocks \<Rightarrow> goldilocks \<Rightarrow> goldilocks"
  g_not :: "goldilocks \<Rightarrow> goldilocks"
  g_split_le :: "goldilocks \<Rightarrow> nat \<Rightarrow> goldilocks list option"
  g_range_check :: "goldilocks \<Rightarrow> nat \<Rightarrow> bool"
  g_bool_safe :: "goldilocks \<Rightarrow> bool"
  g_connect :: "goldilocks \<Rightarrow> goldilocks \<Rightarrow> bool"
  g_hash :: "goldilocks list \<Rightarrow> felt_digest"

definition felt_of_bool :: "bool \<Rightarrow> goldilocks" where
  "felt_of_bool b = felt_from_u64 (if b then 1 else 0)"

text \<open>
  Documented behaviour of the builder. Arithmetic is the field's; the operations on booleans are specified on
  targets that carry 0 or 1; a split into at most 63 bits has a satisfying assignment exactly when the value
  fits, and then its bits are the value's; \<open>hash_n_to_hash_no_pad_p2\<close> is \<open>hash_to_felts\<close>.
\<close>

definition plonky2_ok :: "circuit_builder \<Rightarrow> note_hash \<Rightarrow> bool" where
  "plonky2_ok pl nh \<longleftrightarrow>
     note_hash_ok nh \<and>
     (\<forall>x y. g_add pl x y = felt_from_u64 (to_canonical_u64 x + to_canonical_u64 y)) \<and>
     (\<forall>x y. g_sub pl x y = felt_from_u64 (to_canonical_u64 x + (GOLDILOCKS_P - to_canonical_u64 y))) \<and>
     (\<forall>x y. g_mul pl x y = felt_from_u64 (to_canonical_u64 x * to_canonical_u64 y)) \<and>
     (\<forall>x y. g_is_equal pl x y = felt_of_bool (x = y)) \<and>
     (\<forall>b x y. g_select pl (felt_of_bool b) x y = (if b then x else y)) \<and>
     (\<forall>a b. g_and pl (felt_of_bool a) (felt_of_bool b) = felt_of_bool (a \<and> b)) \<and>
     (\<forall>a b. g_or pl (felt_of_bool a) (felt_of_bool b) = felt_of_bool (a \<or> b)) \<and>
     (\<forall>a. g_not pl (felt_of_bool a) = felt_of_bool (\<not> a)) \<and>
     (\<forall>x n. n \<le> 63 \<longrightarrow> g_split_le pl x n =
        (if to_canonical_u64 x < 2 ^ n
         then Some (map (\<lambda>i. felt_of_bool (odd (to_canonical_u64 x div 2 ^ i))) [0..<n]) else None)) \<and>
     (\<forall>x n. n \<le> 63 \<longrightarrow> (g_range_check pl x n \<longleftrightarrow> to_canonical_u64 x < 2 ^ n)) \<and>
     (\<forall>x. g_bool_safe pl x \<longleftrightarrow> x = felt_of_bool False \<or> x = felt_of_bool True) \<and>
     (\<forall>x y. g_connect pl x y \<longleftrightarrow> x = y) \<and>
     g_hash pl = hash_to_felts nh"

definition connect_hashes :: "circuit_builder \<Rightarrow> felt_digest \<Rightarrow> felt_digest \<Rightarrow> bool" where
  "connect_hashes pl a b = list_all (\<lambda>i. g_connect pl (a ! i) (b ! i)) [0..<4]"

section \<open>Comparisons\<close>

definition xor_gadget :: "circuit_builder \<Rightarrow> goldilocks \<Rightarrow> goldilocks \<Rightarrow> goldilocks" where
  "xor_gadget pl a b =
     (let a_plus_b = g_add pl a b;
          ab = g_mul pl a b;
          two_ab = g_add pl ab ab
      in g_sub pl a_plus_b two_ab)"

definition assert_comparison_width :: "nat \<Rightarrow> nat \<Rightarrow> bool" where
  "assert_comparison_width left n_log \<longleftrightarrow> 0 < n_log \<and> n_log \<le> 63 \<and> left < 2 ^ n_log"

text \<open>The loop of \<open>const_less_than_bits\<close>, over the bits from the most significant one down.\<close>

fun less_than_loop :: "circuit_builder \<Rightarrow> nat \<Rightarrow> goldilocks list \<Rightarrow> nat \<Rightarrow> goldilocks \<times> goldilocks \<Rightarrow> goldilocks \<times> goldilocks" where
  "less_than_loop pl left right_bits 0 st = st"
| "less_than_loop pl left right_bits (Suc i) (lt, eq) =
     (let a = felt_of_bool (odd (left div 2 ^ i));
          b = right_bits ! i;
          not_a_and_b = g_and pl (g_not pl a) b;
          this_lt = g_and pl not_a_and_b eq;
          not_xor = g_not pl (xor_gadget pl a b)
      in less_than_loop pl left right_bits i (g_or pl lt this_lt, g_and pl eq not_xor))"

definition const_less_than_bits :: "circuit_builder \<Rightarrow> nat \<Rightarrow> goldilocks list \<Rightarrow> goldilocks" where
  "const_less_than_bits pl left right_bits =
     fst (less_than_loop pl left right_bits (length right_bits) (felt_of_bool False, felt_of_bool True))"

definition digests_are_equal :: "circuit_builder \<Rightarrow> felt_digest \<Rightarrow> felt_digest \<Rightarrow> goldilocks" where
  "digests_are_equal pl a b =
     foldl (\<lambda>all_equal i. g_and pl all_equal (g_is_equal pl (a ! i) (b ! i))) (felt_of_bool True) [0..<4]"

section \<open>Note hashes\<close>

definition hash_with_domain_target :: "circuit_builder \<Rightarrow> goldilocks \<Rightarrow> goldilocks list list \<Rightarrow> felt_digest" where
  "hash_with_domain_target pl domain_tag parts = g_hash pl (domain_tag # concat parts)"

definition hash_with_domain :: "circuit_builder \<Rightarrow> goldilocks \<Rightarrow> goldilocks list list \<Rightarrow> felt_digest" where
  "hash_with_domain pl domain_tag parts = hash_with_domain_target pl domain_tag parts"

definition nullifier_domain_tag :: "circuit_builder \<Rightarrow> goldilocks \<Rightarrow> goldilocks" where
  "nullifier_domain_tag pl is_dummy = g_select pl is_dummy domain_NF_DUMMY domain_NF"

definition derive_ak_gadget :: "circuit_builder \<Rightarrow> felt_digest \<Rightarrow> felt_digest" where
  "derive_ak_gadget pl ask = hash_with_domain pl domain_AK [ask]"

definition derive_pk_gadget :: "circuit_builder \<Rightarrow> felt_digest \<Rightarrow> felt_digest \<Rightarrow> felt_digest" where
  "derive_pk_gadget pl ask nk = hash_with_domain pl domain_PK [derive_ak_gadget pl ask, nk]"

definition note_inner_gadget :: "circuit_builder \<Rightarrow> felt_digest \<Rightarrow> felt_digest \<Rightarrow> felt_digest \<Rightarrow> felt_digest" where
  "note_inner_gadget pl pk rho r = hash_with_domain pl domain_NOTE [pk, rho, r]"

definition note_commitment_gadget :: "circuit_builder \<Rightarrow> felt_digest \<Rightarrow> goldilocks \<Rightarrow> felt_digest" where
  "note_commitment_gadget pl inner v = hash_with_domain pl domain_CM [inner, [v]]"

definition output_rho_gadget :: "circuit_builder \<Rightarrow> felt_digest \<Rightarrow> felt_digest \<Rightarrow> nat \<Rightarrow> felt_digest" where
  "output_rho_gadget pl nullifier_1 nullifier_2 index =
     hash_with_domain pl domain_RHO [nullifier_1, nullifier_2, [felt_from_u64 index]]"

definition note_nullifier_tagged :: "circuit_builder \<Rightarrow> goldilocks \<Rightarrow> felt_digest \<Rightarrow> felt_digest \<Rightarrow> felt_digest \<Rightarrow> felt_digest" where
  "note_nullifier_tagged pl domain_tag nk rho r = hash_with_domain_target pl domain_tag [nk, rho, r]"

section \<open>The Merkle path\<close>

definition DEPTH_BITS :: nat where "DEPTH_BITS = 5"
definition SIBLINGS_PER_LEVEL :: nat where "SIBLINGS_PER_LEVEL = 3"

record path_targets =
  pt_siblings :: "felt_digest list list"
  pt_positions :: "goldilocks list"

definition active_level_flags_from_bits :: "circuit_builder \<Rightarrow> goldilocks list \<Rightarrow> goldilocks list" where
  "active_level_flags_from_bits pl depth_bits =
     map (\<lambda>level. const_less_than_bits pl level depth_bits) [0..<MAX_TREE_DEPTH]"

text \<open>Limb \<open>limb\<close> of child \<open>slot\<close>: the running hash at its position among the siblings.\<close>

definition child_limb ::
  "circuit_builder \<Rightarrow> goldilocks \<Rightarrow> felt_digest \<Rightarrow> felt_digest list \<Rightarrow> nat \<Rightarrow> nat \<Rightarrow> goldilocks" where
  "child_limb pl position current siblings slot limb =
     (let at_0 = g_is_equal pl position (felt_from_u64 0);
          at_1 = g_is_equal pl position (felt_from_u64 1);
          at_2 = g_is_equal pl position (felt_from_u64 2);
          at_3 = g_is_equal pl position (felt_from_u64 3)
      in if slot = 0 then g_select pl at_0 (current ! limb) (siblings ! 0 ! limb)
         else if slot = 1 then
           g_select pl at_1 (current ! limb) (g_select pl at_0 (siblings ! 0 ! limb) (siblings ! 1 ! limb))
         else if slot = 2 then
           g_select pl at_2 (current ! limb) (g_select pl (g_or pl at_0 at_1) (siblings ! 1 ! limb) (siblings ! 2 ! limb))
         else g_select pl at_3 (current ! limb) (siblings ! 2 ! limb))"

text \<open>One level: the range check of the position, and the next running hash.\<close>

definition path_level ::
  "circuit_builder \<Rightarrow> goldilocks \<Rightarrow> goldilocks \<Rightarrow> felt_digest list \<Rightarrow> felt_digest \<Rightarrow> felt_digest \<times> bool" where
  "path_level pl is_active position siblings current =
     (let preimage = concat (map (\<lambda>slot. map (child_limb pl position current siblings slot) [0..<4]) [0..<4]);
          parent = g_hash pl preimage
      in (map (\<lambda>limb. g_select pl is_active (parent ! limb) (current ! limb)) [0..<4], g_range_check pl position 2))"

fun path_levels ::
  "circuit_builder \<Rightarrow> goldilocks list \<Rightarrow> path_targets \<Rightarrow> nat list \<Rightarrow> felt_digest \<Rightarrow> felt_digest \<times> bool" where
  "path_levels pl active path [] current = (current, True)"
| "path_levels pl active path (level # levels) current =
     (let (current1, ok1) = path_level pl (active ! level) (pt_positions path ! level) (pt_siblings path ! level) current;
          (current2, ok2) = path_levels pl active path levels current1
      in (current2, ok1 \<and> ok2))"

definition merkle_root_from_path ::
  "circuit_builder \<Rightarrow> felt_digest \<Rightarrow> path_targets \<Rightarrow> goldilocks list \<Rightarrow> felt_digest \<times> bool" where
  "merkle_root_from_path pl leaf_hash path active_levels =
     path_levels pl active_levels path [0..<length active_levels] leaf_hash"

section \<open>Field elements and booleans\<close>

lemma plonky2_okD:
  assumes "plonky2_ok pl nh"
  shows "note_hash_ok nh"
    "g_add pl x y = felt_from_u64 (to_canonical_u64 x + to_canonical_u64 y)"
    "g_sub pl x y = felt_from_u64 (to_canonical_u64 x + (GOLDILOCKS_P - to_canonical_u64 y))"
    "g_mul pl x y = felt_from_u64 (to_canonical_u64 x * to_canonical_u64 y)"
    "g_is_equal pl x y = felt_of_bool (x = y)"
    "g_select pl (felt_of_bool b) x y = (if b then x else y)"
    "g_and pl (felt_of_bool a) (felt_of_bool b) = felt_of_bool (a \<and> b)"
    "g_or pl (felt_of_bool a) (felt_of_bool b) = felt_of_bool (a \<or> b)"
    "g_not pl (felt_of_bool a) = felt_of_bool (\<not> a)"
    "n \<le> 63 \<Longrightarrow> g_split_le pl x n =
        (if to_canonical_u64 x < 2 ^ n
         then Some (map (\<lambda>i. felt_of_bool (odd (to_canonical_u64 x div 2 ^ i))) [0..<n]) else None)"
    "n \<le> 63 \<Longrightarrow> g_range_check pl x n \<longleftrightarrow> to_canonical_u64 x < 2 ^ n"
    "g_bool_safe pl x \<longleftrightarrow> x = felt_of_bool False \<or> x = felt_of_bool True"
    "g_connect pl x y \<longleftrightarrow> x = y"
    "g_hash pl = hash_to_felts nh"
  using assms by (simp_all add: plonky2_ok_def)

lemma canonical_felt_of_bool [simp]: "to_canonical_u64 (felt_of_bool b) = (if b then 1 else 0)"
  by (simp add: felt_of_bool_def GOLDILOCKS_P_def)

lemma felt_of_bool_inject [simp]: "felt_of_bool a = felt_of_bool b \<longleftrightarrow> a = b"
  by (auto simp: felt_eq_iff)

lemma felt_of_bool_zero: "felt_from_u64 0 = felt_of_bool False" and felt_of_bool_one: "felt_from_u64 (Suc 0) = felt_of_bool True"
  by (simp_all add: felt_of_bool_def)

lemma nth_digest_eq: "length a = 4 \<Longrightarrow> length b = 4 \<Longrightarrow> (\<forall>i\<in>{0..<4}. a ! i = b ! i) \<longleftrightarrow> a = b"
  by (auto simp: list_eq_iff_nth_eq)

lemma connect_hashes_iff:
  "plonky2_ok pl nh \<Longrightarrow> length a = 4 \<Longrightarrow> length b = 4 \<Longrightarrow> connect_hashes pl a b \<longleftrightarrow> a = b"
  using nth_digest_eq [of a b] by (simp add: connect_hashes_def list_all_iff plonky2_okD(13))

section \<open>What the comparisons compute\<close>

lemma xor_gadget_bool: "plonky2_ok pl nh \<Longrightarrow> xor_gadget pl (felt_of_bool a) (felt_of_bool b) = felt_of_bool (a \<noteq> b)"
  by (cases a; cases b) (simp_all add: xor_gadget_def Let_def plonky2_okD(2,3,4) felt_eq_iff GOLDILOCKS_P_def)

lemma half_less_iff: "L < (N :: nat) \<longleftrightarrow> L div 2 < N div 2 \<or> (even L \<and> odd N \<and> L div 2 = N div 2)"
  by presburger

lemma half_eq_iff: "L = (N :: nat) \<longleftrightarrow> L div 2 = N div 2 \<and> (odd L \<longleftrightarrow> odd N)"
  by presburger

lemma less_than_loop_correct:
  assumes "plonky2_ok pl nh" "\<And>j. j < i \<Longrightarrow> bits ! j = felt_of_bool (odd (n div 2 ^ j))"
  shows "less_than_loop pl left bits i (felt_of_bool (left div 2 ^ i < n div 2 ^ i), felt_of_bool (left div 2 ^ i = n div 2 ^ i))
    = (felt_of_bool (left < n), felt_of_bool (left = n))"
  using assms(2)
proof (induction i)
  case 0
  then show ?case by simp
next
  case (Suc i)
  let ?L = "left div 2 ^ i" and ?N = "n div 2 ^ i"
  have half: "left div 2 ^ Suc i = ?L div 2" "n div 2 ^ Suc i = ?N div 2"
    by (simp_all only: power_Suc2 div_mult2_eq)
  have b: "bits ! i = felt_of_bool (odd ?N)" using Suc.prems by simp
  have lt: "(?L div 2 < ?N div 2 \<or> (even ?L \<and> odd ?N) \<and> ?L div 2 = ?N div 2) \<longleftrightarrow> ?L < ?N"
    using half_less_iff [of ?L ?N] by blast
  have eq: "(?L div 2 = ?N div 2 \<and> odd ?L = odd ?N) \<longleftrightarrow> ?L = ?N"
    using half_eq_iff [of ?L ?N] by blast
  show ?case
    using Suc.IH Suc.prems lt eq
    by (simp add: half b Let_def plonky2_okD(7,8,9) [OF assms(1)] xor_gadget_bool [OF assms(1)] del: power_Suc)
qed

lemma const_less_than_bits_correct:
  assumes "plonky2_ok pl nh" "left < 2 ^ k" "n < 2 ^ k"
  shows "const_less_than_bits pl left (map (\<lambda>i. felt_of_bool (odd (n div 2 ^ i))) [0..<k]) = felt_of_bool (left < n)"
proof -
  have "left div 2 ^ k = 0" "n div 2 ^ k = 0" using assms(2,3) by simp_all
  then show ?thesis
    using less_than_loop_correct [OF assms(1), of k "map (\<lambda>i. felt_of_bool (odd (n div 2 ^ i))) [0..<k]" n left]
    by (simp add: const_less_than_bits_def)
qed

lemma digests_are_equal_correct:
  assumes "plonky2_ok pl nh" "length a = 4" "length b = 4"
  shows "digests_are_equal pl a b = felt_of_bool (a = b)"
proof -
  have "foldl (\<lambda>all_equal i. g_and pl all_equal (g_is_equal pl (a ! i) (b ! i))) (felt_of_bool c) is
      = felt_of_bool (c \<and> (\<forall>i\<in>set is. a ! i = b ! i))" for c "is"
    by (induction "is" arbitrary: c) (simp_all add: plonky2_okD(5,7) [OF assms(1)])
  from this [of True "[0..<4]"] show ?thesis
    using nth_digest_eq [OF assms(2,3)] by (simp add: digests_are_equal_def)
qed

section \<open>What the note gadgets compute\<close>

lemma note_gadgets:
  assumes "plonky2_ok pl nh"
  shows "derive_ak_gadget pl ask = derive_ak nh ask"
    "derive_pk_gadget pl ask nk = derive_pk nh ask nk"
    "note_inner_gadget pl pk rho r = note_inner nh pk rho r"
    "note_commitment_gadget pl inner v = commitment_from_inner nh inner (to_canonical_u64 v)"
    "output_rho_gadget pl nf_1 nf_2 i = output_rho nh nf_1 nf_2 i"
    "note_nullifier_tagged pl (nullifier_domain_tag pl (felt_of_bool dummy)) nk rho r
       = (if dummy then dummy_nullifier nh nk rho r else nullifier nh nk rho r)"
  by (simp_all add: derive_ak_gadget_def derive_pk_gadget_def note_inner_gadget_def note_commitment_gadget_def output_rho_gadget_def
      note_nullifier_tagged_def nullifier_domain_tag_def hash_with_domain_def hash_with_domain_target_def plonky2_okD(6,14) [OF assms]
      derive_ak_def derive_pk_def note_inner_def commitment_from_inner_def output_rho_def nullifier_def dummy_nullifier_def hash_felts_def)

section \<open>What the walk computes\<close>

text \<open>The running hash inserted at its position, and the hashes of a list of levels.\<close>

definition insert_child :: "nat \<Rightarrow> felt_digest \<Rightarrow> felt_digest list \<Rightarrow> felt_digest list" where
  "insert_child position current siblings = take position siblings @ current # drop position siblings"

fun path_root :: "note_hash \<Rightarrow> (nat \<times> felt_digest list) list \<Rightarrow> felt_digest \<Rightarrow> felt_digest" where
  "path_root nh [] current = current"
| "path_root nh ((position, siblings) # levels) current =
     path_root nh levels (hash_to_felts nh (concat (insert_child position current siblings)))"

definition siblings_ok :: "felt_digest list \<Rightarrow> bool" where
  "siblings_ok siblings \<longleftrightarrow> length siblings = 3 \<and> list_all (\<lambda>d. length d = 4) siblings"

lemma siblings_okE:
  assumes "siblings_ok siblings"
  obtains a b c where "siblings = [a, b, c]" "length a = 4" "length b = 4" "length c = 4"
  using assms unfolding siblings_ok_def by (auto simp: numeral_eq_Suc length_Suc_conv)

lemma map_nth_digest: "length d = 4 \<Longrightarrow> map (\<lambda>i. d ! i) [0..<4] = d"
  by (rule nth_equalityI) simp_all

lemma child_limbs:
  assumes "plonky2_ok pl nh" "siblings_ok siblings" "length current = 4" "to_canonical_u64 position < 4" "slot < 4"
  shows "map (child_limb pl position current siblings slot) [0..<4]
    = insert_child (to_canonical_u64 position) current siblings ! slot"
proof -
  obtain a b c where s: "siblings = [a, b, c]" "length a = 4" "length b = 4" "length c = 4"
    using assms(2) by (rule siblings_okE)
  have p: "position = felt_from_u64 (to_canonical_u64 position)" by simp
  have "to_canonical_u64 position = 0 \<or> to_canonical_u64 position = 1 \<or> to_canonical_u64 position = 2 \<or> to_canonical_u64 position = 3"
    using assms(4) by linarith
  moreover have "slot = 0 \<or> slot = 1 \<or> slot = 2 \<or> slot = 3" using assms(5) by linarith
  ultimately show ?thesis
    using map_nth_digest [OF assms(3)] map_nth_digest [OF s(2)] map_nth_digest [OF s(3)] map_nth_digest [OF s(4)]
    by (elim disjE) (simp_all add: child_limb_def [abs_def] Let_def insert_child_def s(1) felt_eq_iff GOLDILOCKS_P_def
        plonky2_okD(5,6,8) [OF assms(1)])
qed

lemma path_level_correct:
  assumes "plonky2_ok pl nh" "siblings_ok siblings" "length current = 4"
  shows "snd (path_level pl (felt_of_bool active) position siblings current) \<longleftrightarrow> to_canonical_u64 position < 4"
    and "to_canonical_u64 position < 4 \<Longrightarrow> fst (path_level pl (felt_of_bool active) position siblings current)
      = (if active then hash_to_felts nh (concat (insert_child (to_canonical_u64 position) current siblings)) else current)"
proof -
  show "snd (path_level pl (felt_of_bool active) position siblings current) \<longleftrightarrow> to_canonical_u64 position < 4"
    by (simp add: path_level_def Let_def plonky2_okD(11) [OF assms(1)])
  assume p: "to_canonical_u64 position < 4"
  let ?ch = "insert_child (to_canonical_u64 position) current siblings"
  have len: "length ?ch = 4" using assms(2) p by (simp add: insert_child_def siblings_ok_def)
  have "map (\<lambda>slot. map (child_limb pl position current siblings slot) [0..<4]) [0..<4] = map (\<lambda>slot. ?ch ! slot) [0..<4]"
    using child_limbs [OF assms p] by simp
  then have children: "map (\<lambda>slot. map (child_limb pl position current siblings slot) [0..<4]) [0..<4] = ?ch"
    using map_nth_digest [OF len] by simp
  have "length (hash_to_felts nh (concat ?ch)) = 4" using plonky2_okD(1) [OF assms(1)] by (simp add: note_hash_okD)
  then show "fst (path_level pl (felt_of_bool active) position siblings current) = (if active then hash_to_felts nh (concat ?ch) else current)"
    using assms(3) unfolding path_level_def Let_def children
    by (simp add: plonky2_okD(6,14) [OF assms(1)] map_nth_digest)
qed

lemma path_levels_inactive:
  assumes "plonky2_ok pl nh" "\<forall>l\<in>set levels. siblings_ok (pt_siblings path ! l) \<and> active ! l = felt_of_bool False" "length current = 4"
  shows "snd (path_levels pl active path levels current) \<longleftrightarrow> (\<forall>l\<in>set levels. to_canonical_u64 (pt_positions path ! l) < 4)"
    and "snd (path_levels pl active path levels current) \<Longrightarrow> fst (path_levels pl active path levels current) = current"
proof -
  have "(snd (path_levels pl active path levels current) \<longleftrightarrow> (\<forall>l\<in>set levels. to_canonical_u64 (pt_positions path ! l) < 4))
    \<and> (snd (path_levels pl active path levels current) \<longrightarrow> fst (path_levels pl active path levels current) = current)"
    using assms(2)
  proof (induction levels)
    case Nil
    then show ?case by simp
  next
    case (Cons l levels)
    then have l: "siblings_ok (pt_siblings path ! l)" "active ! l = felt_of_bool False" by simp_all
    note step = path_level_correct [OF assms(1) l(1) assms(3), where active = False and position = "pt_positions path ! l"]
    show ?case using Cons step by (auto simp: l(2) split: prod.splits)
  qed
  then show "snd (path_levels pl active path levels current) \<longleftrightarrow> (\<forall>l\<in>set levels. to_canonical_u64 (pt_positions path ! l) < 4)"
    and "snd (path_levels pl active path levels current) \<Longrightarrow> fst (path_levels pl active path levels current) = current"
    by blast+
qed

lemma length_path_level: "length (fst (path_level pl active position siblings current)) = 4"
  by (simp add: path_level_def Let_def)

lemma length_path_levels: "length current = 4 \<Longrightarrow> length (fst (path_levels pl active path levels current)) = 4"
  by (induction levels arbitrary: current) (auto simp: length_path_level split: prod.splits dest!: arg_cong [where f = fst])

lemma path_levels_append:
  "path_levels pl active path (xs @ ys) current =
     (let (c1, o1) = path_levels pl active path xs current; (c2, o2) = path_levels pl active path ys c1 in (c2, o1 \<and> o2))"
  by (induction xs arbitrary: current) (auto simp: Let_def split: prod.splits)

lemma path_levels_active:
  assumes "plonky2_ok pl nh" "\<forall>l\<in>set levels. siblings_ok (pt_siblings path ! l) \<and> active ! l = felt_of_bool True" "length current = 4"
  shows "(snd (path_levels pl active path levels current) \<longleftrightarrow> (\<forall>l\<in>set levels. to_canonical_u64 (pt_positions path ! l) < 4))
    \<and> (snd (path_levels pl active path levels current) \<longrightarrow>
        fst (path_levels pl active path levels current)
          = path_root nh (map (\<lambda>l. (to_canonical_u64 (pt_positions path ! l), pt_siblings path ! l)) levels) current)"
  using assms(2,3)
proof (induction levels arbitrary: current)
  case Nil
  then show ?case by simp
next
  case (Cons l levels)
  then have l: "siblings_ok (pt_siblings path ! l)" "active ! l = felt_of_bool True" by simp_all
  let ?step = "path_level pl (active ! l) (pt_positions path ! l) (pt_siblings path ! l) current"
  note step = path_level_correct [OF assms(1) l(1) Cons.prems(2), where active = True and position = "pt_positions path ! l", folded l(2)]
  have ih: "(snd (path_levels pl active path levels (fst ?step)) \<longleftrightarrow> (\<forall>l\<in>set levels. to_canonical_u64 (pt_positions path ! l) < 4))
    \<and> (snd (path_levels pl active path levels (fst ?step)) \<longrightarrow> fst (path_levels pl active path levels (fst ?step))
         = path_root nh (map (\<lambda>l. (to_canonical_u64 (pt_positions path ! l), pt_siblings path ! l)) levels) (fst ?step))"
    using Cons.prems by (intro Cons.IH length_path_level) simp
  show ?case using ih step by (auto split: prod.splits)
qed

text \<open>The path of an assignment as the levels a reader of the off-circuit code sees.\<close>

definition path_shape :: "path_targets \<Rightarrow> bool" where
  "path_shape path \<longleftrightarrow> length (pt_siblings path) = MAX_TREE_DEPTH \<and> length (pt_positions path) = MAX_TREE_DEPTH
     \<and> list_all siblings_ok (pt_siblings path)"

definition path_of :: "path_targets \<Rightarrow> (nat \<times> felt_digest list) list" where
  "path_of path = zip (map to_canonical_u64 (pt_positions path)) (pt_siblings path)"

lemma path_of_upt:
  assumes "path_shape path" "d \<le> MAX_TREE_DEPTH"
  shows "map (\<lambda>l. (to_canonical_u64 (pt_positions path ! l), pt_siblings path ! l)) [0..<d] = take d (path_of path)"
  using assms by (intro nth_equalityI) (simp_all add: path_of_def path_shape_def)

lemma merkle_root_from_path_correct:
  assumes "plonky2_ok pl nh" "path_shape path" "length leaf = 4" "d \<le> MAX_TREE_DEPTH"
    and "active = map (\<lambda>l. felt_of_bool (l < d)) [0..<MAX_TREE_DEPTH]"
  shows "(snd (merkle_root_from_path pl leaf path active) \<longleftrightarrow> (\<forall>p\<in>set (pt_positions path). to_canonical_u64 p < 4))
    \<and> (snd (merkle_root_from_path pl leaf path active) \<longrightarrow>
        fst (merkle_root_from_path pl leaf path active) = path_root nh (take d (path_of path)) leaf)"
proof -
  have split: "[0..<MAX_TREE_DEPTH] = [0..<d] @ [d..<MAX_TREE_DEPTH]" using upt_add_eq_append [of 0 d "MAX_TREE_DEPTH - d"] assms(4) by simp
  have sib: "l < MAX_TREE_DEPTH \<Longrightarrow> siblings_ok (pt_siblings path ! l)" for l
    using assms(2) by (simp add: path_shape_def list_all_length)
  let ?low = "path_levels pl active path [0..<d] leaf"
  have low: "(snd ?low \<longleftrightarrow> (\<forall>l\<in>set [0..<d]. to_canonical_u64 (pt_positions path ! l) < 4))
    \<and> (snd ?low \<longrightarrow> fst ?low = path_root nh (take d (path_of path)) leaf)"
    using sib assms(3,4,5) unfolding path_of_upt [OF assms(2,4), symmetric] by (intro path_levels_active [OF assms(1)]) simp_all
  let ?high = "path_levels pl active path [d..<MAX_TREE_DEPTH] (fst ?low)"
  have len: "length (fst ?low) = 4" by (rule length_path_levels [OF assms(3)])
  have act: "\<forall>l\<in>set [d..<MAX_TREE_DEPTH]. siblings_ok (pt_siblings path ! l) \<and> active ! l = felt_of_bool False"
    using sib assms(5) by simp
  note high = path_levels_inactive [OF assms(1) act len]
  have all: "(\<forall>p\<in>set (pt_positions path). to_canonical_u64 p < 4) \<longleftrightarrow>
      (\<forall>l\<in>set [0..<d] \<union> set [d..<MAX_TREE_DEPTH]. to_canonical_u64 (pt_positions path ! l) < 4)"
    using assms(2,4) by (auto simp: all_set_conv_all_nth path_shape_def)
  have "merkle_root_from_path pl leaf path active = (fst ?high, snd ?low \<and> snd ?high)"
  proof -
    have "length active = MAX_TREE_DEPTH" using assms(5) by simp
    then have "merkle_root_from_path pl leaf path active = path_levels pl active path ([0..<d] @ [d..<MAX_TREE_DEPTH]) leaf"
      unfolding merkle_root_from_path_def by (simp only: split)
    then show ?thesis by (simp add: path_levels_append split: prod.splits)
  qed
  then show ?thesis using low high all by auto
qed

lemma active_level_flags_correct:
  assumes "plonky2_ok pl nh" "n < 2 ^ DEPTH_BITS"
  shows "active_level_flags_from_bits pl (map (\<lambda>i. felt_of_bool (odd (n div 2 ^ i))) [0..<DEPTH_BITS])
    = map (\<lambda>l. felt_of_bool (l < n)) [0..<MAX_TREE_DEPTH]"
  using assms by (auto simp: active_level_flags_from_bits_def MAX_TREE_DEPTH_def DEPTH_BITS_def intro!: const_less_than_bits_correct)

section \<open>A concrete builder\<close>

definition plonky2_std :: "note_hash \<Rightarrow> circuit_builder" where
  "plonky2_std nh =
     \<lparr>g_add = (\<lambda>x y. felt_from_u64 (to_canonical_u64 x + to_canonical_u64 y)),
      g_sub = (\<lambda>x y. felt_from_u64 (to_canonical_u64 x + (GOLDILOCKS_P - to_canonical_u64 y))),
      g_mul = (\<lambda>x y. felt_from_u64 (to_canonical_u64 x * to_canonical_u64 y)),
      g_is_equal = (\<lambda>x y. felt_of_bool (x = y)),
      g_select = (\<lambda>b x y. if b = felt_of_bool True then x else y),
      g_and = (\<lambda>a b. felt_of_bool (a = felt_of_bool True \<and> b = felt_of_bool True)),
      g_or = (\<lambda>a b. felt_of_bool (a = felt_of_bool True \<or> b = felt_of_bool True)),
      g_not = (\<lambda>a. felt_of_bool (a \<noteq> felt_of_bool True)),
      g_split_le = (\<lambda>x n. if to_canonical_u64 x < 2 ^ n
         then Some (map (\<lambda>i. felt_of_bool (odd (to_canonical_u64 x div 2 ^ i))) [0..<n]) else None),
      g_range_check = (\<lambda>x n. to_canonical_u64 x < 2 ^ n),
      g_bool_safe = (\<lambda>x. x = felt_of_bool False \<or> x = felt_of_bool True),
      g_connect = (=),
      g_hash = hash_to_felts nh\<rparr>"

lemma plonky2_std_ok: "note_hash_ok nh \<Longrightarrow> plonky2_ok (plonky2_std nh) nh"
  by (simp add: plonky2_ok_def plonky2_std_def)

end
