(* ===== verification/SpendCircuit.thy ===== *)
theory SpendCircuit
  imports Gadgets
begin

text \<open>
  The spend leaf, \<open>crates/qnero-circuit/src\<close>: every constraint of \<open>circuit.rs\<close> with the header
  fragment of \<open>header.rs\<close> and the padding flag of \<open>padding.rs\<close>, and the public inputs in the
  order of \<open>layout.rs\<close>.

  An assignment of the circuit's targets is a record with the source's fields. The lemmas show that an
  assignment satisfies every constraint exactly when it is a transfer in the plain sense, stated on integers
  and on the hash rules of \<open>qnero-note-core\<close>.
\<close>

section \<open>Targets\<close>

definition DIGEST_LOGS_FELTS :: nat where "DIGEST_LOGS_FELTS = 28"

record header_targets =
  ht_parent_hash :: felt_digest
  ht_block_number :: goldilocks
  ht_state_root :: felt_digest
  ht_extrinsics_root :: felt_digest
  ht_zk_tree_root :: felt_digest
  ht_digest :: "goldilocks list"

record input_targets =
  in_ask :: felt_digest
  in_nk :: felt_digest
  in_rho :: felt_digest
  in_r :: felt_digest
  in_value :: goldilocks
  in_path :: path_targets
  in_is_dummy :: goldilocks

record output_targets =
  out_pk :: felt_digest
  out_r :: felt_digest
  out_value :: goldilocks

record spend_targets =
  t_block_hash :: felt_digest
  t_block_number :: goldilocks
  t_nullifiers :: "felt_digest list"
  t_commitments :: "felt_digest list"
  t_fee :: goldilocks
  t_ct_digest :: felt_digest
  t_header :: header_targets
  t_depth :: goldilocks
  t_inputs :: "input_targets list"
  t_outputs :: "output_targets list"

text \<open>The public inputs in the order they are registered.\<close>

definition leaf_public_inputs :: "spend_targets \<Rightarrow> goldilocks list" where
  "leaf_public_inputs t =
     t_block_hash t @ [t_block_number t] @ concat (t_nullifiers t) @ concat (t_commitments t) @ [t_fee t] @ t_ct_digest t"

section \<open>Constraints\<close>

definition header_targets_preimage :: "header_targets \<Rightarrow> goldilocks list" where
  "header_targets_preimage h =
     ht_parent_hash h @ [ht_block_number h] @ ht_state_root h @ ht_extrinsics_root h @ ht_zk_tree_root h @ ht_digest h"

definition constrain_header :: "circuit_builder \<Rightarrow> felt_digest \<Rightarrow> header_targets \<Rightarrow> bool" where
  "constrain_header pl block_hash h \<longleftrightarrow>
     g_range_check pl (ht_block_number h) 32 \<and>
     connect_hashes pl block_hash (g_hash pl (header_targets_preimage h))"

definition padding_block_hash_target :: "felt_digest" where
  "padding_block_hash_target = map felt_from_u64 PADDING_BLOCK_HASH"

definition is_padding_block_hash :: "circuit_builder \<Rightarrow> felt_digest \<Rightarrow> goldilocks" where
  "is_padding_block_hash pl block_hash = digests_are_equal pl block_hash padding_block_hash_target"

text \<open>One input note: constraints 3 and 4, with the boolean check its target is created with.\<close>

definition input_constraints :: "circuit_builder \<Rightarrow> goldilocks list \<Rightarrow> felt_digest \<Rightarrow> felt_digest \<Rightarrow> input_targets \<Rightarrow> bool" where
  "input_constraints pl active_levels zk_tree_root published input \<longleftrightarrow>
     g_bool_safe pl (in_is_dummy input) \<and>
     g_range_check pl (in_value input) NOTE_VALUE_BITS \<and>
     g_connect pl (g_mul pl (in_value input) (in_is_dummy input)) (felt_from_u64 0) \<and>
     (let pk = derive_pk_gadget pl (in_ask input) (in_nk input);
          inner = note_inner_gadget pl pk (in_rho input) (in_r input);
          cm = note_commitment_gadget pl inner (in_value input);
          (root, path_ok) = merkle_root_from_path pl cm (in_path input) active_levels;
          is_real = g_not pl (in_is_dummy input);
          tag = nullifier_domain_tag pl (in_is_dummy input)
      in path_ok \<and>
         list_all (\<lambda>limb. g_connect pl (g_mul pl (g_sub pl (root ! limb) (zk_tree_root ! limb)) is_real) (felt_from_u64 0)) [0..<4] \<and>
         connect_hashes pl (note_nullifier_tagged pl tag (in_nk input) (in_rho input) (in_r input)) published)"

text \<open>One output note: constraint 6.\<close>

definition output_constraints :: "circuit_builder \<Rightarrow> felt_digest list \<Rightarrow> felt_digest \<Rightarrow> nat \<Rightarrow> output_targets \<Rightarrow> bool" where
  "output_constraints pl nullifiers published index out \<longleftrightarrow>
     g_range_check pl (out_value out) NOTE_VALUE_BITS \<and>
     (let rho = output_rho_gadget pl (nullifiers ! 0) (nullifiers ! 1) index;
          inner = note_inner_gadget pl (out_pk out) rho (out_r out)
      in connect_hashes pl (note_commitment_gadget pl inner (out_value out)) published)"

definition circuit_sum :: "circuit_builder \<Rightarrow> goldilocks list \<Rightarrow> goldilocks" where
  "circuit_sum pl terms = foldl (g_add pl) (hd terms) (tl terms)"

definition build_constraints :: "circuit_builder \<Rightarrow> spend_targets \<Rightarrow> bool" where
  "build_constraints pl t \<longleftrightarrow>
     constrain_header pl (t_block_hash t) (t_header t) \<and>
     (case g_split_le pl (t_depth t) DEPTH_BITS of
        None \<Rightarrow> False
      | Some depth_bits \<Rightarrow>
          g_connect pl (const_less_than_bits pl MAX_TREE_DEPTH depth_bits) (felt_from_u64 0) \<and>
          (let active_levels = active_level_flags_from_bits pl depth_bits
           in list_all (\<lambda>index. input_constraints pl active_levels (ht_zk_tree_root (t_header t))
                                  (t_nullifiers t ! index) (t_inputs t ! index)) [0..<NUM_INPUTS])) \<and>
     g_connect pl (digests_are_equal pl (t_nullifiers t ! 0) (t_nullifiers t ! 1)) (felt_from_u64 0) \<and>
     (let is_real_leaf = g_not pl (is_padding_block_hash pl (t_block_hash t));
          all_dummy = foldl (g_mul pl) (in_is_dummy (t_inputs t ! 0)) (map in_is_dummy (tl (t_inputs t)))
      in g_connect pl (g_mul pl all_dummy is_real_leaf) (felt_from_u64 0)) \<and>
     list_all (\<lambda>index. output_constraints pl (t_nullifiers t) (t_commitments t ! index) index (t_outputs t ! index)) [0..<NUM_OUTPUTS] \<and>
     g_range_check pl (t_fee t) NOTE_VALUE_BITS \<and>
     (let total_in = circuit_sum pl (map in_value (t_inputs t));
          total_out = circuit_sum pl (map out_value (t_outputs t) @ [t_fee t])
      in g_connect pl total_in total_out)"

section \<open>The statement\<close>

text \<open>The shape the target types give every assignment: fixed array lengths, one target for the block number.\<close>

definition input_shape :: "input_targets \<Rightarrow> bool" where
  "input_shape i \<longleftrightarrow> length (in_ask i) = 4 \<and> length (in_nk i) = 4 \<and> length (in_rho i) = 4 \<and> length (in_r i) = 4 \<and> path_shape (in_path i)"

definition output_shape :: "output_targets \<Rightarrow> bool" where
  "output_shape out \<longleftrightarrow> length (out_pk out) = 4 \<and> length (out_r out) = 4"

definition header_shape :: "header_targets \<Rightarrow> bool" where
  "header_shape h \<longleftrightarrow> length (ht_parent_hash h) = 4 \<and> length (ht_state_root h) = 4 \<and> length (ht_extrinsics_root h) = 4
     \<and> length (ht_zk_tree_root h) = 4 \<and> length (ht_digest h) = DIGEST_LOGS_FELTS"

definition targets_shape :: "spend_targets \<Rightarrow> bool" where
  "targets_shape t \<longleftrightarrow>
     length (t_block_hash t) = 4 \<and> length (t_ct_digest t) = 4 \<and>
     length (t_nullifiers t) = NUM_INPUTS \<and> list_all (\<lambda>d. length d = 4) (t_nullifiers t) \<and>
     length (t_commitments t) = NUM_OUTPUTS \<and> list_all (\<lambda>d. length d = 4) (t_commitments t) \<and>
     header_shape (t_header t) \<and> ht_block_number (t_header t) = t_block_number t \<and>
     length (t_inputs t) = NUM_INPUTS \<and> list_all input_shape (t_inputs t) \<and>
     length (t_outputs t) = NUM_OUTPUTS \<and> list_all output_shape (t_outputs t)"

text \<open>
  A transfer in the plain sense. A real input is a note the prover can open, under a path of \<open>depth\<close>
  levels to the root; a dummy input is worth nothing; both publish their nullifier.
\<close>

definition input_commitment :: "note_hash \<Rightarrow> input_targets \<Rightarrow> felt_digest" where
  "input_commitment nh i =
     commitment_from_inner nh (note_inner nh (derive_pk nh (in_ask i) (in_nk i)) (in_rho i) (in_r i)) (to_canonical_u64 (in_value i))"

definition input_nullifier :: "note_hash \<Rightarrow> bool \<Rightarrow> input_targets \<Rightarrow> felt_digest" where
  "input_nullifier nh dummy i =
     (if dummy then dummy_nullifier nh (in_nk i) (in_rho i) (in_r i) else nullifier nh (in_nk i) (in_rho i) (in_r i))"

definition input_statement :: "note_hash \<Rightarrow> nat \<Rightarrow> felt_digest \<Rightarrow> felt_digest \<Rightarrow> input_targets \<Rightarrow> bool" where
  "input_statement nh depth zk_tree_root published i \<longleftrightarrow>
     (\<exists>dummy. in_is_dummy i = felt_of_bool dummy \<and>
        (if dummy then to_canonical_u64 (in_value i) = 0
         else path_root nh (take depth (path_of (in_path i))) (input_commitment nh i) = zk_tree_root) \<and>
        published = input_nullifier nh dummy i) \<and>
     to_canonical_u64 (in_value i) \<le> NOTE_MAX_VALUE \<and>
     (\<forall>p\<in>set (pt_positions (in_path i)). to_canonical_u64 p < 4)"

definition output_statement :: "note_hash \<Rightarrow> felt_digest list \<Rightarrow> felt_digest \<Rightarrow> nat \<Rightarrow> output_targets \<Rightarrow> bool" where
  "output_statement nh nullifiers published index out \<longleftrightarrow>
     to_canonical_u64 (out_value out) \<le> NOTE_MAX_VALUE \<and>
     published = commitment_from_inner nh
       (note_inner nh (out_pk out) (output_rho nh (nullifiers ! 0) (nullifiers ! 1) index) (out_r out)) (to_canonical_u64 (out_value out))"

definition leaf_statement :: "note_hash \<Rightarrow> spend_targets \<Rightarrow> bool" where
  "leaf_statement nh t \<longleftrightarrow>
     to_canonical_u64 (t_block_number t) < 2 ^ 32 \<and>
     t_block_hash t = hash_to_felts nh (header_targets_preimage (t_header t)) \<and>
     to_canonical_u64 (t_depth t) \<le> MAX_TREE_DEPTH \<and>
     (\<forall>k < NUM_INPUTS. input_statement nh (to_canonical_u64 (t_depth t)) (ht_zk_tree_root (t_header t))
        (t_nullifiers t ! k) (t_inputs t ! k)) \<and>
     t_nullifiers t ! 0 \<noteq> t_nullifiers t ! 1 \<and>
     ((\<forall>k < NUM_INPUTS. in_is_dummy (t_inputs t ! k) = felt_of_bool True) \<longrightarrow> t_block_hash t = map felt_from_u64 PADDING_BLOCK_HASH) \<and>
     (\<forall>k < NUM_OUTPUTS. output_statement nh (t_nullifiers t) (t_commitments t ! k) k (t_outputs t ! k)) \<and>
     to_canonical_u64 (t_fee t) \<le> NOTE_MAX_VALUE \<and>
     sum_list (map (to_canonical_u64 \<circ> in_value) (t_inputs t))
       = sum_list (map (to_canonical_u64 \<circ> out_value) (t_outputs t)) + to_canonical_u64 (t_fee t)"

section \<open>The constraints are the statement\<close>

lemma value_range:
  "plonky2_ok pl nh \<Longrightarrow> g_range_check pl x NOTE_VALUE_BITS \<longleftrightarrow> to_canonical_u64 x \<le> NOTE_MAX_VALUE"
  by (auto simp: plonky2_okD(11) NOTE_VALUE_BITS_def NOTE_MAX_VALUE_def)

lemma mul_bool: "plonky2_ok pl nh \<Longrightarrow> g_mul pl x (felt_of_bool b) = (if b then x else felt_from_u64 0)"
  by (simp add: plonky2_okD(4))

lemma felt_sub_zero:
  assumes "a < p" "b < (p :: nat)"
  shows "(a + (p - b)) mod p = 0 \<longleftrightarrow> a = b"
proof (cases "a < b")
  case True
  then have lt: "a + (p - b) < p" and pos: "a + (p - b) \<noteq> 0" using assms by linarith+
  have "(a + (p - b)) mod p = a + (p - b)" using lt by (rule mod_less)
  with pos True show ?thesis by linarith
next
  case False
  then have split: "a + (p - b) = (a - b) + p" and lt: "a - b < p" using assms by linarith+
  have "(a + (p - b)) mod p = a - b" unfolding split using lt by (simp only: mod_add_self2 mod_less)
  with False show ?thesis by linarith
qed

lemma sub_zero_iff: "plonky2_ok pl nh \<Longrightarrow> g_sub pl x y = felt_from_u64 0 \<longleftrightarrow> x = y"
  using felt_sub_zero [OF to_canonical_lt to_canonical_lt, of x y] by (simp add: plonky2_okD(3) felt_eq_iff)

lemma felt_zero_iff: "x = felt_from_u64 0 \<longleftrightarrow> to_canonical_u64 x = 0"
  by (simp add: felt_eq_iff)

lemma length_note_digests:
  assumes "note_hash_ok nh"
  shows "length (input_commitment nh i) = 4" "length (input_nullifier nh dummy i) = 4"
    "length (commitment_from_inner nh inner v) = 4" "length (hash_to_felts nh fs) = 4"
  using assms by (simp_all add: input_commitment_def input_nullifier_def commitment_from_inner_def nullifier_def dummy_nullifier_def
      length_hash_felts note_hash_okD)

lemma input_constraints_iff:
  assumes ok: "plonky2_ok pl nh" and shape: "input_shape i" "length published = 4" "length zk_tree_root = 4"
    and d: "d \<le> MAX_TREE_DEPTH" "active = map (\<lambda>l. felt_of_bool (l < d)) [0..<MAX_TREE_DEPTH]"
  shows "input_constraints pl active zk_tree_root published i \<longleftrightarrow> input_statement nh d zk_tree_root published i"
proof (cases "\<exists>dummy. in_is_dummy i = felt_of_bool dummy")
  case False
  then have "\<not> g_bool_safe pl (in_is_dummy i)" using plonky2_okD(12) [OF ok] by blast
  then show ?thesis using False by (auto simp: input_constraints_def input_statement_def)
next
  case True
  then obtain dummy where dummy: "in_is_dummy i = felt_of_bool dummy" by blast
  have nok: "note_hash_ok nh" using ok by (rule plonky2_okD)
  have safe: "g_bool_safe pl (in_is_dummy i)" using plonky2_okD(12) [OF ok] dummy by (cases dummy) simp_all
  have path: "path_shape (in_path i)" using shape(1) by (simp add: input_shape_def)
  let ?cm = "input_commitment nh i"
  obtain root path_ok where w: "merkle_root_from_path pl ?cm (in_path i) active = (root, path_ok)" by (rule prod.exhaust)
  have walk: "path_ok \<longleftrightarrow> (\<forall>p\<in>set (pt_positions (in_path i)). to_canonical_u64 p < 4)"
    "path_ok \<longrightarrow> root = path_root nh (take d (path_of (in_path i))) ?cm"
    using merkle_root_from_path_correct [OF ok path length_note_digests(1) [OF nok, of i] d] w by simp_all
  have len: "length root = 4"
    using length_path_levels [OF length_note_digests(1) [OF nok]] w unfolding merkle_root_from_path_def by (metis fst_conv)
  have gate: "list_all (\<lambda>limb. g_connect pl (g_mul pl (g_sub pl (root ! limb) (zk_tree_root ! limb)) (felt_of_bool (\<not> dummy))) (felt_from_u64 0)) [0..<4]
      \<longleftrightarrow> dummy \<or> root = zk_tree_root"
    using nth_digest_eq [OF len shape(3)]
    by (cases dummy) (simp_all add: list_all_iff plonky2_okD(13) [OF ok] mul_bool [OF ok] sub_zero_iff [OF ok])
  have cm: "note_commitment_gadget pl (note_inner_gadget pl (derive_pk_gadget pl (in_ask i) (in_nk i)) (in_rho i) (in_r i)) (in_value i) = ?cm"
    by (simp add: note_gadgets [OF ok] input_commitment_def)
  have nf: "connect_hashes pl (note_nullifier_tagged pl (nullifier_domain_tag pl (felt_of_bool dummy)) (in_nk i) (in_rho i) (in_r i)) published
      \<longleftrightarrow> published = input_nullifier nh dummy i"
    using connect_hashes_iff [OF ok length_note_digests(2) [OF nok] shape(2), of dummy i] by (auto simp: note_gadgets [OF ok] input_nullifier_def)
  have "input_constraints pl active zk_tree_root published i \<longleftrightarrow>
      to_canonical_u64 (in_value i) \<le> NOTE_MAX_VALUE \<and> (dummy \<longrightarrow> to_canonical_u64 (in_value i) = 0) \<and> path_ok
      \<and> (dummy \<or> root = zk_tree_root) \<and> published = input_nullifier nh dummy i"
    unfolding input_constraints_def Let_def cm w prod.case
    using safe gate nf by (simp add: dummy value_range [OF ok] plonky2_okD(9,13) [OF ok] mul_bool [OF ok] felt_zero_iff)
  then show ?thesis using walk by (auto simp: input_statement_def dummy)
qed

lemma output_constraints_iff:
  assumes ok: "plonky2_ok pl nh" and "length published = 4"
  shows "output_constraints pl nullifiers published index out \<longleftrightarrow> output_statement nh nullifiers published index out"
  using connect_hashes_iff [OF ok length_note_digests(3) [OF plonky2_okD(1) [OF ok]] assms(2)]
  by (auto simp: output_constraints_def output_statement_def value_range [OF ok] note_gadgets [OF ok])

lemma circuit_sums:
  assumes ok: "plonky2_ok pl nh"
  shows "circuit_sum pl [a, b] = felt_from_u64 (to_canonical_u64 a + to_canonical_u64 b)"
    "circuit_sum pl [a, b, c] = felt_from_u64 (to_canonical_u64 a + to_canonical_u64 b + to_canonical_u64 c)"
  by (simp_all add: circuit_sum_def plonky2_okD(2) [OF ok] felt_eq_iff mod_add_left_eq)

lemma balance_no_wrap:
  assumes "v0 \<le> NOTE_MAX_VALUE" "v1 \<le> NOTE_MAX_VALUE" "w0 \<le> NOTE_MAX_VALUE" "w1 \<le> NOTE_MAX_VALUE" "f \<le> NOTE_MAX_VALUE"
  shows "felt_from_u64 (v0 + v1) = felt_from_u64 (w0 + w1 + f) \<longleftrightarrow> v0 + v1 = w0 + w1 + f"
  using assms by (simp add: felt_eq_iff NOTE_MAX_VALUE_def NOTE_VALUE_BITS_def GOLDILOCKS_P_def)

lemma depth_constraints:
  assumes ok: "plonky2_ok pl nh" and fits: "to_canonical_u64 depth < 2 ^ DEPTH_BITS"
  shows "g_split_le pl depth DEPTH_BITS = Some (map (\<lambda>i. felt_of_bool (odd (to_canonical_u64 depth div 2 ^ i))) [0..<DEPTH_BITS])"
    "g_connect pl (const_less_than_bits pl MAX_TREE_DEPTH (map (\<lambda>i. felt_of_bool (odd (to_canonical_u64 depth div 2 ^ i))) [0..<DEPTH_BITS]))
       (felt_from_u64 0) \<longleftrightarrow> to_canonical_u64 depth \<le> MAX_TREE_DEPTH"
proof -
  show "g_split_le pl depth DEPTH_BITS = Some (map (\<lambda>i. felt_of_bool (odd (to_canonical_u64 depth div 2 ^ i))) [0..<DEPTH_BITS])"
    using fits plonky2_okD(10) [OF ok, of DEPTH_BITS depth] by (simp add: DEPTH_BITS_def)
  have "MAX_TREE_DEPTH < 2 ^ DEPTH_BITS" by (simp add: MAX_TREE_DEPTH_def DEPTH_BITS_def)
  from const_less_than_bits_correct [OF ok this fits]
  show "g_connect pl (const_less_than_bits pl MAX_TREE_DEPTH (map (\<lambda>i. felt_of_bool (odd (to_canonical_u64 depth div 2 ^ i))) [0..<DEPTH_BITS]))
       (felt_from_u64 0) \<longleftrightarrow> to_canonical_u64 depth \<le> MAX_TREE_DEPTH"
    by (auto simp: plonky2_okD(13) [OF ok] felt_of_bool_zero)
qed

lemma length_two: "length xs = 2 \<Longrightarrow> \<exists>a b. xs = [a, b]"
  by (auto simp: numeral_eq_Suc length_Suc_conv)

lemma targets_shapeE:
  assumes "targets_shape t"
  obtains i0 i1 o0 o1 n0 n1 c0 c1 where "t_inputs t = [i0, i1]" "t_outputs t = [o0, o1]" "t_nullifiers t = [n0, n1]" "t_commitments t = [c0, c1]"
    "input_shape i0" "input_shape i1" "length n0 = 4" "length n1 = 4" "length c0 = 4" "length c1 = 4"
  using assms length_two [of "t_inputs t"] length_two [of "t_outputs t"] length_two [of "t_nullifiers t"] length_two [of "t_commitments t"]
  by (auto simp: targets_shape_def NUM_INPUTS_def NUM_OUTPUTS_def)

lemma header_constraints_iff:
  assumes ok: "plonky2_ok pl nh" and "length block_hash = 4"
  shows "constrain_header pl block_hash h \<longleftrightarrow>
    to_canonical_u64 (ht_block_number h) < 2 ^ 32 \<and> block_hash = hash_to_felts nh (header_targets_preimage h)"
  using connect_hashes_iff [OF ok assms(2) length_note_digests(4) [OF plonky2_okD(1) [OF ok]]]
  by (simp add: constrain_header_def plonky2_okD(11,14) [OF ok])

lemma padding_constraint_iff:
  assumes ok: "plonky2_ok pl nh" and "length block_hash = 4"
  shows "g_connect pl (g_mul pl (g_mul pl (felt_of_bool a) (felt_of_bool b)) (g_not pl (is_padding_block_hash pl block_hash))) (felt_from_u64 0)
    \<longleftrightarrow> (a \<and> b \<longrightarrow> block_hash = map felt_from_u64 PADDING_BLOCK_HASH)"
proof -
  have "length padding_block_hash_target = 4" by (simp add: padding_block_hash_target_def PADDING_BLOCK_HASH_def)
  from digests_are_equal_correct [OF ok assms(2) this] show ?thesis
    by (cases a; cases b) (auto simp: is_padding_block_hash_def plonky2_okD(9,13) [OF ok] mul_bool [OF ok] felt_of_bool_zero padding_block_hash_target_def)
qed

lemma distinct_constraint_iff:
  assumes ok: "plonky2_ok pl nh" and "length a = 4" "length b = 4"
  shows "g_connect pl (digests_are_equal pl a b) (felt_from_u64 0) \<longleftrightarrow> a \<noteq> b"
  using digests_are_equal_correct [OF assms] by (simp add: plonky2_okD(13) [OF ok] felt_of_bool_zero)

lemma input_statement_flag: "input_statement nh d zk pub i \<Longrightarrow> \<exists>b. in_is_dummy i = felt_of_bool b"
  by (auto simp: input_statement_def)

lemma padding_flags_iff:
  assumes ok: "plonky2_ok pl nh" and "length block_hash = 4" "input_statement nh d zk n0 i0" "input_statement nh d zk n1 i1"
  shows "g_connect pl (g_mul pl (g_mul pl (in_is_dummy i0) (in_is_dummy i1)) (g_not pl (is_padding_block_hash pl block_hash))) (felt_from_u64 0)
      \<longleftrightarrow> (in_is_dummy i0 = felt_of_bool True \<and> in_is_dummy i1 = felt_of_bool True \<longrightarrow> block_hash = map felt_from_u64 PADDING_BLOCK_HASH)"
proof -
  obtain a where a: "in_is_dummy i0 = felt_of_bool a" using input_statement_flag [OF assms(3)] by (rule exE)
  obtain b where b: "in_is_dummy i1 = felt_of_bool b" using input_statement_flag [OF assms(4)] by (rule exE)
  show ?thesis unfolding a b padding_constraint_iff [OF assms(1,2)] by simp
qed

lemma guarded_conj_cong:
  assumes "A1 \<Longrightarrow> A2 \<Longrightarrow> P = P'" "A1 \<Longrightarrow> A2 \<Longrightarrow> O1 \<Longrightarrow> O2 \<Longrightarrow> F \<Longrightarrow> B = B'"
  shows "((H1 \<and> H2) \<and> (D \<and> A1 \<and> A2) \<and> N \<and> P \<and> (O1 \<and> O2) \<and> F \<and> B) = (H1 \<and> H2 \<and> D \<and> (A1 \<and> A2) \<and> N \<and> P' \<and> (O1 \<and> O2) \<and> F \<and> B')"
  using assms by blast

lemma upt_two: "[0..<2] = [0, Suc 0]"
  by (simp add: numeral_eq_Suc)

lemma all_below_two: "(\<forall>k < (2 :: nat). P k) \<longleftrightarrow> P 0 \<and> P 1"
  by (auto simp: less_2_cases_iff)

lemma build_constraints_iff:
  assumes ok: "plonky2_ok pl nh" and shape: "targets_shape t"
  shows "build_constraints pl t \<longleftrightarrow> leaf_statement nh t"
proof (cases "to_canonical_u64 (t_depth t) < 2 ^ DEPTH_BITS")
  case False
  then have "g_split_le pl (t_depth t) DEPTH_BITS = None"
    using plonky2_okD(10) [OF ok, of DEPTH_BITS "t_depth t"] by (simp add: DEPTH_BITS_def)
  moreover have "\<not> to_canonical_u64 (t_depth t) \<le> MAX_TREE_DEPTH" using False by (simp add: DEPTH_BITS_def MAX_TREE_DEPTH_def)
  ultimately show ?thesis by (simp add: build_constraints_def leaf_statement_def)
next
  case fits: True
  let ?n = "to_canonical_u64 (t_depth t)" and ?zk = "ht_zk_tree_root (t_header t)"
  obtain i0 i1 o0 o1 n0 n1 c0 c1 where l: "t_inputs t = [i0, i1]" "t_outputs t = [o0, o1]" "t_nullifiers t = [n0, n1]" "t_commitments t = [c0, c1]"
    "input_shape i0" "input_shape i1" "length n0 = 4" "length n1 = 4" "length c0 = 4" "length c1 = 4"
    using shape by (rule targets_shapeE)
  have bh: "length (t_block_hash t) = 4" and zk: "length ?zk = 4" and num: "ht_block_number (t_header t) = t_block_number t"
    using shape by (simp_all add: targets_shape_def header_shape_def)
  note hdr = header_constraints_iff [OF ok bh, of "t_header t", unfolded num]
  note depth = depth_constraints [OF ok fits] and flags = active_level_flags_correct [OF ok fits]
  have ins: "?n \<le> MAX_TREE_DEPTH \<Longrightarrow> input_constraints pl (map (\<lambda>l. felt_of_bool (l < ?n)) [0..<MAX_TREE_DEPTH]) ?zk n0 i0 \<longleftrightarrow> input_statement nh ?n ?zk n0 i0"
    "?n \<le> MAX_TREE_DEPTH \<Longrightarrow> input_constraints pl (map (\<lambda>l. felt_of_bool (l < ?n)) [0..<MAX_TREE_DEPTH]) ?zk n1 i1 \<longleftrightarrow> input_statement nh ?n ?zk n1 i1"
    using input_constraints_iff [OF ok l(5,7) zk] input_constraints_iff [OF ok l(6,8) zk] by blast+
  note outs = output_constraints_iff [OF ok l(9)] output_constraints_iff [OF ok l(10)]
  note distinct = distinct_constraint_iff [OF ok l(7,8)]
  have vals: "input_statement nh ?n ?zk n0 i0 \<Longrightarrow> to_canonical_u64 (in_value i0) \<le> NOTE_MAX_VALUE"
    "input_statement nh ?n ?zk n1 i1 \<Longrightarrow> to_canonical_u64 (in_value i1) \<le> NOTE_MAX_VALUE"
    "output_statement nh [n0, n1] c0 0 o0 \<Longrightarrow> to_canonical_u64 (out_value o0) \<le> NOTE_MAX_VALUE"
    "output_statement nh [n0, n1] c1 1 o1 \<Longrightarrow> to_canonical_u64 (out_value o1) \<le> NOTE_MAX_VALUE"
    by (simp_all add: input_statement_def output_statement_def)
  let ?vi0 = "to_canonical_u64 (in_value i0)" and ?vi1 = "to_canonical_u64 (in_value i1)"
  let ?vo0 = "to_canonical_u64 (out_value o0)" and ?vo1 = "to_canonical_u64 (out_value o1)" and ?fee = "to_canonical_u64 (t_fee t)"
  have bal: "?vi0 \<le> NOTE_MAX_VALUE \<Longrightarrow> ?vi1 \<le> NOTE_MAX_VALUE \<Longrightarrow> ?vo0 \<le> NOTE_MAX_VALUE \<Longrightarrow> ?vo1 \<le> NOTE_MAX_VALUE \<Longrightarrow> ?fee \<le> NOTE_MAX_VALUE \<Longrightarrow>
      g_connect pl (circuit_sum pl [in_value i0, in_value i1]) (circuit_sum pl [out_value o0, out_value o1, t_fee t])
      \<longleftrightarrow> ?vi0 + ?vi1 = ?vo0 + ?vo1 + ?fee"
    by (simp add: plonky2_okD(13) [OF ok] circuit_sums [OF ok] balance_no_wrap)
  let ?A = "input_statement nh ?n ?zk n0 i0 \<and> input_statement nh ?n ?zk n1 i1"
  let ?O = "output_statement nh [n0, n1] c0 0 o0 \<and> output_statement nh [n0, n1] c1 1 o1"
  let ?flags = "map (\<lambda>l. felt_of_bool (l < ?n)) [0..<MAX_TREE_DEPTH]"
  let ?C = "input_constraints pl ?flags ?zk n0 i0 \<and> input_constraints pl ?flags ?zk n1 i1"
  have inputs: "(?n \<le> MAX_TREE_DEPTH \<and> ?C) = (?n \<le> MAX_TREE_DEPTH \<and> ?A)" using ins by blast
  have "build_constraints pl t \<longleftrightarrow>
      (to_canonical_u64 (t_block_number t) < 2 ^ 32 \<and> t_block_hash t = hash_to_felts nh (header_targets_preimage (t_header t)))
      \<and> (?n \<le> MAX_TREE_DEPTH \<and> ?C) \<and> n0 \<noteq> n1
      \<and> g_connect pl (g_mul pl (g_mul pl (in_is_dummy i0) (in_is_dummy i1)) (g_not pl (is_padding_block_hash pl (t_block_hash t)))) (felt_from_u64 0)
      \<and> ?O \<and> ?fee \<le> NOTE_MAX_VALUE
      \<and> g_connect pl (circuit_sum pl [in_value i0, in_value i1]) (circuit_sum pl [out_value o0, out_value o1, t_fee t])"
    unfolding build_constraints_def hdr depth flags option.case Let_def l NUM_INPUTS_def NUM_OUTPUTS_def upt_two list.pred_inject
      nth_Cons_0 nth_Cons_Suc One_nat_def outs distinct value_range [OF ok] list.map list.sel foldl.simps append.simps simp_thms
    by (simp only: list.pred_inject simp_thms)
  also have "\<dots> \<longleftrightarrow> leaf_statement nh t"
    unfolding inputs leaf_statement_def NUM_INPUTS_def NUM_OUTPUTS_def all_below_two l list.map sum_list.Cons sum_list.Nil add_0_right o_apply
      nth_Cons_0 One_nat_def nth_Cons_Suc
    by (rule guarded_conj_cong [OF padding_flags_iff [OF ok bh] bal [OF vals [unfolded One_nat_def]]]) assumption+
  finally show ?thesis .
qed

end
