(* ===== verification/WalletTree.thy ===== *)
theory WalletTree
  imports Gadgets ZkTree
begin

text \<open>
  The commitment tree a wallet keeps, \<open>crates/qnero-circuit/src/merkle.rs\<close>: Merkle paths and the adapter
  from the pallet's proofs, the full tree, and the append-only frontier that roots every prefix of the leaves.

  The lemmas show that the wallet's node rule is the pallet's, that the frontier's root and depth are those of
  the pallet for the same leaves, and that the adapter turns the pallet's siblings into a path to its root.
\<close>

section \<open>Nodes\<close>

definition empty_digest :: felt_digest where
  "empty_digest = replicate 4 (felt_from_u64 0)"

definition hash_node_presorted :: "note_hash \<Rightarrow> felt_digest list \<Rightarrow> felt_digest" where
  "hash_node_presorted nh children = hash_to_felts nh (concat children)"

definition digest_hash_node :: "note_hash \<Rightarrow> felt_digest list \<Rightarrow> felt_digest" where
  "digest_hash_node nh children = hash_node_presorted nh (sort_key (digest_to_bytes nh) children)"

section \<open>Paths\<close>

record merkle_path =
  mp_siblings :: "felt_digest list list"
  mp_positions :: "nat list"

datatype tree_error =
    PathTooDeep nat
  | PathLengths nat nat
  | PositionOutOfRange nat
  | NoLeaves
  | DepthOutOfRange nat
  | TooManyLeaves nat
  | LeafIndexOutOfRange nat
  | FoldedToNothing nat

definition merkle_path_dummy :: "nat \<Rightarrow> merkle_path" where
  "merkle_path_dummy depth = \<lparr>mp_siblings = replicate depth (replicate 3 empty_digest), mp_positions = replicate depth 0\<rparr>"

definition position_of :: "'a \<Rightarrow> 'a list \<Rightarrow> nat" where
  "position_of x xs = length (takeWhile (\<lambda>y. y \<noteq> x) xs)"

text \<open>The children in sorted order, the slot of the running hash, and the others.\<close>

definition sorted_level :: "note_hash \<Rightarrow> felt_digest \<Rightarrow> felt_digest list \<Rightarrow> felt_digest list \<times> nat \<times> felt_digest list" where
  "sorted_level nh current sibs =
     (let children = sort_key (digest_to_bytes nh) (current # sibs);
          position = position_of current children
      in (children, position, map (\<lambda>slot. children ! slot) (filter (\<lambda>slot. slot \<noteq> position) [0..<length children])))"

fun from_unsorted_levels :: "note_hash \<Rightarrow> felt_digest list list \<Rightarrow> felt_digest \<Rightarrow> merkle_path" where
  "from_unsorted_levels nh [] current = \<lparr>mp_siblings = [], mp_positions = []\<rparr>"
| "from_unsorted_levels nh (sibs # levels) current =
     (let (children, position, sorted_siblings) = sorted_level nh current sibs;
          rest = from_unsorted_levels nh levels (hash_node_presorted nh children)
      in \<lparr>mp_siblings = sorted_siblings # mp_siblings rest, mp_positions = position # mp_positions rest\<rparr>)"

definition from_unsorted :: "note_hash \<Rightarrow> felt_digest list list \<Rightarrow> felt_digest \<Rightarrow> (tree_error, merkle_path) result" where
  "from_unsorted nh unsorted_siblings leaf =
     ensure (length unsorted_siblings \<le> MAX_TREE_DEPTH) (PathTooDeep (length unsorted_siblings))
       (Inr (from_unsorted_levels nh unsorted_siblings leaf))"

definition place_children :: "nat \<Rightarrow> felt_digest \<Rightarrow> felt_digest list \<Rightarrow> felt_digest list" where
  "place_children position current sibs =
     map (\<lambda>slot. if slot = position then current else sibs ! (if slot < position then slot else slot - 1)) [0..<ARITY]"

fun merkle_path_root_levels ::
  "note_hash \<Rightarrow> (felt_digest list \<times> nat) list \<Rightarrow> felt_digest \<Rightarrow> (tree_error, felt_digest) result" where
  "merkle_path_root_levels nh [] current = Inr current"
| "merkle_path_root_levels nh ((sibs, position) # levels) current =
     (if ARITY \<le> position then Inl (PositionOutOfRange position)
      else merkle_path_root_levels nh levels (hash_node_presorted nh (place_children position current sibs)))"

definition merkle_path_root :: "note_hash \<Rightarrow> merkle_path \<Rightarrow> felt_digest \<Rightarrow> (tree_error, felt_digest) result" where
  "merkle_path_root nh path leaf =
     ensure (length (mp_siblings path) = length (mp_positions path)) (PathLengths (length (mp_siblings path)) (length (mp_positions path)))
       (ensure (length (mp_siblings path) \<le> MAX_TREE_DEPTH) (PathTooDeep (length (mp_siblings path)))
         (merkle_path_root_levels nh (zip (mp_siblings path) (mp_positions path)) leaf))"

section \<open>The full tree\<close>

fun chunks :: "nat \<Rightarrow> 'a list \<Rightarrow> 'a list list" where
  "chunks n [] = []"
| "chunks n (x # xs) = (x # take (n - 1) xs) # chunks n (drop (n - 1) xs)"

definition pad_children :: "felt_digest list \<Rightarrow> felt_digest list" where
  "pad_children chunk = chunk @ replicate (ARITY - length chunk) empty_digest"

fun tree_levels :: "note_hash \<Rightarrow> nat \<Rightarrow> felt_digest list \<Rightarrow> felt_digest list list" where
  "tree_levels nh 0 below = [below]"
| "tree_levels nh (Suc d) below =
     below # tree_levels nh d (map (\<lambda>chunk. digest_hash_node nh (pad_children chunk)) (chunks ARITY below))"

record commitment_tree =
  ct_depth :: nat
  ct_levels :: "felt_digest list list"

definition commitment_tree_new :: "note_hash \<Rightarrow> felt_digest list \<Rightarrow> nat \<Rightarrow> (tree_error, commitment_tree) result" where
  "commitment_tree_new nh leaves depth =
     ensure (leaves \<noteq> []) NoLeaves
       (ensure (1 \<le> depth \<and> depth \<le> MAX_TREE_DEPTH) (DepthOutOfRange depth)
         (ensure (length leaves \<le> ARITY ^ depth) (TooManyLeaves (length leaves))
           (Inr \<lparr>ct_depth = depth, ct_levels = tree_levels nh depth leaves\<rparr>)))"

definition depth_for :: "nat \<Rightarrow> (tree_error, nat) result" where
  "depth_for leaf_count =
     ok_or (find (\<lambda>depth. leaf_count \<le> ARITY ^ depth) [1..<MAX_TREE_DEPTH + 1]) (TooManyLeaves leaf_count)"

definition tree_root :: "commitment_tree \<Rightarrow> felt_digest" where
  "tree_root t = ct_levels t ! ct_depth t ! 0"

definition nth_or_empty :: "felt_digest list \<Rightarrow> nat \<Rightarrow> felt_digest" where
  "nth_or_empty xs i = (if i < length xs then xs ! i else empty_digest)"

fun index_ordered_levels :: "commitment_tree \<Rightarrow> nat list \<Rightarrow> nat \<Rightarrow> felt_digest list list" where
  "index_ordered_levels t [] index = []"
| "index_ordered_levels t (level # levels) index =
     (let base = (index div ARITY) * ARITY
      in map (nth_or_empty (ct_levels t ! level)) (filter (\<lambda>i. i \<noteq> index) (map (\<lambda>slot. base + slot) [0..<ARITY]))
         # index_ordered_levels t levels (index div ARITY))"

definition index_ordered_siblings :: "commitment_tree \<Rightarrow> nat \<Rightarrow> (tree_error, felt_digest list list) result" where
  "index_ordered_siblings t index =
     ensure (index < length (ct_levels t ! 0)) (LeafIndexOutOfRange index)
       (Inr (index_ordered_levels t [0..<ct_depth t] index))"

fun tree_path_levels :: "note_hash \<Rightarrow> commitment_tree \<Rightarrow> nat list \<Rightarrow> nat \<Rightarrow> merkle_path" where
  "tree_path_levels nh t [] index = \<lparr>mp_siblings = [], mp_positions = []\<rparr>"
| "tree_path_levels nh t (level # levels) index =
     (let base = (index div ARITY) * ARITY;
          children = map (\<lambda>slot. nth_or_empty (ct_levels t ! level) (base + slot)) [0..<ARITY];
          sorted = sort_key (digest_to_bytes nh) children;
          position = position_of (children ! (index - base)) sorted;
          rest = tree_path_levels nh t levels (index div ARITY)
      in \<lparr>mp_siblings = map (\<lambda>slot. sorted ! slot) (filter (\<lambda>slot. slot \<noteq> position) [0..<length sorted]) # mp_siblings rest,
          mp_positions = position # mp_positions rest\<rparr>)"

definition tree_path :: "note_hash \<Rightarrow> commitment_tree \<Rightarrow> nat \<Rightarrow> (tree_error, merkle_path) result" where
  "tree_path nh t index =
     ensure (index < length (ct_levels t ! 0)) (LeafIndexOutOfRange index)
       (Inr (tree_path_levels nh t [0..<ct_depth t] index))"

section \<open>The frontier\<close>

record tree_frontier =
  fr_levels :: "felt_digest list list"
  fr_count :: nat

definition frontier_new :: tree_frontier where
  "frontier_new = \<lparr>fr_levels = [], fr_count = 0\<rparr>"

text \<open>The carry of \<open>push\<close>, from one level up.\<close>

fun push_levels :: "note_hash \<Rightarrow> felt_digest list list \<Rightarrow> felt_digest \<Rightarrow> felt_digest list list" where
  "push_levels nh [] node = [[node]]"
| "push_levels nh (level # levels) node =
     (let filled = level @ [node]
      in if length filled = ARITY then [] # push_levels nh levels (digest_hash_node nh filled)
         else filled # levels)"

definition frontier_push :: "note_hash \<Rightarrow> tree_frontier \<Rightarrow> felt_digest \<Rightarrow> tree_frontier" where
  "frontier_push nh f leaf = \<lparr>fr_levels = push_levels nh (fr_levels f) leaf, fr_count = sat_add 64 (fr_count f) 1\<rparr>"

definition frontier_depth :: "tree_frontier \<Rightarrow> (tree_error, nat) result" where
  "frontier_depth f = (if fr_count f = 0 then Inr 0 else depth_for (fr_count f))"

definition level_nodes :: "felt_digest list list \<Rightarrow> nat \<Rightarrow> felt_digest list" where
  "level_nodes levels l = (if l < length levels then levels ! l else [])"

text \<open>One turn of the loop of \<open>root\<close>.\<close>

definition fold_level :: "note_hash \<Rightarrow> felt_digest list list \<Rightarrow> nat \<Rightarrow> felt_digest option \<Rightarrow> felt_digest option" where
  "fold_level nh levels l carry =
     (let nodes = level_nodes levels l
      in if nodes = [] \<and> carry = None then None
         else Some (digest_hash_node nh (pad_children (nodes @ (case carry of None \<Rightarrow> [] | Some node \<Rightarrow> [node])))))"

fun fold_frontier :: "note_hash \<Rightarrow> felt_digest list list \<Rightarrow> nat \<Rightarrow> felt_digest option" where
  "fold_frontier nh levels 0 = None"
| "fold_frontier nh levels (Suc l) = fold_level nh levels l (fold_frontier nh levels l)"

definition frontier_root :: "note_hash \<Rightarrow> tree_frontier \<Rightarrow> (tree_error, felt_digest) result" where
  "frontier_root nh f =
     rbind (frontier_depth f) (\<lambda>depth.
       if depth = 0 then Inr empty_digest
       else case fold_frontier nh (fr_levels f) depth of
              Some root \<Rightarrow> Inr root
            | None \<Rightarrow> ok_or (if level_nodes (fr_levels f) depth = [] then None else Some (hd (level_nodes (fr_levels f) depth)))
                         (FoldedToNothing depth))"

section \<open>The node rule is the pallet's\<close>

lemma sort_map_key: "sort (map f xs) = map f (sort_key f xs)"
  by (rule properties_for_sort) simp_all

lemma bytes_digest_hash_node:
  assumes nok: "note_hash_ok nh" and cs: "\<forall>c\<in>set cs. length c = 4"
  shows "digest_to_bytes nh (digest_hash_node nh cs) = hash_node (nh_core nh) (map (digest_to_bytes nh) cs)"
proof -
  have "\<forall>b\<in>set (map (digest_to_bytes nh) cs). length b = 32" using cs by (auto simp: length_digest_to_bytes [OF nok])
  from node_felts_limbs [OF note_hash_okD(1) [OF nok] this]
  have "node_felts (nh_core nh) (map (digest_to_bytes nh) cs) = concat (sort_key (digest_to_bytes nh) cs)"
    by (simp add: sort_map_key comp_def felts_digest_to_bytes [OF nok])
  then show ?thesis by (simp add: hash_node_def digest_hash_node_def hash_node_presorted_def note_hash_okD(3) [OF nok])
qed

lemma length_digest_hash_node: "note_hash_ok nh \<Longrightarrow> length (digest_hash_node nh cs) = 4"
  by (simp add: digest_hash_node_def hash_node_presorted_def note_hash_okD)

lemma bytes_empty_digest: "note_hash_ok nh \<Longrightarrow> digest_to_bytes nh empty_digest = empty_hash"
  by (simp add: note_hash_okD(4) empty_digest_def empty_hash_def zero_hash_limbs numeral_eq_Suc)

lemma length_empty_digest [simp]: "length empty_digest = 4"
  by (simp add: empty_digest_def)

lemma bytes_length4: "note_hash_ok nh \<Longrightarrow> digest_ok (digest_to_bytes nh d) \<Longrightarrow> length d = 4"
  by (simp add: digest_ok_def length_digest_to_bytes)

text \<open>Digests that stand for nodes of the pallet's tree.\<close>

lemma digest_hash_node_ref:
  assumes nok: "note_hash_ok nh" and ls: "\<forall>h\<in>set ls. digest_ok h" and i: "i * ARITY ^ Suc l < length ls"
    and cs: "map (digest_to_bytes nh) cs = map (ref_node (nh_core nh) ls l) [i * ARITY..<i * ARITY + ARITY]"
  shows "digest_to_bytes nh (digest_hash_node nh cs) = ref_node (nh_core nh) ls (Suc l) i"
proof -
  have ok: "digest_ok (ref_node (nh_core nh) ls l j)" for j
    using digest_ok_ref_node [OF note_hash_okD(1) [OF nok] ls] .
  have "\<forall>c\<in>set cs. length c = 4"
  proof
    fix c assume "c \<in> set cs"
    then have "digest_to_bytes nh c \<in> set (map (ref_node (nh_core nh) ls l) [i * ARITY..<i * ARITY + ARITY])"
      unfolding cs [symmetric] by simp
    then show "length c = 4" using ok by (auto intro!: bytes_length4 [OF nok])
  qed
  moreover have "[i * ARITY..<i * ARITY + ARITY] = map (\<lambda>j. i * ARITY + j) [0..<ARITY]"
    by (simp add: map_add_upt add.commute)
  ultimately show ?thesis using i by (simp add: bytes_digest_hash_node [OF nok] cs comp_def)
qed

section \<open>The frontier roots every prefix\<close>

definition frontier_nodes :: "note_hash \<Rightarrow> hash256 list \<Rightarrow> nat \<Rightarrow> nat \<Rightarrow> felt_digest list list \<Rightarrow> bool" where
  "frontier_nodes nh ls l a levels \<longleftrightarrow>
     (\<forall>k. map (digest_to_bytes nh) (level_nodes levels k)
        = map (ref_node (nh_core nh) ls (l + k)) [a div ARITY ^ Suc k * ARITY..<a div ARITY ^ k])"

lemma level_nodes_Cons: "level_nodes (x # xs) k = (case k of 0 \<Rightarrow> x | Suc k \<Rightarrow> level_nodes xs k)"
  by (cases k) (simp_all add: level_nodes_def)

lemma level_nodes_Nil [simp]: "level_nodes [] k = []"
  by (simp add: level_nodes_def)

lemma all_nat_cases: "(\<forall>k. P k) \<longleftrightarrow> P 0 \<and> (\<forall>k. P (Suc k))"
  by (metis not0_implies_Suc)

lemma frontier_nodes_Cons:
  "frontier_nodes nh ls l a (x # xs) \<longleftrightarrow>
     map (digest_to_bytes nh) x = map (ref_node (nh_core nh) ls l) [a div ARITY * ARITY..<a]
     \<and> frontier_nodes nh ls (Suc l) (a div ARITY) xs"
  unfolding frontier_nodes_def by (subst all_nat_cases) (simp add: level_nodes_Cons div_mult2_eq)

lemma frontier_nodes_Nil: "frontier_nodes nh ls l a [] \<longleftrightarrow> (\<forall>k. a div ARITY ^ k \<le> a div ARITY ^ Suc k * ARITY)"
  unfolding frontier_nodes_def by simp (metis le0)

lemma frontier_nodes_Nil_zero: "frontier_nodes nh ls l a [] \<Longrightarrow> a = 0"
proof (rule ccontr)
  assume "frontier_nodes nh ls l a []" and pos: "a \<noteq> 0"
  then have le: "a div ARITY ^ k \<le> a div ARITY ^ Suc k * ARITY" for k by (simp add: frontier_nodes_Nil)
  have "a div ARITY ^ k \<noteq> 0" for k
  proof (induction k)
    case 0
    then show ?case using pos by simp
  next
    case (Suc k)
    then show ?case using le [of k] by (cases "a div ARITY ^ Suc k") simp_all
  qed
  moreover have "a < ARITY ^ a" using less_exp [of a] power_mono [of 2 "4 :: nat" a] unfolding ARITY_def by linarith
  then have "a div ARITY ^ a = 0" by simp
  ultimately show False by blast
qed

lemma push_levels_nodes:
  assumes nok: "note_hash_ok nh" and ls: "\<forall>h\<in>set ls. digest_ok h"
  shows "frontier_nodes nh ls l a levels \<Longrightarrow> digest_to_bytes nh node = ref_node (nh_core nh) ls l a \<Longrightarrow>
    Suc a * ARITY ^ l \<le> length ls \<Longrightarrow> frontier_nodes nh ls l (Suc a) (push_levels nh levels node)"
proof (induction levels arbitrary: l a node)
  case Nil
  then have "a = 0" by (intro frontier_nodes_Nil_zero)
  then show ?case using Nil by (simp add: frontier_nodes_Cons frontier_nodes_Nil ARITY_def)
next
  case (Cons x xs)
  let ?q = "a div ARITY" and ?filled = "x @ [node]"
  have x: "map (digest_to_bytes nh) x = map (ref_node (nh_core nh) ls l) [?q * ARITY..<a]"
    and xs: "frontier_nodes nh ls (Suc l) ?q xs"
    using Cons.prems(1) by (simp_all add: frontier_nodes_Cons)
  have le: "?q * ARITY \<le> a" by simp
  have lt: "a < ?q * ARITY + ARITY" using dividend_less_div_times [of ARITY a] by (simp add: ARITY_def)
  have filled: "map (digest_to_bytes nh) ?filled = map (ref_node (nh_core nh) ls l) [?q * ARITY..<Suc a]"
    using x le Cons.prems(2) by simp
  then have len: "length ?filled = Suc a - ?q * ARITY" by (metis length_map length_upt)
  show ?case
  proof (cases "length ?filled = ARITY")
    case True
    then have a: "Suc a = ?q * ARITY + ARITY" using len le by linarith
    then have q: "Suc a div ARITY = Suc ?q" by (simp add: ARITY_def)
    have room: "Suc ?q * ARITY ^ Suc l \<le> length ls"
      using Cons.prems(3) unfolding a by (simp add: algebra_simps)
    then have "?q * ARITY ^ Suc l < length ls" using ARITY_pow_pos [of "Suc l"] by (simp only: mult_Suc)
    from digest_hash_node_ref [OF nok ls this filled [unfolded a]]
    have "frontier_nodes nh ls (Suc l) (Suc ?q) (push_levels nh xs (digest_hash_node nh ?filled))"
      by (rule Cons.IH [OF xs _ room])
    moreover have "Suc ?q * ARITY = Suc a" using a by simp
    ultimately show ?thesis using True by (simp add: frontier_nodes_Cons q Let_def)
  next
    case False
    then have q: "Suc a div ARITY = ?q" using len lt by (simp add: ARITY_def)
    then show ?thesis using False filled xs by (simp add: frontier_nodes_Cons Let_def)
  qed
qed

lemma ref_node_past: "length ls \<le> m * ARITY ^ l \<Longrightarrow> m \<le> j \<Longrightarrow> ref_node pc ls l j = empty_hash"
  by (rule ref_node_empty) (metis le_trans mult_le_mono1)

text \<open>The children of the node under construction at a level: the completed ones, the one below it, and nothing.\<close>

lemma children_under_construction:
  assumes "n = length ls" "m = n div ARITY ^ l" "q = n div ARITY ^ Suc l"
  shows "map (ref_node pc ls l) [q * ARITY..<q * ARITY + ARITY] =
    (let known = map (ref_node pc ls l) [q * ARITY..<m] @ (if n mod ARITY ^ l = 0 then [] else [ref_node pc ls l m])
     in known @ replicate (ARITY - length known) empty_hash)"
proof -
  have q: "q = m div ARITY" using assms(2,3) by (simp only: div_ARITY_Suc)
  have le: "q * ARITY \<le> m" by (simp add: q)
  have lt: "m < q * ARITY + ARITY" using dividend_less_div_times [of ARITY m] by (simp add: ARITY_def q)
  have upt: "[q * ARITY..<q * ARITY + ARITY] = [q * ARITY..<m] @ [m..<q * ARITY + ARITY]"
    using upt_add_eq_append [OF le, of "q * ARITY + ARITY - m"] lt by simp
  have split: "n = m * ARITY ^ l + n mod ARITY ^ l" unfolding assms(2) by (simp only: div_mult_mod_eq)
  show ?thesis
  proof (cases "n mod ARITY ^ l = 0")
    case True
    then have "\<forall>j\<in>set [m..<q * ARITY + ARITY]. ref_node pc ls l j = empty_hash"
      using split assms(1) by (auto intro!: ref_node_past [where m = m])
    then have "map (ref_node pc ls l) [m..<q * ARITY + ARITY] = replicate (q * ARITY + ARITY - m) empty_hash"
      by (metis length_map length_upt map_replicate_const map_cong map_replicate_trivial)
    then show ?thesis using True le lt by (simp add: upt Let_def)
  next
    case False
    have "n mod ARITY ^ l < ARITY ^ l" by (rule mod_less_divisor) (rule ARITY_pow_pos)
    then have "n \<le> Suc m * ARITY ^ l" using split by simp
    then have "\<forall>j\<in>set [Suc m..<q * ARITY + ARITY]. ref_node pc ls l j = empty_hash"
      using assms(1) by (auto intro!: ref_node_past [where m = "Suc m"])
    then have "map (ref_node pc ls l) [Suc m..<q * ARITY + ARITY] = replicate (q * ARITY + ARITY - Suc m) empty_hash"
      by (metis length_map length_upt map_replicate_const map_cong map_replicate_trivial)
    moreover have "[m..<q * ARITY + ARITY] = m # [Suc m..<q * ARITY + ARITY]" using lt by (rule upt_conv_Cons)
    ultimately show ?thesis using False le lt by (simp add: upt Let_def)
  qed
qed

lemma map_bytes_pad:
  "note_hash_ok nh \<Longrightarrow> map (digest_to_bytes nh) (pad_children cs)
     = map (digest_to_bytes nh) cs @ replicate (ARITY - length cs) empty_hash"
  by (simp add: pad_children_def bytes_empty_digest)

lemma mod_ARITY_Suc: "n mod ARITY ^ Suc l = 0 \<longleftrightarrow> n mod ARITY ^ l = 0 \<and> n div ARITY ^ l \<le> n div ARITY ^ Suc l * ARITY"
proof -
  let ?m = "n div ARITY ^ l"
  have "n mod (ARITY ^ l * ARITY) = ARITY ^ l * (?m mod ARITY) + n mod ARITY ^ l" by (rule mod_mult2_eq)
  then have "n mod ARITY ^ Suc l = 0 \<longleftrightarrow> n mod ARITY ^ l = 0 \<and> ?m mod ARITY = 0"
    by (simp add: power_Suc2 del: power_Suc) (auto simp: ARITY_def)
  moreover have "?m mod ARITY = 0 \<longleftrightarrow> ?m \<le> ?m div ARITY * ARITY" using div_mult_mod_eq [of ?m ARITY] by linarith
  ultimately show ?thesis by (simp only: div_ARITY_Suc)
qed

lemma fold_level_none_iff:
  assumes nodes: "map (digest_to_bytes nh) (level_nodes levels l) = map f [n div ARITY ^ Suc l * ARITY..<n div ARITY ^ l]"
    and carry: "carry = None \<longleftrightarrow> n mod ARITY ^ l = 0"
  shows "level_nodes levels l = [] \<and> carry = None \<longleftrightarrow> n mod ARITY ^ Suc l = 0"
proof -
  have "length (level_nodes levels l) = n div ARITY ^ l - n div ARITY ^ Suc l * ARITY"
    using arg_cong [OF nodes, of length] by (simp only: length_map length_upt)
  then have empty: "level_nodes levels l = [] \<longleftrightarrow> n div ARITY ^ l \<le> n div ARITY ^ Suc l * ARITY"
    by (simp only: length_0_conv [symmetric] diff_is_0_eq)
  show ?thesis unfolding carry empty mod_ARITY_Suc [of n l] by (rule conj_commute)
qed

lemma fold_frontier_ref:
  assumes nok: "note_hash_ok nh" and ls: "\<forall>h\<in>set ls. digest_ok h" and f: "frontier_nodes nh ls 0 (length ls) levels"
  shows "map_option (digest_to_bytes nh) (fold_frontier nh levels l)
    = (if length ls mod ARITY ^ l = 0 then None else Some (ref_node (nh_core nh) ls l (length ls div ARITY ^ l)))"
proof (induction l)
  case 0
  then show ?case by simp
next
  case (Suc l)
  let ?n = "length ls" and ?c = "fold_frontier nh levels l"
  let ?m = "?n div ARITY ^ l" and ?q = "?n div ARITY ^ Suc l"
  let ?nodes = "level_nodes levels l" and ?rest = "case ?c of None \<Rightarrow> [] | Some node \<Rightarrow> [node]"
  have nodes: "map (digest_to_bytes nh) ?nodes = map (ref_node (nh_core nh) ls l) [?q * ARITY..<?m]"
    using f unfolding frontier_nodes_def by simp
  have rest: "map (digest_to_bytes nh) ?rest = (if ?n mod ARITY ^ l = 0 then [] else [ref_node (nh_core nh) ls l ?m])"
    and "?c = None \<longleftrightarrow> ?n mod ARITY ^ l = 0"
    using Suc by (cases ?c; simp split: if_splits)+
  note none = fold_level_none_iff [OF nodes this(2)]
  show ?case
  proof (cases "?n mod ARITY ^ Suc l = 0")
    case True
    then show ?thesis using none by (simp add: fold_level_def Let_def del: power_Suc)
  next
    case False
    let ?cs = "pad_children (?nodes @ ?rest)"
    have len: "length (?nodes @ ?rest) = length (map (digest_to_bytes nh) ?nodes @ map (digest_to_bytes nh) ?rest)"
      by (simp only: length_append length_map)
    have "map (digest_to_bytes nh) ?cs = map (ref_node (nh_core nh) ls l) [?q * ARITY..<?q * ARITY + ARITY]"
      unfolding children_under_construction [OF refl refl refl] Let_def nodes [symmetric] rest [symmetric]
      by (simp only: map_bytes_pad [OF nok] map_append len)
    moreover have "?q * ARITY ^ Suc l < ?n" using False div_mult_mod_eq [of ?n "ARITY ^ Suc l"] by linarith
    ultimately have "digest_to_bytes nh (digest_hash_node nh ?cs) = ref_node (nh_core nh) ls (Suc l) ?q"
      using digest_hash_node_ref [OF nok ls] by blast
    moreover have "fold_frontier nh levels (Suc l) = Some (digest_hash_node nh ?cs)"
      using none False by (simp add: fold_level_def Let_def del: power_Suc)
    ultimately show ?thesis using False by (simp del: power_Suc ref_node.simps)
  qed
qed

lemma depth_for_minimal:
  assumes "1 \<le> d" "d \<le> MAX_TREE_DEPTH" "n \<le> ARITY ^ d" "\<And>k. 1 \<le> k \<Longrightarrow> k < d \<Longrightarrow> ARITY ^ k < n"
  shows "depth_for n = Inr d"
proof -
  have "find (\<lambda>depth. n \<le> ARITY ^ depth) [1..<MAX_TREE_DEPTH + 1] = Some d"
    unfolding find_Some_iff using assms by (intro exI [of _ "d - 1"]) (auto simp: not_le simp del: upt_Suc power_Suc)
  then show ?thesis by (simp add: depth_for_def)
qed

lemma frontier_nodes_append:
  assumes "frontier_nodes nh ls 0 (length ls) levels"
  shows "frontier_nodes nh (ls @ zs) 0 (length ls) levels"
proof -
  have "ref_node (nh_core nh) (ls @ zs) k j = ref_node (nh_core nh) ls k j" if "j < length ls div ARITY ^ k" for k j
  proof (rule ref_node_append)
    have "Suc j * ARITY ^ k \<le> length ls div ARITY ^ k * ARITY ^ k" using that by (intro mult_le_mono1) simp
    then show "Suc j * ARITY ^ k \<le> length ls" by (rule le_trans) simp
  qed
  then show ?thesis using assms by (simp add: frontier_nodes_def del: ref_node.simps power_Suc cong: map_cong)
qed

definition frontier_of :: "note_hash \<Rightarrow> felt_digest list \<Rightarrow> tree_frontier" where
  "frontier_of nh leaves = foldl (frontier_push nh) frontier_new leaves"

lemma frontier_of_nodes:
  assumes nok: "note_hash_ok nh"
  shows "\<forall>h\<in>set (map (digest_to_bytes nh) leaves). digest_ok h \<Longrightarrow> length leaves < 2 ^ 64 \<Longrightarrow>
    frontier_nodes nh (map (digest_to_bytes nh) leaves) 0 (length leaves) (fr_levels (frontier_of nh leaves))
    \<and> fr_count (frontier_of nh leaves) = length leaves"
proof (induction leaves rule: rev_induct)
  case Nil
  then show ?case by (simp add: frontier_of_def frontier_new_def frontier_nodes_def)
next
  case (snoc leaf leaves)
  let ?ls = "map (digest_to_bytes nh) leaves" and ?levels = "fr_levels (frontier_of nh leaves)"
  have ih: "frontier_nodes nh ?ls 0 (length ?ls) ?levels" and cnt: "fr_count (frontier_of nh leaves) = length leaves"
    using snoc by simp_all
  have "frontier_nodes nh (?ls @ [digest_to_bytes nh leaf]) 0 (Suc (length ?ls)) (push_levels nh ?levels leaf)"
    using snoc.prems(1) by (intro push_levels_nodes [OF nok _ frontier_nodes_append [OF ih]]) (simp_all add: nth_append)
  moreover have "frontier_of nh (leaves @ [leaf]) = frontier_push nh (frontier_of nh leaves) leaf" by (simp add: frontier_of_def)
  ultimately show ?case using cnt snoc.prems(2) by (simp add: frontier_push_def sat_add_def)
qed

lemma capacity_pow: "1 \<le> d \<Longrightarrow> d \<le> CIRCUIT_MAX_TREE_DEPTH \<Longrightarrow> capacity_at_depth d = ARITY ^ d"
proof -
  assume d: "1 \<le> d" "d \<le> CIRCUIT_MAX_TREE_DEPTH"
  then have "ARITY ^ d \<le> 4 ^ 20" unfolding ARITY_def CIRCUIT_MAX_TREE_DEPTH_def by (intro power_increasing) simp_all
  then have "ARITY ^ d \<le> 2 ^ 64 - 1" by simp
  then show ?thesis using d(1) by (simp add: capacity_at_depth_def)
qed

lemma depth_for_tree:
  assumes inv: "tree_inv pc t" and pos: "settled_leaves t \<noteq> []"
  shows "1 \<le> Depth t" "depth_for (length (settled_leaves t)) = Inr (Depth t)" "length (settled_leaves t) \<le> ARITY ^ Depth t"
proof -
  let ?n = "length (settled_leaves t)"
  have d: "Depth t \<le> CIRCUIT_MAX_TREE_DEPTH" "?n \<le> capacity_at_depth (Depth t)" "\<forall>d < Depth t. capacity_at_depth d < ?n"
    using inv by (simp_all add: tree_inv_def)
  show pos': "1 \<le> Depth t" using d(2) pos by (cases "Depth t") (simp_all add: capacity_at_depth_def del: length_settled_leaves)
  show le: "?n \<le> ARITY ^ Depth t" using d(2) capacity_le_pow by (rule le_trans)
  show "depth_for ?n = Inr (Depth t)"
  proof (rule depth_for_minimal [OF pos' _ le])
    show "Depth t \<le> MAX_TREE_DEPTH" using d(1) by (simp add: CIRCUIT_MAX_TREE_DEPTH_def MAX_TREE_DEPTH_def)
    fix k assume k: "1 \<le> k" "k < Depth t"
    then have "capacity_at_depth k < ?n" using d(3) by blast
    moreover have "capacity_at_depth k = ARITY ^ k" using k d(1) by (intro capacity_pow) linarith+
    ultimately show "ARITY ^ k < ?n" by (simp only:)
  qed
qed

lemma frontier_root_ref:
  assumes nok: "note_hash_ok nh" and inv: "tree_inv (nh_core nh) t" "leaves_ok t"
    and leaves: "map (digest_to_bytes nh) leaves = settled_leaves t"
  shows "frontier_depth (frontier_of nh leaves) = Inr (Depth t)"
    and "\<exists>root. frontier_root nh (frontier_of nh leaves) = Inr root \<and> digest_to_bytes nh root = Root t"
proof -
  let ?ls = "settled_leaves t" and ?f = "frontier_of nh leaves" and ?d = "Depth t"
  have ok: "\<forall>h\<in>set ?ls. digest_ok h" using inv(2) by (auto simp: leaves_ok_def settled_leaves_def dest: in_set_takeD)
  have root: "Root t = ref_node (nh_core nh) ?ls ?d 0" using inv(1) by (simp add: tree_inv_def)
  have len: "length leaves = length ?ls" using arg_cong [OF leaves, of length] by simp
  have "LeafCount t \<le> 4 ^ 20" using inv(1) by (simp add: tree_inv_def capacity_CIRCUIT)
  then have "length ?ls \<le> 4 ^ 20" unfolding length_settled_leaves by linarith
  then have small: "length leaves < 2 ^ 64" using len by simp
  have nodes: "frontier_nodes nh ?ls 0 (length ?ls) (fr_levels ?f)" and cnt: "fr_count ?f = length ?ls"
    using frontier_of_nodes [OF nok, of leaves] ok small unfolding leaves len by simp_all
  have both: "frontier_depth ?f = Inr ?d \<and> (\<exists>root. frontier_root nh ?f = Inr root \<and> digest_to_bytes nh root = Root t)"
  proof (cases "?ls = []")
    case True
    have "\<forall>d < ?d. capacity_at_depth d < length ?ls" using inv(1) unfolding tree_inv_def by (elim conjE)
    then have "?d = 0" unfolding True by simp (metis gr0I)
    then show ?thesis using True root cnt by (simp add: frontier_depth_def frontier_root_def bytes_empty_digest [OF nok])
  next
    case False
    note d = depth_for_tree [OF inv(1) False]
    have depth: "frontier_depth ?f = Inr ?d" using d(2) cnt False by (simp add: frontier_depth_def del: length_settled_leaves)
    note fold = fold_frontier_ref [OF nok ok nodes, of ?d]
    show ?thesis
    proof (cases "length ?ls = ARITY ^ ?d")
      case True
      then have "fold_frontier nh (fr_levels ?f) ?d = None" using fold by (simp del: length_settled_leaves)
      moreover have "map (digest_to_bytes nh) (level_nodes (fr_levels ?f) ?d) = [Root t]"
        using nodes True root unfolding frontier_nodes_def by (simp add: ARITY_def del: ref_node.simps length_settled_leaves)
      ultimately show ?thesis using depth d(1) by (cases "level_nodes (fr_levels ?f) ?d") (simp_all add: frontier_root_def)
    next
      case False
      then have "length ?ls < ARITY ^ ?d" using d(3) by simp
      then have "map_option (digest_to_bytes nh) (fold_frontier nh (fr_levels ?f) ?d) = Some (Root t)"
        using fold root \<open>?ls \<noteq> []\<close> by (simp del: ref_node.simps length_settled_leaves)
      then show ?thesis using depth d(1) by (auto simp: frontier_root_def)
    qed
  qed
  then show "frontier_depth ?f = Inr ?d" and "\<exists>root. frontier_root nh ?f = Inr root \<and> digest_to_bytes nh root = Root t"
    by simp_all
qed

section \<open>The adapter\<close>

lemma position_of_nth: "x \<in> set xs \<Longrightarrow> position_of x xs < length xs \<and> xs ! position_of x xs = x"
  unfolding position_of_def by (induction xs) auto

lemma length_four: "length xs = 4 \<Longrightarrow> \<exists>a b c d. xs = [a, b, c, d]"
  by (auto simp: numeral_eq_Suc length_Suc_conv)

lemma siblings_of_slot:
  assumes "length xs = 4" "p < 4" "xs ! p = x"
  defines "sibs \<equiv> map (\<lambda>slot. xs ! slot) (filter (\<lambda>slot. slot \<noteq> p) [0..<length xs])"
  shows "place_children p x sibs = xs" "insert_child p x sibs = xs" "length sibs = 3" "set sibs \<subseteq> set xs"
proof -
  obtain a b c d where xs: "xs = [a, b, c, d]" using length_four [OF assms(1)] by blast
  consider "p = 0" | "p = 1" | "p = 2" | "p = 3" using assms(2) by linarith
  then have "place_children p x sibs = xs \<and> insert_child p x sibs = xs \<and> length sibs = 3 \<and> set sibs \<subseteq> set xs"
    using assms(3) by cases (auto simp: xs sibs_def place_children_def insert_child_def ARITY_def upt_rec)
  then show "place_children p x sibs = xs" "insert_child p x sibs = xs" "length sibs = 3" "set sibs \<subseteq> set xs" by blast+
qed

lemma sorted_level_spec:
  assumes "length sibs = 3" "sorted_level nh current sibs = (children, position, others)"
  shows "children = sort_key (digest_to_bytes nh) (current # sibs)" "position < 4" "place_children position current others = children"
    "insert_child position current others = children" "length others = 3" "set others \<subseteq> set (current # sibs)"
proof -
  show children: "children = sort_key (digest_to_bytes nh) (current # sibs)"
    using assms(2) unfolding sorted_level_def Let_def by (metis prod.inject)
  have position: "position = position_of current children"
    and others: "others = map (\<lambda>slot. children ! slot) (filter (\<lambda>slot. slot \<noteq> position) [0..<length children])"
    using assms(2) children unfolding sorted_level_def Let_def by blast+
  have len: "length children = 4" using assms(1) by (simp add: children)
  have "current \<in> set children" by (simp only: children set_sort) simp
  then have p: "position < 4" "children ! position = current"
    using position_of_nth [of current children] len by (simp_all add: position)
  show "position < 4" by (rule p)
  note slot = siblings_of_slot [OF len p, folded others]
  show "place_children position current others = children" "insert_child position current others = children" "length others = 3"
    by (rule slot)+
  show "set others \<subseteq> set (current # sibs)" using slot(4) by (simp only: children set_sort)
qed

lemma from_unsorted_levels_root:
  fixes nh :: note_hash
  assumes "list_all (\<lambda>s. length s = 3) sibs"
  defines "path \<equiv> from_unsorted_levels nh sibs"
  shows "length (mp_siblings (path leaf)) = length sibs \<and> length (mp_positions (path leaf)) = length sibs
    \<and> list_all (\<lambda>s. length s = 3) (mp_siblings (path leaf)) \<and> list_all (\<lambda>p. p < 4) (mp_positions (path leaf))
    \<and> merkle_path_root_levels nh (zip (mp_siblings (path leaf)) (mp_positions (path leaf))) leaf
        = Inr (foldl (\<lambda>current s. digest_hash_node nh (current # s)) leaf sibs)
    \<and> path_root nh (zip (mp_positions (path leaf)) (mp_siblings (path leaf))) leaf
        = foldl (\<lambda>current s. digest_hash_node nh (current # s)) leaf sibs"
  using assms(1) unfolding path_def
proof (induction sibs arbitrary: leaf)
  case Nil
  then show ?case by simp
next
  case (Cons s sibs)
  obtain children position others where lv: "sorted_level nh leaf s = (children, position, others)" by (rule prod_cases3)
  have "length s = 3" using Cons.prems by simp
  note spec = sorted_level_spec [OF this lv]
  have hash: "hash_node_presorted nh children = digest_hash_node nh (leaf # s)" by (simp add: digest_hash_node_def spec(1))
  have concat: "hash_to_felts nh (concat children) = digest_hash_node nh (leaf # s)" using hash by (simp add: hash_node_presorted_def)
  show ?case using Cons spec(2,3,4,5) by (simp add: lv hash concat ARITY_def Let_def)
qed

section \<open>The full tree holds the pallet's nodes\<close>

lemma length_chunks: "0 < n \<Longrightarrow> i < length (chunks n xs) \<longleftrightarrow> i * n < length xs"
proof (induction n xs arbitrary: i rule: chunks.induct)
  case (1 n)
  then show ?case by simp
next
  case (2 n x xs)
  show ?case
  proof (cases i)
    case (Suc j)
    then have "i < length (chunks n (x # xs)) \<longleftrightarrow> j * n < length (drop (n - 1) xs)" using 2 by simp
    also have "\<dots> \<longleftrightarrow> j * n + n < length (x # xs)" using 2(2) by (simp add: less_diff_conv)
    finally show ?thesis by (simp add: Suc add.commute)
  qed simp
qed

lemma nth_chunks: "0 < n \<Longrightarrow> i * n < length xs \<Longrightarrow> chunks n xs ! i = take n (drop (i * n) xs)"
proof (induction n xs arbitrary: i rule: chunks.induct)
  case (1 n)
  then show ?case by simp
next
  case (2 n x xs)
  show ?case
  proof (cases i)
    case 0
    then show ?thesis using 2(2) by (cases n) simp_all
  next
    case (Suc j)
    obtain m where m: "n = Suc m" using 2(2) by (cases n) simp_all
    have "j * n < length (drop (n - 1) xs)" using 2(3) by (simp add: Suc m less_diff_conv)
    from 2(1) [OF 2(2) this] show ?thesis by (simp add: Suc m ac_simps)
  qed
qed

lemma pad_chunk:
  "i * ARITY < length xs \<Longrightarrow> pad_children (take ARITY (drop (i * ARITY) xs)) = map (nth_or_empty xs) [i * ARITY..<i * ARITY + ARITY]"
  by (rule nth_equalityI) (auto simp: pad_children_def nth_append nth_or_empty_def)

lemma nth_tree_levels: "l < d \<Longrightarrow> tree_levels nh d below ! Suc l =
    map (\<lambda>chunk. digest_hash_node nh (pad_children chunk)) (chunks ARITY (tree_levels nh d below ! l))"
proof (induction d arbitrary: below l)
  case (Suc d)
  then show ?case by (cases l; cases d) simp_all
qed simp

lemma nth_tree_levels_0 [simp]: "tree_levels nh d below ! 0 = below"
  by (cases d) simp_all

lemma tree_levels_length: "l \<le> d \<Longrightarrow> i < length (tree_levels nh d leaves ! l) \<longleftrightarrow> i * ARITY ^ l < length leaves"
proof (induction l arbitrary: i)
  case (Suc l)
  have "i < length (tree_levels nh d leaves ! Suc l) \<longleftrightarrow> i * ARITY < length (tree_levels nh d leaves ! l)"
    using Suc.prems nth_tree_levels [of l d nh leaves] by (simp add: length_chunks ARITY_def)
  also have "\<dots> \<longleftrightarrow> i * ARITY * ARITY ^ l < length leaves" using Suc by simp
  finally show ?case by (simp add: mult.assoc)
qed simp

lemma tree_levels_node:
  assumes "l < d" "i * ARITY ^ Suc l < length leaves"
  shows "nth_or_empty (tree_levels nh d leaves ! Suc l) i
    = digest_hash_node nh (map (nth_or_empty (tree_levels nh d leaves ! l)) [i * ARITY..<i * ARITY + ARITY])"
proof -
  have i: "i < length (tree_levels nh d leaves ! Suc l)" using tree_levels_length [of "Suc l" d i nh leaves] assms by simp
  have lt: "i * ARITY < length (tree_levels nh d leaves ! l)"
    using tree_levels_length [of l d "i * ARITY" nh leaves] assms by (simp add: mult.assoc)
  then show ?thesis
    using i nth_tree_levels [OF assms(1), of nh leaves]
    by (simp add: nth_or_empty_def nth_chunks ARITY_def length_chunks pad_chunk [unfolded ARITY_def] del: upt_Suc)
qed

lemma tree_levels_ref:
  assumes nok: "note_hash_ok nh" and ls: "\<forall>h\<in>set (map (digest_to_bytes nh) leaves). digest_ok h"
  shows "l \<le> d \<Longrightarrow> digest_to_bytes nh (nth_or_empty (tree_levels nh d leaves ! l) i)
    = ref_node (nh_core nh) (map (digest_to_bytes nh) leaves) l i"
proof (induction l arbitrary: i)
  case 0
  then show ?case by (simp add: nth_or_empty_def bytes_empty_digest [OF nok])
next
  case (Suc l)
  show ?case
  proof (cases "i * ARITY ^ Suc l < length leaves")
    case True
    have "map (digest_to_bytes nh) (map (nth_or_empty (tree_levels nh d leaves ! l)) [i * ARITY..<i * ARITY + ARITY])
        = map (ref_node (nh_core nh) (map (digest_to_bytes nh) leaves) l) [i * ARITY..<i * ARITY + ARITY]"
      using Suc by simp
    from digest_hash_node_ref [OF nok ls _ this] True show ?thesis
      using Suc.prems tree_levels_node [of l d i leaves nh] by (simp del: ref_node.simps power_Suc)
  next
    case False
    then have "nth_or_empty (tree_levels nh d leaves ! Suc l) i = empty_digest"
      using tree_levels_length [OF Suc.prems, of i nh leaves] by (simp add: nth_or_empty_def del: power_Suc)
    then show ?thesis using False ref_node_empty [of "map (digest_to_bytes nh) leaves" i "Suc l"]
      by (simp add: bytes_empty_digest [OF nok] del: ref_node.simps power_Suc)
  qed
qed

section \<open>Paths of the full tree\<close>

lemma sort_key_mset:
  assumes nok: "note_hash_ok nh" and "mset xs = mset ys"
  shows "sort_key (digest_to_bytes nh) xs = sort_key (digest_to_bytes nh) ys"
proof -
  have "mset (map (digest_to_bytes nh) xs) = mset (map (digest_to_bytes nh) ys)" using assms(2) by simp
  then have "sort (map (digest_to_bytes nh) xs) = sort (map (digest_to_bytes nh) ys)" by (metis sorted_list_of_multiset_mset)
  then have "map (digest_to_bytes nh) (sort_key (digest_to_bytes nh) xs) = map (digest_to_bytes nh) (sort_key (digest_to_bytes nh) ys)"
    by (simp only: sort_map_key)
  then show ?thesis by (rule map_injective) (rule injI, rule digest_to_bytes_inject [OF nok])
qed

lemma length_levels: "length (index_ordered_levels t levels i) = length levels"
  by (induction levels arbitrary: i) (simp_all add: Let_def)

definition wallet_tree :: "note_hash \<Rightarrow> nat \<Rightarrow> felt_digest list \<Rightarrow> commitment_tree" where
  "wallet_tree nh d leaves = \<lparr>ct_depth = d, ct_levels = tree_levels nh d leaves\<rparr>"

lemma wallet_tree_sel [simp]: "ct_depth (wallet_tree nh d leaves) = d" "ct_levels (wallet_tree nh d leaves) = tree_levels nh d leaves"
  by (simp_all add: wallet_tree_def)

lemma level_step:
  fixes nh leaves d l i
  assumes nok: "note_hash_ok nh" and l: "l < d" "i * ARITY ^ l < length leaves"
  defines "N \<equiv> \<lambda>k. nth_or_empty (tree_levels nh d leaves ! k)"
  defines "sibs \<equiv> map (N l) (filter (\<lambda>k. k \<noteq> i) (map (\<lambda>slot. i div ARITY * ARITY + slot) [0..<ARITY]))"
    and "children \<equiv> map (\<lambda>slot. N l (i div ARITY * ARITY + slot)) [0..<ARITY]"
  shows "length sibs = 3" "sort_key (digest_to_bytes nh) (N l i # sibs) = sort_key (digest_to_bytes nh) children"
    "digest_hash_node nh (N l i # sibs) = N (Suc l) (i div ARITY)" "children ! (i - i div ARITY * ARITY) = N l i"
    "i div ARITY * ARITY ^ Suc l < length leaves"
proof -
  have "\<exists>a b c. sibs = [a, b, c] \<and> mset [N l i, a, b, c] = mset children"
    unfolding sibs_def children_def by (rule siblings_mset [OF refl])
  then obtain a b c where s: "sibs = [a, b, c]" and m: "mset [N l i, a, b, c] = mset children" by (elim exE conjE)
  show "length sibs = 3" by (simp add: s)
  show sorted: "sort_key (digest_to_bytes nh) (N l i # sibs) = sort_key (digest_to_bytes nh) children"
    using m unfolding s by (rule sort_key_mset [OF nok])
  have "i div ARITY * ARITY * ARITY ^ l \<le> i * ARITY ^ l" by (intro mult_le_mono1 div_times_less_eq_dividend)
  then have "i div ARITY * ARITY ^ Suc l \<le> i * ARITY ^ l" by (simp only: power_Suc mult.assoc)
  then show room: "i div ARITY * ARITY ^ Suc l < length leaves" using l(2) by (rule le_less_trans)
  have children: "children = map (N l) [i div ARITY * ARITY..<i div ARITY * ARITY + ARITY]"
    unfolding children_def by (rule nth_equalityI) simp_all
  have "digest_hash_node nh (N l i # sibs) = digest_hash_node nh children" unfolding digest_hash_node_def sorted by (rule refl)
  also have "\<dots> = N (Suc l) (i div ARITY)" unfolding children N_def by (rule tree_levels_node [OF l(1) room, symmetric])
  finally show "digest_hash_node nh (N l i # sibs) = N (Suc l) (i div ARITY)" .
  have "i - i div ARITY * ARITY = i mod ARITY" by (rule minus_div_mult_eq_mod)
  moreover have "i mod ARITY < ARITY" by (rule mod_less_divisor) (simp add: ARITY_def)
  ultimately have "i - i div ARITY * ARITY < ARITY" by (simp only:)
  moreover have "i div ARITY * ARITY + (i - i div ARITY * ARITY) = i" by (intro le_add_diff_inverse div_times_less_eq_dividend)
  ultimately show "children ! (i - i div ARITY * ARITY) = N l i"
    unfolding children_def by (simp only: nth_map length_upt nth_upt diff_zero add_0)
qed

lemma tree_path_levels_unsorted:
  assumes nok: "note_hash_ok nh"
  shows "l \<le> d \<Longrightarrow> i * ARITY ^ l < length leaves \<Longrightarrow>
    tree_path_levels nh (wallet_tree nh d leaves) [l..<d] i
      = from_unsorted_levels nh (index_ordered_levels (wallet_tree nh d leaves) [l..<d] i) (nth_or_empty (tree_levels nh d leaves ! l) i)
    \<and> list_all (\<lambda>s. length s = 3) (index_ordered_levels (wallet_tree nh d leaves) [l..<d] i)
    \<and> foldl (\<lambda>current s. digest_hash_node nh (current # s)) (nth_or_empty (tree_levels nh d leaves ! l) i)
        (index_ordered_levels (wallet_tree nh d leaves) [l..<d] i)
      = nth_or_empty (tree_levels nh d leaves ! d) (i div ARITY ^ (d - l))"
proof (induction "d - l" arbitrary: l i)
  case 0
  then have "d = l" by linarith
  then show ?case by simp
next
  case (Suc n)
  then have l: "l < d" by linarith
  have levels: "[l..<d] = l # [Suc l..<d]" by (rule upt_conv_Cons [OF l])
  note step = level_step [OF nok l Suc.prems(2)]
  have div: "i div ARITY div ARITY ^ (d - Suc l) = i div ARITY ^ (d - l)" using l by (metis Suc_diff_Suc div_mult2_eq power_Suc)
  have "n = d - Suc l" "Suc l \<le> d" using Suc.hyps(2) l by linarith+
  note ih = Suc.hyps(1) [OF this step(5)]
  have hash: "hash_node_presorted nh (sort_key (digest_to_bytes nh) (nth_or_empty (tree_levels nh d leaves ! l) i #
      map (nth_or_empty (tree_levels nh d leaves ! l)) (filter (\<lambda>k. k \<noteq> i) (map (\<lambda>slot. i div ARITY * ARITY + slot) [0..<ARITY]))))
      = nth_or_empty (tree_levels nh d leaves ! Suc l) (i div ARITY)"
    using step(3) by (simp only: digest_hash_node_def)
  show ?case
    unfolding levels tree_path_levels.simps index_ordered_levels.simps from_unsorted_levels.simps sorted_level_def Let_def prod.case
      wallet_tree_sel step(2,4) foldl.simps list.pred_inject hash [unfolded step(2)] step(3)
    using ih step(1) div by (simp only: merkle_path.simps)
qed

lemma index_levels_triples:
  assumes nok: "note_hash_ok nh" and inv: "tree_inv (nh_core nh) t" "leaves_ok t" "UnprocessedLeaves t = 0"
    and leaves: "map (digest_to_bytes nh) leaves = all_leaves t"
  shows "l \<le> Depth t \<Longrightarrow> map (\<lambda>s. triple_of (map (digest_to_bytes nh) s))
      (index_ordered_levels (wallet_tree nh (Depth t) leaves) [l..<Depth t] c) = generate_levels t c [Suc l..<Suc (Depth t)]"
proof (induction "Depth t - l" arbitrary: l c)
  case 0
  then have "Depth t = l" by linarith
  then show ?case by simp
next
  case (Suc n)
  then have l: "l < Depth t" by linarith
  have levels: "[l..<Depth t] = l # [Suc l..<Depth t]" "[Suc l..<Suc (Depth t)] = Suc l # [Suc (Suc l)..<Suc (Depth t)]"
    using l by (intro upt_conv_Cons; simp)+
  have ok: "\<forall>h\<in>set (map (digest_to_bytes nh) leaves). digest_ok h" unfolding leaves using inv(2) by (simp add: leaves_ok_def)
  have ref: "digest_to_bytes nh (nth_or_empty (tree_levels nh (Depth t) leaves ! l) i) = ref_node (nh_core nh) (all_leaves t) l i" for i
    using tree_levels_ref [OF nok ok less_imp_le [OF l], of i] unfolding leaves .
  have "n = Depth t - Suc l" "Suc l \<le> Depth t" using Suc.hyps(2) l by linarith+
  note ih = Suc.hyps(1) [OF this]
  show ?case
    unfolding levels index_ordered_levels.simps Let_def list.map ih generate_levels.simps wallet_tree_sel
      level_siblings_ref [OF inv(1,3) l] map_map o_def ref ..
qed

lemma triples_inject:
  assumes nok: "note_hash_ok nh"
  shows "list_all (\<lambda>s. length s = 3) xs \<Longrightarrow> list_all (\<lambda>s. length s = 3) ys \<Longrightarrow>
    map (\<lambda>s. triple_of (map (digest_to_bytes nh) s)) xs = map (\<lambda>s. triple_of (map (digest_to_bytes nh) s)) ys \<Longrightarrow> xs = ys"
proof (induction xs arbitrary: ys)
  case (Cons x xs)
  obtain y ys' where ys: "ys = y # ys'" using Cons.prems(3) by (cases ys) simp_all
  have three: "\<exists>a b c. s = [a, b, c]" if "length s = 3" for s :: "felt_digest list"
    using that by (auto simp: numeral_eq_Suc length_Suc_conv)
  obtain a b c where x: "x = [a, b, c]" using three [of x] Cons.prems(1) by auto
  obtain d e f where y: "y = [d, e, f]" using three [of y] Cons.prems(2) ys by auto
  have "a = d \<and> b = e \<and> c = f"
    using Cons.prems(3) digest_to_bytes_inject [OF nok] by (simp add: ys x y triple_of_def)
  then show ?case using Cons ys by (simp add: x y)
qed simp

lemma commitment_tree_new_ok:
  assumes "leaves \<noteq> []" "1 \<le> d" "d \<le> MAX_TREE_DEPTH" "length leaves \<le> ARITY ^ d"
  shows "commitment_tree_new nh leaves d = Inr (wallet_tree nh d leaves)"
  using assms by (simp add: commitment_tree_new_def wallet_tree_def)

lemma tree_root_ref:
  assumes "leaves \<noteq> []"
  shows "tree_root (wallet_tree nh d leaves) = nth_or_empty (tree_levels nh d leaves ! d) 0"
  using assms tree_levels_length [of d d 0 nh leaves] by (simp add: tree_root_def nth_or_empty_def)

section \<open>Properties\<close>

text \<open>
  C25: The wallet's trees are the chain's. A wallet that replays the settled leaves of any tree the chain can
  reach into the append-only frontier gets the depth and the root the pallet stores, at every number of
  leaves, the empty and the exactly full tree included; the full tree built at that depth has the same root.
\<close>

theorem wallet_tree_matches_chain:
  assumes "note_hash_ok nh" "zk_reachable (nh_core nh) t" "map (digest_to_bytes nh) leaves = settled_leaves t"
  shows "frontier_depth (foldl (frontier_push nh) frontier_new leaves) = Inr (Depth t)
    \<and> (\<exists>root. frontier_root nh (foldl (frontier_push nh) frontier_new leaves) = Inr root \<and> digest_to_bytes nh root = Root t
        \<and> (leaves = [] \<or> (\<exists>w. commitment_tree_new nh leaves (Depth t) = Inr w \<and> tree_root w = root)))"
proof -
  have inv: "tree_inv (nh_core nh) t" "leaves_ok t" using zk_reachable_inv [OF assms(2) note_hash_okD(1) [OF assms(1)]] by simp_all
  have ok: "\<forall>h\<in>set (map (digest_to_bytes nh) leaves). digest_ok h"
    unfolding assms(3) using inv(2) by (auto simp: leaves_ok_def settled_leaves_def dest: in_set_takeD)
  note frontier = frontier_root_ref [OF assms(1) inv assms(3), unfolded frontier_of_def]
  obtain root where root: "frontier_root nh (foldl (frontier_push nh) frontier_new leaves) = Inr root" "digest_to_bytes nh root = Root t"
    using frontier(2) by (elim exE conjE)
  have "\<exists>w. commitment_tree_new nh leaves (Depth t) = Inr w \<and> tree_root w = root" if ne: "leaves \<noteq> []"
  proof -
    have ls: "settled_leaves t \<noteq> []" using ne unfolding assms(3) [symmetric] by simp
    have len: "length leaves = length (settled_leaves t)" unfolding assms(3) [symmetric] by simp
    note d = depth_for_tree [OF inv(1) ls]
    have "Depth t \<le> MAX_TREE_DEPTH" using inv(1) by (simp add: tree_inv_def CIRCUIT_MAX_TREE_DEPTH_def MAX_TREE_DEPTH_def)
    then have new: "commitment_tree_new nh leaves (Depth t) = Inr (wallet_tree nh (Depth t) leaves)"
      using d(3) unfolding len [symmetric] by (rule commitment_tree_new_ok [OF ne d(1)])
    have "digest_to_bytes nh (tree_root (wallet_tree nh (Depth t) leaves)) = Root t"
      unfolding tree_root_ref [OF ne] tree_levels_ref [OF assms(1) ok order_refl] assms(3)
      using inv(1) by (simp add: tree_inv_def del: ref_node.simps)
    then have "tree_root (wallet_tree nh (Depth t) leaves) = root"
      unfolding root(2) [symmetric] by (rule digest_to_bytes_inject [OF assms(1)])
    then show ?thesis using new by blast
  qed
  then show ?thesis using frontier(1) root by blast
qed

definition sample_leaf :: felt_digest where
  "sample_leaf = map felt_from_u64 [1, 2, 3, 4]"

lemma sample_leaf_bytes: "digest_to_bytes sample_note_hash sample_leaf = sample_commitment"
  by (simp add: note_hash_okD(4) [OF sample_note_hash_ok] sample_leaf_def sample_commitment_def GOLDILOCKS_P_def)

lemma sample_tree_leaves: "all_leaves sample_tree = [sample_commitment]" "settled_leaves sample_tree = [sample_commitment]"
  "UnprocessedLeaves sample_tree = 0" "LeafCount sample_tree = 1" "Depth sample_tree = 1"
  by (simp_all add: all_leaves_def settled_leaves_def sample_tree_def one_leaf_tree_def get_leaf_hash_def Let_def)

lemma sample_tree_core: "zk_reachable (nh_core sample_note_hash) sample_tree"
  using sample_tree_reachable by (simp add: sample_note_hash_def)

theorem wallet_tree_matches_chain_witness:
  "\<exists>root. frontier_root sample_note_hash (frontier_push sample_note_hash frontier_new sample_leaf) = Inr root
     \<and> digest_to_bytes sample_note_hash root = Root sample_tree
     \<and> (\<exists>w. commitment_tree_new sample_note_hash [sample_leaf] 1 = Inr w \<and> tree_root w = root)"
  using wallet_tree_matches_chain [OF sample_note_hash_ok sample_tree_core, of "[sample_leaf]"]
  by (auto simp: sample_leaf_bytes sample_tree_leaves)

lemma pallet_proof_path:
  assumes "note_hash_ok nh" "zk_reachable (nh_core nh) t" "UnprocessedLeaves t = 0"
    and "map (digest_to_bytes nh) leaves = all_leaves t" "i < LeafCount t" "get_merkle_proof t i = Inr p"
    and "list_all (\<lambda>s. length s = SIBLINGS_PER_LEVEL) sibs" "map (\<lambda>s. triple_of (map (digest_to_bytes nh) s)) sibs = siblings p"
  shows "\<exists>w path root. commitment_tree_new nh leaves (Depth t) = Inr w
    \<and> index_ordered_siblings w i = Inr sibs \<and> from_unsorted nh sibs (leaves ! i) = Inr path \<and> tree_path nh w i = Inr path
    \<and> merkle_path_root nh path (leaves ! i) = Inr root \<and> digest_to_bytes nh root = Root t"
proof -
  let ?d = "Depth t" let ?w = "wallet_tree nh ?d leaves"
  have inv: "tree_inv (nh_core nh) t" "leaves_ok t" using zk_reachable_inv [OF assms(2) note_hash_okD(1) [OF assms(1)]] by simp_all
  have settled: "settled_leaves t = all_leaves t" using assms(3) by (simp add: settled_leaves_def)
  have len: "length leaves = LeafCount t" using arg_cong [OF assms(4), of length] by simp
  have ne: "leaves \<noteq> []" "settled_leaves t \<noteq> []" using len assms(5) settled by (auto simp flip: length_greater_0_conv)
  note d = depth_for_tree [OF inv(1) ne(2), unfolded settled]
  have max: "?d \<le> MAX_TREE_DEPTH" using inv(1) by (simp add: tree_inv_def CIRCUIT_MAX_TREE_DEPTH_def MAX_TREE_DEPTH_def)
  have fits: "length leaves \<le> ARITY ^ ?d" using d(3) len by simp
  have new: "commitment_tree_new nh leaves ?d = Inr ?w" by (rule commitment_tree_new_ok [OF ne(1) d(1) max fits])
  have i: "i * ARITY ^ 0 < length leaves" "i < length (ct_levels ?w ! 0)" using assms(5) len by simp_all
  note path = tree_path_levels_unsorted [OF assms(1) le0 i(1), of ?d]
  have "siblings p = generate_levels t i [Suc 0..<Suc ?d]"
    using assms(3,5,6) d(1) by (simp add: get_merkle_proof_def generate_proof_def del: upt_Suc) (auto simp del: upt_Suc)
  then have "map (\<lambda>s. triple_of (map (digest_to_bytes nh) s)) sibs
      = map (\<lambda>s. triple_of (map (digest_to_bytes nh) s)) (index_ordered_levels ?w [0..<?d] i)"
    using index_levels_triples [OF assms(1) inv assms(3,4) le0, of i] assms(8) by simp
  then have sibs: "sibs = index_ordered_levels ?w [0..<?d] i"
    using path assms(7) by (intro triples_inject [OF assms(1)]) (simp_all add: SIBLINGS_PER_LEVEL_def)
  have leaf: "nth_or_empty (tree_levels nh ?d leaves ! 0) i = leaves ! i" using i by (simp add: nth_or_empty_def)
  let ?path = "from_unsorted_levels nh sibs (leaves ! i)" and ?root = "foldl (\<lambda>c s. digest_hash_node nh (c # s)) (leaves ! i) sibs"
  have three: "list_all (\<lambda>s. length s = 3) sibs" using assms(7) by (simp add: SIBLINGS_PER_LEVEL_def)
  note root = from_unsorted_levels_root [OF three, of nh "leaves ! i"]
  have slen: "length sibs = ?d" by (simp add: sibs length_levels)
  have "index_ordered_siblings ?w i = Inr sibs" "tree_path nh ?w i = Inr ?path"
    using i(2) path leaf by (simp_all add: index_ordered_siblings_def tree_path_def sibs)
  moreover have "from_unsorted nh sibs (leaves ! i) = Inr ?path" using max slen by (simp add: from_unsorted_def)
  moreover have "merkle_path_root nh ?path (leaves ! i) = Inr ?root" using root max slen by (simp add: merkle_path_root_def)
  moreover have "digest_to_bytes nh ?root = Root t"
  proof -
    have "i div ARITY ^ ?d = 0" using i(1) fits by simp
    then have "?root = nth_or_empty (tree_levels nh ?d leaves ! ?d) 0" using path leaf by (simp add: sibs)
    moreover have "\<forall>h\<in>set (map (digest_to_bytes nh) leaves). digest_ok h" unfolding assms(4) using inv(2) by (simp add: leaves_ok_def)
    ultimately show ?thesis
      using tree_levels_ref [OF assms(1) _ order_refl, of leaves ?d 0] inv(1) settled assms(4) by (simp add: tree_inv_def del: ref_node.simps)
  qed
  ultimately show ?thesis using new by blast
qed

text \<open>
  C26: Two ways to a Merkle path, one path. For every leaf of a finalized tree, the proof the pallet returns,
  decoded and put through the wallet's adapter, and the path the wallet reads off its own tree of the same
  leaves are equal, and recomputing the root along it gives the pallet's root.
\<close>

theorem pallet_proof_is_wallet_path:
  assumes "note_hash_ok nh" "zk_reachable (nh_core nh) t" "UnprocessedLeaves t = 0"
    and "map (digest_to_bytes nh) leaves = all_leaves t" "i < LeafCount t" "get_merkle_proof t i = Inr p"
    and "list_all (\<lambda>s. length s = SIBLINGS_PER_LEVEL) sibs" "map (\<lambda>s. triple_of (map (digest_to_bytes nh) s)) sibs = siblings p"
  shows "\<exists>w path root. commitment_tree_new nh leaves (Depth t) = Inr w
    \<and> index_ordered_siblings w i = Inr sibs \<and> from_unsorted nh sibs (leaves ! i) = Inr path \<and> tree_path nh w i = Inr path
    \<and> merkle_path_root nh path (leaves ! i) = Inr root \<and> digest_to_bytes nh root = Root t"
  using assms by (rule pallet_proof_path)

lemma sample_proof: "get_merkle_proof sample_tree 0 = Inr \<lparr>leaf_index = 0, siblings = [(empty_hash, empty_hash, empty_hash)]\<rparr>"
  by (simp add: get_merkle_proof_def generate_proof_def sample_tree_def one_leaf_tree_def level_siblings_def get_leaf_hash_def
      ARITY_upt [unfolded ARITY_def] ARITY_def triple_of_def Let_def)

theorem pallet_proof_is_wallet_path_witness:
  "\<exists>w path root. commitment_tree_new sample_note_hash [sample_leaf] 1 = Inr w \<and> tree_path sample_note_hash w 0 = Inr path
    \<and> from_unsorted sample_note_hash [[empty_digest, empty_digest, empty_digest]] sample_leaf = Inr path
    \<and> merkle_path_root sample_note_hash path sample_leaf = Inr root \<and> digest_to_bytes sample_note_hash root = Root sample_tree"
  using pallet_proof_is_wallet_path [OF sample_note_hash_ok sample_tree_core sample_tree_leaves(3) _ _ sample_proof,
      of "[sample_leaf]" "[[empty_digest, empty_digest, empty_digest]]"]
  by (auto simp: sample_leaf_bytes sample_tree_leaves SIBLINGS_PER_LEVEL_def triple_of_def bytes_empty_digest [OF sample_note_hash_ok])

end
