(* ===== verification/SpendWitness.thy ===== *)
theory SpendWitness
  imports SpendCircuit WalletTree Header
begin

text \<open>
  What a wallet fills a spend leaf from, \<open>crates/qnero-circuit/src\<close>: the header fragment
  (\<open>header.rs\<close>), the input and output notes, their validation and the assignment they write
  (\<open>witness.rs\<close>), and the padding leaf (\<open>padding.rs\<close>). \<open>Poseidon2Hash::hash_no_pad\<close> is
  the hash the builder's gadget evaluates, \<^const>\<open>hash_to_felts\<close>.

  The lemmas show which witnesses validation refuses and why, that a validated witness satisfies the circuit
  exactly when it is a balanced transfer of notes in the tree, and that a wallet which follows the protocol
  can always spend a settled note.
\<close>

section \<open>The header fragment\<close>

record header_inputs =
  hi_parent_hash :: felt_digest
  hi_block_number :: nat
  hi_state_root :: felt_digest
  hi_extrinsics_root :: felt_digest
  hi_zk_tree_root :: felt_digest
  hi_digest :: "goldilocks list"

datatype witness_error =
    DigestLogsLength nat
  | DigestLogsFelts nat
  | KeyMismatch
  | NonCanonicalInput nat nat
  | NonCanonicalOutput nat nat
  | NonCanonicalFee nat
  | DepthRange nat
  | PathLevels nat nat nat
  | PathDepth nat nat nat
  | PositionRange nat nat nat

definition header_inputs_new ::
  "header_crypto \<Rightarrow> felt_digest \<Rightarrow> nat \<Rightarrow> hash256 \<Rightarrow> hash256 \<Rightarrow> felt_digest \<Rightarrow> byte list \<Rightarrow> (witness_error, header_inputs) result" where
  "header_inputs_new hc parent_hash block_number state_root extrinsics_root zk_root digest_logs =
     ensure (length digest_logs = DIGEST_LOGS_SIZE) (DigestLogsLength (length digest_logs))
       (let felts = bytes_to_felts hc digest_logs
        in ensure (length felts = DIGEST_LOGS_FELTS) (DigestLogsFelts (length felts))
             (Inr \<lparr>hi_parent_hash = parent_hash, hi_block_number = block_number,
                   hi_state_root = bytes_to_digest_lossy hc state_root,
                   hi_extrinsics_root = bytes_to_digest_lossy hc extrinsics_root,
                   hi_zk_tree_root = zk_root, hi_digest = felts\<rparr>))"

definition header_inputs_preimage :: "header_inputs \<Rightarrow> goldilocks list" where
  "header_inputs_preimage h =
     hi_parent_hash h @ [felt_from_u64 (hi_block_number h)] @ hi_state_root h @ hi_extrinsics_root h @ hi_zk_tree_root h @ hi_digest h"

definition header_inputs_block_hash :: "note_hash \<Rightarrow> header_inputs \<Rightarrow> felt_digest" where
  "header_inputs_block_hash nh h = hash_to_felts nh (header_inputs_preimage h)"

section \<open>Notes of a witness\<close>

record input_note =
  iw_ask :: felt_digest
  iw_nk :: felt_digest
  iw_value :: nat
  iw_rho :: felt_digest
  iw_r :: felt_digest
  iw_path :: merkle_path
  iw_is_dummy :: bool

definition input_note_real :: "note_hash \<Rightarrow> derived_keys \<Rightarrow> note_data \<Rightarrow> merkle_path \<Rightarrow> (witness_error, input_note) result" where
  "input_note_real nh keys n path =
     ensure (derive_pk nh (dk_ask keys) (dk_nk keys) = note_pk n) KeyMismatch
       (Inr \<lparr>iw_ask = dk_ask keys, iw_nk = dk_nk keys, iw_value = note_value n, iw_rho = note_rho n, iw_r = note_r n,
             iw_path = path, iw_is_dummy = False\<rparr>)"

definition input_note_dummy :: "derived_keys \<Rightarrow> felt_digest \<Rightarrow> felt_digest \<Rightarrow> nat \<Rightarrow> input_note" where
  "input_note_dummy keys rho r depth =
     \<lparr>iw_ask = dk_ask keys, iw_nk = dk_nk keys, iw_value = 0, iw_rho = rho, iw_r = r,
      iw_path = merkle_path_dummy depth, iw_is_dummy = True\<rparr>"

text \<open>The seed is what the random number generator fills in.\<close>

definition input_note_dummy_random :: "note_hash \<Rightarrow> byte list \<Rightarrow> derived_keys \<Rightarrow> nat \<Rightarrow> input_note option" where
  "input_note_dummy_random nh seed keys depth =
     (case (digest_hash_bytes nh [ascii ''qnero/dummy-rho'', seed], digest_hash_bytes nh [ascii ''qnero/dummy-r'', seed]) of
        (Some rho, Some r) \<Rightarrow> Some (input_note_dummy keys rho r depth)
      | _ \<Rightarrow> None)"

definition input_note_pk :: "note_hash \<Rightarrow> input_note \<Rightarrow> felt_digest" where
  "input_note_pk nh i = derive_pk nh (iw_ask i) (iw_nk i)"

definition input_note_nullifier :: "note_hash \<Rightarrow> input_note \<Rightarrow> felt_digest" where
  "input_note_nullifier nh i =
     (if iw_is_dummy i then dummy_nullifier nh (iw_nk i) (iw_rho i) (iw_r i) else nullifier nh (iw_nk i) (iw_rho i) (iw_r i))"

definition input_note_commitment :: "note_hash \<Rightarrow> input_note \<Rightarrow> felt_digest" where
  "input_note_commitment nh i = commitment_from_inner nh (note_inner nh (input_note_pk nh i) (iw_rho i) (iw_r i)) (iw_value i)"

record output_note =
  ow_pk :: felt_digest
  ow_value :: nat
  ow_r :: felt_digest

definition commitment_with_rho :: "note_hash \<Rightarrow> output_note \<Rightarrow> felt_digest \<Rightarrow> felt_digest" where
  "commitment_with_rho nh out rho = commitment_from_inner nh (note_inner nh (ow_pk out) rho (ow_r out)) (ow_value out)"

record spend_witness =
  w_header :: header_inputs
  w_depth :: nat
  w_inputs :: "input_note list"
  w_outputs :: "output_note list"
  w_fee :: nat
  w_ct_digest :: felt_digest

section \<open>Validation\<close>

fun for_each :: "('a \<Rightarrow> ('e, unit) result) \<Rightarrow> 'a list \<Rightarrow> ('e, unit) result" where
  "for_each f [] = Inr ()"
| "for_each f (x # xs) = rbind (f x) (\<lambda>_. for_each f xs)"

definition ensure_canonical :: "nat \<Rightarrow> witness_error \<Rightarrow> (witness_error, unit) result" where
  "ensure_canonical v e = ensure (v < GOLDILOCKS_P) e (Inr ())"

definition validate_path :: "nat \<Rightarrow> nat \<times> input_note \<Rightarrow> (witness_error, unit) result" where
  "validate_path depth ii =
     (case ii of (index, i) \<Rightarrow>
       let levels = length (mp_siblings (iw_path i)); positions = mp_positions (iw_path i)
       in ensure (levels = length positions) (PathLevels index levels (length positions))
            (ensure (levels = depth) (PathDepth index levels depth)
              (for_each (\<lambda>(level, position). ensure (position < ARITY) (PositionRange index position level) (Inr ()))
                 (enumerate 0 positions))))"

definition witness_validate :: "spend_witness \<Rightarrow> (witness_error, unit) result" where
  "witness_validate w =
     rbind (for_each (\<lambda>(index, i). ensure_canonical (iw_value i) (NonCanonicalInput index (iw_value i))) (enumerate 0 (w_inputs w))) (\<lambda>_.
     rbind (for_each (\<lambda>(index, out). ensure_canonical (ow_value out) (NonCanonicalOutput index (ow_value out))) (enumerate 0 (w_outputs w))) (\<lambda>_.
     rbind (ensure_canonical (w_fee w) (NonCanonicalFee (w_fee w))) (\<lambda>_.
       ensure (1 \<le> w_depth w \<and> w_depth w \<le> MAX_TREE_DEPTH) (DepthRange (w_depth w))
         (for_each (validate_path (w_depth w)) (enumerate 0 (w_inputs w))))))"

section \<open>What a witness publishes\<close>

definition witness_output_rho :: "note_hash \<Rightarrow> spend_witness \<Rightarrow> nat \<Rightarrow> felt_digest" where
  "witness_output_rho nh w index =
     output_rho nh (input_note_nullifier nh (w_inputs w ! 0)) (input_note_nullifier nh (w_inputs w ! 1)) index"

definition witness_output_commitment :: "note_hash \<Rightarrow> spend_witness \<Rightarrow> nat \<Rightarrow> felt_digest" where
  "witness_output_commitment nh w index = commitment_with_rho nh (w_outputs w ! index) (witness_output_rho nh w index)"

definition witness_output_note :: "note_hash \<Rightarrow> spend_witness \<Rightarrow> nat \<Rightarrow> (note_error, note_data) result" where
  "witness_output_note nh w index =
     (let out = w_outputs w ! index in note_new (ow_pk out) (ow_value out) (witness_output_rho nh w index) (ow_r out))"

definition witness_public_inputs :: "note_hash \<Rightarrow> spend_witness \<Rightarrow> goldilocks list" where
  "witness_public_inputs nh w =
     header_inputs_block_hash nh (w_header w) @ [felt_from_u64 (hi_block_number (w_header w))]
     @ concat (map (input_note_nullifier nh) (w_inputs w)) @ concat (map (witness_output_commitment nh w) [0..<NUM_OUTPUTS])
     @ [felt_from_u64 (w_fee w)] @ w_ct_digest w"

section \<open>The assignment\<close>

record public_values =
  pv_block_hash :: felt_digest
  pv_nullifiers :: "felt_digest list"
  pv_commitments :: "felt_digest list"

definition public_values_from_witness :: "note_hash \<Rightarrow> spend_witness \<Rightarrow> public_values" where
  "public_values_from_witness nh w =
     \<lparr>pv_block_hash = header_inputs_block_hash nh (w_header w),
      pv_nullifiers = map (\<lambda>i. input_note_nullifier nh (w_inputs w ! i)) [0..<NUM_INPUTS],
      pv_commitments = map (witness_output_commitment nh w) [0..<NUM_OUTPUTS]\<rparr>"

text \<open>The block number is one target, shared by the public inputs and the header.\<close>

definition fill_public :: "spend_witness \<Rightarrow> public_values \<Rightarrow> spend_targets \<Rightarrow> spend_targets" where
  "fill_public w public t =
     (let number = felt_from_u64 (hi_block_number (w_header w))
      in t\<lparr>t_block_hash := pv_block_hash public, t_block_number := number,
           t_header := (t_header t)\<lparr>ht_block_number := number\<rparr>,
           t_nullifiers := pv_nullifiers public, t_commitments := pv_commitments public,
           t_fee := felt_from_u64 (w_fee w), t_ct_digest := w_ct_digest w\<rparr>)"

definition fill_path :: "merkle_path \<Rightarrow> path_targets" where
  "fill_path path =
     \<lparr>pt_siblings = map (\<lambda>level. map (\<lambda>sibling. case list_get (mp_siblings path) level of
          Some sibs \<Rightarrow> sibs ! sibling | None \<Rightarrow> empty_digest) [0..<SIBLINGS_PER_LEVEL]) [0..<MAX_TREE_DEPTH],
      pt_positions = map (\<lambda>level. felt_from_u64 (case list_get (mp_positions path) level of
          Some position \<Rightarrow> position | None \<Rightarrow> 0)) [0..<MAX_TREE_DEPTH]\<rparr>"

definition fill_input :: "input_note \<Rightarrow> input_targets" where
  "fill_input i =
     \<lparr>in_ask = iw_ask i, in_nk = iw_nk i, in_rho = iw_rho i, in_r = iw_r i, in_value = felt_from_u64 (iw_value i),
      in_path = fill_path (iw_path i), in_is_dummy = felt_of_bool (iw_is_dummy i)\<rparr>"

definition fill_output :: "output_note \<Rightarrow> output_targets" where
  "fill_output out = \<lparr>out_pk = ow_pk out, out_r = ow_r out, out_value = felt_from_u64 (ow_value out)\<rparr>"

definition fill_private :: "spend_witness \<Rightarrow> spend_targets \<Rightarrow> spend_targets" where
  "fill_private w t =
     t\<lparr>t_header := (t_header t)\<lparr>ht_parent_hash := hi_parent_hash (w_header w), ht_state_root := hi_state_root (w_header w),
         ht_extrinsics_root := hi_extrinsics_root (w_header w), ht_zk_tree_root := hi_zk_tree_root (w_header w),
         ht_digest := hi_digest (w_header w)\<rparr>,
       t_depth := felt_from_u64 (w_depth w), t_inputs := map fill_input (w_inputs w), t_outputs := map fill_output (w_outputs w)\<rparr>"

text \<open>
  The partial witness \<open>pw\<close> is the assignment before the call. Setting a target fails only where it already
  has another value; every caller starts from an empty partial witness and no target is set twice, so the model has
  no branch for it.
\<close>

definition fill_witness :: "note_hash \<Rightarrow> spend_targets \<Rightarrow> spend_witness \<Rightarrow> (witness_error, spend_targets) result" where
  "fill_witness nh pw w =
     rbind (witness_validate w) (\<lambda>_. Inr (fill_private w (fill_public w (public_values_from_witness nh w) pw)))"

section \<open>The padding leaf\<close>

definition PADDING_BLOCK_NUMBER :: nat where "PADDING_BLOCK_NUMBER = 0"

definition padding_header :: "note_hash \<Rightarrow> header_crypto \<Rightarrow> header_inputs option" where
  "padding_header nh hc =
     (case digest_hash_bytes nh [ascii ''qnero/padding-header''] of
        None \<Rightarrow> None
      | Some parent_hash \<Rightarrow>
          (case header_inputs_new hc parent_hash PADDING_BLOCK_NUMBER zero_hash zero_hash empty_digest (replicate DIGEST_LOGS_SIZE 0) of
             Inr h \<Rightarrow> Some h | Inl _ \<Rightarrow> None))"

definition padding_block_hash :: "note_hash \<Rightarrow> header_crypto \<Rightarrow> felt_digest option" where
  "padding_block_hash nh hc = map_option (header_inputs_block_hash nh) (padding_header nh hc)"

definition padding_leaf_witness :: "note_hash \<Rightarrow> header_crypto \<Rightarrow> spend_witness option" where
  "padding_leaf_witness nh hc =
     (let hash = \<lambda>parts. digest_hash_bytes nh parts
      in case (padding_header nh hc, those (map hash
            [[ascii ''qnero/padding-ask''], [ascii ''qnero/padding-nk''], [ascii ''qnero/padding-pk''],
             [ascii ''qnero/padding-rho'', [0]], [ascii ''qnero/padding-rho'', [1]],
             [ascii ''qnero/padding-r'', [0]], [ascii ''qnero/padding-r'', [1]],
             [ascii ''qnero/padding-out-r'', [0]], [ascii ''qnero/padding-out-r'', [1]]])) of
          (Some header, Some [ask, nk, pk, rho_0, rho_1, r_0, r_1, out_r_0, out_r_1]) \<Rightarrow>
            Some \<lparr>w_header = header, w_depth = 1,
                  w_inputs = [input_note_dummy \<lparr>dk_ask = ask, dk_nk = nk\<rparr> rho_0 r_0 1, input_note_dummy \<lparr>dk_ask = ask, dk_nk = nk\<rparr> rho_1 r_1 1],
                  w_outputs = [\<lparr>ow_pk = pk, ow_value = 0, ow_r = out_r_0\<rparr>, \<lparr>ow_pk = pk, ow_value = 0, ow_r = out_r_1\<rparr>],
                  w_fee = 0, w_ct_digest = empty_digest\<rparr>
        | _ \<Rightarrow> None)"

section \<open>What validation accepts\<close>

text \<open>What the types of a witness guarantee: array lengths, digests of four limbs, integer widths.\<close>

definition merkle_path_shape :: "merkle_path \<Rightarrow> bool" where
  "merkle_path_shape path \<longleftrightarrow> list_all siblings_ok (mp_siblings path) \<and> list_all (\<lambda>p. p < 256) (mp_positions path)"

definition input_note_shape :: "input_note \<Rightarrow> bool" where
  "input_note_shape i \<longleftrightarrow> length (iw_ask i) = 4 \<and> length (iw_nk i) = 4 \<and> length (iw_rho i) = 4 \<and> length (iw_r i) = 4
     \<and> iw_value i < 2 ^ 64 \<and> merkle_path_shape (iw_path i)"

definition output_note_shape :: "output_note \<Rightarrow> bool" where
  "output_note_shape out \<longleftrightarrow> length (ow_pk out) = 4 \<and> length (ow_r out) = 4 \<and> ow_value out < 2 ^ 64"

definition header_inputs_shape :: "header_inputs \<Rightarrow> bool" where
  "header_inputs_shape h \<longleftrightarrow> length (hi_parent_hash h) = 4 \<and> hi_block_number h < 2 ^ 32 \<and> length (hi_state_root h) = 4
     \<and> length (hi_extrinsics_root h) = 4 \<and> length (hi_zk_tree_root h) = 4 \<and> length (hi_digest h) = DIGEST_LOGS_FELTS"

definition witness_shape :: "spend_witness \<Rightarrow> bool" where
  "witness_shape w \<longleftrightarrow> header_inputs_shape (w_header w) \<and> length (w_inputs w) = NUM_INPUTS \<and> list_all input_note_shape (w_inputs w)
     \<and> length (w_outputs w) = NUM_OUTPUTS \<and> list_all output_note_shape (w_outputs w) \<and> w_fee w < 2 ^ 64 \<and> length (w_ct_digest w) = 4"

definition path_accepted :: "nat \<Rightarrow> merkle_path \<Rightarrow> bool" where
  "path_accepted depth path \<longleftrightarrow> length (mp_siblings path) = depth \<and> length (mp_positions path) = depth \<and> list_all (\<lambda>p. p < ARITY) (mp_positions path)"

definition witness_accepted :: "spend_witness \<Rightarrow> bool" where
  "witness_accepted w \<longleftrightarrow> list_all (\<lambda>i. iw_value i < GOLDILOCKS_P) (w_inputs w) \<and> list_all (\<lambda>out. ow_value out < GOLDILOCKS_P) (w_outputs w)
     \<and> w_fee w < GOLDILOCKS_P \<and> 1 \<le> w_depth w \<and> w_depth w \<le> MAX_TREE_DEPTH
     \<and> list_all (\<lambda>i. path_accepted (w_depth w) (iw_path i)) (w_inputs w)"

lemma for_each_ok: "for_each f xs = Inr () \<longleftrightarrow> list_all (\<lambda>x. f x = Inr ()) xs"
proof (induction xs)
  case (Cons x xs)
  then show ?case by (cases "f x") simp_all
qed simp

lemma list_all_enumerate: "list_all (\<lambda>(k, x). P x) (enumerate n xs) \<longleftrightarrow> list_all P xs"
  by (induction xs arbitrary: n) (simp_all add: enumerate_simps)

lemma ensure_ok_iff: "ensure b e r = Inr x \<longleftrightarrow> b \<and> r = Inr x"
  by (simp add: ensure_def)

lemma rbind_unit_ok: "rbind a (\<lambda>_. b) = Inr x \<longleftrightarrow> is_ok a \<and> b = Inr x"
  by (cases a) (simp_all add: is_ok_def)

lemma unit_ok: "is_ok (r :: ('e, unit) result) \<longleftrightarrow> r = Inr ()"
  by (cases r) (simp_all add: is_ok_def)

lemma validate_path_ok: "validate_path depth (index, i) = Inr () \<longleftrightarrow> path_accepted depth (iw_path i)"
  using list_all_enumerate [of "\<lambda>p. p < ARITY" 0 "mp_positions (iw_path i)"]
  by (auto simp: validate_path_def Let_def ensure_ok_iff for_each_ok path_accepted_def case_prod_unfold)

lemma witness_validate_ok: "witness_validate w = Inr () \<longleftrightarrow> witness_accepted w"
proof -
  have "for_each (\<lambda>(index, i). ensure_canonical (iw_value i) (NonCanonicalInput index (iw_value i))) (enumerate 0 (w_inputs w)) = Inr ()
      \<longleftrightarrow> list_all (\<lambda>i. iw_value i < GOLDILOCKS_P) (w_inputs w)"
    using list_all_enumerate [of "\<lambda>i. iw_value i < GOLDILOCKS_P" 0 "w_inputs w"]
    by (simp add: for_each_ok ensure_canonical_def ensure_ok_iff case_prod_unfold)
  moreover have "for_each (\<lambda>(index, out). ensure_canonical (ow_value out) (NonCanonicalOutput index (ow_value out))) (enumerate 0 (w_outputs w)) = Inr ()
      \<longleftrightarrow> list_all (\<lambda>out. ow_value out < GOLDILOCKS_P) (w_outputs w)"
    using list_all_enumerate [of "\<lambda>out. ow_value out < GOLDILOCKS_P" 0 "w_outputs w"]
    by (simp add: for_each_ok ensure_canonical_def ensure_ok_iff case_prod_unfold)
  moreover have "for_each (validate_path (w_depth w)) (enumerate 0 (w_inputs w)) = Inr ()
      \<longleftrightarrow> list_all (\<lambda>i. path_accepted (w_depth w) (iw_path i)) (w_inputs w)"
  proof -
    have "(\<lambda>x. validate_path (w_depth w) x = Inr ()) = (\<lambda>(k, i). path_accepted (w_depth w) (iw_path i))"
      by (auto simp: validate_path_ok)
    then show ?thesis by (simp add: for_each_ok list_all_enumerate)
  qed
  moreover have "ensure_canonical (w_fee w) (NonCanonicalFee (w_fee w)) = Inr () \<longleftrightarrow> w_fee w < GOLDILOCKS_P"
    by (simp add: ensure_canonical_def ensure_ok_iff)
  ultimately show ?thesis
    unfolding witness_validate_def witness_accepted_def rbind_unit_ok unit_ok ensure_ok_iff by blast
qed

section \<open>A validated witness and the circuit\<close>

lemma fill_witness_ok: "fill_witness nh pw w = Inr t \<longleftrightarrow>
    witness_accepted w \<and> t = fill_private w (fill_public w (public_values_from_witness nh w) pw)"
  by (auto simp: fill_witness_def rbind_unit_ok unit_ok witness_validate_ok)

lemma place_insert:
  assumes "length sibs = 3" "p < 4"
  shows "place_children p c sibs = insert_child p c sibs"
proof -
  obtain x y z where s: "sibs = [x, y, z]" using assms(1) by (auto simp: numeral_eq_Suc length_Suc_conv)
  consider "p = 0" | "p = 1" | "p = 2" | "p = 3" using assms(2) by linarith
  then show ?thesis by cases (simp_all add: s place_children_def insert_child_def ARITY_def upt_rec)
qed

lemma merkle_path_root_levels_path_root:
  "list_all (\<lambda>(s, p). length s = 3 \<and> p < 4) lv \<Longrightarrow> merkle_path_root_levels nh lv c = Inr (path_root nh (map (\<lambda>(s, p). (p, s)) lv) c)"
  by (induction nh lv c rule: merkle_path_root_levels.induct) (simp_all add: ARITY_def place_insert hash_node_presorted_def)

lemma merkle_path_root_ok:
  assumes "path_accepted d path" "d \<le> MAX_TREE_DEPTH" "list_all siblings_ok (mp_siblings path)"
  shows "merkle_path_root nh path c = Inr (path_root nh (zip (mp_positions path) (mp_siblings path)) c)"
proof -
  have "list_all (\<lambda>(s, p). length s = 3 \<and> p < 4) (zip (mp_siblings path) (mp_positions path))"
    using assms by (auto simp: list_all_iff path_accepted_def siblings_ok_def ARITY_def dest: set_zip_leftD set_zip_rightD)
  then show ?thesis
    using assms(1,2) by (simp add: merkle_path_root_def path_accepted_def merkle_path_root_levels_path_root zip_commute [of "mp_positions path"])
qed

lemma felt_small: "n < GOLDILOCKS_P \<Longrightarrow> to_canonical_u64 (felt_from_u64 n) = n"
  by simp

lemma path_of_fill_path:
  assumes "path_accepted d path" "d \<le> MAX_TREE_DEPTH" "list_all siblings_ok (mp_siblings path)"
  shows "take d (path_of (fill_path path)) = zip (mp_positions path) (mp_siblings path)"
proof (rule nth_equalityI)
  have len: "length (mp_siblings path) = d" "length (mp_positions path) = d" using assms(1) by (simp_all add: path_accepted_def)
  show "length (take d (path_of (fill_path path))) = length (zip (mp_positions path) (mp_siblings path))"
    using assms(2) by (simp add: path_of_def fill_path_def len)
  fix l assume "l < length (take d (path_of (fill_path path)))"
  then have l: "l < d" "l < MAX_TREE_DEPTH" using assms(2) by (simp_all add: path_of_def fill_path_def)
  have p: "mp_positions path ! l < 4" using assms(1) l(1) len by (simp add: path_accepted_def list_all_length ARITY_def)
  have s: "length (mp_siblings path ! l) = 3" using assms(3) l(1) len by (simp add: list_all_length siblings_ok_def)
  have "map (\<lambda>sibling. mp_siblings path ! l ! sibling) [0..<3] = mp_siblings path ! l" using s by (intro nth_equalityI) simp_all
  then show "take d (path_of (fill_path path)) ! l = zip (mp_positions path) (mp_siblings path) ! l"
    using l p len by (simp add: path_of_def fill_path_def list_get_def SIBLINGS_PER_LEVEL_def GOLDILOCKS_P_def)
qed

lemma path_shape_fill: "list_all siblings_ok (mp_siblings path) \<Longrightarrow> path_shape (fill_path path)"
  by (auto simp: path_shape_def fill_path_def list_all_length siblings_ok_def SIBLINGS_PER_LEVEL_def list_get_def)

lemma positions_fill:
  assumes "path_accepted d path"
  shows "\<forall>p\<in>set (pt_positions (fill_path path)). to_canonical_u64 p < 4"
  using assms by (auto simp: fill_path_def path_accepted_def list_get_def list_all_length ARITY_def GOLDILOCKS_P_def)

lemma fill_input_digests:
  assumes "iw_value i < GOLDILOCKS_P"
  shows "input_commitment nh (fill_input i) = input_note_commitment nh i"
    "input_nullifier nh (iw_is_dummy i) (fill_input i) = input_note_nullifier nh i"
  using assms by (simp_all add: input_commitment_def input_nullifier_def fill_input_def input_note_commitment_def input_note_pk_def input_note_nullifier_def)

text \<open>A transfer, on the integers and notes of the witness.\<close>

definition input_valid :: "note_hash \<Rightarrow> felt_digest \<Rightarrow> input_note \<Rightarrow> bool" where
  "input_valid nh root i \<longleftrightarrow> iw_value i \<le> NOTE_MAX_VALUE \<and>
     (if iw_is_dummy i then iw_value i = 0 else merkle_path_root nh (iw_path i) (input_note_commitment nh i) = Inr root)"

definition transfer_valid :: "note_hash \<Rightarrow> spend_witness \<Rightarrow> bool" where
  "transfer_valid nh w \<longleftrightarrow>
     list_all (input_valid nh (hi_zk_tree_root (w_header w))) (w_inputs w) \<and>
     list_all (\<lambda>out. ow_value out \<le> NOTE_MAX_VALUE) (w_outputs w) \<and> w_fee w \<le> NOTE_MAX_VALUE \<and>
     distinct (map (input_note_nullifier nh) (w_inputs w)) \<and>
     (list_all iw_is_dummy (w_inputs w) \<longrightarrow> header_inputs_block_hash nh (w_header w) = map felt_from_u64 PADDING_BLOCK_HASH) \<and>
     sum_list (map iw_value (w_inputs w)) = sum_list (map ow_value (w_outputs w)) + w_fee w"

lemma input_statement_fill:
  assumes "input_note_shape i" "iw_value i < GOLDILOCKS_P" "path_accepted d (iw_path i)" "d \<le> MAX_TREE_DEPTH"
    and pub: "published = input_note_nullifier nh i"
  shows "input_statement nh d root published (fill_input i) \<longleftrightarrow> input_valid nh root i"
proof -
  have sib: "list_all siblings_ok (mp_siblings (iw_path i))" using assms(1) by (simp add: input_note_shape_def merkle_path_shape_def)
  note path = merkle_path_root_ok [OF assms(3,4) sib] path_of_fill_path [OF assms(3,4) sib]
  note digests = fill_input_digests [OF assms(2), of nh]
  have flag: "in_is_dummy (fill_input i) = felt_of_bool (iw_is_dummy i)" and in_path: "in_path (fill_input i) = fill_path (iw_path i)"
    by (simp_all add: fill_input_def)
  have "path_root nh (take d (path_of (in_path (fill_input i)))) (input_commitment nh (fill_input i)) = root
      \<longleftrightarrow> merkle_path_root nh (iw_path i) (input_note_commitment nh i) = Inr root"
    using in_path by (simp add: path digests)
  moreover have "to_canonical_u64 (in_value (fill_input i)) = iw_value i" using assms(2) by (simp add: fill_input_def)
  moreover have "\<forall>p\<in>set (pt_positions (in_path (fill_input i))). to_canonical_u64 p < 4"
    using positions_fill [OF assms(3)] by (simp add: fill_input_def)
  ultimately show ?thesis
    unfolding input_statement_def input_valid_def flag by (auto simp: digests(2) pub)
qed

lemma fill_fields:
  assumes "t = fill_private w (fill_public w (public_values_from_witness nh w) pw)"
  shows "t_block_hash t = header_inputs_block_hash nh (w_header w)" "t_block_number t = felt_from_u64 (hi_block_number (w_header w))"
    "t_nullifiers t = map (\<lambda>i. input_note_nullifier nh (w_inputs w ! i)) [0..<NUM_INPUTS]"
    "t_commitments t = map (witness_output_commitment nh w) [0..<NUM_OUTPUTS]"
    "t_fee t = felt_from_u64 (w_fee w)" "t_ct_digest t = w_ct_digest w" "t_depth t = felt_from_u64 (w_depth w)"
    "t_inputs t = map fill_input (w_inputs w)" "t_outputs t = map fill_output (w_outputs w)"
    "ht_zk_tree_root (t_header t) = hi_zk_tree_root (w_header w)"
    "header_targets_preimage (t_header t) = header_inputs_preimage (w_header w)"
    "ht_block_number (t_header t) = t_block_number t"
    "header_shape (t_header t) \<longleftrightarrow> length (hi_parent_hash (w_header w)) = 4 \<and> length (hi_state_root (w_header w)) = 4
       \<and> length (hi_extrinsics_root (w_header w)) = 4 \<and> length (hi_zk_tree_root (w_header w)) = 4 \<and> length (hi_digest (w_header w)) = DIGEST_LOGS_FELTS"
  by (simp_all add: assms fill_private_def fill_public_def public_values_from_witness_def Let_def header_targets_preimage_def
      header_inputs_preimage_def header_shape_def)

lemma length_witness_digests:
  assumes "note_hash_ok nh"
  shows "length (input_note_nullifier nh i) = 4" "length (witness_output_commitment nh w k) = 4" "length (header_inputs_block_hash nh h) = 4"
  using assms by (simp_all add: input_note_nullifier_def nullifier_def dummy_nullifier_def witness_output_commitment_def commitment_with_rho_def
      commitment_from_inner_def length_hash_felts header_inputs_block_hash_def note_hash_okD)

lemma fill_targets_shape:
  assumes nok: "note_hash_ok nh" and w: "witness_shape w" and t: "t = fill_private w (fill_public w (public_values_from_witness nh w) pw)"
  shows "targets_shape t"
proof -
  have "list_all input_shape (map fill_input (w_inputs w))"
    using w by (auto simp: witness_shape_def list_all_iff input_note_shape_def merkle_path_shape_def input_shape_def fill_input_def path_shape_fill)
  moreover have "list_all output_shape (map fill_output (w_outputs w))"
    using w by (auto simp: witness_shape_def list_all_iff output_note_shape_def output_shape_def fill_output_def)
  ultimately show ?thesis
    using w by (simp add: targets_shape_def fill_fields [OF t] length_witness_digests [OF nok] witness_shape_def header_inputs_shape_def list_all_iff)
qed

lemma output_statement_fill:
  assumes "ow_value out < GOLDILOCKS_P" "published = commitment_with_rho nh out (output_rho nh (nfs ! 0) (nfs ! 1) k)"
  shows "output_statement nh nfs published k (fill_output out) \<longleftrightarrow> ow_value out \<le> NOTE_MAX_VALUE"
  using assms by (simp add: output_statement_def fill_output_def commitment_with_rho_def)

lemma leaf_statement_fill:
  assumes nok: "note_hash_ok nh" and w: "witness_shape w" "witness_accepted w"
    and t: "t = fill_private w (fill_public w (public_values_from_witness nh w) pw)"
  shows "leaf_statement nh t \<longleftrightarrow> transfer_valid nh w"
proof -
  obtain i0 i1 where i: "w_inputs w = [i0, i1]" using length_two [of "w_inputs w"] w(1) by (auto simp: witness_shape_def NUM_INPUTS_def)
  obtain o0 o1 where o: "w_outputs w = [o0, o1]" using length_two [of "w_outputs w"] w(1) by (auto simp: witness_shape_def NUM_OUTPUTS_def)
  let ?root = "hi_zk_tree_root (w_header w)"
  have small: "iw_value i0 < GOLDILOCKS_P" "iw_value i1 < GOLDILOCKS_P" "ow_value o0 < GOLDILOCKS_P" "ow_value o1 < GOLDILOCKS_P" "w_fee w < GOLDILOCKS_P"
    and d: "w_depth w \<le> MAX_TREE_DEPTH" "path_accepted (w_depth w) (iw_path i0)" "path_accepted (w_depth w) (iw_path i1)"
    and shape: "input_note_shape i0" "input_note_shape i1"
    using w by (simp_all add: witness_accepted_def witness_shape_def i o)
  have depth: "to_canonical_u64 (felt_from_u64 (w_depth w)) = w_depth w"
    using d(1) by (simp add: MAX_TREE_DEPTH_def GOLDILOCKS_P_def)
  have number: "to_canonical_u64 (felt_from_u64 (hi_block_number (w_header w))) < 2 ^ 32"
    using w(1) by (simp add: witness_shape_def header_inputs_shape_def GOLDILOCKS_P_def)
  note ins = input_statement_fill [OF shape(1) small(1) d(2,1) refl] input_statement_fill [OF shape(2) small(2) d(3,1) refl]
  let ?nfs = "[input_note_nullifier nh i0, input_note_nullifier nh i1]"
  have outs: "output_statement nh ?nfs (witness_output_commitment nh w 0) 0 (fill_output o0) \<longleftrightarrow> ow_value o0 \<le> NOTE_MAX_VALUE"
    "output_statement nh ?nfs (witness_output_commitment nh w (Suc 0)) (Suc 0) (fill_output o1) \<longleftrightarrow> ow_value o1 \<le> NOTE_MAX_VALUE"
    by (intro output_statement_fill small; simp add: witness_output_commitment_def witness_output_rho_def i o)+
  have vals: "to_canonical_u64 (in_value (fill_input i0)) = iw_value i0" "to_canonical_u64 (in_value (fill_input i1)) = iw_value i1"
    "to_canonical_u64 (out_value (fill_output o0)) = ow_value o0" "to_canonical_u64 (out_value (fill_output o1)) = ow_value o1"
    using small by (simp_all add: fill_input_def fill_output_def)
  have dummy: "in_is_dummy (fill_input j) = felt_of_bool (iw_is_dummy j)" for j by (simp add: fill_input_def)
  have hash: "header_inputs_block_hash nh (w_header w) = hash_to_felts nh (header_inputs_preimage (w_header w))"
    by (simp add: header_inputs_block_hash_def)
  show ?thesis
    unfolding leaf_statement_def transfer_valid_def fill_fields [OF t] i o NUM_INPUTS_def NUM_OUTPUTS_def all_below_two upt_two list.map
      nth_Cons_0 nth_Cons_Suc One_nat_def depth ins outs o_apply vals sum_list.Cons sum_list.Nil add_0_right felt_small [OF small(5)]
      list.pred_inject distinct.simps dummy felt_of_bool_inject
    using d(1) number hash by auto
qed

section \<open>The header a wallet proves against\<close>

text \<open>The fragment built from a header of the chain hashes to the hash of that header.\<close>

lemma header_inputs_hash:
  assumes nok: "note_hash_ok nh" and hc: "header_crypto_ok hc" "hc_hash_to_bytes hc = hash_to_bytes (nh_core nh)"
    and h: "header_ok h" "length (digest_encode hc (hdr_digest h)) = DIGEST_LOGS_SIZE"
    and parent: "digest_to_bytes nh parent = hdr_parent_hash h" and root: "digest_to_bytes nh root = hdr_zk_tree_root h"
    and new: "header_inputs_new hc parent (hdr_number h) (hdr_state_root h) (hdr_extrinsics_root h) root (digest_encode hc (hdr_digest h)) = Inr hi"
  shows "header_inputs_shape hi" "hi_zk_tree_root hi = root" "digest_to_bytes nh (header_inputs_block_hash nh hi) = header_hash hc h"
proof -
  have "length (digest_to_bytes nh parent) = 32" "length (digest_to_bytes nh root) = 32"
    using h(1) by (simp_all add: parent root header_ok_def)
  then have four: "length parent = 4" "length root = 4" by (simp_all add: length_digest_to_bytes [OF nok])
  have lossy: "bytes_to_digest_lossy hc (hdr_parent_hash h) = parent" "bytes_to_digest_lossy hc (hdr_zk_tree_root h) = root"
    using h(1) felts_digest_to_bytes [OF nok] by (simp_all add: header_crypto_okD(1) [OF hc(1)] header_ok_def flip: parent root)
  have hi: "hi = \<lparr>hi_parent_hash = parent, hi_block_number = hdr_number h, hi_state_root = bytes_to_digest_lossy hc (hdr_state_root h),
      hi_extrinsics_root = bytes_to_digest_lossy hc (hdr_extrinsics_root h), hi_zk_tree_root = root, hi_digest = bytes_to_felts hc (digest_encode hc (hdr_digest h))\<rparr>"
    and felts: "length (bytes_to_felts hc (digest_encode hc (hdr_digest h))) = DIGEST_LOGS_FELTS"
    using new h(2) by (simp_all add: header_inputs_new_def Let_def ensure_ok_iff)
  show "hi_zk_tree_root hi = root" by (simp add: hi)
  show "header_inputs_shape hi"
    using h(1) felts four by (simp add: hi header_inputs_shape_def header_ok_def lossy_length [OF hc(1)])
  have "header_inputs_preimage hi = header_preimage hc h"
    using lossy digest_window_full [OF h(2)] by (simp add: hi header_inputs_preimage_def header_preimage_def)
  then show "digest_to_bytes nh (header_inputs_block_hash nh hi) = header_hash hc h"
    by (simp add: header_inputs_block_hash_def header_hash_def hc(2) note_hash_okD(3) [OF nok])
qed

section \<open>Spending a settled note\<close>

lemma leaf_digests:
  assumes nok: "note_hash_ok nh" and "leaves_ok t"
  shows "map (digest_to_bytes nh) (map (\<lambda>h. map felt_from_u64 (limbs h)) (all_leaves t)) = all_leaves t"
  using assms(2) felts_of_canonical_bytes by (auto simp: leaves_ok_def digest_ok_def note_hash_okD(4) [OF nok] comp_def intro!: map_idI)

lemma from_unsorted_siblings_ok:
  assumes nok: "note_hash_ok nh"
  shows "list_all siblings_ok sibs \<Longrightarrow> length c = 4 \<Longrightarrow> list_all siblings_ok (mp_siblings (from_unsorted_levels nh sibs c))"
proof (induction sibs arbitrary: c)
  case (Cons s sibs)
  obtain children position others where lv: "sorted_level nh c s = (children, position, others)" by (rule prod_cases3)
  have "length s = 3" using Cons.prems(1) by (simp add: siblings_ok_def)
  note spec = sorted_level_spec [OF this lv]
  have "siblings_ok others" using spec(5,6) Cons.prems by (auto simp: siblings_ok_def list_all_iff)
  moreover have "length (hash_node_presorted nh children) = 4" by (simp add: hash_node_presorted_def note_hash_okD(2) [OF nok])
  ultimately show ?case using Cons by (simp add: lv Let_def)
qed simp

lemma settled_note_path:
  assumes nok: "note_hash_ok nh" and tree: "zk_reachable (nh_core nh) t" "UnprocessedLeaves t = 0" "k < LeafCount t"
    and leaf: "get_leaf_hash t k = digest_to_bytes nh c" "length c = 4" and p: "get_merkle_proof t k = Inr p"
    and sibs: "list_all siblings_ok sibs" "map (\<lambda>s. triple_of (map (digest_to_bytes nh) s)) sibs = siblings p"
    and root: "digest_to_bytes nh root = Root t"
  shows "\<exists>path. from_unsorted nh sibs c = Inr path \<and> merkle_path_shape path \<and> path_accepted (Depth t) path \<and> 1 \<le> Depth t
    \<and> Depth t \<le> MAX_TREE_DEPTH \<and> merkle_path_root nh path c = Inr root"
proof -
  have inv: "tree_inv (nh_core nh) t" "leaves_ok t" using zk_reachable_inv [OF tree(1) note_hash_okD(1) [OF nok]] by simp_all
  let ?leaves = "map (\<lambda>h. map felt_from_u64 (limbs h)) (all_leaves t)"
  have c: "?leaves ! k = c"
    using tree(3) leaf(1) felts_digest_to_bytes [OF nok, of c] by (simp add: get_leaf_hash_nth)
  have three: "list_all (\<lambda>s. length s = SIBLINGS_PER_LEVEL) sibs" "list_all (\<lambda>s. length s = 3) sibs"
    using sibs(1) by (auto simp: list_all_iff siblings_ok_def SIBLINGS_PER_LEVEL_def)
  obtain path root' where path: "from_unsorted nh sibs c = Inr path" "merkle_path_root nh path c = Inr root'" "digest_to_bytes nh root' = Root t"
    using pallet_proof_path [OF nok tree(1,2) leaf_digests [OF nok inv(2)] tree(3) p three(1) sibs(2)] unfolding c by blast
  have root': "root' = root" using path(3) root digest_to_bytes_inject [OF nok] by simp
  have eq: "path = from_unsorted_levels nh sibs c" and max: "length sibs \<le> MAX_TREE_DEPTH"
    using path(1) by (simp_all add: from_unsorted_def ensure_ok_iff)
  have depth: "length sibs = Depth t" "1 \<le> Depth t"
  proof -
    have "0 < Depth t" using inv(1) tree(2,3) by (intro tree_inv_depth_pos) simp_all
    moreover have "siblings p = generate_levels t k [1..<Suc (Depth t)]"
      using p tree(2,3) calculation by (simp add: get_merkle_proof_def generate_proof_def del: upt_Suc) (auto simp del: upt_Suc)
    ultimately show "length sibs = Depth t" "1 \<le> Depth t" using arg_cong [OF sibs(2), of length] by (simp_all del: upt_Suc)
  qed
  note spec = from_unsorted_levels_root [OF three(2), of nh c, folded eq]
  have "path_accepted (Depth t) path" using spec depth by (simp add: path_accepted_def ARITY_def)
  moreover have "merkle_path_shape path"
    using spec from_unsorted_siblings_ok [OF nok sibs(1) leaf(2), folded eq] by (auto simp: merkle_path_shape_def list_all_iff)
  ultimately show ?thesis using path root' depth max by auto
qed

text \<open>One real input, a dummy, two outputs.\<close>

definition real_input :: "derived_keys \<Rightarrow> note_data \<Rightarrow> merkle_path \<Rightarrow> input_note" where
  "real_input keys n path =
     \<lparr>iw_ask = dk_ask keys, iw_nk = dk_nk keys, iw_value = note_value n, iw_rho = note_rho n, iw_r = note_r n,
      iw_path = path, iw_is_dummy = False\<rparr>"

definition one_note_spend ::
  "header_inputs \<Rightarrow> nat \<Rightarrow> derived_keys \<Rightarrow> note_data \<Rightarrow> merkle_path \<Rightarrow> felt_digest \<Rightarrow> felt_digest \<Rightarrow> output_note list \<Rightarrow> nat \<Rightarrow> felt_digest \<Rightarrow> spend_witness" where
  "one_note_spend hi depth keys n path rho r outs fee ct =
     \<lparr>w_header = hi, w_depth = depth, w_inputs = [real_input keys n path, input_note_dummy keys rho r depth],
      w_outputs = outs, w_fee = fee, w_ct_digest = ct\<rparr>"

lemma dummy_input_facts:
  assumes "length (dk_ask keys) = 4" "length (dk_nk keys) = 4" "length rho = 4" "length r = 4"
  shows "input_note_shape (input_note_dummy keys rho r d)" "path_accepted d (iw_path (input_note_dummy keys rho r d))"
    "iw_value (input_note_dummy keys rho r d) = 0" "iw_is_dummy (input_note_dummy keys rho r d)"
  using assms by (simp_all add: input_note_dummy_def input_note_shape_def merkle_path_shape_def merkle_path_dummy_def path_accepted_def
      siblings_ok_def ARITY_def list_all_iff)

lemma one_note_spend_facts:
  assumes header: "header_inputs_shape hi" "hi_zk_tree_root hi = root"
    and path: "merkle_path_shape path" "path_accepted d path" "1 \<le> d" "d \<le> MAX_TREE_DEPTH" "merkle_path_root nh path (commitment_of nh n) = Inr root"
    and keys: "derived_pk nh keys = note_pk n" "length (dk_ask keys) = 4" "length (dk_nk keys) = 4" "length (note_rho n) = 4" "length (note_r n) = 4"
    and rest: "note_value n \<le> NOTE_MAX_VALUE" "length rho = 4" "length r = 4" "nullifier_of nh n (dk_nk keys) \<noteq> dummy_nullifier nh (dk_nk keys) rho r"
    and outs: "outs = [out_1, out_2]" "list_all output_note_shape outs" "length ct = 4" "ow_value out_1 + ow_value out_2 + fee = note_value n"
    and w: "w = one_note_spend hi d keys n path rho r outs fee ct"
  shows "witness_shape w" "witness_accepted w" "transfer_valid nh w"
proof -
  let ?i = "real_input keys n path" and ?d = "input_note_dummy keys rho r d"
  note dummy = dummy_input_facts [OF keys(2,3) rest(2,3), of d]
  have max: "NOTE_MAX_VALUE < GOLDILOCKS_P" "NOTE_MAX_VALUE < 2 ^ 64"
    by (simp_all add: NOTE_MAX_VALUE_def NOTE_VALUE_BITS_def GOLDILOCKS_P_def)
  have vals: "note_value n < GOLDILOCKS_P" "note_value n < 2 ^ 64" "ow_value out_1 \<le> NOTE_MAX_VALUE" "ow_value out_2 \<le> NOTE_MAX_VALUE" "fee \<le> NOTE_MAX_VALUE"
    using rest(1) outs(4) max by linarith+
  show "witness_shape w"
    using header(1) dummy(1) keys outs(1-3) path(1) vals max
    by (simp add: w one_note_spend_def witness_shape_def NUM_INPUTS_def NUM_OUTPUTS_def real_input_def input_note_shape_def)
  show "witness_accepted w"
    using dummy path(2-4) vals max outs(1) by (simp add: w one_note_spend_def witness_accepted_def real_input_def)
  have cm: "input_note_commitment nh ?i = commitment_of nh n"
    using keys(1) by (simp add: input_note_commitment_def input_note_pk_def real_input_def commitment_of_def inner_of_def derived_pk_def)
  have nf: "input_note_nullifier nh ?i \<noteq> input_note_nullifier nh ?d"
    using rest(4) by (simp add: input_note_nullifier_def real_input_def input_note_dummy_def nullifier_of_def)
  show "transfer_valid nh w"
    using path(5) header(2) vals nf dummy rest(1) outs(1,4)
    by (simp add: transfer_valid_def w one_note_spend_def input_valid_def cm, simp add: real_input_def)
qed

lemma filled_constraints:
  assumes ok: "plonky2_ok pl nh" and w: "witness_shape w" "witness_accepted w"
    and t: "t = fill_private w (fill_public w (public_values_from_witness nh w) pw)"
  shows "build_constraints pl t \<longleftrightarrow> transfer_valid nh w"
  using build_constraints_iff [OF ok fill_targets_shape [OF plonky2_okD(1) [OF ok] w(1) t]]
    leaf_statement_fill [OF plonky2_okD(1) [OF ok] w t] by simp

section \<open>A sample spend\<close>

text \<open>Four bytes per field element and a terminator.\<close>

definition sample_wallet_crypto :: header_crypto where
  "sample_wallet_crypto =
     \<lparr>hc_hash_to_bytes = hash_to_bytes sample_poseidon,
      bytes_to_digest_lossy = (\<lambda>bs. map felt_from_u64 (limbs bs)),
      bytes_to_felts = (\<lambda>bs. map (\<lambda>c. felt_from_u64 (of_le_bytes c)) (chunks 4 (bs @ [1]))),
      digest_encode = digest_bytes\<rparr>"

lemma concat_chunks: "0 < n \<Longrightarrow> concat (chunks n xs) = xs"
proof (induction n xs rule: chunks.induct)
  case (2 n x xs)
  then show ?case by simp
qed simp

lemma four_bytes_small: "length c \<le> 4 \<Longrightarrow> of_le_bytes c < GOLDILOCKS_P"
proof -
  assume "length c \<le> 4"
  then have "(256 :: nat) ^ length c \<le> 256 ^ 4" by (intro power_increasing) simp_all
  with of_le_bytes_bound [of c] show ?thesis by (simp add: GOLDILOCKS_P_def)
qed

lemma chunk_felts_inject:
  assumes "length xs = length ys" "map (\<lambda>c. felt_from_u64 (of_le_bytes c)) (chunks 4 xs) = map (\<lambda>c. felt_from_u64 (of_le_bytes c)) (chunks 4 ys)"
  shows "xs = ys"
proof -
  have len: "length (chunks 4 xs) = length (chunks 4 ys)" using arg_cong [OF assms(2), of length] by simp
  have "chunks 4 xs = chunks 4 ys"
  proof (rule nth_equalityI [OF len])
    fix k assume k: "k < length (chunks 4 xs)"
    then have x: "chunks 4 xs ! k = take 4 (drop (k * 4) xs)" and y: "chunks 4 ys ! k = take 4 (drop (k * 4) ys)"
      using length_chunks [of 4 k xs] assms(1) by (simp_all add: nth_chunks)
    have "felt_from_u64 (of_le_bytes (chunks 4 xs ! k)) = felt_from_u64 (of_le_bytes (chunks 4 ys ! k))"
      using assms(2) k len by (metis (no_types, lifting) nth_map)
    then have "of_le_bytes (chunks 4 xs ! k) = of_le_bytes (chunks 4 ys ! k)"
      using felt_small_eq_iff four_bytes_small unfolding x y by simp
    then show "chunks 4 xs ! k = chunks 4 ys ! k" unfolding x y using assms(1) by (intro of_le_bytes_inject) simp_all
  qed
  from arg_cong [OF this, of concat] show ?thesis by (simp add: concat_chunks)
qed

lemma sample_wallet_crypto_ok: "header_crypto_ok sample_wallet_crypto" "hc_hash_to_bytes sample_wallet_crypto = hash_to_bytes (nh_core sample_note_hash)"
  using poseidon_okD(1,2) [OF sample_poseidon_ok] chunk_felts_inject [of "_ @ [1]" "_ @ [1]"]
  by (auto simp: header_crypto_ok_def sample_wallet_crypto_def inj_def digest_bytes_inject sample_note_hash_def)

definition sample_keys :: derived_keys where "sample_keys = \<lparr>dk_ask = felts4 1, dk_nk = felts4 2\<rparr>"

definition sample_note :: note_data where
  "sample_note = \<lparr>note_pk = derived_pk sample_note_hash sample_keys, note_value = 10, note_rho = felts4 3, note_r = felts4 4\<rparr>"

definition sample_cm :: felt_digest where "sample_cm = commitment_of sample_note_hash sample_note"

definition sample_note_tree :: zk_tree where
  "sample_note_tree = one_leaf_tree sample_poseidon (digest_to_bytes sample_note_hash sample_cm)"

definition sample_root :: felt_digest where "sample_root = map felt_from_u64 (limbs (Root sample_note_tree))"

definition sample_spend_header :: header where
  "sample_spend_header = (sample_header 0)\<lparr>hdr_zk_tree_root := Root sample_note_tree\<rparr>"

definition sample_outs :: "output_note list" where
  "sample_outs = [\<lparr>ow_pk = felts4 7, ow_value = 6, ow_r = felts4 8\<rparr>, \<lparr>ow_pk = felts4 9, ow_value = 3, ow_r = felts4 10\<rparr>]"

definition blank_targets :: spend_targets where
  "blank_targets =
     \<lparr>t_block_hash = [], t_block_number = felt_from_u64 0, t_nullifiers = [], t_commitments = [], t_fee = felt_from_u64 0, t_ct_digest = [],
      t_header = \<lparr>ht_parent_hash = [], ht_block_number = felt_from_u64 0, ht_state_root = [], ht_extrinsics_root = [], ht_zk_tree_root = [], ht_digest = []\<rparr>,
      t_depth = felt_from_u64 0, t_inputs = [], t_outputs = []\<rparr>"

lemma sample_core: "nh_core sample_note_hash = sample_poseidon"
  by (simp add: sample_note_hash_def)

lemma sample_cm_facts:
  "length sample_cm = 4" "digest_to_bytes sample_note_hash sample_cm \<noteq> empty_hash" "canonical_limbs (digest_to_bytes sample_note_hash sample_cm)"
proof -
  show "length sample_cm = 4" by (simp add: sample_cm_def commitment_of_def length_note_digests(3) [OF sample_note_hash_ok])
  have "digest_to_bytes sample_note_hash (hash_to_felts sample_note_hash fs) \<noteq> empty_hash" for fs
    using note_hash_okD(3) [OF sample_note_hash_ok, of fs] sample_hash_nonzero [of "map to_canonical_u64 fs"]
    by (simp add: sample_core empty_hash_def) (simp add: sample_poseidon_def)
  then show "digest_to_bytes sample_note_hash sample_cm \<noteq> empty_hash"
    by (simp add: sample_cm_def commitment_of_def commitment_from_inner_def hash_felts_def)
  show "canonical_limbs (digest_to_bytes sample_note_hash sample_cm)" by (rule canonical_digest_to_bytes [OF sample_note_hash_ok])
qed

lemma sample_note_tree_fields: "UnprocessedLeaves sample_note_tree = 0" "LeafCount sample_note_tree = 1" "Depth sample_note_tree = 1"
  "get_leaf_hash sample_note_tree 0 = digest_to_bytes sample_note_hash sample_cm"
  "get_merkle_proof sample_note_tree 0 = Inr \<lparr>leaf_index = 0, siblings = [(empty_hash, empty_hash, empty_hash)]\<rparr>"
  by (simp_all add: sample_note_tree_def one_leaf_tree_def get_leaf_hash_def Let_def get_merkle_proof_def generate_proof_def level_siblings_def
      ARITY_upt [unfolded ARITY_def] ARITY_def triple_of_def)

lemma sample_note_tree_reachable: "zk_reachable (nh_core sample_note_hash) sample_note_tree"
proof -
  let ?c = "digest_to_bytes sample_note_hash sample_cm"
  have "length ?c = 32" by (simp add: length_digest_to_bytes [OF sample_note_hash_ok] sample_cm_facts)
  then have "zk_reachable sample_poseidon (fst (append_leaf_hash genesis_tree ?c))"
    using insert_genesis [OF sample_cm_facts(2,3)] reach_genesis reach_step step_commitment by blast
  then show ?thesis
    using finalize_one_leaf [of sample_poseidon ?c] reach_step step_finalize unfolding sample_note_tree_def sample_core by blast
qed

lemma sample_root_bytes: "digest_to_bytes sample_note_hash sample_root = Root sample_note_tree" "length (Root sample_note_tree) = 32"
proof -
  have ok: "digest_ok (Root sample_note_tree)"
    by (simp add: sample_note_tree_def one_leaf_tree_def Let_def digest_ok_hash_node [OF sample_poseidon_ok])
  then show "digest_to_bytes sample_note_hash sample_root = Root sample_note_tree"
    using felts_of_canonical_bytes by (simp add: note_hash_okD(4) [OF sample_note_hash_ok] sample_root_def digest_ok_def)
  show "length (Root sample_note_tree) = 32" using ok by (simp add: digest_ok_def)
qed

lemma sample_header_facts:
  "header_ok sample_spend_header" "length (digest_encode sample_wallet_crypto (hdr_digest sample_spend_header)) = DIGEST_LOGS_SIZE"
  "hdr_zk_tree_root sample_spend_header = Root sample_note_tree" "digest_to_bytes sample_note_hash empty_digest = hdr_parent_hash sample_spend_header"
  by (simp_all add: sample_spend_header_def sample_header_def header_ok_def sample_root_bytes zero_hash_canonical sample_wallet_crypto_def
      digest_bytes_def DIGEST_LOGS_SIZE_def bytes_empty_digest [OF sample_note_hash_ok] empty_hash_def)

lemma length_chunks_eq: "0 < n \<Longrightarrow> length (chunks n xs) = (length xs + n - 1) div n"
proof (rule antisym)
  assume n: "0 < n"
  let ?m = "(length xs + n - 1) div n"
  show "length (chunks n xs) \<le> ?m"
  proof (rule ccontr)
    assume "\<not> length (chunks n xs) \<le> ?m"
    then have "?m * n < length xs" using length_chunks [OF n, of ?m xs] by simp
    then show False using n dividend_less_div_times [OF n, of "length xs + n - 1"] by linarith
  qed
  show "?m \<le> length (chunks n xs)"
  proof (rule ccontr)
    assume "\<not> ?m \<le> length (chunks n xs)"
    then have "Suc (length (chunks n xs)) \<le> ?m" by linarith
    then have "Suc (length (chunks n xs)) * n \<le> ?m * n" by (rule mult_le_mono1)
    moreover have "length xs \<le> length (chunks n xs) * n" using length_chunks [OF n, of "length (chunks n xs)" xs] by linarith
    moreover have "?m * n \<le> length xs + n - 1" by (rule div_times_less_eq_dividend)
    ultimately show False using n unfolding mult_Suc by linarith
  qed
qed

lemma sample_header_inputs:
  "\<exists>hi. header_inputs_new sample_wallet_crypto empty_digest (hdr_number sample_spend_header) (hdr_state_root sample_spend_header)
     (hdr_extrinsics_root sample_spend_header) sample_root (digest_encode sample_wallet_crypto (hdr_digest sample_spend_header)) = Inr hi"
proof -
  have "length (bytes_to_felts sample_wallet_crypto (digest_encode sample_wallet_crypto (hdr_digest sample_spend_header))) = DIGEST_LOGS_FELTS"
    using sample_header_facts(2) by (simp add: sample_wallet_crypto_def length_chunks_eq DIGEST_LOGS_SIZE_def DIGEST_LOGS_FELTS_def)
  then show ?thesis using sample_header_facts(2) by (simp add: header_inputs_new_def Let_def)
qed

lemma sample_nullifiers: "nullifier_of sample_note_hash sample_note (dk_nk sample_keys) \<noteq> dummy_nullifier sample_note_hash (dk_nk sample_keys) (felts4 5) (felts4 6)"
  by (simp add: nullifier_of_def nullifier_def dummy_nullifier_def hash_felts_def sample_note_def sample_keys_def sample_note_hash_def
      sample_poseidon_def sample_hash_def felts4_def domain_defs GOLDILOCKS_P_def limbs_digest_of_limbs felt_eq_iff)

lemma sample_spend_rest:
  "derived_pk sample_note_hash sample_keys = note_pk sample_note" "length (dk_ask sample_keys) = 4" "length (dk_nk sample_keys) = 4"
  "length (note_rho sample_note) = 4" "length (note_r sample_note) = 4" "note_value sample_note \<le> NOTE_MAX_VALUE"
  "list_all output_note_shape sample_outs" "note_value sample_note = 10" "sum_list (map ow_value sample_outs) + 1 = 10"
  by (simp_all add: sample_note_def sample_keys_def sample_outs_def output_note_shape_def NOTE_MAX_VALUE_def NOTE_VALUE_BITS_def)

lemma sample_sibs: "list_all siblings_ok [[empty_digest, empty_digest, empty_digest]]"
  "map (\<lambda>s. triple_of (map (digest_to_bytes sample_note_hash) s)) [[empty_digest, empty_digest, empty_digest]] = [(empty_hash, empty_hash, empty_hash)]"
  by (simp_all add: siblings_ok_def triple_of_def bytes_empty_digest [OF sample_note_hash_ok])

section \<open>Properties\<close>

text \<open>
  A validated witness satisfies the circuit exactly when it is a transfer. For every witness that
  validation lets through, the assignment it writes has the public inputs the wallet computed, and it meets
  every constraint of the leaf if and only if each real input's commitment leads along its path to the
  header's tree root, each dummy is worth nothing, all amounts are below two to the 62, the two nullifiers
  differ, not both inputs are dummies outside the padding block, and the amounts balance as integers.
\<close>

theorem filled_circuit_exact:
  assumes "plonky2_ok pl nh" "witness_shape w" "fill_witness nh pw w = Inr t"
  shows "(build_constraints pl t \<longleftrightarrow> transfer_valid nh w) \<and> leaf_public_inputs t = witness_public_inputs nh w"
proof -
  have acc: "witness_accepted w" and t: "t = fill_private w (fill_public w (public_values_from_witness nh w) pw)"
    using assms(3) by (simp_all add: fill_witness_ok)
  obtain i0 i1 where i: "w_inputs w = [i0, i1]" using length_two [of "w_inputs w"] assms(2) by (auto simp: witness_shape_def NUM_INPUTS_def)
  have "leaf_public_inputs t = witness_public_inputs nh w"
    by (simp add: leaf_public_inputs_def witness_public_inputs_def fill_fields [OF t] i NUM_INPUTS_def upt_two)
  then show ?thesis using filled_constraints [OF assms(1,2) acc t] by simp
qed

lemma sample_spend:
  assumes "header_inputs_new sample_wallet_crypto empty_digest (hdr_number sample_spend_header) (hdr_state_root sample_spend_header)
      (hdr_extrinsics_root sample_spend_header) sample_root (digest_encode sample_wallet_crypto (hdr_digest sample_spend_header)) = Inr hi"
    and outs: "outs = [out_1, out_2]" "list_all output_note_shape outs" "sum_list (map ow_value outs) + fee = 10" "length ct = 4"
  shows "\<exists>path. witness_shape (one_note_spend hi 1 sample_keys sample_note path (felts4 5) (felts4 6) outs fee ct)
    \<and> witness_accepted (one_note_spend hi 1 sample_keys sample_note path (felts4 5) (felts4 6) outs fee ct)
    \<and> transfer_valid sample_note_hash (one_note_spend hi 1 sample_keys sample_note path (felts4 5) (felts4 6) outs fee ct)"
proof -
  have root: "digest_to_bytes sample_note_hash sample_root = hdr_zk_tree_root sample_spend_header"
    using sample_root_bytes sample_header_facts by simp
  note header = header_inputs_hash [OF sample_note_hash_ok sample_wallet_crypto_ok sample_header_facts(1,2,4) root assms(1)]
  have k: "0 < LeafCount sample_note_tree" by (simp add: sample_note_tree_fields)
  have sibs: "map (\<lambda>s. triple_of (map (digest_to_bytes sample_note_hash) s)) [[empty_digest, empty_digest, empty_digest]]
      = siblings \<lparr>leaf_index = 0, siblings = [(empty_hash, empty_hash, empty_hash)]\<rparr>" using sample_sibs by simp
  obtain path where path: "merkle_path_shape path" "path_accepted 1 path" "1 \<le> MAX_TREE_DEPTH" "merkle_path_root sample_note_hash path sample_cm = Inr sample_root"
    using settled_note_path [OF sample_note_hash_ok sample_note_tree_reachable sample_note_tree_fields(1) k sample_note_tree_fields(4) sample_cm_facts(1)
        sample_note_tree_fields(5) sample_sibs(1) sibs sample_root_bytes(1)] unfolding sample_note_tree_fields(3) by (elim exE conjE)
  have total: "ow_value out_1 + ow_value out_2 + fee = note_value sample_note" using outs(1,3) sample_spend_rest(8) by simp
  note facts = one_note_spend_facts [OF header(1,2) path(1,2) order_refl path(3) path(4) [unfolded sample_cm_def] sample_spend_rest(1-6) _ _ sample_nullifiers
      outs(1,2,4) total refl]
  show ?thesis using facts by (intro exI [of _ path]) simp
qed

theorem filled_circuit_exact_witness:
  "\<exists>w t. fill_witness sample_note_hash blank_targets w = Inr t \<and> list_all (\<lambda>i. \<not> iw_is_dummy i) (take 1 (w_inputs w)) \<and> w_fee w = 1
     \<and> build_constraints (plonky2_std sample_note_hash) t \<and> leaf_public_inputs t = witness_public_inputs sample_note_hash w"
proof -
  obtain hi where hi: "header_inputs_new sample_wallet_crypto empty_digest (hdr_number sample_spend_header) (hdr_state_root sample_spend_header)
      (hdr_extrinsics_root sample_spend_header) sample_root (digest_encode sample_wallet_crypto (hdr_digest sample_spend_header)) = Inr hi"
    using sample_header_inputs by (elim exE)
  obtain path where w: "witness_shape (one_note_spend hi 1 sample_keys sample_note path (felts4 5) (felts4 6) sample_outs 1 empty_digest)"
    "witness_accepted (one_note_spend hi 1 sample_keys sample_note path (felts4 5) (felts4 6) sample_outs 1 empty_digest)"
    "transfer_valid sample_note_hash (one_note_spend hi 1 sample_keys sample_note path (felts4 5) (felts4 6) sample_outs 1 empty_digest)"
    using sample_spend [OF hi sample_outs_def sample_spend_rest(7,9) length_empty_digest] by (elim exE conjE)
  let ?w = "one_note_spend hi 1 sample_keys sample_note path (felts4 5) (felts4 6) sample_outs 1 empty_digest"
  obtain t where t: "fill_witness sample_note_hash blank_targets ?w = Inr t" using w(2) by (simp add: fill_witness_ok)
  from filled_circuit_exact [OF plonky2_std_ok [OF sample_note_hash_ok] w(1) t] w(3) t
  show ?thesis by (intro exI [of _ ?w] exI [of _ t]) (simp add: one_note_spend_def real_input_def)
qed

text \<open>
  C12: What validation refuses. It accepts a witness exactly when every amount is below the field's modulus,
  the depth is between 1 and 20 and each path has that many levels with positions below four. The first input
  amount at or above the modulus is the error reported, although the circuit cannot see it: the field element
  written for it is its reduction, which the circuit's 62-bit check would accept.
\<close>

theorem witness_refusals:
  assumes "witness_shape w" "k < NUM_INPUTS" "GOLDILOCKS_P \<le> iw_value (w_inputs w ! k)"
    and "\<And>j. j < k \<Longrightarrow> iw_value (w_inputs w ! j) < GOLDILOCKS_P"
  shows "witness_validate w = Inl (NonCanonicalInput k (iw_value (w_inputs w ! k))) \<and> \<not> witness_accepted w
    \<and> to_canonical_u64 (in_value (fill_input (w_inputs w ! k))) = iw_value (w_inputs w ! k) - GOLDILOCKS_P
    \<and> iw_value (w_inputs w ! k) - GOLDILOCKS_P \<le> NOTE_MAX_VALUE \<and> (\<forall>w'. witness_validate w' = Inr () \<longleftrightarrow> witness_accepted w')"
proof -
  obtain i0 i1 where i: "w_inputs w = [i0, i1]" using length_two [of "w_inputs w"] assms(1) by (auto simp: witness_shape_def NUM_INPUTS_def)
  let ?v = "iw_value (w_inputs w ! k)"
  have k: "k = 0 \<or> k = 1" using assms(2) by (auto simp: NUM_INPUTS_def)
  have err: "witness_validate w = Inl (NonCanonicalInput k ?v)"
    using k assms(3) assms(4) [of 0] by (auto simp: witness_validate_def i enumerate_simps ensure_canonical_def ensure_def)
  then have "\<not> witness_accepted w" using witness_validate_ok [of w] by simp
  moreover have "input_note_shape (w_inputs w ! k)" using assms(1) k i by (auto simp: witness_shape_def)
  then have lt: "?v < 2 ^ 64" by (simp add: input_note_shape_def)
  have "?v mod GOLDILOCKS_P = ?v - GOLDILOCKS_P"
  proof -
    have "?v - GOLDILOCKS_P < GOLDILOCKS_P" using lt by (simp add: GOLDILOCKS_P_def)
    then show ?thesis using assms(3) by (simp add: le_mod_geq)
  qed
  then have "to_canonical_u64 (in_value (fill_input (w_inputs w ! k))) = ?v - GOLDILOCKS_P" by (simp add: fill_input_def)
  moreover have "?v - GOLDILOCKS_P \<le> NOTE_MAX_VALUE"
    using lt by (simp add: GOLDILOCKS_P_def NOTE_MAX_VALUE_def NOTE_VALUE_BITS_def)
  ultimately show ?thesis using err witness_validate_ok by blast
qed

theorem witness_refusals_witness:
  "\<exists>w. witness_validate w = Inl (NonCanonicalInput 0 (2 ^ 64 - 1)) \<and> to_canonical_u64 (in_value (fill_input (w_inputs w ! 0))) = 2 ^ 32 - 2"
proof -
  let ?i = "(input_note_dummy sample_keys (felts4 5) (felts4 6) 1)\<lparr>iw_value := 2 ^ 64 - 1\<rparr>"
  let ?h = "\<lparr>hi_parent_hash = empty_digest, hi_block_number = 1, hi_state_root = empty_digest, hi_extrinsics_root = empty_digest,
    hi_zk_tree_root = empty_digest, hi_digest = replicate 28 (felt_from_u64 0)\<rparr>"
  let ?w = "\<lparr>w_header = ?h, w_depth = 1, w_inputs = [?i, ?i], w_outputs = sample_outs, w_fee = 1, w_ct_digest = empty_digest\<rparr>"
  have "witness_shape ?w"
    using sample_spend_rest dummy_input_facts(1) [of sample_keys "felts4 5" "felts4 6" 1]
    by (simp add: witness_shape_def header_inputs_shape_def NUM_INPUTS_def NUM_OUTPUTS_def sample_outs_def input_note_shape_def DIGEST_LOGS_FELTS_def)
  from witness_refusals [OF this, of 0] show ?thesis
    by (intro exI [of _ ?w]) (simp add: NUM_INPUTS_def GOLDILOCKS_P_def)
qed

text \<open>
  C11: A settled note can always be spent. Take any note the chain has settled, with keys that own it, the proof
  the pallet returns for its leaf and the header that publishes the tree's root. Putting the proof through the
  adapter, a fresh dummy in the second slot and two outputs that with the fee add up to the note's value, the
  witness is accepted, the assignment satisfies every constraint, and the block hash it publishes is the
  chain's hash of that header.
\<close>

theorem settled_note_spendable:
  assumes "plonky2_ok pl nh" "zk_reachable (nh_core nh) t" "UnprocessedLeaves t = 0" "k < LeafCount t"
    and "header_crypto_ok hc" "hc_hash_to_bytes hc = hash_to_bytes (nh_core nh)" "header_ok h"
    and "length (digest_encode hc (hdr_digest h)) = DIGEST_LOGS_SIZE" "hdr_zk_tree_root h = Root t"
    and "digest_to_bytes nh parent = hdr_parent_hash h" "digest_to_bytes nh root = Root t"
    and "header_inputs_new hc parent (hdr_number h) (hdr_state_root h) (hdr_extrinsics_root h) root (digest_encode hc (hdr_digest h)) = Inr hi"
    and "get_leaf_hash t k = digest_to_bytes nh (commitment_of nh n)" "get_merkle_proof t k = Inr p"
    and "list_all siblings_ok sibs" "map (\<lambda>s. triple_of (map (digest_to_bytes nh) s)) sibs = siblings p"
    and "derived_pk nh keys = note_pk n" "length (dk_ask keys) = 4" "length (dk_nk keys) = 4" "length (note_rho n) = 4" "length (note_r n) = 4"
    and "note_value n \<le> NOTE_MAX_VALUE" "length rho = 4" "length r = 4"
    and "nullifier_of nh n (dk_nk keys) \<noteq> dummy_nullifier nh (dk_nk keys) rho r"
    and "outs = [out_1, out_2]" "list_all output_note_shape outs" "length ct = 4" "ow_value out_1 + ow_value out_2 + fee = note_value n"
  shows "\<exists>path i t'. from_unsorted nh sibs (commitment_of nh n) = Inr path \<and> input_note_real nh keys n path = Inr i
    \<and> fill_witness nh pw \<lparr>w_header = hi, w_depth = Depth t, w_inputs = [i, input_note_dummy keys rho r (Depth t)],
         w_outputs = outs, w_fee = fee, w_ct_digest = ct\<rparr> = Inr t'
    \<and> build_constraints pl t' \<and> digest_to_bytes nh (take 4 (leaf_public_inputs t')) = header_hash hc h"
proof -
  have nok: "note_hash_ok nh" using assms(1) by (rule plonky2_okD)
  have root': "digest_to_bytes nh root = hdr_zk_tree_root h" using assms(9,11) by simp
  note header = header_inputs_hash [OF nok assms(5-8,10) root' assms(12)]
  have c4: "length (commitment_of nh n) = 4" by (simp add: commitment_of_def length_note_digests(3) [OF nok])
  obtain path where path: "from_unsorted nh sibs (commitment_of nh n) = Inr path" "merkle_path_shape path" "path_accepted (Depth t) path"
    "1 \<le> Depth t" "Depth t \<le> MAX_TREE_DEPTH" "merkle_path_root nh path (commitment_of nh n) = Inr root"
    using settled_note_path [OF nok assms(2-4,13) c4 assms(14-16,11)] by (elim exE conjE)
  define w where "w = one_note_spend hi (Depth t) keys n path rho r outs fee ct"
  have real: "input_note_real nh keys n path = Inr (real_input keys n path)"
    using assms(17) by (simp add: input_note_real_def real_input_def derived_pk_def)
  note facts = one_note_spend_facts [OF header(1,2) path(2-6) assms(17-29) w_def]
  obtain t' where t': "fill_witness nh pw w = Inr t'" using facts(2) by (simp add: fill_witness_ok)
  then have eq: "t' = fill_private w (fill_public w (public_values_from_witness nh w) pw)" by (simp add: fill_witness_ok)
  have "build_constraints pl t'" using filled_constraints [OF assms(1) facts(1,2) eq] facts(3) by simp
  moreover have "take 4 (leaf_public_inputs t') = header_inputs_block_hash nh hi"
    using length_witness_digests(3) [OF nok, of hi] by (simp add: leaf_public_inputs_def fill_fields [OF eq] w_def one_note_spend_def)
  ultimately show ?thesis using path(1) real t' header(3) unfolding w_def one_note_spend_def by auto
qed

theorem settled_note_spendable_witness:
  "\<exists>path i hi t'. from_unsorted sample_note_hash [[empty_digest, empty_digest, empty_digest]] sample_cm = Inr path
     \<and> input_note_real sample_note_hash sample_keys sample_note path = Inr i
     \<and> fill_witness sample_note_hash blank_targets \<lparr>w_header = hi, w_depth = 1, w_inputs = [i, input_note_dummy sample_keys (felts4 5) (felts4 6) 1],
          w_outputs = sample_outs, w_fee = 1, w_ct_digest = empty_digest\<rparr> = Inr t'
     \<and> build_constraints (plonky2_std sample_note_hash) t'
     \<and> digest_to_bytes sample_note_hash (take 4 (leaf_public_inputs t')) = header_hash sample_wallet_crypto sample_spend_header"
proof -
  obtain hi where hi: "header_inputs_new sample_wallet_crypto empty_digest (hdr_number sample_spend_header) (hdr_state_root sample_spend_header)
      (hdr_extrinsics_root sample_spend_header) sample_root (digest_encode sample_wallet_crypto (hdr_digest sample_spend_header)) = Inr hi"
    using sample_header_inputs by (elim exE)
  have k: "0 < LeafCount sample_note_tree" by (simp add: sample_note_tree_fields)
  have sibs: "map (\<lambda>s. triple_of (map (digest_to_bytes sample_note_hash) s)) [[empty_digest, empty_digest, empty_digest]]
      = siblings \<lparr>leaf_index = 0, siblings = [(empty_hash, empty_hash, empty_hash)]\<rparr>" using sample_sibs by simp
  have cm: "get_leaf_hash sample_note_tree 0 = digest_to_bytes sample_note_hash (commitment_of sample_note_hash sample_note)"
    using sample_note_tree_fields(4) by (simp add: sample_cm_def)
  from settled_note_spendable [OF plonky2_std_ok [OF sample_note_hash_ok] sample_note_tree_reachable sample_note_tree_fields(1) k sample_wallet_crypto_ok
      sample_header_facts(1-4) sample_root_bytes(1) hi cm sample_note_tree_fields(5) sample_sibs(1) sibs sample_spend_rest(1-6) _ _ sample_nullifiers
      sample_outs_def sample_spend_rest(7) length_empty_digest, of 1 blank_targets]
  show ?thesis unfolding sample_note_tree_fields(3) sample_cm_def using sample_spend_rest(8) by (simp only:) auto
qed

end
