(* ===== verification/SpendSafety.thy ===== *)
theory SpendSafety
  imports SpendWitness
begin

text \<open>
  The spend leaf against the commitment tree. The circuit proves a path of a depth the prover chooses, with
  positions instead of sorted children; the pallet publishes the root of a tree of its own depth. The lemmas
  show that a real input of a satisfied leaf still opens a leaf of that tree, or that the prover's own values
  exhibit a break of the hash, and that one commitment has one nullifier.
\<close>

section \<open>What a path hashes\<close>

fun path_preimages :: "note_hash \<Rightarrow> (nat \<times> felt_digest list) list \<Rightarrow> felt_digest \<Rightarrow> goldilocks list list" where
  "path_preimages nh [] current = []"
| "path_preimages nh ((position, sibs) # levels) current =
     (let preimage = concat (insert_child position current sibs)
      in preimage # path_preimages nh levels (hash_to_felts nh preimage))"

text \<open>
  The preimages the tree is made of: those of its leaves, and the sixteen field elements of every node at a
  level below its depth. A break is one of the prover's preimages that hashes to the empty digest, or that
  differs from a preimage of the tree and has the same hash.
\<close>

definition tree_preimage :: "note_hash \<Rightarrow> hash256 list \<Rightarrow> goldilocks list list \<Rightarrow> nat \<Rightarrow> goldilocks list \<Rightarrow> bool" where
  "tree_preimage nh ls openings depth ys \<longleftrightarrow>
     ys \<in> set openings \<or>
     (\<exists>l < depth. \<exists>i. i * ARITY ^ Suc l < length ls \<and> ys = node_felts (nh_core nh) (tree_children (nh_core nh) ls l i))"

definition spend_break :: "note_hash \<Rightarrow> hash256 list \<Rightarrow> goldilocks list list \<Rightarrow> nat \<Rightarrow> goldilocks list list \<Rightarrow> bool" where
  "spend_break nh ls openings depth used \<longleftrightarrow>
     (\<exists>xs\<in>set used. hash_to_bytes (nh_core nh) xs = empty_hash \<or>
        (\<exists>ys. tree_preimage nh ls openings depth ys \<and> xs \<noteq> ys \<and> hash_to_bytes (nh_core nh) xs = hash_to_bytes (nh_core nh) ys))"

lemma spend_break_mono: "spend_break nh ls ops d used \<Longrightarrow> d \<le> d' \<Longrightarrow> set used \<subseteq> set used' \<Longrightarrow> spend_break nh ls ops d' used'"
  unfolding spend_break_def tree_preimage_def by (meson less_le_trans subsetD)

lemma spend_break_zero: "xs \<in> set used \<Longrightarrow> hash_to_bytes (nh_core nh) xs = empty_hash \<Longrightarrow> spend_break nh ls ops d used"
  by (auto simp: spend_break_def)

lemma spend_break_collision:
  "xs \<in> set used \<Longrightarrow> tree_preimage nh ls ops d ys \<Longrightarrow> xs \<noteq> ys \<Longrightarrow>
   hash_to_bytes (nh_core nh) xs = hash_to_bytes (nh_core nh) ys \<Longrightarrow> spend_break nh ls ops d used"
  by (auto simp: spend_break_def)

lemma path_root_snoc:
  "path_root nh (lv @ [(p, s)]) c = hash_to_felts nh (concat (insert_child p (path_root nh lv c) s))"
  by (induction lv arbitrary: c) (auto split: prod.splits)

lemma path_preimages_snoc:
  "path_preimages nh (lv @ [(p, s)]) c = path_preimages nh lv c @ [concat (insert_child p (path_root nh lv c) s)]"
  by (induction lv arbitrary: c) (auto simp: Let_def split: prod.splits)

lemma length_path_root: "note_hash_ok nh \<Longrightarrow> length c = 4 \<Longrightarrow> length (path_root nh lv c) = 4"
  by (induction lv arbitrary: c) (auto simp: note_hash_okD)

lemma length_insert_child: "siblings_ok s \<Longrightarrow> p < 4 \<Longrightarrow> length c = 4 \<Longrightarrow>
    length (insert_child p c s) = 4 \<and> (\<forall>d\<in>set (insert_child p c s). length d = 4) \<and> c \<in> set (insert_child p c s)"
  by (auto simp: insert_child_def siblings_ok_def list_all_iff dest: in_set_takeD in_set_dropD)

lemma length_concat_const: "\<forall>d\<in>set ds. length d = n \<Longrightarrow> length (concat ds) = n * length ds"
  by (induction ds) auto

lemma length_node_felts:
  assumes "poseidon_ok pc" "\<forall>c\<in>set cs. length c = 32"
  shows "length (node_felts pc cs) = 4 * length cs"
proof -
  have "length (concat (map (\<lambda>c. map felt_from_u64 (limbs c)) (sort cs))) = 4 * length (sort cs)"
    using assms(2) length_concat_const [of "map (\<lambda>c. map felt_from_u64 (limbs c)) (sort cs)" 4] by (simp add: length_limbs)
  then show ?thesis by (simp add: node_felts_limbs [OF assms])
qed

text \<open>Equal sixteen elements: the running hash is one of the children of the node.\<close>

lemma child_of_node:
  assumes nok: "note_hash_ok nh" and c: "length c = 4" and s: "siblings_ok s" "p < 4"
    and ds: "\<forall>d\<in>set ds. digest_ok d" and eq: "concat (insert_child p c s) = node_felts (nh_core nh) ds"
  shows "digest_to_bytes nh c \<in> set ds"
proof -
  let ?e = "\<lambda>d. map felt_from_u64 (limbs d)" and ?ch = "insert_child p c s"
  have len32: "\<forall>d\<in>set ds. length d = 32" using ds by (simp add: digest_ok_def)
  note ch = length_insert_child [OF s c]
  have "?ch = chunks_exact 4 (concat ?ch)" using ch by (subst chunks_exact_concat) auto
  also have "\<dots> = chunks_exact 4 (concat (map ?e (sort ds)))"
    unfolding eq node_felts_limbs [OF note_hash_okD(1) [OF nok] len32] by (rule refl)
  also have "\<dots> = map ?e (sort ds)" using len32 by (subst chunks_exact_concat) (auto simp: length_limbs)
  finally have "c \<in> set (map ?e (sort ds))" using ch by simp
  then obtain d where d: "d \<in> set ds" "c = ?e d" by auto
  have "digest_to_bytes nh c = d"
    using d ds felts_of_canonical_bytes [of d] by (simp add: note_hash_okD(4) [OF nok] digest_ok_def)
  then show ?thesis using d(1) by simp
qed

section \<open>A path ends at a leaf\<close>

lemma path_opens_leaf:
  assumes nok: "note_hash_ok nh" and pre: "length pre \<noteq> 16" "c = hash_to_felts nh pre"
    and ls: "ls = map (hash_to_bytes (nh_core nh)) ops" "\<forall>xs\<in>set ops. length xs \<noteq> 16"
  shows "\<forall>(p, s)\<in>set lv. p < 4 \<and> siblings_ok s \<Longrightarrow>
    digest_to_bytes nh (path_root nh lv c) = ref_node (nh_core nh) ls D i \<Longrightarrow>
    digest_to_bytes nh c \<in> set ls \<or> spend_break nh ls ops D (pre # path_preimages nh lv c)"
proof (induction lv arbitrary: D i rule: rev_induct)
  case Nil
  have pok: "poseidon_ok (nh_core nh)" using nok by (rule note_hash_okD)
  have hash: "hash_to_bytes (nh_core nh) pre = ref_node (nh_core nh) ls D i"
    using Nil pre(2) note_hash_okD(3) [OF nok, of pre] by simp
  show ?case
  proof (cases D)
    case 0
    then show ?thesis
      using Nil hash by (cases "i < length ls") (auto intro!: spend_break_zero [of pre])
  next
    case (Suc l)
    have d32: "\<forall>d\<in>set (tree_children (nh_core nh) ls l i). length d = 32"
      using digest_ok_ref_node [OF pok] ls(1) by (auto simp: tree_children_def digest_ok_def poseidon_okD [OF pok])
    show ?thesis
    proof (cases "i * ARITY ^ Suc l < length ls")
      case False
      then show ?thesis using hash Suc by (auto intro!: spend_break_zero [of pre])
    next
      case True
      then have "tree_preimage nh ls ops D (node_felts (nh_core nh) (tree_children (nh_core nh) ls l i))"
        using Suc by (auto simp: tree_preimage_def)
      moreover have "pre \<noteq> node_felts (nh_core nh) (tree_children (nh_core nh) ls l i)"
        using length_node_felts [OF pok d32] pre(1) by (auto simp: tree_children_def ARITY_def)
      moreover have "hash_to_bytes (nh_core nh) pre = hash_to_bytes (nh_core nh) (node_felts (nh_core nh) (tree_children (nh_core nh) ls l i))"
        using hash Suc True by (simp add: hash_node_def tree_children_def)
      ultimately show ?thesis by (intro disjI2 spend_break_collision [of pre]) simp_all
    qed
  qed
next
  case (snoc lvl lv)
  have pok: "poseidon_ok (nh_core nh)" using nok by (rule note_hash_okD)
  have lsok: "\<forall>h\<in>set ls. digest_ok h" using ls(1) by (auto simp: digest_ok_def poseidon_okD [OF pok])
  obtain p s where lvl: "lvl = (p, s)" by (rule prod.exhaust)
  have ps: "p < 4" "siblings_ok s" using snoc.prems(1) lvl by simp_all
  let ?x = "path_root nh lv c" and ?used = "pre # path_preimages nh (lv @ [lvl]) c"
  let ?xs = "concat (insert_child p ?x s)"
  have x4: "length ?x = 4" using length_path_root [OF nok] length_note_digests(4) [OF nok] pre(2) by simp
  have used: "?xs \<in> set ?used" by (simp add: lvl path_preimages_snoc)
  have xs16: "length ?xs = 16" using length_insert_child [OF ps(2,1) x4] length_concat_const [of "insert_child p ?x s" 4] by simp
  have hash: "hash_to_bytes (nh_core nh) ?xs = ref_node (nh_core nh) ls D i"
    using snoc.prems(2) note_hash_okD(3) [OF nok, of ?xs] by (simp add: lvl path_root_snoc)
  show ?case
  proof (cases D)
    case 0
    show ?thesis
    proof (cases "i < length ls")
      case False
      then show ?thesis using hash 0 used by (auto intro!: spend_break_zero [of ?xs])
    next
      case True
      then have "tree_preimage nh ls ops D (ops ! i)" "?xs \<noteq> ops ! i" "hash_to_bytes (nh_core nh) ?xs = hash_to_bytes (nh_core nh) (ops ! i)"
        using ls xs16 hash 0 by (auto simp: tree_preimage_def)
      then show ?thesis using used by (intro disjI2 spend_break_collision [of ?xs])
    qed
  next
    case (Suc l)
    show ?thesis
    proof (cases "i * ARITY ^ Suc l < length ls")
      case False
      then show ?thesis using hash Suc used by (auto intro!: spend_break_zero [of ?xs])
    next
      case True
      let ?ds = "tree_children (nh_core nh) ls l i"
      have tp: "tree_preimage nh ls ops D (node_felts (nh_core nh) ?ds)" using Suc True by (auto simp: tree_preimage_def)
      have same: "hash_to_bytes (nh_core nh) ?xs = hash_to_bytes (nh_core nh) (node_felts (nh_core nh) ?ds)"
        using hash Suc True by (simp add: hash_node_def tree_children_def)
      show ?thesis
      proof (cases "?xs = node_felts (nh_core nh) ?ds")
        case False
        then show ?thesis using tp same used by (intro disjI2 spend_break_collision [of ?xs])
      next
        case eq: True
        have "\<forall>d\<in>set ?ds. digest_ok d" using digest_ok_ref_node [OF pok lsok] by (auto simp: tree_children_def)
        from child_of_node [OF nok x4 ps(2,1) this eq]
        obtain j where "digest_to_bytes nh ?x = ref_node (nh_core nh) ls l j" by (auto simp: tree_children_def)
        from snoc.IH [OF _ this] snoc.prems(1)
        have "digest_to_bytes nh c \<in> set ls \<or> spend_break nh ls ops l (pre # path_preimages nh lv c)" by simp
        then show ?thesis
        proof
          assume "spend_break nh ls ops l (pre # path_preimages nh lv c)"
          then have "spend_break nh ls ops D ?used" by (rule spend_break_mono) (auto simp: Suc lvl path_preimages_snoc)
          then show ?thesis ..
        qed simp
      qed
    qed
  qed
qed

section \<open>What a satisfied leaf spends\<close>

definition input_preimage :: "note_hash \<Rightarrow> input_targets \<Rightarrow> goldilocks list" where
  "input_preimage nh i =
     rule_felts (Rule_cm (note_inner nh (derive_pk nh (in_ask i) (in_nk i)) (in_rho i) (in_r i)) (to_canonical_u64 (in_value i)))"

lemma input_commitment_preimage: "input_commitment nh i = hash_to_felts nh (input_preimage nh i)"
  by (simp add: input_commitment_def input_preimage_def rule_hashes(4))

lemma length_input_preimage: "note_hash_ok nh \<Longrightarrow> length (input_preimage nh i) = 6"
  by (simp add: input_preimage_def note_inner_def length_hash_felts)

lemma path_of_shape:
  assumes "path_shape path" "\<forall>p\<in>set (pt_positions path). to_canonical_u64 p < 4"
  shows "\<forall>(p, s)\<in>set (take d (path_of path)). p < 4 \<and> siblings_ok s"
proof -
  have "p < 4 \<and> siblings_ok s" if "(p, s) \<in> set (path_of path)" for p s
    using assms set_zip_leftD [OF that [unfolded path_of_def]] set_zip_rightD [OF that [unfolded path_of_def]]
    by (auto simp: path_shape_def list_all_iff)
  then show ?thesis by (auto dest: in_set_takeD)
qed

text \<open>The hashes that tie the commitment of an input to its keys and randomness.\<close>

definition input_rules :: "note_hash \<Rightarrow> input_targets \<Rightarrow> note_rule list" where
  "input_rules nh i =
     [Rule_cm (note_inner nh (derive_pk nh (in_ask i) (in_nk i)) (in_rho i) (in_r i)) (to_canonical_u64 (in_value i)),
      Rule_note (derive_pk nh (in_ask i) (in_nk i)) (in_rho i) (in_r i), Rule_pk (derive_ak nh (in_ask i)) (in_nk i)]"

definition rules_collide :: "note_hash \<Rightarrow> note_rule list \<Rightarrow> note_rule list \<Rightarrow> bool" where
  "rules_collide nh xs ys \<longleftrightarrow>
     list_ex (\<lambda>(a, b). rule_felts a \<noteq> rule_felts b \<and> hash_to_felts nh (rule_felts a) = hash_to_felts nh (rule_felts b)) (zip xs ys)"

lemma rule_step:
  assumes "rule_ok a" "rule_ok b" "hash_to_felts nh (rule_felts a) = hash_to_felts nh (rule_felts b)"
  shows "a = b \<or> rules_collide nh [a] [b]"
  using assms rule_felts_inject by (auto simp: rules_collide_def)

lemma rules_collide_append:
  "rules_collide nh [a] [b] \<Longrightarrow> rules_collide nh (a # xs) (b # ys)"
  "rules_collide nh xs ys \<Longrightarrow> rules_collide nh (a # xs) (b # ys)"
  by (auto simp: rules_collide_def)

lemma commitment_binds_note:
  assumes nok: "note_hash_ok nh" and shape: "input_shape i" "input_shape j"
    and range: "to_canonical_u64 (in_value i) \<le> NOTE_MAX_VALUE" "to_canonical_u64 (in_value j) \<le> NOTE_MAX_VALUE"
    and eq: "input_commitment nh i = input_commitment nh j"
  shows "(in_nk i = in_nk j \<and> in_rho i = in_rho j \<and> in_r i = in_r j \<and> in_value i = in_value j) \<or> rules_collide nh (input_rules nh i) (input_rules nh j)"
proof -
  let ?pk = "\<lambda>i. derive_pk nh (in_ask i) (in_nk i)"
  let ?cm = "\<lambda>i. Rule_cm (note_inner nh (?pk i) (in_rho i) (in_r i)) (to_canonical_u64 (in_value i))"
  let ?note = "\<lambda>i. Rule_note (?pk i) (in_rho i) (in_r i)" and ?key = "\<lambda>i. Rule_pk (derive_ak nh (in_ask i)) (in_nk i)"
  have len: "length (note_inner nh a b c) = 4" "length (derive_pk nh a b) = 4" "length (derive_ak nh a) = 4" for a b c
    by (simp_all add: note_inner_def derive_pk_def derive_ak_def length_hash_felts [OF nok])
  have ok: "rule_ok (?cm i)" "rule_ok (?cm j)" "rule_ok (?note i)" "rule_ok (?note j)" "rule_ok (?key i)" "rule_ok (?key j)"
    using shape range by (simp_all add: len input_shape_def)
  have "?cm i = ?cm j \<or> rules_collide nh [?cm i] [?cm j]"
    using eq by (intro rule_step ok) (simp add: input_commitment_preimage input_preimage_def)
  then show ?thesis
  proof (elim disjE)
    assume cm: "?cm i = ?cm j"
    then have "hash_to_felts nh (rule_felts (?note i)) = hash_to_felts nh (rule_felts (?note j))" by (simp add: rule_hashes(3) del: rule_felts.simps)
    from rule_step [OF ok(3,4) this] show ?thesis
    proof (elim disjE)
      assume note_eq: "?note i = ?note j"
      then have "hash_to_felts nh (rule_felts (?key i)) = hash_to_felts nh (rule_felts (?key j))" by (simp add: rule_hashes(2) del: rule_felts.simps)
      from rule_step [OF ok(5,6) this] show ?thesis
        using cm note_eq by (auto simp: input_rules_def felt_eq_iff intro: rules_collide_append)
    qed (simp add: input_rules_def rules_collide_append)
  qed (simp add: input_rules_def rules_collide_append)
qed

lemma satisfied_input:
  assumes ok: "plonky2_ok pl nh" and shape: "targets_shape t" and sat: "build_constraints pl t" and k: "k < NUM_INPUTS"
  shows "input_shape (t_inputs t ! k)"
    "input_statement nh (to_canonical_u64 (t_depth t)) (ht_zk_tree_root (t_header t)) (t_nullifiers t ! k) (t_inputs t ! k)"
proof -
  show "input_shape (t_inputs t ! k)" using shape k by (simp add: targets_shape_def list_all_length)
  show "input_statement nh (to_canonical_u64 (t_depth t)) (ht_zk_tree_root (t_header t)) (t_nullifiers t ! k) (t_inputs t ! k)"
    using build_constraints_iff [OF ok shape] sat k by (simp add: leaf_statement_def)
qed

definition spend_preimages :: "note_hash \<Rightarrow> spend_targets \<Rightarrow> nat \<Rightarrow> goldilocks list list" where
  "spend_preimages nh t k =
     input_preimage nh (t_inputs t ! k) # path_preimages nh (take (to_canonical_u64 (t_depth t)) (path_of (in_path (t_inputs t ! k))))
       (input_commitment nh (t_inputs t ! k))"

lemma spent_note_settled:
  assumes nok: "note_hash_ok nh" and t: "targets_shape t" "leaf_statement nh t"
    and tree: "tree_inv (nh_core nh) tree" "digest_to_bytes nh (ht_zk_tree_root (t_header t)) = Root tree"
    and opens: "settled_leaves tree = map (hash_to_bytes (nh_core nh)) openings" "\<forall>xs\<in>set openings. length xs \<noteq> 16"
    and k: "k < NUM_INPUTS" "in_is_dummy (t_inputs t ! k) = felt_of_bool False"
  shows "digest_to_bytes nh (input_commitment nh (t_inputs t ! k)) \<in> set (settled_leaves tree)
    \<or> spend_break nh (settled_leaves tree) openings (Depth tree) (spend_preimages nh t k)"
proof -
  let ?i = "t_inputs t ! k" and ?d = "to_canonical_u64 (t_depth t)"
  have i: "input_shape ?i" "input_statement nh ?d (ht_zk_tree_root (t_header t)) (t_nullifiers t ! k) ?i"
    using t k(1) by (simp_all add: targets_shape_def list_all_length leaf_statement_def)
  have pos: "\<forall>p\<in>set (pt_positions (in_path ?i)). to_canonical_u64 p < 4"
    and root: "path_root nh (take ?d (path_of (in_path ?i))) (input_commitment nh ?i) = ht_zk_tree_root (t_header t)"
    using i(2) k(2) by (auto simp: input_statement_def split: if_splits)
  have "path_shape (in_path ?i)" using i(1) by (simp add: input_shape_def)
  note lv = path_of_shape [OF this pos, of ?d]
  have "digest_to_bytes nh (path_root nh (take ?d (path_of (in_path ?i))) (input_commitment nh ?i))
      = ref_node (nh_core nh) (settled_leaves tree) (Depth tree) 0"
    using tree root by (simp add: tree_inv_def del: ref_node.simps)
  then show ?thesis
    unfolding spend_preimages_def
    using length_input_preimage [OF nok, of ?i] by (intro path_opens_leaf [OF nok _ input_commitment_preimage opens lv]) simp_all
qed

section \<open>Properties\<close>

text \<open>
  C5: The leaf circuit proves exactly the transfer it documents. An assignment of the circuit's targets meets
  every constraint, over the field, if and only if it is a transfer in the plain sense: the header's hash and
  a 32-bit number, a depth of at most 20, each real input a note under the header's tree root whose nullifier
  is published, each dummy worth nothing with a nullifier of its own domain, distinct nullifiers, outputs whose
  \<open>rho\<close> is derived from both nullifiers, and amounts below two to the 62 that balance as integers.
\<close>

theorem leaf_circuit_exact:
  assumes "plonky2_ok pl nh" "targets_shape t"
  shows "build_constraints pl t \<longleftrightarrow> leaf_statement nh t"
  using assms by (rule build_constraints_iff)

definition sample_spend_targets :: "header_inputs \<Rightarrow> merkle_path \<Rightarrow> output_note list \<Rightarrow> nat \<Rightarrow> felt_digest \<Rightarrow> spend_targets" where
  "sample_spend_targets hi path outs fee ct =
     (let w = one_note_spend hi 1 sample_keys sample_note path (felts4 5) (felts4 6) outs fee ct
      in fill_private w (fill_public w (public_values_from_witness sample_note_hash w) blank_targets))"

lemma sample_spend_targets_ok:
  assumes "outs = [out_1, out_2]" "list_all output_note_shape outs" "sum_list (map ow_value outs) + fee = 10" "length ct = 4"
  shows "\<exists>hi path. targets_shape (sample_spend_targets hi path outs fee ct)
    \<and> build_constraints (plonky2_std sample_note_hash) (sample_spend_targets hi path outs fee ct) \<and> hi_zk_tree_root hi = sample_root
    \<and> hi_block_number hi = hdr_number sample_spend_header
    \<and> digest_to_bytes sample_note_hash (header_inputs_block_hash sample_note_hash hi) = header_hash sample_wallet_crypto sample_spend_header"
proof -
  obtain hi where hi: "header_inputs_new sample_wallet_crypto empty_digest (hdr_number sample_spend_header) (hdr_state_root sample_spend_header)
      (hdr_extrinsics_root sample_spend_header) sample_root (digest_encode sample_wallet_crypto (hdr_digest sample_spend_header)) = Inr hi"
    using sample_header_inputs by (elim exE)
  have "digest_to_bytes sample_note_hash sample_root = hdr_zk_tree_root sample_spend_header"
    using sample_root_bytes sample_header_facts by simp
  note header = header_inputs_hash [OF sample_note_hash_ok sample_wallet_crypto_ok sample_header_facts(1,2,4) this hi]
  let ?w = "\<lambda>path. one_note_spend hi 1 sample_keys sample_note path (felts4 5) (felts4 6) outs fee ct"
  obtain path where w: "witness_shape (?w path)" "witness_accepted (?w path)" "transfer_valid sample_note_hash (?w path)"
    using sample_spend [OF hi assms] by (elim exE conjE)
  have t: "sample_spend_targets hi path outs fee ct
      = fill_private (?w path) (fill_public (?w path) (public_values_from_witness sample_note_hash (?w path)) blank_targets)"
    by (simp add: sample_spend_targets_def Let_def)
  have "hi_block_number hi = hdr_number sample_spend_header" using hi by (auto simp: header_inputs_new_def Let_def ensure_ok_iff)
  then show ?thesis
    using fill_targets_shape [OF sample_note_hash_ok w(1) t] filled_constraints [OF plonky2_std_ok [OF sample_note_hash_ok] w(1,2) t] w(3) header(2,3) by blast
qed

lemmas sample_outs_targets = sample_spend_targets_ok [OF sample_outs_def sample_spend_rest(7,9) length_empty_digest]

theorem leaf_circuit_exact_witness: "\<exists>t. targets_shape t \<and> leaf_statement sample_note_hash t"
proof -
  obtain hi path where t: "targets_shape (sample_spend_targets hi path sample_outs 1 empty_digest)" "build_constraints (plonky2_std sample_note_hash) (sample_spend_targets hi path sample_outs 1 empty_digest)"
    using sample_outs_targets by (elim exE conjE)
  from leaf_circuit_exact [OF plonky2_std_ok [OF sample_note_hash_ok] t(1)] t show ?thesis by blast
qed

text \<open>
  C7: Only settled notes are spent. If an assignment satisfies the leaf and its header carries the root of a tree
  the chain can reach, whose leaves were made by hashing anything but sixteen field elements, then the
  commitment opened by every real input is a settled leaf of that tree, whatever depth, siblings and
  positions the prover chose; or the prover's own values exhibit a break of the hash, one of their
  preimages hashing to the empty digest or colliding with a preimage of the tree.
\<close>

theorem only_settled_notes_spent:
  assumes "plonky2_ok pl nh" "targets_shape t" "build_constraints pl t"
    and "zk_reachable (nh_core nh) tree" "digest_to_bytes nh (ht_zk_tree_root (t_header t)) = Root tree"
    and "settled_leaves tree = map (hash_to_bytes (nh_core nh)) openings" "\<forall>xs\<in>set openings. length xs \<noteq> 16"
    and "k < NUM_INPUTS" "in_is_dummy (t_inputs t ! k) = felt_of_bool False"
  shows "digest_to_bytes nh (input_commitment nh (t_inputs t ! k)) \<in> set (settled_leaves tree)
    \<or> spend_break nh (settled_leaves tree) openings (Depth tree)
        (input_preimage nh (t_inputs t ! k) # path_preimages nh (take (to_canonical_u64 (t_depth t)) (path_of (in_path (t_inputs t ! k))))
           (input_commitment nh (t_inputs t ! k)))"
proof -
  have nok: "note_hash_ok nh" using assms(1) by (rule plonky2_okD)
  have "tree_inv (nh_core nh) tree" using zk_reachable_inv [OF assms(4) note_hash_okD(1) [OF nok]] by simp
  then show ?thesis
    using spent_note_settled [OF nok assms(2) _ _ assms(5-9)] build_constraints_iff [OF assms(1,2)] assms(3) by (simp add: spend_preimages_def)
qed

lemma sample_spend_targets_fields:
  "ht_zk_tree_root (t_header (sample_spend_targets hi path outs fee ct)) = hi_zk_tree_root hi"
  "in_is_dummy (t_inputs (sample_spend_targets hi path outs fee ct) ! 0) = felt_of_bool False"
  "input_commitment sample_note_hash (t_inputs (sample_spend_targets hi path outs fee ct) ! 0) = sample_cm"
  using sample_spend_rest(1)
  by (simp_all add: sample_spend_targets_def Let_def fill_fields [OF refl] one_note_spend_def real_input_def fill_input_def input_commitment_def
      sample_cm_def commitment_of_def inner_of_def derived_pk_def sample_spend_rest(8) GOLDILOCKS_P_def)

lemma sample_openings:
  "\<exists>xs. settled_leaves sample_note_tree = map (hash_to_bytes (nh_core sample_note_hash)) [xs] \<and> length xs = 6"
proof -
  let ?xs = "rule_felts (Rule_cm (inner_of sample_note_hash sample_note) (note_value sample_note))"
  have "settled_leaves sample_note_tree = [digest_to_bytes sample_note_hash sample_cm]"
    by (simp add: settled_leaves_def all_leaves_def sample_note_tree_fields)
  moreover have "hash_to_bytes (nh_core sample_note_hash) ?xs = digest_to_bytes sample_note_hash sample_cm"
    by (simp add: note_hash_okD(3) [OF sample_note_hash_ok] sample_cm_def commitment_of_def rule_hashes(4) del: rule_felts.simps)
  moreover have "length ?xs = 6" by (simp add: inner_of_def note_inner_def length_hash_felts [OF sample_note_hash_ok])
  ultimately show ?thesis by (intro exI [of _ ?xs]) (simp del: rule_felts.simps)
qed

theorem only_settled_notes_spent_witness:
  "\<exists>t xs. build_constraints (plonky2_std sample_note_hash) t
     \<and> (digest_to_bytes sample_note_hash (input_commitment sample_note_hash (t_inputs t ! 0)) \<in> set (settled_leaves sample_note_tree)
        \<or> spend_break sample_note_hash (settled_leaves sample_note_tree) [xs] 1
            (input_preimage sample_note_hash (t_inputs t ! 0) # path_preimages sample_note_hash
              (take (to_canonical_u64 (t_depth t)) (path_of (in_path (t_inputs t ! 0)))) (input_commitment sample_note_hash (t_inputs t ! 0))))"
proof -
  obtain hi path where t: "targets_shape (sample_spend_targets hi path sample_outs 1 empty_digest)" "build_constraints (plonky2_std sample_note_hash) (sample_spend_targets hi path sample_outs 1 empty_digest)"
    and root: "hi_zk_tree_root hi = sample_root"
    using sample_outs_targets by (elim exE conjE)
  obtain xs where xs: "settled_leaves sample_note_tree = map (hash_to_bytes (nh_core sample_note_hash)) [xs]" "length xs = 6"
    using sample_openings by (elim exE conjE)
  have zk: "digest_to_bytes sample_note_hash (ht_zk_tree_root (t_header (sample_spend_targets hi path sample_outs 1 empty_digest))) = Root sample_note_tree"
    by (simp add: sample_spend_targets_fields root sample_root_bytes)
  have k: "0 < NUM_INPUTS" and len: "\<forall>ys\<in>set [xs]. length ys \<noteq> 16" using xs(2) by (simp_all add: NUM_INPUTS_def)
  from only_settled_notes_spent [OF plonky2_std_ok [OF sample_note_hash_ok] t sample_note_tree_reachable zk xs(1) len k sample_spend_targets_fields(2)] t(2)
  show ?thesis unfolding sample_note_tree_fields(3) by blast
qed

text \<open>
  C8: One note, one nullifier. Two real inputs, of one satisfied leaf or of two, that open the same commitment
  publish the same nullifier and carry the same amount, or two of the hashes they are made of collide. A
  dummy slot and a real one never publish the same nullifier, or their two preimages collide.
\<close>

theorem one_nullifier_per_note:
  assumes "plonky2_ok pl nh" "targets_shape t" "build_constraints pl t" "targets_shape t'" "build_constraints pl t'"
    and "k < NUM_INPUTS" "k' < NUM_INPUTS" "in_is_dummy (t_inputs t ! k) = felt_of_bool False" "in_is_dummy (t_inputs t' ! k') = felt_of_bool dummy"
    and "if dummy then t_nullifiers t ! k = t_nullifiers t' ! k'
         else input_commitment nh (t_inputs t ! k) = input_commitment nh (t_inputs t' ! k')"
  shows "(\<not> dummy \<and> t_nullifiers t ! k = t_nullifiers t' ! k' \<and> in_value (t_inputs t ! k) = in_value (t_inputs t' ! k'))
    \<or> rules_collide nh (input_rules nh (t_inputs t ! k)) (input_rules nh (t_inputs t' ! k'))
    \<or> rules_collide nh [Rule_nf (in_nk (t_inputs t ! k)) (in_rho (t_inputs t ! k)) (in_r (t_inputs t ! k))]
        [Rule_nf_dummy (in_nk (t_inputs t' ! k')) (in_rho (t_inputs t' ! k')) (in_r (t_inputs t' ! k'))]"
proof -
  let ?i = "t_inputs t ! k" and ?j = "t_inputs t' ! k'"
  have nok: "note_hash_ok nh" using assms(1) by (rule plonky2_okD)
  note i = satisfied_input [OF assms(1-3,6)] and j = satisfied_input [OF assms(1,4,5,7)]
  have nf: "t_nullifiers t ! k = nullifier nh (in_nk ?i) (in_rho ?i) (in_r ?i)" "t_nullifiers t' ! k' = input_nullifier nh dummy ?j"
    and range: "to_canonical_u64 (in_value ?i) \<le> NOTE_MAX_VALUE" "to_canonical_u64 (in_value ?j) \<le> NOTE_MAX_VALUE"
    using i(2) j(2) assms(8,9) by (auto simp: input_statement_def input_nullifier_def)
  show ?thesis
  proof (cases dummy)
    case True
    have "Rule_nf (in_nk ?i) (in_rho ?i) (in_r ?i) = Rule_nf_dummy (in_nk ?j) (in_rho ?j) (in_r ?j)
        \<or> rules_collide nh [Rule_nf (in_nk ?i) (in_rho ?i) (in_r ?i)] [Rule_nf_dummy (in_nk ?j) (in_rho ?j) (in_r ?j)]"
      using i(1) j(1) assms(10) True nf
      by (intro rule_step) (simp_all add: input_shape_def input_nullifier_def rule_hashes(5,6) del: rule_felts.simps)
    then show ?thesis by simp
  next
    case False
    then have "input_commitment nh ?i = input_commitment nh ?j" using assms(10) by simp
    from commitment_binds_note [OF nok i(1) j(1) range this] show ?thesis using False nf by (auto simp: input_nullifier_def)
  qed
qed

text \<open>One note spent in two leaves that pay different fees.\<close>

theorem one_nullifier_per_note_witness:
  "\<exists>t t'. build_constraints (plonky2_std sample_note_hash) t \<and> build_constraints (plonky2_std sample_note_hash) t'
     \<and> ((t_nullifiers t ! 0 = t_nullifiers t' ! 0 \<and> in_value (t_inputs t ! 0) = in_value (t_inputs t' ! 0))
        \<or> rules_collide sample_note_hash (input_rules sample_note_hash (t_inputs t ! 0)) (input_rules sample_note_hash (t_inputs t' ! 0))
        \<or> rules_collide sample_note_hash [Rule_nf (in_nk (t_inputs t ! 0)) (in_rho (t_inputs t ! 0)) (in_r (t_inputs t ! 0))]
            [Rule_nf_dummy (in_nk (t_inputs t' ! 0)) (in_rho (t_inputs t' ! 0)) (in_r (t_inputs t' ! 0))])"
proof -
  let ?outs = "[sample_outs ! 0, (sample_outs ! 0)\<lparr>ow_value := 2\<rparr>]"
  obtain hi path where t: "targets_shape (sample_spend_targets hi path sample_outs 1 empty_digest)"
    "build_constraints (plonky2_std sample_note_hash) (sample_spend_targets hi path sample_outs 1 empty_digest)"
    using sample_outs_targets by (elim exE conjE)
  have "list_all output_note_shape ?outs" "sum_list (map ow_value ?outs) + 2 = 10"
    using sample_spend_rest(7) by (simp_all add: sample_outs_def output_note_shape_def)
  then obtain hi' path' where t': "targets_shape (sample_spend_targets hi' path' ?outs 2 empty_digest)"
    "build_constraints (plonky2_std sample_note_hash) (sample_spend_targets hi' path' ?outs 2 empty_digest)"
    using sample_spend_targets_ok [OF refl _ _ length_empty_digest] by blast
  have k: "0 < NUM_INPUTS" by (simp add: NUM_INPUTS_def)
  have same: "if False then t_nullifiers (sample_spend_targets hi path sample_outs 1 empty_digest) ! 0 = t_nullifiers (sample_spend_targets hi' path' ?outs 2 empty_digest) ! 0
      else input_commitment sample_note_hash (t_inputs (sample_spend_targets hi path sample_outs 1 empty_digest) ! 0)
        = input_commitment sample_note_hash (t_inputs (sample_spend_targets hi' path' ?outs 2 empty_digest) ! 0)"
    by (simp only: if_False sample_spend_targets_fields(3))
  from one_nullifier_per_note [OF plonky2_std_ok [OF sample_note_hash_ok] t t' k k sample_spend_targets_fields(2) sample_spend_targets_fields(2) same] t(2) t'(2)
  show ?thesis by blast
qed

end
