(* ===== verification/BatchCircuit.thy ===== *)
theory BatchCircuit
  imports SpendSafety BatchVerifier
begin

text \<open>
  The two aggregation circuits, \<open>crates/qnero-aggregator/src\<close>: the private batch that masks its padding
  slots and agrees on one block (\<open>private_batch/circuit.rs\<close>), and the public batch that forwards private
  batches under one aggregator address (\<open>public_batch/circuit.rs\<close>). A circuit is modelled by its
  evaluation, as in \<open>Gadgets\<close>: the public inputs it registers, and whether every constraint holds.
  Recursive verification of an inner proof is a parameter, a predicate on the inner public inputs.

  The lemmas show which vectors satisfy each circuit and that what it publishes parses, in the layout the chain
  reads, to the masked slots of its leaves; so a slot the chain settles is a transfer some leaf proved.
\<close>

section \<open>The leaf's public inputs\<close>

definition NULLIFIER_START :: nat where "NULLIFIER_START = BLOCK_NUMBER_INDEX + 1"
definition COMMITMENT_START :: nat where "COMMITMENT_START = NULLIFIER_START + NUM_INPUTS * DIGEST_FELTS"
definition FEE_INDEX :: nat where "FEE_INDEX = COMMITMENT_START + NUM_OUTPUTS * DIGEST_FELTS"
definition CT_DIGEST_START :: nat where "CT_DIGEST_START = FEE_INDEX + 1"
definition PUBLIC_INPUT_LEN :: nat where "PUBLIC_INPUT_LEN = CT_DIGEST_START + DIGEST_FELTS"

definition nullifier_index :: "nat \<Rightarrow> nat" where
  "nullifier_index i = NULLIFIER_START + i * DIGEST_FELTS"

definition commitment_index :: "nat \<Rightarrow> nat" where
  "commitment_index j = COMMITMENT_START + j * DIGEST_FELTS"

declare NULLIFIER_START_def [layout_defs] COMMITMENT_START_def [layout_defs] FEE_INDEX_def [layout_defs]
  CT_DIGEST_START_def [layout_defs] PUBLIC_INPUT_LEN_def [layout_defs] nullifier_index_def [layout_defs] commitment_index_def [layout_defs]

section \<open>Shared by both circuits\<close>

text \<open>One turn of the prefix scan for the block reference: found, hash, number.\<close>

definition scan_step ::
  "circuit_builder \<Rightarrow> goldilocks \<times> felt_digest \<times> goldilocks \<Rightarrow> goldilocks \<times> felt_digest \<times> goldilocks \<Rightarrow> goldilocks \<times> felt_digest \<times> goldilocks" where
  "scan_step pl st slot =
     (case (st, slot) of ((found_real, block_ref, block_number_ref), (is_padding, block_hash, block_number)) \<Rightarrow>
       let is_real = g_not pl is_padding;
           not_found_yet = g_not pl found_real;
           takes = g_and pl is_real not_found_yet
       in (g_or pl found_real is_real, map (\<lambda>limb. g_select pl takes (block_hash ! limb) (block_ref ! limb)) [0..<DIGEST_FELTS],
           g_select pl takes block_number block_number_ref))"

definition block_slot :: "circuit_builder \<Rightarrow> goldilocks list \<Rightarrow> goldilocks \<times> felt_digest \<times> goldilocks" where
  "block_slot pl pis =
     (let block_hash = digest_at pis BLOCK_HASH_START
      in (digests_are_equal pl block_hash padding_block_hash_target, block_hash, pis ! BLOCK_NUMBER_INDEX))"

definition block_reference :: "circuit_builder \<Rightarrow> goldilocks list list \<Rightarrow> felt_digest \<times> goldilocks" where
  "block_reference pl inner_pis =
     snd (foldl (scan_step pl) (felt_of_bool False, padding_block_hash_target, felt_from_u64 PADDING_BLOCK_NUMBER) (map (block_slot pl) inner_pis))"

definition block_agrees :: "circuit_builder \<Rightarrow> felt_digest \<times> goldilocks \<Rightarrow> goldilocks list \<Rightarrow> bool" where
  "block_agrees pl reference pis =
     (case (reference, block_slot pl pis) of ((block_ref, block_number_ref), (is_padding, block_hash, block_number)) \<Rightarrow>
       g_connect pl (g_or pl is_padding (digests_are_equal pl block_hash block_ref)) (felt_from_u64 1) \<and>
       g_connect pl (g_or pl is_padding (g_is_equal pl block_number block_number_ref)) (felt_from_u64 1))"

section \<open>The private batch\<close>

definition padding_nullifier :: "circuit_builder \<Rightarrow> felt_digest \<Rightarrow> felt_digest" where
  "padding_nullifier pl preimage = g_hash pl (domain_NF_BATCH_PADDING # preimage)"

text \<open>The nullifiers one slot emits, and everything it publishes.\<close>

definition emitted_slot :: "circuit_builder \<Rightarrow> goldilocks list \<times> felt_digest list \<Rightarrow> felt_digest list" where
  "emitted_slot pl slot =
     (case slot of (pis, preimages) \<Rightarrow>
       map (\<lambda>input. map (\<lambda>limb. g_select pl (fst (block_slot pl pis)) (padding_nullifier pl (preimages ! input) ! limb)
                               (digest_at pis (nullifier_index input) ! limb)) [0..<DIGEST_FELTS]) [0..<NUM_INPUTS])"

definition masked :: "circuit_builder \<Rightarrow> goldilocks \<Rightarrow> goldilocks list \<Rightarrow> goldilocks list" where
  "masked pl padding xs = map (\<lambda>limb. g_select pl padding (felt_from_u64 0) limb) xs"

definition slot_outputs :: "circuit_builder \<Rightarrow> goldilocks list \<times> felt_digest list \<Rightarrow> goldilocks list" where
  "slot_outputs pl slot =
     (case slot of (pis, preimages) \<Rightarrow>
       let padding = fst (block_slot pl pis)
       in concat (emitted_slot pl slot)
          @ concat (map (\<lambda>out. masked pl padding (digest_at pis (commitment_index out))) [0..<NUM_OUTPUTS])
          @ masked pl padding [pis ! FEE_INDEX]
          @ masked pl padding (digest_at pis CT_DIGEST_START))"

fun distinct_pairs :: "circuit_builder \<Rightarrow> felt_digest list \<Rightarrow> bool" where
  "distinct_pairs pl [] \<longleftrightarrow> True"
| "distinct_pairs pl (left # rights) \<longleftrightarrow>
     list_all (\<lambda>right. g_connect pl (digests_are_equal pl left right) (felt_from_u64 0)) rights \<and> distinct_pairs pl rights"

record private_batch_targets =
  leaf_proofs :: "goldilocks list list"
  padding_nullifier_preimages :: "felt_digest list list"

definition build_private_batch_constraints :: "circuit_builder \<Rightarrow> private_batch_targets \<Rightarrow> goldilocks list \<times> bool" where
  "build_private_batch_constraints pl targets =
     (let slots = zip (leaf_proofs targets) (padding_nullifier_preimages targets);
          reference = block_reference pl (leaf_proofs targets)
      in (fst reference @ [snd reference] @ concat (map (slot_outputs pl) slots),
          list_all (block_agrees pl reference) (leaf_proofs targets) \<and> distinct_pairs pl (concat (map (emitted_slot pl) slots))))"

text \<open>The circuit as a whole: every leaf proof verifies, and the constraints hold.\<close>

definition private_batch_satisfied :: "circuit_builder \<Rightarrow> (goldilocks list \<Rightarrow> bool) \<Rightarrow> nat \<Rightarrow> private_batch_targets \<Rightarrow> bool" where
  "private_batch_satisfied pl leaf_verifies num_leaves targets \<longleftrightarrow>
     validate_proof_count num_leaves \<and> length (leaf_proofs targets) = num_leaves \<and>
     list_all leaf_verifies (leaf_proofs targets) \<and> snd (build_private_batch_constraints pl targets)"

section \<open>The public batch\<close>

record public_batch_targets =
  private_batch_proofs :: "goldilocks list list"
  aggregator_address_targets :: felt_digest

definition inner_outputs :: "circuit_builder \<Rightarrow> nat \<Rightarrow> goldilocks list \<Rightarrow> goldilocks list" where
  "inner_outputs pl inner_len pis =
     take HEADER_LEN pis @ masked pl (fst (block_slot pl pis)) (take (inner_len - HEADER_LEN) (drop HEADER_LEN pis))"

text \<open>The keys of the inner proofs, each with whether its proof is real.\<close>

definition inner_key :: "circuit_builder \<Rightarrow> goldilocks list \<Rightarrow> goldilocks \<times> felt_digest" where
  "inner_key pl pis = (g_not pl (fst (block_slot pl pis)), digest_at pis (slot_nullifier_index 0 0))"

fun distinct_keys :: "circuit_builder \<Rightarrow> (goldilocks \<times> felt_digest) list \<Rightarrow> bool" where
  "distinct_keys pl [] \<longleftrightarrow> True"
| "distinct_keys pl ((real, left) # rest) \<longleftrightarrow>
     list_all (\<lambda>(real', right). g_connect pl (g_and pl (g_and pl real real') (digests_are_equal pl left right)) (felt_from_u64 0)) rest
     \<and> distinct_keys pl rest"

definition build_public_batch_constraints :: "circuit_builder \<Rightarrow> public_batch_targets \<Rightarrow> nat \<Rightarrow> goldilocks list \<times> bool" where
  "build_public_batch_constraints pl targets num_leaves =
     (let inner_pis = private_batch_proofs targets;
          reference = block_reference pl inner_pis
      in (aggregator_address_targets targets @ concat (map (inner_outputs pl (private_batch_pi_len num_leaves)) inner_pis),
          list_all (block_agrees pl reference) inner_pis \<and> distinct_keys pl (map (inner_key pl) inner_pis)))"

definition public_batch_satisfied :: "circuit_builder \<Rightarrow> (goldilocks list \<Rightarrow> bool) \<Rightarrow> nat \<Rightarrow> nat \<Rightarrow> public_batch_targets \<Rightarrow> bool" where
  "public_batch_satisfied pl inner_verifies num_inner num_leaves targets \<longleftrightarrow>
     validate_proof_count num_inner \<and> validate_proof_count num_leaves \<and> length (private_batch_proofs targets) = num_inner \<and>
     list_all inner_verifies (private_batch_proofs targets) \<and> snd (build_public_batch_constraints pl targets num_leaves)"

section \<open>What the shared parts compute\<close>

definition leaf_padding :: "goldilocks list \<Rightarrow> bool" where
  "leaf_padding pis \<longleftrightarrow> digest_at pis BLOCK_HASH_START = padding_block_hash_target"

text \<open>The block of the first real entry.\<close>

definition first_block :: "goldilocks list list \<Rightarrow> felt_digest \<times> goldilocks" where
  "first_block xs =
     (case find (\<lambda>pis. \<not> leaf_padding pis) xs of
        None \<Rightarrow> (padding_block_hash_target, felt_from_u64 PADDING_BLOCK_NUMBER)
      | Some pis \<Rightarrow> (digest_at pis BLOCK_HASH_START, pis ! BLOCK_NUMBER_INDEX))"

definition one_block :: "goldilocks list list \<Rightarrow> bool" where
  "one_block xs \<longleftrightarrow>
     list_all (\<lambda>pis. leaf_padding pis \<or> (digest_at pis BLOCK_HASH_START = fst (first_block xs) \<and> pis ! BLOCK_NUMBER_INDEX = snd (first_block xs))) xs"

lemma length_padding_target [simp]: "length padding_block_hash_target = 4"
  by (simp add: padding_block_hash_target_def PADDING_BLOCK_HASH_def)

lemma block_slot_eval:
  "plonky2_ok pl nh \<Longrightarrow> block_slot pl pis = (felt_of_bool (leaf_padding pis), digest_at pis BLOCK_HASH_START, pis ! BLOCK_NUMBER_INDEX)"
  by (simp add: block_slot_def Let_def digests_are_equal_correct leaf_padding_def)

lemma select_digest:
  assumes "plonky2_ok pl nh" "length a = 4" "length b = 4"
  shows "map (\<lambda>limb. g_select pl (felt_of_bool c) (a ! limb) (b ! limb)) [0..<DIGEST_FELTS] = (if c then a else b)"
  using map_nth_digest [OF assms(2)] map_nth_digest [OF assms(3)] by (simp add: plonky2_okD(6) [OF assms(1)] DIGEST_FELTS_def)

lemma map_nth_felts: "length d = 4 \<Longrightarrow> map ((!) d) [0..<DIGEST_FELTS] = d"
  using map_nth [of d] by (simp add: DIGEST_FELTS_def del: upt_rec_numeral)

lemma scan_eval:
  assumes ok: "plonky2_ok pl nh"
  shows "length r = 4 \<Longrightarrow> snd (foldl (scan_step pl) (felt_of_bool found, r, n) (map (block_slot pl) xs))
    = (if found then (r, n) else case find (\<lambda>pis. \<not> leaf_padding pis) xs of None \<Rightarrow> (r, n) | Some pis \<Rightarrow> (digest_at pis BLOCK_HASH_START, pis ! BLOCK_NUMBER_INDEX))"
proof (induction xs arbitrary: found r n)
  case (Cons pis xs)
  have "scan_step pl (felt_of_bool found, r, n) (block_slot pl pis)
    = (felt_of_bool (found \<or> \<not> leaf_padding pis),
       if \<not> leaf_padding pis \<and> \<not> found then digest_at pis BLOCK_HASH_START else r, if \<not> leaf_padding pis \<and> \<not> found then pis ! BLOCK_NUMBER_INDEX else n)"
    using Cons.prems by (simp add: scan_step_def block_slot_eval [OF ok] Let_def plonky2_okD(6,7,8,9) [OF ok] map_nth_felts)
  then show ?case using Cons by simp
qed simp

lemma block_reference_eval: "plonky2_ok pl nh \<Longrightarrow> block_reference pl xs = first_block xs"
  using scan_eval [of pl nh padding_block_hash_target False] by (simp add: block_reference_def first_block_def split: option.splits)

lemma length_first_block: "length (fst (first_block xs)) = 4"
  by (simp add: first_block_def split: option.splits)

lemma block_agrees_iff:
  assumes ok: "plonky2_ok pl nh"
  shows "list_all (block_agrees pl (first_block xs)) xs \<longleftrightarrow> one_block xs"
proof -
  have "block_agrees pl (first_block xs) pis \<longleftrightarrow> leaf_padding pis
      \<or> (digest_at pis BLOCK_HASH_START = fst (first_block xs) \<and> pis ! BLOCK_NUMBER_INDEX = snd (first_block xs))" for pis
  proof -
    obtain r n where rn: "first_block xs = (r, n)" by (rule prod.exhaust)
    then have "length r = 4" using length_first_block [of xs] by simp
    then show ?thesis
      using digests_are_equal_correct [OF ok, of "digest_at pis BLOCK_HASH_START" r]
      by (auto simp: block_agrees_def rn block_slot_eval [OF ok] plonky2_okD(5,8,13) [OF ok] felt_of_bool_one)
  qed
  then show ?thesis by (auto simp: one_block_def list_all_iff)
qed

lemma distinct_pairs_iff:
  assumes ok: "plonky2_ok pl nh"
  shows "list_all (\<lambda>d. length d = 4) xs \<Longrightarrow> distinct_pairs pl xs \<longleftrightarrow> distinct xs"
proof (induction xs)
  case (Cons x xs)
  then have "list_all (\<lambda>y. g_connect pl (digests_are_equal pl x y) (felt_from_u64 0)) xs \<longleftrightarrow> x \<notin> set xs"
    using distinct_constraint_iff [OF ok, of x] by (auto simp: list_all_iff)
  then show ?case using Cons by simp
qed simp

lemma masked_eval:
  "plonky2_ok pl nh \<Longrightarrow> masked pl (felt_of_bool b) xs = (if b then replicate (length xs) (felt_from_u64 0) else xs)"
  by (simp add: masked_def plonky2_okD(6) map_replicate_const)

section \<open>What the private batch publishes\<close>

definition leaf_slot :: "goldilocks list \<Rightarrow> BatchLeafSlot" where
  "leaf_slot pis =
     \<lparr>nullifiers = map (\<lambda>i. digest_at pis (nullifier_index i)) [0..<NUM_INPUTS],
      commitments = map (\<lambda>j. digest_at pis (commitment_index j)) [0..<NUM_OUTPUTS],
      slot_fee = pis ! FEE_INDEX, slot_ct_digest = digest_at pis CT_DIGEST_START\<rparr>"

definition masked_slot :: "note_hash \<Rightarrow> felt_digest list \<Rightarrow> BatchLeafSlot" where
  "masked_slot nh preimages =
     \<lparr>nullifiers = map (\<lambda>i. hash_felts nh domain_NF_BATCH_PADDING [preimages ! i]) [0..<NUM_INPUTS],
      commitments = replicate NUM_OUTPUTS empty_digest, slot_fee = felt_from_u64 0, slot_ct_digest = empty_digest\<rparr>"

definition published_slot :: "note_hash \<Rightarrow> goldilocks list \<times> felt_digest list \<Rightarrow> BatchLeafSlot" where
  "published_slot nh slot = (case slot of (pis, preimages) \<Rightarrow> if leaf_padding pis then masked_slot nh preimages else leaf_slot pis)"

definition published_batch :: "note_hash \<Rightarrow> private_batch_targets \<Rightarrow> PrivateBatchPublicInputs" where
  "published_batch nh targets =
     \<lparr>pi_block_hash = fst (first_block (leaf_proofs targets)), pi_block_number = snd (first_block (leaf_proofs targets)),
      pi_slots = map (published_slot nh) (zip (leaf_proofs targets) (padding_nullifier_preimages targets))\<rparr>"

lemma padding_nullifier_rule:
  assumes "plonky2_ok pl nh"
  shows "padding_nullifier pl preimage = rule_digest nh (Rule_nf_batch_padding preimage)"
  by (simp add: padding_nullifier_def plonky2_okD(14) [OF assms] hash_felts_def)

lemma emitted_slot_eval:
  assumes ok: "plonky2_ok pl nh"
  shows "emitted_slot pl slot = nullifiers (published_slot nh slot)"
proof -
  obtain pis pre where slot: "slot = (pis, pre)" by (rule prod.exhaust)
  have "length (padding_nullifier pl p) = 4" "padding_nullifier pl p = hash_felts nh domain_NF_BATCH_PADDING [p]" for p
    by (simp_all add: padding_nullifier_rule [OF ok] length_hash_felts [OF plonky2_okD(1) [OF ok]])
  then show ?thesis
    by (simp add: slot emitted_slot_def block_slot_eval [OF ok] select_digest [OF ok] published_slot_def masked_slot_def leaf_slot_def)
qed

lemma wf_published_slot:
  assumes "note_hash_ok nh"
  shows "wf_slot (published_slot nh slot)"
  by (cases slot) (auto simp: published_slot_def masked_slot_def leaf_slot_def wf_slot_def NUM_INPUTS_def NUM_OUTPUTS_def length_hash_felts [OF assms] numeral_eq_Suc)

lemma slot_outputs_eval:
  assumes ok: "plonky2_ok pl nh"
  shows "slot_outputs pl slot = slot_felts (published_slot nh slot)"
proof -
  obtain pis pre where slot: "slot = (pis, pre)" by (rule prod.exhaust)
  have "concat (emitted_slot pl (pis, pre)) = concat (nullifiers (published_slot nh (pis, pre)))" by (simp add: emitted_slot_eval [OF ok])
  then show ?thesis
    unfolding slot slot_outputs_def prod.case Let_def slot_felts_def block_slot_eval [OF ok] fst_conv masked_eval [OF ok]
    by (simp add: published_slot_def masked_slot_def leaf_slot_def empty_digest_def NUM_OUTPUTS_def upt_two numeral_eq_Suc)
qed

lemma private_batch_eval:
  assumes ok: "plonky2_ok pl nh" and len: "length (padding_nullifier_preimages targets) = length (leaf_proofs targets)"
  shows "fst (build_private_batch_constraints pl targets) = private_batch_felts (published_batch nh targets)"
    "snd (build_private_batch_constraints pl targets) \<longleftrightarrow>
       one_block (leaf_proofs targets) \<and> distinct (concat (map nullifiers (pi_slots (published_batch nh targets))))"
    "wf_private_batch (length (leaf_proofs targets)) (published_batch nh targets)"
proof -
  have nok: "note_hash_ok nh" using ok by (rule plonky2_okD)
  have slots: "slot_outputs pl = (\<lambda>slot. slot_felts (published_slot nh slot))" by (rule ext) (rule slot_outputs_eval [OF ok])
  show "fst (build_private_batch_constraints pl targets) = private_batch_felts (published_batch nh targets)"
    by (simp add: build_private_batch_constraints_def Let_def block_reference_eval [OF ok] slots private_batch_felts_def published_batch_def comp_def)
  show wf: "wf_private_batch (length (leaf_proofs targets)) (published_batch nh targets)"
    using len wf_published_slot [OF nok] by (auto simp: wf_private_batch_def published_batch_def length_first_block)
  have four: "list_all (\<lambda>d. length d = 4) (concat (map nullifiers (pi_slots (published_batch nh targets))))"
    using wf by (auto simp: wf_private_batch_def wf_slot_def list_all_iff)
  have "map (emitted_slot pl) (zip (leaf_proofs targets) (padding_nullifier_preimages targets)) = map nullifiers (pi_slots (published_batch nh targets))"
    by (simp add: emitted_slot_eval [OF ok] published_batch_def)
  then show "snd (build_private_batch_constraints pl targets) \<longleftrightarrow>
       one_block (leaf_proofs targets) \<and> distinct (concat (map nullifiers (pi_slots (published_batch nh targets))))"
    using distinct_pairs_iff [OF ok four] by (simp add: build_private_batch_constraints_def Let_def block_reference_eval [OF ok] block_agrees_iff [OF ok])
qed

text \<open>Agreement with the first real entry is agreement of all real entries.\<close>

lemma one_block_iff:
  "one_block xs \<longleftrightarrow> (\<forall>p\<in>set xs. \<forall>q\<in>set xs. \<not> leaf_padding p \<and> \<not> leaf_padding q \<longrightarrow>
     digest_at p BLOCK_HASH_START = digest_at q BLOCK_HASH_START \<and> p ! BLOCK_NUMBER_INDEX = q ! BLOCK_NUMBER_INDEX)"
proof (cases "find (\<lambda>pis. \<not> leaf_padding pis) xs")
  case None
  then have "\<forall>p\<in>set xs. leaf_padding p" by (auto simp: find_None_iff)
  then show ?thesis by (auto simp: one_block_def list_all_iff)
next
  case (Some p)
  then have p: "p \<in> set xs" "\<not> leaf_padding p" by (auto simp: find_Some_iff)
  have "first_block xs = (digest_at p BLOCK_HASH_START, p ! BLOCK_NUMBER_INDEX)" using Some by (simp add: first_block_def)
  then show ?thesis using p unfolding one_block_def list_all_iff by (metis fst_conv snd_conv)
qed

section \<open>What the public batch publishes\<close>

lemma sentinel_iff:
  assumes "length h = 4"
  shows "block_hash_is_the_padding_sentinel h \<longleftrightarrow> h = padding_block_hash_target"
proof -
  obtain a b c d where h: "h = [a, b, c, d]" using length_four [OF assms] by blast
  have "to_canonical_u64 x = n \<longleftrightarrow> x = felt_from_u64 n" if "n < GOLDILOCKS_P" for x n
    using that by (auto simp: felt_eq_iff)
  then show ?thesis
    by (simp add: block_hash_is_the_padding_sentinel_def h PADDING_BLOCK_HASH_def padding_block_hash_target_def GOLDILOCKS_P_def)
qed

lemma inner_fields:
  assumes "validate_proof_count n" "wf_private_batch n b"
  shows "digest_at (private_batch_felts b) BLOCK_HASH_START = pi_block_hash b" "private_batch_felts b ! BLOCK_NUMBER_INDEX = pi_block_number b"
    "digest_at (private_batch_felts b) (slot_nullifier_index 0 0) = nullifiers (pi_slots b ! 0) ! 0"
    "leaf_padding (private_batch_felts b) \<longleftrightarrow> batch_is_padding b"
proof -
  have n: "0 < n" using assms(1) by (simp add: validate_proof_count_def)
  have b: "b = \<lparr>pi_block_hash = digest_at (private_batch_felts b) BLOCK_HASH_START, pi_block_number = private_batch_felts b ! BLOCK_NUMBER_INDEX,
      pi_slots = map (parse_slot (private_batch_felts b)) [0..<n]\<rparr>"
    using parse_private_batch_felts [OF assms] assms(1) length_private_batch_felts [OF assms(2)]
    by (simp add: parse_private_batch_public_input_felts_def)
  show h: "digest_at (private_batch_felts b) BLOCK_HASH_START = pi_block_hash b" "private_batch_felts b ! BLOCK_NUMBER_INDEX = pi_block_number b"
    using arg_cong [OF b, of pi_block_hash] arg_cong [OF b, of pi_block_number] by simp_all
  have "pi_slots b ! 0 = parse_slot (private_batch_felts b) 0" using arg_cong [OF b, of pi_slots] n by simp
  then show "digest_at (private_batch_felts b) (slot_nullifier_index 0 0) = nullifiers (pi_slots b ! 0) ! 0"
    by (simp add: parse_slot_def NUM_INPUTS_def upt_two)
  show "leaf_padding (private_batch_felts b) \<longleftrightarrow> batch_is_padding b"
    using assms(2) by (simp add: leaf_padding_def h batch_is_padding_def sentinel_iff wf_private_batch_def)
qed

definition zero_slot :: BatchLeafSlot where
  "zero_slot =
     \<lparr>nullifiers = replicate NUM_INPUTS empty_digest, commitments = replicate NUM_OUTPUTS empty_digest,
      slot_fee = felt_from_u64 0, slot_ct_digest = empty_digest\<rparr>"

definition forwarded_batch :: "nat \<Rightarrow> PrivateBatchPublicInputs \<Rightarrow> PrivateBatchPublicInputs" where
  "forwarded_batch n b = (if batch_is_padding b then b\<lparr>pi_slots := replicate n zero_slot\<rparr> else b)"

lemma zero_slot_felts: "slot_felts zero_slot = replicate SLOT_LEN (felt_from_u64 0)"
  by (simp add: slot_felts_def zero_slot_def empty_digest_def layout_defs numeral_eq_Suc)

lemma concat_replicate_replicate: "concat (replicate n (replicate k x)) = replicate (n * k) x"
  by (induction n) (simp_all add: replicate_add)

lemma inner_outputs_eval:
  assumes ok: "plonky2_ok pl nh" and n: "validate_proof_count n" "wf_private_batch n b"
  shows "inner_outputs pl (private_batch_pi_len n) (private_batch_felts b) = private_batch_felts (forwarded_batch n b)"
proof -
  have head: "take HEADER_LEN (private_batch_felts b) = pi_block_hash b @ [pi_block_number b]"
    "drop HEADER_LEN (private_batch_felts b) = concat (map slot_felts (pi_slots b))"
    using n(2) by (simp_all add: private_batch_felts_def wf_private_batch_def layout_defs)
  have len: "length (concat (map slot_felts (pi_slots b))) = n * SLOT_LEN"
    using length_concat_uniform [of "map slot_felts (pi_slots b)" SLOT_LEN] n(2) length_slot_felts by (auto simp: wf_private_batch_def layout_defs)
  have whole: "private_batch_pi_len n - HEADER_LEN = n * SLOT_LEN" by (simp add: private_batch_pi_len_def)
  have "concat (replicate n (slot_felts zero_slot)) = replicate (n * SLOT_LEN) (felt_from_u64 0)"
    by (simp add: zero_slot_felts concat_replicate_replicate)
  then show ?thesis
    unfolding inner_outputs_def head whole block_slot_eval [OF ok] fst_conv inner_fields [OF n] masked_eval [OF ok]
    using len by (simp add: forwarded_batch_def private_batch_felts_def)
qed

lemma wf_forwarded: "wf_private_batch n b \<Longrightarrow> wf_private_batch n (forwarded_batch n b)"
  by (auto simp: forwarded_batch_def wf_private_batch_def wf_slot_def zero_slot_def NUM_INPUTS_def NUM_OUTPUTS_def)

lemma distinct_keys_iff:
  assumes ok: "plonky2_ok pl nh"
  shows "list_all (\<lambda>(r, k). length k = 4) xs \<Longrightarrow>
    distinct_keys pl (map (\<lambda>(r, k). (felt_of_bool r, k)) xs) \<longleftrightarrow> distinct (map snd (filter fst xs))"
proof (induction xs)
  case (Cons x xs)
  obtain r k where x: "x = (r, k)" by (rule prod.exhaust)
  let ?C = "\<lambda>(r', k'). g_connect pl (g_and pl (g_and pl (felt_of_bool r) r') (digests_are_equal pl k k')) (felt_from_u64 0)"
  have one: "?C (felt_of_bool (fst y), snd y) \<longleftrightarrow> \<not> (r \<and> fst y \<and> k = snd y)" if "y \<in> set xs" for y
  proof -
    have "length (snd y) = 4" "length k = 4" using that Cons.prems by (auto simp: x list_all_iff)
    then show ?thesis by (simp add: digests_are_equal_correct [OF ok] plonky2_okD(7,13) [OF ok] felt_of_bool_zero)
  qed
  have "list_all ?C (map (\<lambda>(r, k). (felt_of_bool r, k)) xs) \<longleftrightarrow> (\<forall>y\<in>set xs. ?C (felt_of_bool (fst y), snd y))"
    by (simp add: list_all_iff case_prod_unfold)
  also have "\<dots> \<longleftrightarrow> (\<forall>y\<in>set xs. \<not> (r \<and> fst y \<and> k = snd y))" by (rule ball_cong [OF refl one])
  also have "\<dots> \<longleftrightarrow> (r \<longrightarrow> k \<notin> set (map snd (filter fst xs)))" by auto
  finally have "list_all ?C (map (\<lambda>(r, k). (felt_of_bool r, k)) xs) \<longleftrightarrow> (r \<longrightarrow> k \<notin> set (map snd (filter fst xs)))" .
  moreover have "distinct_keys pl (map (\<lambda>(r, k). (felt_of_bool r, k)) xs) \<longleftrightarrow> distinct (map snd (filter fst xs))"
    using Cons by simp
  ultimately show ?case by (simp only: x list.map prod.case distinct_keys.simps filter.simps fst_conv snd_conv) (cases r; simp)
qed simp

lemma public_batch_eval:
  assumes ok: "plonky2_ok pl nh" and cnt: "validate_proof_count (length bs)" "validate_proof_count n" and bs: "\<forall>b\<in>set bs. wf_private_batch n b"
    and t: "private_batch_proofs targets = map private_batch_felts bs" "length (aggregator_address_targets targets) = 4"
  shows "parse_public_batch_public_input_felts (fst (build_public_batch_constraints pl targets n)) (length bs) n
      = Inr \<lparr>aggregator_address = aggregator_address_targets targets, batches = map (forwarded_batch n) bs\<rparr>"
    and "snd (build_public_batch_constraints pl targets n) \<longleftrightarrow>
      (\<forall>b\<in>set bs. \<forall>c\<in>set bs. \<not> batch_is_padding b \<and> \<not> batch_is_padding c \<longrightarrow> pi_block_hash b = pi_block_hash c \<and> pi_block_number b = pi_block_number c)
      \<and> distinct (map (\<lambda>b. nullifiers (pi_slots b ! 0) ! 0) (filter (\<lambda>b. \<not> batch_is_padding b) bs))"
proof -
  let ?p = "\<lparr>aggregator_address = aggregator_address_targets targets, batches = map (forwarded_batch n) bs\<rparr>"
  have "map (inner_outputs pl (private_batch_pi_len n)) (map private_batch_felts bs) = map private_batch_felts (map (forwarded_batch n) bs)"
    unfolding map_map using bs inner_outputs_eval [OF ok cnt(2)] by (intro map_cong) simp_all
  then have "fst (build_public_batch_constraints pl targets n) = public_batch_felts ?p"
    by (simp only: build_public_batch_constraints_def Let_def t(1) public_batch_felts_def fst_conv PublicBatchPublicInputs.simps)
  moreover have "wf_public_batch (length bs) n ?p" using bs t(2) wf_forwarded by (auto simp: wf_public_batch_def)
  ultimately show "parse_public_batch_public_input_felts (fst (build_public_batch_constraints pl targets n)) (length bs) n = Inr ?p"
    using parse_public_batch_felts [OF cnt] by simp
  note f = inner_fields [OF cnt(2)]
  have block: "one_block (map private_batch_felts bs) \<longleftrightarrow>
      (\<forall>b\<in>set bs. \<forall>c\<in>set bs. \<not> batch_is_padding b \<and> \<not> batch_is_padding c \<longrightarrow> pi_block_hash b = pi_block_hash c \<and> pi_block_number b = pi_block_number c)"
    using bs f unfolding one_block_iff by auto
  let ?keys = "map (\<lambda>b. (\<not> batch_is_padding b, nullifiers (pi_slots b ! 0) ! 0)) bs"
  have k1: "map (inner_key pl) (map private_batch_felts bs) = map (\<lambda>(r, k). (felt_of_bool r, k)) ?keys"
    using bs f by (auto simp: inner_key_def block_slot_eval [OF ok] plonky2_okD(9) [OF ok])
  have k2: "list_all (\<lambda>(r, k). length k = 4) ?keys"
    using bs f(3) length_digest_at by (auto simp: list_all_iff simp flip: f(3))
  have k3: "map snd (filter fst ?keys) = map (\<lambda>b. nullifiers (pi_slots b ! 0) ! 0) (filter (\<lambda>b. \<not> batch_is_padding b) bs)"
    by (simp add: filter_map comp_def)
  have "distinct_keys pl (map (inner_key pl) (map private_batch_felts bs)) \<longleftrightarrow>
      distinct (map (\<lambda>b. nullifiers (pi_slots b ! 0) ! 0) (filter (\<lambda>b. \<not> batch_is_padding b) bs))"
    unfolding k1 distinct_keys_iff [OF ok k2] k3 by (rule refl)
  then show "snd (build_public_batch_constraints pl targets n) \<longleftrightarrow>
      (\<forall>b\<in>set bs. \<forall>c\<in>set bs. \<not> batch_is_padding b \<and> \<not> batch_is_padding c \<longrightarrow> pi_block_hash b = pi_block_hash c \<and> pi_block_number b = pi_block_number c)
      \<and> distinct (map (\<lambda>b. nullifiers (pi_slots b ! 0) ! 0) (filter (\<lambda>b. \<not> batch_is_padding b) bs))"
    using block by (simp add: build_public_batch_constraints_def Let_def t(1) block_reference_eval [OF ok] block_agrees_iff [OF ok] del: map_map)
qed

section \<open>A settled slot is a transfer\<close>

lemma leaf_public_fields:
  assumes "targets_shape t"
  shows "digest_at (leaf_public_inputs t) BLOCK_HASH_START = t_block_hash t" "leaf_public_inputs t ! BLOCK_NUMBER_INDEX = t_block_number t"
    "leaf_slot (leaf_public_inputs t) = \<lparr>nullifiers = t_nullifiers t, commitments = t_commitments t, slot_fee = t_fee t, slot_ct_digest = t_ct_digest t\<rparr>"
    "length (leaf_public_inputs t) = PUBLIC_INPUT_LEN"
proof -
  obtain i0 i1 o0 o1 n0 n1 c0 c1 where l: "t_inputs t = [i0, i1]" "t_outputs t = [o0, o1]" "t_nullifiers t = [n0, n1]" "t_commitments t = [c0, c1]"
    "input_shape i0" "input_shape i1" "length n0 = 4" "length n1 = 4" "length c0 = 4" "length c1 = 4"
    using assms by (rule targets_shapeE)
  have bh: "length (t_block_hash t) = 4" "length (t_ct_digest t) = 4" using assms by (simp_all add: targets_shape_def)
  have pis: "leaf_public_inputs t = t_block_hash t @ [t_block_number t] @ n0 @ n1 @ c0 @ c1 @ [t_fee t] @ t_ct_digest t"
    by (simp add: leaf_public_inputs_def l)
  have len: "length (leaf_public_inputs t) = 26" by (simp add: pis bh l)
  then show "length (leaf_public_inputs t) = PUBLIC_INPUT_LEN" by (simp add: layout_defs)
  have at: "digest_at (leaf_public_inputs t) s = take 4 (drop s (leaf_public_inputs t))" if "s \<le> 22" for s
    using that len by (intro digest_at_take) simp
  show "digest_at (leaf_public_inputs t) BLOCK_HASH_START = t_block_hash t" 
    unfolding BLOCK_HASH_START_def by (subst at) (simp_all add: pis bh)
  show "leaf_public_inputs t ! BLOCK_NUMBER_INDEX = t_block_number t" by (simp add: layout_defs pis bh nth_append)
  have "digest_at (leaf_public_inputs t) 5 = n0" "digest_at (leaf_public_inputs t) 9 = n1" "digest_at (leaf_public_inputs t) 13 = c0"
    "digest_at (leaf_public_inputs t) 17 = c1" "digest_at (leaf_public_inputs t) 22 = t_ct_digest t" "leaf_public_inputs t ! 21 = t_fee t"
    by (subst at, simp, simp add: pis bh l)+ (simp add: pis bh l nth_append)
  then show "leaf_slot (leaf_public_inputs t) = \<lparr>nullifiers = t_nullifiers t, commitments = t_commitments t, slot_fee = t_fee t, slot_ct_digest = t_ct_digest t\<rparr>"
    by (simp add: leaf_slot_def l layout_defs upt_two)
qed

text \<open>
  What recursive verification under a constant key promises: an accepted inner proof has public inputs for which
  the inner circuit has a satisfying assignment.
\<close>

definition leaf_sound :: "circuit_builder \<Rightarrow> (goldilocks list \<Rightarrow> bool) \<Rightarrow> bool" where
  "leaf_sound pl leaf_verifies \<longleftrightarrow>
     (\<forall>pis. leaf_verifies pis \<longrightarrow> (\<exists>t. targets_shape t \<and> build_constraints pl t \<and> leaf_public_inputs t = pis))"

definition private_batch_sound :: "circuit_builder \<Rightarrow> (goldilocks list \<Rightarrow> bool) \<Rightarrow> nat \<Rightarrow> (goldilocks list \<Rightarrow> bool) \<Rightarrow> bool" where
  "private_batch_sound pl leaf_verifies num_leaves inner_verifies \<longleftrightarrow>
     (\<forall>pis. inner_verifies pis \<longrightarrow> (\<exists>targets. length (padding_nullifier_preimages targets) = num_leaves
        \<and> private_batch_satisfied pl leaf_verifies num_leaves targets \<and> fst (build_private_batch_constraints pl targets) = pis))"

definition slot_transfer :: "note_hash \<Rightarrow> PrivateBatchPublicInputs \<Rightarrow> BatchLeafSlot \<Rightarrow> spend_targets \<Rightarrow> bool" where
  "slot_transfer nh b s t \<longleftrightarrow> targets_shape t \<and> leaf_statement nh t \<and> t_block_hash t = pi_block_hash b \<and> t_block_number t = pi_block_number b
     \<and> s = \<lparr>nullifiers = t_nullifiers t, commitments = t_commitments t, slot_fee = t_fee t, slot_ct_digest = t_ct_digest t\<rparr>"

lemma masked_slot_is_padding: "slot_is_padding (masked_slot nh pre)" "slot_is_padding zero_slot"
  by (simp_all add: slot_is_padding_def masked_slot_def zero_slot_def empty_digest_def list_all_iff)

lemma private_slot_transfer:
  assumes ok: "plonky2_ok pl nh" and sound: "leaf_sound pl leaf_verifies" and sat: "private_batch_satisfied pl leaf_verifies n targets"
    and pre: "length (padding_nullifier_preimages targets) = n" and s: "s \<in> set (pi_slots (published_batch nh targets))" "\<not> slot_is_padding s"
  shows "\<exists>t. slot_transfer nh (published_batch nh targets) s t"
proof -
  let ?ps = "leaf_proofs targets"
  have len: "length (padding_nullifier_preimages targets) = length ?ps" using sat pre by (simp add: private_batch_satisfied_def)
  obtain pis p where z: "(pis, p) \<in> set (zip ?ps (padding_nullifier_preimages targets))" "s = published_slot nh (pis, p)"
    using s(1) by (auto simp: published_batch_def)
  have real: "\<not> leaf_padding pis" using s(2) z(2) masked_slot_is_padding by (auto simp: published_slot_def)
  then have slot: "s = leaf_slot pis" using z(2) by (simp add: published_slot_def)
  have mem: "pis \<in> set ?ps" using z(1) by (rule set_zip_leftD)
  then have "leaf_verifies pis" using sat by (simp add: private_batch_satisfied_def list_all_iff)
  then obtain t where t: "targets_shape t" "build_constraints pl t" "leaf_public_inputs t = pis" using sound unfolding leaf_sound_def by blast
  note fields = leaf_public_fields [OF t(1), unfolded t(3)]
  have "one_block ?ps" using sat private_batch_eval(2) [OF ok len] by (simp add: private_batch_satisfied_def)
  then have "digest_at pis BLOCK_HASH_START = fst (first_block ?ps)" "pis ! BLOCK_NUMBER_INDEX = snd (first_block ?ps)"
    using mem real by (auto simp: one_block_def list_all_iff)
  then show ?thesis
    using t build_constraints_iff [OF ok t(1)] fields slot by (auto simp: slot_transfer_def published_batch_def)
qed

text \<open>
  Every slot the chain settles is a transfer. If the recursive verifiers are sound, then in whatever a satisfied
  public batch publishes, each slot with nonzero commitments of a batch that is not padding carries the
  nullifiers, commitments, fee and ciphertext digest of a satisfied spend leaf against that batch's block,
  and the nullifiers inside each such batch are pairwise distinct.
\<close>

theorem settled_slots_are_transfers:
  assumes "plonky2_ok pl nh" "leaf_sound pl leaf_verifies" "private_batch_sound pl leaf_verifies n inner_verifies"
    and "public_batch_satisfied pl inner_verifies m n targets" "length (aggregator_address_targets targets) = 4"
    and "parse_public_batch_public_input_felts (fst (build_public_batch_constraints pl targets n)) m n = Inr public"
    and "b \<in> set (settleable_batches public)"
  shows "(\<forall>s. s \<in> set (pi_slots b) \<and> \<not> slot_is_padding s \<longrightarrow> (\<exists>t. slot_transfer nh b s t)) \<and> distinct (concat (map nullifiers (pi_slots b)))"
proof -
  have cnt: "validate_proof_count m" "validate_proof_count n" "length (private_batch_proofs targets) = m"
    using assms(4) by (simp_all add: public_batch_satisfied_def)
  have inner: "\<exists>tg. pis = private_batch_felts (published_batch nh tg) \<and> wf_private_batch n (published_batch nh tg)
      \<and> length (padding_nullifier_preimages tg) = n \<and> private_batch_satisfied pl leaf_verifies n tg" if mem: "pis \<in> set (private_batch_proofs targets)" for pis
  proof -
    have "inner_verifies pis" using mem assms(4) by (simp add: public_batch_satisfied_def list_all_iff)
    then obtain tg where tg: "length (padding_nullifier_preimages tg) = n" "private_batch_satisfied pl leaf_verifies n tg"
      "fst (build_private_batch_constraints pl tg) = pis"
      using assms(3) unfolding private_batch_sound_def by blast
    then have len: "length (leaf_proofs tg) = n" "length (padding_nullifier_preimages tg) = length (leaf_proofs tg)"
      by (simp_all add: private_batch_satisfied_def)
    show ?thesis using private_batch_eval(1,3) [OF assms(1) len(2)] tg len by auto
  qed
  then obtain g where g: "\<And>pis. pis \<in> set (private_batch_proofs targets) \<Longrightarrow> pis = private_batch_felts (published_batch nh (g pis))
      \<and> wf_private_batch n (published_batch nh (g pis)) \<and> length (padding_nullifier_preimages (g pis)) = n
      \<and> private_batch_satisfied pl leaf_verifies n (g pis)" by metis
  let ?bs = "map (\<lambda>pis. published_batch nh (g pis)) (private_batch_proofs targets)"
  have proofs: "private_batch_proofs targets = map private_batch_felts ?bs" using g by (auto intro!: map_idI [symmetric] simp: comp_def)
  have cnt': "validate_proof_count (length ?bs)" using cnt by simp
  have wf: "\<forall>b\<in>set ?bs. wf_private_batch n b" using g by auto
  have "public = \<lparr>aggregator_address = aggregator_address_targets targets, batches = map (forwarded_batch n) ?bs\<rparr>"
    using public_batch_eval(1) [OF assms(1) cnt' cnt(2) wf proofs assms(5)] assms(6) cnt(3) by simp
  then obtain pis where pis: "pis \<in> set (private_batch_proofs targets)" "b = forwarded_batch n (published_batch nh (g pis))" "\<not> batch_is_padding b"
    using assms(7) by (auto simp: settleable_batches_def)
  then have b: "b = published_batch nh (g pis)" by (auto simp: forwarded_batch_def batch_is_padding_def split: if_splits)
  have len: "length (padding_nullifier_preimages (g pis)) = length (leaf_proofs (g pis))" using g [OF pis(1)] by (simp add: private_batch_satisfied_def)
  have "distinct (concat (map nullifiers (pi_slots b)))"
    using private_batch_eval(2) [OF assms(1) len] g [OF pis(1)] by (simp add: b private_batch_satisfied_def)
  then show ?thesis
    using private_slot_transfer [OF assms(1,2)] g [OF pis(1)] unfolding b by blast
qed

section \<open>Properties\<close>

text \<open>
  C9: The private batch publishes its leaves and nothing else. What the circuit registers parses, in the layout
  the chain reads, to the block of the first real leaf and one slot per leaf: the leaf's own nullifiers,
  commitments, fee and ciphertext digest, or for a padding leaf zeroes and nullifiers of the padding domain.
  Its constraints hold exactly when all real leaves name one block and all published nullifiers differ.
\<close>

theorem private_batch_exact:
  assumes "plonky2_ok pl nh" "validate_proof_count n" "length (leaf_proofs targets) = n" "length (padding_nullifier_preimages targets) = n"
  shows "parse_private_batch_public_input_felts (fst (build_private_batch_constraints pl targets)) n = Inr (published_batch nh targets)
    \<and> (snd (build_private_batch_constraints pl targets) \<longleftrightarrow>
        (\<forall>p\<in>set (leaf_proofs targets). \<forall>q\<in>set (leaf_proofs targets). \<not> leaf_padding p \<and> \<not> leaf_padding q \<longrightarrow>
           digest_at p BLOCK_HASH_START = digest_at q BLOCK_HASH_START \<and> p ! BLOCK_NUMBER_INDEX = q ! BLOCK_NUMBER_INDEX)
        \<and> distinct (concat (map nullifiers (pi_slots (published_batch nh targets)))))"
proof -
  have len: "length (padding_nullifier_preimages targets) = length (leaf_proofs targets)" using assms(3,4) by simp
  note eval = private_batch_eval [OF assms(1) len]
  show ?thesis
    unfolding eval(1,2) one_block_iff [symmetric] using parse_private_batch_felts [OF assms(2) eval(3) [unfolded assms(3)]] by simp
qed

definition sample_leaf_pis :: "goldilocks list" where
  "sample_leaf_pis = map felt_from_u64 [0..<26]"

theorem private_batch_exact_witness:
  "parse_private_batch_public_input_felts (fst (build_private_batch_constraints (plonky2_std sample_note_hash)
       \<lparr>leaf_proofs = [sample_leaf_pis], padding_nullifier_preimages = [[felts4 1, felts4 2]]\<rparr>)) 1
     = Inr (published_batch sample_note_hash \<lparr>leaf_proofs = [sample_leaf_pis], padding_nullifier_preimages = [[felts4 1, felts4 2]]\<rparr>)
   \<and> snd (build_private_batch_constraints (plonky2_std sample_note_hash)
       \<lparr>leaf_proofs = [sample_leaf_pis], padding_nullifier_preimages = [[felts4 1, felts4 2]]\<rparr>)"
proof -
  let ?t = "\<lparr>leaf_proofs = [sample_leaf_pis], padding_nullifier_preimages = [[felts4 1, felts4 2]]\<rparr>"
  have "\<not> leaf_padding sample_leaf_pis"
    by (simp add: leaf_padding_def sample_leaf_pis_def digest_at_def padding_block_hash_target_def PADDING_BLOCK_HASH_def layout_defs upt_rec
        felt_eq_iff GOLDILOCKS_P_def)
  then have "nullifiers (published_slot sample_note_hash (sample_leaf_pis, [felts4 1, felts4 2]))
      = [digest_at sample_leaf_pis 5, digest_at sample_leaf_pis 9]"
    by (simp add: published_slot_def leaf_slot_def layout_defs upt_two)
  moreover have "digest_at sample_leaf_pis 5 \<noteq> digest_at sample_leaf_pis 9"
    by (simp add: sample_leaf_pis_def digest_at_def DIGEST_FELTS_def upt_rec felt_eq_iff GOLDILOCKS_P_def)
  ultimately have "distinct (concat (map nullifiers (pi_slots (published_batch sample_note_hash ?t))))"
    by (simp add: published_batch_def)
  then show ?thesis
    using private_batch_exact [OF plonky2_std_ok [OF sample_note_hash_ok], of 1 ?t] by (simp add: validate_proof_count_def MAX_PROOF_COUNT_def)
qed

text \<open>
  C10: The public batch forwards private batches verbatim. What it registers parses to the aggregator's address and
  the inner batches in order, the slots of a padding inner zeroed. Its constraints hold exactly when all real
  inners name one block and no two of them start with the same nullifier.
\<close>

theorem public_batch_exact:
  assumes "plonky2_ok pl nh" "validate_proof_count (length bs)" "validate_proof_count n" "\<forall>b\<in>set bs. wf_private_batch n b"
    and "private_batch_proofs targets = map private_batch_felts bs" "length (aggregator_address_targets targets) = 4"
  shows "parse_public_batch_public_input_felts (fst (build_public_batch_constraints pl targets n)) (length bs) n
      = Inr \<lparr>aggregator_address = aggregator_address_targets targets, batches = map (forwarded_batch n) bs\<rparr>
    \<and> (snd (build_public_batch_constraints pl targets n) \<longleftrightarrow>
      (\<forall>b\<in>set bs. \<forall>c\<in>set bs. \<not> batch_is_padding b \<and> \<not> batch_is_padding c \<longrightarrow> pi_block_hash b = pi_block_hash c \<and> pi_block_number b = pi_block_number c)
      \<and> distinct (map (\<lambda>b. nullifiers (pi_slots b ! 0) ! 0) (filter (\<lambda>b. \<not> batch_is_padding b) bs)))"
  using public_batch_eval [OF assms] by simp

theorem public_batch_exact_witness:
  "\<exists>targets. parse_public_batch_public_input_felts (fst (build_public_batch_constraints (plonky2_std sample_note_hash) targets 1)) 1 1
       = Inr \<lparr>aggregator_address = felts4 8, batches = [forwarded_batch 1 sample_batch]\<rparr>
     \<and> snd (build_public_batch_constraints (plonky2_std sample_note_hash) targets 1)"
  using public_batch_exact [OF plonky2_std_ok [OF sample_note_hash_ok], of "[sample_batch]" 1
      "\<lparr>private_batch_proofs = [private_batch_felts sample_batch], aggregator_address_targets = felts4 8\<rparr>"] wf_sample_batch(1)
  by (intro exI [of _ "\<lparr>private_batch_proofs = [private_batch_felts sample_batch], aggregator_address_targets = felts4 8\<rparr>"])
    (simp add: validate_proof_count_def MAX_PROOF_COUNT_def)

definition provable_leaf :: "goldilocks list \<Rightarrow> bool" where
  "provable_leaf pis \<longleftrightarrow>
     (\<exists>t. targets_shape t \<and> build_constraints (plonky2_std sample_note_hash) t \<and> leaf_public_inputs t = pis)"

definition provable_batch :: "goldilocks list \<Rightarrow> bool" where
  "provable_batch pis \<longleftrightarrow>
     (\<exists>targets. length (padding_nullifier_preimages targets) = 1 \<and> private_batch_satisfied (plonky2_std sample_note_hash) provable_leaf 1 targets
        \<and> fst (build_private_batch_constraints (plonky2_std sample_note_hash) targets) = pis)"

lemma provable_sound: "leaf_sound (plonky2_std sample_note_hash) provable_leaf" "private_batch_sound (plonky2_std sample_note_hash) provable_leaf 1 provable_batch"
  by (auto simp: leaf_sound_def private_batch_sound_def provable_leaf_def provable_batch_def)

lemma sample_felts_last: "hash_to_felts sample_note_hash fs ! 1 = felt_from_u64 0" "hash_to_felts sample_note_hash fs ! 3 = felt_from_u64 1"
proof -
  let ?v = "foldl (\<lambda>acc n. (acc * 31 + n) mod GOLDILOCKS_P) 7 (map to_canonical_u64 fs)"
  have lt: "foldl (\<lambda>acc n. (acc * 31 + n) mod GOLDILOCKS_P) a ns < GOLDILOCKS_P" if "a < GOLDILOCKS_P" for a ns
    using that by (induction ns arbitrary: a) (simp_all add: GOLDILOCKS_P_def)
  have "?v < GOLDILOCKS_P" by (rule lt) (simp add: GOLDILOCKS_P_def)
  then have "?v < 2 ^ 64" by (simp add: GOLDILOCKS_P_def)
  then have "limbs (hash_to_bytes sample_poseidon fs) = [?v, 0, 0, 1]"
    by (simp add: sample_poseidon_def sample_hash_def limbs_digest_of_limbs)
  then show "hash_to_felts sample_note_hash fs ! 1 = felt_from_u64 0" "hash_to_felts sample_note_hash fs ! 3 = felt_from_u64 1"
    by (simp_all add: sample_note_hash_def)
qed

lemma sample_leaf_real:
  assumes t: "targets_shape t" "leaf_statement sample_note_hash t"
  shows "\<not> leaf_padding (leaf_public_inputs t)" "\<not> slot_is_padding (leaf_slot (leaf_public_inputs t))"
    "distinct (nullifiers (leaf_slot (leaf_public_inputs t)))"
proof -
  obtain i0 i1 o0 o1 n0 n1 c0 c1 where l: "t_inputs t = [i0, i1]" "t_outputs t = [o0, o1]" "t_nullifiers t = [n0, n1]" "t_commitments t = [c0, c1]"
    "input_shape i0" "input_shape i1" "length n0 = 4" "length n1 = 4" "length c0 = 4" "length c1 = 4"
    using t(1) by (rule targets_shapeE)
  have "t_block_hash t = hash_to_felts sample_note_hash (header_targets_preimage (t_header t))" using t(2) by (simp add: leaf_statement_def)
  then have "t_block_hash t ! 1 \<noteq> padding_block_hash_target ! 1"
    by (simp only: sample_felts_last) (simp add: padding_block_hash_target_def PADDING_BLOCK_HASH_def felt_eq_iff GOLDILOCKS_P_def)
  then show "\<not> leaf_padding (leaf_public_inputs t)" by (auto simp: leaf_padding_def leaf_public_fields [OF t(1)])
  have "\<exists>fs. c0 = hash_to_felts sample_note_hash fs"
    using t(2) by (auto simp: leaf_statement_def NUM_OUTPUTS_def all_below_two l output_statement_def commitment_from_inner_def hash_felts_def)
  then have "c0 ! 3 = felt_from_u64 1" using sample_felts_last by auto
  then have "to_canonical_u64 (c0 ! 3) \<noteq> 0" by (simp add: GOLDILOCKS_P_def)
  moreover have "c0 ! 3 \<in> set c0" using l(9) by (intro nth_mem) simp
  ultimately show "\<not> slot_is_padding (leaf_slot (leaf_public_inputs t))"
    by (auto simp: slot_is_padding_def leaf_public_fields [OF t(1)] l list_all_iff)
  show "distinct (nullifiers (leaf_slot (leaf_public_inputs t)))"
    using t(2) by (simp add: leaf_public_fields [OF t(1)] l leaf_statement_def)
qed

definition sample_slots :: "spend_targets \<Rightarrow> private_batch_targets" where
  "sample_slots t = \<lparr>leaf_proofs = [leaf_public_inputs t], padding_nullifier_preimages = [[felts4 1, felts4 2]]\<rparr>"

lemma sample_slots_provable:
  assumes "targets_shape t" "build_constraints (plonky2_std sample_note_hash) t"
  shows "provable_batch (private_batch_felts (published_batch sample_note_hash (sample_slots t)))"
    "wf_private_batch 1 (published_batch sample_note_hash (sample_slots t))"
    "\<not> batch_is_padding (published_batch sample_note_hash (sample_slots t))"
    "\<not> slot_is_padding (leaf_slot (leaf_public_inputs t))"
    "published_batch sample_note_hash (sample_slots t) =
       \<lparr>pi_block_hash = t_block_hash t, pi_block_number = t_block_number t, pi_slots = [leaf_slot (leaf_public_inputs t)]\<rparr>"
proof -
  let ?b = "published_batch sample_note_hash (sample_slots t)" and ?pis = "leaf_public_inputs t"
  have ok: "plonky2_ok (plonky2_std sample_note_hash) sample_note_hash" by (rule plonky2_std_ok [OF sample_note_hash_ok])
  have "leaf_statement sample_note_hash t" using build_constraints_iff [OF ok assms(1)] assms(2) by simp
  note real = sample_leaf_real [OF assms(1) this]
  show "\<not> slot_is_padding (leaf_slot ?pis)" by (rule real(2))
  show b: "?b = \<lparr>pi_block_hash = t_block_hash t, pi_block_number = t_block_number t, pi_slots = [leaf_slot ?pis]\<rparr>"
    using real(1) leaf_public_fields [OF assms(1)] by (simp add: published_batch_def sample_slots_def published_slot_def first_block_def)
  have len: "length (padding_nullifier_preimages (sample_slots t)) = length (leaf_proofs (sample_slots t))" by (simp add: sample_slots_def)
  note eval = private_batch_eval [OF ok len]
  show "wf_private_batch 1 ?b" using eval(3) by (simp add: sample_slots_def)
  show "\<not> batch_is_padding ?b"
    using real(1) leaf_public_fields [OF assms(1)] assms(1) by (simp add: b batch_is_padding_def sentinel_iff leaf_padding_def targets_shape_def)
  have "provable_leaf ?pis" using assms by (auto simp: provable_leaf_def)
  then have "private_batch_satisfied (plonky2_std sample_note_hash) provable_leaf 1 (sample_slots t)"
    using eval(2) real(3) by (simp add: private_batch_satisfied_def b one_block_iff validate_proof_count_def MAX_PROOF_COUNT_def) (simp add: sample_slots_def)
  then show "provable_batch (private_batch_felts ?b)"
    using eval(1) unfolding provable_batch_def by (intro exI [of _ "sample_slots t"]) (simp add: sample_slots_def)
qed

theorem settled_slots_are_transfers_witness:
  "\<exists>b s t. s \<in> set (pi_slots b) \<and> \<not> slot_is_padding s \<and> slot_transfer sample_note_hash b s t \<and> \<not> batch_is_padding b"
proof -
  let ?pl = "plonky2_std sample_note_hash"
  have ok: "plonky2_ok ?pl sample_note_hash" by (rule plonky2_std_ok [OF sample_note_hash_ok])
  have cnt: "validate_proof_count 1" by (simp add: validate_proof_count_def MAX_PROOF_COUNT_def)
  obtain t where t: "targets_shape t" "build_constraints ?pl t" using sample_outs_targets by (elim exE conjE)
  define b where "b = published_batch sample_note_hash (sample_slots t)"
  note facts = sample_slots_provable [OF t, folded b_def]
  define pt where "pt = \<lparr>private_batch_proofs = [private_batch_felts b], aggregator_address_targets = felts4 8\<rparr>"
  have wf: "\<forall>b\<in>set [b]. wf_private_batch 1 b" using facts(2) by simp
  have pt: "validate_proof_count (length [b])" "private_batch_proofs pt = map private_batch_felts [b]" "length (aggregator_address_targets pt) = 4"
    using cnt by (simp_all add: pt_def)
  note pub = public_batch_eval [OF ok pt(1) cnt wf pt(2,3)]
  have sat: "public_batch_satisfied ?pl provable_batch 1 1 pt"
    using pub(2) facts(1) cnt by (simp add: public_batch_satisfied_def pt_def)
  have parse: "parse_public_batch_public_input_felts (fst (build_public_batch_constraints ?pl pt 1)) 1 1
      = Inr \<lparr>aggregator_address = felts4 8, batches = [b]\<rparr>"
    using pub(1) facts(3) by (simp add: pt_def forwarded_batch_def)
  have "b \<in> set (settleable_batches \<lparr>aggregator_address = felts4 8, batches = [b]\<rparr>)" using facts(3) by (simp add: settleable_batches_def)
  from settled_slots_are_transfers [OF ok provable_sound sat pt(3) parse this]
  have "\<forall>s. s \<in> set (pi_slots b) \<and> \<not> slot_is_padding s \<longrightarrow> (\<exists>t. slot_transfer sample_note_hash b s t)" by simp
  moreover have "leaf_slot (leaf_public_inputs t) \<in> set (pi_slots b)" using facts(5) by simp
  ultimately show ?thesis using facts(3,4) by blast
qed

end
