(* ===== verification/Settlement.thy ===== *)
theory Settlement
  imports ShieldedSafety BatchCircuit
begin

text \<open>
  A settlement from end to end: the call the pallet dispatches, the embedded verifier that reads its proof, the
  batch circuits the proof is of, the leaf circuit inside them, and the commitment tree whose root the
  anchored header publishes. The proof system enters as one assumption, that a verifier accepts only public
  inputs for which the circuit has a satisfying assignment.
\<close>

section \<open>The proof system\<close>

text \<open>
  The public inputs of the proofs a loaded verifier accepts, and what soundness of the proof system says of
  them at the three layers.
\<close>

definition accepted_inputs :: "('fc, 'fp, 'cr, 'pf) plonky2 \<Rightarrow> ('fc, 'fp, 'cr) common_data \<Rightarrow> goldilocks list \<Rightarrow> bool" where
  "accepted_inputs px common pis \<longleftrightarrow> (\<exists>pf. verify_with px common pf \<and> proof_public_inputs px pf = pis)"

definition public_batch_sound :: "circuit_builder \<Rightarrow> (goldilocks list \<Rightarrow> bool) \<Rightarrow> nat \<Rightarrow> nat \<Rightarrow> (goldilocks list \<Rightarrow> bool) \<Rightarrow> bool" where
  "public_batch_sound pl inner_verifies num_inner num_leaves verifies \<longleftrightarrow>
     (\<forall>pis. verifies pis \<longrightarrow> (\<exists>targets. length (aggregator_address_targets targets) = 4
        \<and> public_batch_satisfied pl inner_verifies num_inner num_leaves targets
        \<and> fst (build_public_batch_constraints pl targets num_leaves) = pis))"

definition verifiers_sound ::
  "circuit_builder \<Rightarrow> ('fc, 'fp, 'cr, 'pf) plonky2 \<Rightarrow> byte list \<Rightarrow> byte list \<Rightarrow> nat \<Rightarrow> nat \<Rightarrow> bool" where
  "verifiers_sound pl px private_artifact public_artifact num_inner num_leaves \<longleftrightarrow>
     (\<exists>leaf_verifies inner_verifies.
        leaf_sound pl leaf_verifies \<and> private_batch_sound pl leaf_verifies num_leaves inner_verifies
        \<and> (\<forall>v. private_verifier_from_artifact_bytes px private_artifact num_leaves = Inr v \<longrightarrow>
             private_batch_sound pl leaf_verifies num_leaves (accepted_inputs px (private_circuit_data v)))
        \<and> (\<forall>v. public_verifier_from_artifact_bytes px public_artifact num_inner num_leaves = Inr v \<longrightarrow>
             public_batch_sound pl inner_verifies num_inner num_leaves (accepted_inputs px (public_circuit_data v))))"

section \<open>From the bundle to the leaves\<close>

lemma private_verified_slot:
  assumes "plonky2_ok pl nh" "leaf_sound pl leaf_verifies"
    and "private_batch_sound pl leaf_verifies n (accepted_inputs px (private_circuit_data v))" "private_num_leaves v = n"
    and "private_verify_proof_bytes px v bytes = Inr b" "s \<in> set (pi_slots b)" "\<not> slot_is_padding s"
  shows "\<exists>t. slot_transfer nh b s t"
proof -
  obtain pf where pf: "parse_private_batch_public_input_felts (proof_public_inputs px pf) n = Inr b" "verify_with px (private_circuit_data v) pf"
    using assms(4,5) by (auto simp: private_verify_proof_bytes_def)
  then obtain tg where tg: "length (padding_nullifier_preimages tg) = n" "private_batch_satisfied pl leaf_verifies n tg"
    "fst (build_private_batch_constraints pl tg) = proof_public_inputs px pf"
    using assms(3) unfolding private_batch_sound_def accepted_inputs_def by blast
  have len: "length (leaf_proofs tg) = n" "validate_proof_count n" using tg(2) by (simp_all add: private_batch_satisfied_def)
  then have "length (padding_nullifier_preimages tg) = length (leaf_proofs tg)" using tg(1) by simp
  note eval = private_batch_eval [OF assms(1) this]
  have "b = published_batch nh tg"
    using pf(1) eval(1,3) tg(3) len parse_private_batch_felts [of n "published_batch nh tg"] by simp
  then show ?thesis using private_slot_transfer [OF assms(1,2) tg(2,1)] assms(6,7) by simp
qed

lemma public_verified_slot:
  assumes "plonky2_ok pl nh" "leaf_sound pl leaf_verifies" "private_batch_sound pl leaf_verifies n inner_verifies"
    and "public_batch_sound pl inner_verifies m n (accepted_inputs px (public_circuit_data v))" "public_num_inner v = m" "public_num_leaves v = n"
    and "public_verify_proof_bytes px v bytes = Inr p" "b \<in> set (settleable_batches p)" "s \<in> set (pi_slots b)" "\<not> slot_is_padding s"
  shows "\<exists>t. slot_transfer nh b s t"
proof -
  obtain pf where pf: "parse_public_batch_public_input_felts (proof_public_inputs px pf) m n = Inr p" "verify_with px (public_circuit_data v) pf"
    using assms(5-7) by (auto simp: public_verify_proof_bytes_def)
  then obtain tg where tg: "length (aggregator_address_targets tg) = 4" "public_batch_satisfied pl inner_verifies m n tg"
    "fst (build_public_batch_constraints pl tg n) = proof_public_inputs px pf"
    using assms(4) unfolding public_batch_sound_def accepted_inputs_def by blast
  from settled_slots_are_transfers [OF assms(1-3) tg(2,1) _ assms(8)] pf(1) tg(3) assms(9,10) show ?thesis by simp
qed

lemma loaded_dimensions:
  "private_verifier_from_artifact_bytes px bytes n = Inr v \<Longrightarrow> private_num_leaves v = n"
  "public_verifier_from_artifact_bytes px bytes m n = Inr u \<Longrightarrow> public_num_inner u = m \<and> public_num_leaves u = n"
  by (auto simp: private_verifier_from_artifact_bytes_def private_verifier_new_def public_verifier_from_artifact_bytes_def public_verifier_new_def)

lemma verified_slot_transfer:
  assumes cfg: "cfg = wire_pool px private_artifact public_artifact num_inner num_leaves base"
    and ok: "plonky2_ok pl nh" and sound: "verifiers_sound pl px private_artifact public_artifact num_inner num_leaves"
    and b: "verified_bundle cfg call = Inr bundle" "seg \<in> set (segments bundle)" "slot \<in> set (seg_slots seg)"
  shows "\<exists>b s t. seg = segment_of b \<and> \<not> batch_is_padding b \<and> slot = real_slot_of s \<and> slot_transfer nh b s t"
proof -
  obtain lv iv where snd: "leaf_sound pl lv" "private_batch_sound pl lv num_leaves iv"
    "\<And>v. private_verifier_from_artifact_bytes px private_artifact num_leaves = Inr v \<Longrightarrow>
       private_batch_sound pl lv num_leaves (accepted_inputs px (private_circuit_data v))"
    "\<And>v. public_verifier_from_artifact_bytes px public_artifact num_inner num_leaves = Inr v \<Longrightarrow>
       public_batch_sound pl iv num_inner num_leaves (accepted_inputs px (public_circuit_data v))"
    using sound unfolding verifiers_sound_def by (elim exE conjE) simp
  show ?thesis
  proof (cases call)
    case (SubmitPrivateBatch bytes outputs)
    then obtain v i where v: "private_verifier_from_artifact_bytes px private_artifact num_leaves = Inr v"
      "private_verify_proof_bytes px v bytes = Inr i" "bundle = from_private_batch i"
      using b(1) by (auto simp: validate_private_batch_def cfg wire_pool_def private_batch_verifier_def private_proof_verifier_def split: sum.splits)
    then have i: "seg = segment_of i" "\<not> batch_is_padding i" using b(2) by (auto simp: from_private_batch_def split: if_splits)
    then obtain s where s: "s \<in> set (pi_slots i)" "\<not> slot_is_padding s" "slot = real_slot_of s" using b(3) by (auto simp: segment_of_def)
    show ?thesis using private_verified_slot [OF ok snd(1) snd(3) [OF v(1)] loaded_dimensions(1) [OF v(1)] v(2) s(1,2)] i s(3) by blast
  next
    case (SubmitPublicBatch bytes outputs)
    then obtain v p where v: "public_verifier_from_artifact_bytes px public_artifact num_inner num_leaves = Inr v"
      "public_verify_proof_bytes px v bytes = Inr p" "bundle = from_public_batch p"
      using b(1) by (auto simp: validate_public_batch_def cfg wire_pool_def public_batch_verifier_def public_proof_verifier_def split: sum.splits)
    then obtain i where i: "seg = segment_of i" "i \<in> set (settleable_batches p)" using b(2) by (auto simp: from_public_batch_def)
    then obtain s where s: "s \<in> set (pi_slots i)" "\<not> slot_is_padding s" "slot = real_slot_of s" using b(3) by (auto simp: segment_of_def)
    have "\<not> batch_is_padding i" using i(2) by (simp add: settleable_batches_def)
    then show ?thesis
      using public_verified_slot [OF ok snd(1,2) snd(4) [OF v(1)] _ _ v(2) i(2) s(1,2)] loaded_dimensions(2) [OF v(1)] i(1) s(3) by blast
  qed (use b(1) in simp_all)
qed

lemma settled_slots_flags:
  "slot \<in> set (settled_slots segs (settle_flags cfg w C segs)) \<Longrightarrow>
     \<exists>seg\<in>set segs. slot \<in> set (seg_slots seg) \<and> anchor_failure w seg (sys_block_number w) (BlockHashWindow cfg) = None"
  by (induction segs arbitrary: C) (auto simp: settled_slots_Cons Let_def seg_settles_def settled_slots_def settled_segments_def split: if_splits)

lemma anchor_ok:
  assumes "anchor_failure w seg (sys_block_number w) window = None"
  shows "seg_block_number seg < sys_block_number w" "sys_block_number w \<le> seg_block_number seg + window"
    "sys_block_hash w (seg_block_number seg) = seg_block_hash seg" "seg_block_hash seg \<noteq> zero_hash"
  using assms by (auto simp: anchor_failure_def Let_def split: if_splits)

section \<open>From the leaf to the tree\<close>

text \<open>
  The block hashes the runtime keeps are those of headers, and each header carries the root of a tree the chain
  reached.
\<close>

definition anchored ::
  "header_crypto \<Rightarrow> poseidon \<Rightarrow> nat \<Rightarrow> ('t, 'b, 'acc) world \<Rightarrow> (nat \<Rightarrow> header) \<Rightarrow> (nat \<Rightarrow> zk_tree) \<Rightarrow> bool" where
  "anchored hc pc window w headers trees \<longleftrightarrow>
     (\<forall>n. n < sys_block_number w \<and> sys_block_number w \<le> n + window \<and> sys_block_hash w n \<noteq> zero_hash \<longrightarrow>
        sys_block_hash w n = header_hash hc (headers n) \<and> header_ok (headers n)
        \<and> hdr_zk_tree_root (headers n) = Root (trees n) \<and> zk_reachable pc (trees n))"

definition header_collides :: "note_hash \<Rightarrow> header_crypto \<Rightarrow> header_targets \<Rightarrow> header \<Rightarrow> bool" where
  "header_collides nh hc ht h \<longleftrightarrow>
     hash_to_bytes (nh_core nh) (header_targets_preimage ht) = hash_to_bytes (nh_core nh) (header_preimage hc h)
     \<and> header_targets_preimage ht \<noteq> header_preimage hc h"

definition transfer_slot :: "spend_targets \<Rightarrow> RealSlot" where
  "transfer_slot t =
     real_slot_of \<lparr>nullifiers = t_nullifiers t, commitments = t_commitments t, slot_fee = t_fee t, slot_ct_digest = t_ct_digest t\<rparr>"

lemma preimage_zk_root:
  assumes "header_crypto_ok hc" "header_ok h" "header_shape ht" "header_targets_preimage ht = header_preimage hc h"
  shows "ht_zk_tree_root ht = map felt_from_u64 (limbs (hdr_zk_tree_root h))"
proof -
  have len: "length (bytes_to_digest_lossy hc (hdr_parent_hash h)) = 4" "length (bytes_to_digest_lossy hc (hdr_state_root h)) = 4"
    "length (bytes_to_digest_lossy hc (hdr_extrinsics_root h)) = 4" "length (bytes_to_digest_lossy hc (hdr_zk_tree_root h)) = 4"
    using assms(1,2) by (simp_all add: lossy_length header_ok_def)
  have "take 4 (drop 13 (header_targets_preimage ht)) = ht_zk_tree_root ht"
    using assms(3) by (simp add: header_targets_preimage_def header_shape_def)
  moreover have "take 4 (drop 13 (header_preimage hc h)) = bytes_to_digest_lossy hc (hdr_zk_tree_root h)"
    using len by (simp add: header_preimage_def)
  ultimately show ?thesis using assms(1,2,4) by (simp add: header_crypto_okD(1) header_ok_def)
qed

lemma tree_root_ok:
  assumes "note_hash_ok nh" "tree_inv (nh_core nh) tr" "\<forall>h\<in>set (settled_leaves tr). digest_ok h"
  shows "digest_to_bytes nh (map felt_from_u64 (limbs (Root tr))) = Root tr"
proof -
  have "digest_ok (Root tr)"
    using assms(2) digest_ok_ref_node [OF note_hash_okD(1) [OF assms(1)] assms(3)] by (simp add: tree_inv_def del: ref_node.simps)
  then show ?thesis
    using felts_of_canonical_bytes by (simp add: note_hash_okD(4) [OF assms(1)] digest_ok_def)
qed

lemma anchored_root:
  assumes nok: "note_hash_ok nh" and hc: "header_crypto_ok hc" "hc_hash_to_bytes hc = hash_to_bytes (nh_core nh)"
    and h: "header_ok h" "hdr_zk_tree_root h = Root tr" "tree_inv (nh_core nh) tr" "\<forall>h\<in>set (settled_leaves tr). digest_ok h"
    and t: "targets_shape t" "leaf_statement nh t" "digest_to_bytes nh (t_block_hash t) = header_hash hc h"
  shows "digest_to_bytes nh (ht_zk_tree_root (t_header t)) = Root tr \<or> header_collides nh hc (t_header t) h"
proof -
  have "hash_to_bytes (nh_core nh) (header_targets_preimage (t_header t)) = hash_to_bytes (nh_core nh) (header_preimage hc h)"
    using t(2,3) hc(2) note_hash_okD(3) [OF nok] by (simp add: leaf_statement_def header_hash_def)
  moreover have "header_shape (t_header t)" using t(1) by (simp add: targets_shape_def)
  ultimately show ?thesis
    using preimage_zk_root [OF hc(1) h(1)] tree_root_ok [OF nok h(3,4)] h(2) by (auto simp: header_collides_def)
qed

lemma real_input_exists:
  assumes "leaf_statement nh t" "t_block_hash t \<noteq> map felt_from_u64 PADDING_BLOCK_HASH"
  shows "\<exists>k<NUM_INPUTS. in_is_dummy (t_inputs t ! k) = felt_of_bool False"
proof -
  obtain k where k: "k < NUM_INPUTS" "in_is_dummy (t_inputs t ! k) \<noteq> felt_of_bool True"
    using assms by (auto simp: leaf_statement_def)
  moreover have "\<exists>b. in_is_dummy (t_inputs t ! k) = felt_of_bool b"
    using assms(1) k(1) by (auto simp: leaf_statement_def input_statement_def)
  ultimately show ?thesis by (metis (full_types))
qed

text \<open>
  \<open>leaf_backed\<close>: an assignment that satisfies the leaf circuit, anchored at block \<open>n\<close>, every real input of which
  opens a leaf of the tree that block published.
\<close>

definition leaf_backed ::
  "circuit_builder \<Rightarrow> note_hash \<Rightarrow> header_crypto \<Rightarrow> ('t, 'b, 'acc) world \<Rightarrow> nat \<Rightarrow> (nat \<Rightarrow> header) \<Rightarrow> (nat \<Rightarrow> zk_tree)
    \<Rightarrow> (nat \<Rightarrow> goldilocks list list) \<Rightarrow> spend_targets \<Rightarrow> nat \<Rightarrow> bool" where
  "leaf_backed pl nh hc w window headers trees openings t n \<longleftrightarrow>
     targets_shape t \<and> build_constraints pl t \<and> leaf_statement nh t
     \<and> n < sys_block_number w \<and> sys_block_number w \<le> n + window \<and> sys_block_hash w n = digest_to_bytes nh (t_block_hash t)
     \<and> (\<exists>k<NUM_INPUTS. in_is_dummy (t_inputs t ! k) = felt_of_bool False)
     \<and> (\<forall>k<NUM_INPUTS. in_is_dummy (t_inputs t ! k) = felt_of_bool False \<longrightarrow>
          digest_to_bytes nh (input_commitment nh (t_inputs t ! k)) \<in> set (settled_leaves (trees n))
          \<or> spend_break nh (settled_leaves (trees n)) (openings n) (Depth (trees n)) (spend_preimages nh t k)
          \<or> header_collides nh hc (t_header t) (headers n))"

text \<open>The public face of a list of leaves: nullifiers, commitments and fees, in order.\<close>

definition leaves_nullifiers :: "spend_targets list \<Rightarrow> hash256 list" where
  "leaves_nullifiers ts = concat (map slot_nullifiers (map transfer_slot ts))"

definition leaves_commitments :: "spend_targets list \<Rightarrow> hash256 list" where
  "leaves_commitments ts = concat (map slot_commitments (map transfer_slot ts))"

definition leaves_fee :: "spend_targets list \<Rightarrow> nat" where
  "leaves_fee ts = sum_list (map rs_fee (map transfer_slot ts))"

lemma leaves_append [simp]:
  "leaves_nullifiers [] = []" "leaves_nullifiers (ts @ us) = leaves_nullifiers ts @ leaves_nullifiers us"
  by (simp_all add: leaves_nullifiers_def)

text \<open>What a settlement writes, when the settling slots are the public face of \<open>ts\<close>.\<close>

definition settles_leaves :: "(zk_tree, 'b, 'acc) world \<Rightarrow> spend_targets list \<Rightarrow> (zk_tree, 'b, 'acc) world \<Rightarrow> bool" where
  "settles_leaves w ts w' \<longleftrightarrow>
     UsedNullifiers (pool w') = UsedNullifiers (pool w) \<union> set (leaves_nullifiers ts)
     \<and> distinct (leaves_nullifiers ts) \<and> set (leaves_nullifiers ts) \<inter> UsedNullifiers (pool w) = {}
     \<and> all_leaves (tree w') = all_leaves (tree w) @ leaves_commitments ts
     \<and> PoolValue (pool w') + POOL_STEP * leaves_fee ts = PoolValue (pool w)"

lemma settle_leaves:
  assumes cfg: "cfg = wire_pool px pa qa m n base"
    and w: "tree_inv pc (tree w)" "plan_widths cfg w outputs" "PoolValue (pool w) + PendingCoinbaseFee (pool w) < 2 ^ 128"
    and run: "settle cfg w b outputs = Inr w'" and ts: "map transfer_slot ts = settling_slots cfg w b"
  shows "settles_leaves w ts w'" "sys_block_hash w' = sys_block_hash w" "ts \<noteq> []"
proof -
  note eff = wired.settle_effect [OF w(1) w(2) [unfolded cfg] run [unfolded cfg], folded cfg, unfolded settles_bundle_def same_elsewhere_def]
  note fee = wired.settle_fee [OF w(1) w(2) [unfolded cfg] run [unfolded cfg] w(3), folded cfg]
  obtain plan where "check_settlement cfg w b outputs = Inr plan" using wired.settle_steps [OF run [unfolded cfg]] unfolding cfg by blast
  then have plan: "segments_ok cfg (segments b) (flags_of cfg w b) outputs" "settling_slots cfg w b \<noteq> []"
    unfolding check_settlement_Inr plan_settlement_Inr [OF w(2)] by linarith+
  then have nfs: "distinct (settling_nullifiers cfg w b)" "set (settling_nullifiers cfg w b) \<inter> UsedNullifiers (pool w) = {}"
    using settling_nullifiers_fresh [OF plan(1)] by (simp_all add: segments_ok_settling)
  have slots: "leaves_nullifiers ts = settling_nullifiers cfg w b" "leaves_commitments ts = settling_commitments cfg w b" "leaves_fee ts = settling_fee cfg w b"
    by (simp_all only: leaves_nullifiers_def leaves_commitments_def leaves_fee_def settling_nullifiers_def settling_commitments_def settling_fee_def ts)
  show "settles_leaves w ts w'" "sys_block_hash w' = sys_block_hash w"
    unfolding settles_leaves_def slots using eff fee nfs by (simp_all add: mult.commute)
  show "ts \<noteq> []" using plan(2) ts by auto
qed

lemma settling_slot_leaf:
  assumes cfg: "cfg = wire_pool px private_artifact public_artifact num_inner num_leaves base"
    and ok: "plonky2_ok pl nh" and sound: "verifiers_sound pl px private_artifact public_artifact num_inner num_leaves"
    and slot: "verified_bundle cfg call = Inr bundle" "slot \<in> set (settling_slots cfg w bundle)"
  shows "\<exists>t n. targets_shape t \<and> leaf_statement nh t \<and> slot = transfer_slot t \<and> n < sys_block_number w
    \<and> sys_block_number w \<le> n + BlockHashWindow cfg \<and> sys_block_hash w n \<noteq> zero_hash
    \<and> sys_block_hash w n = digest_to_bytes nh (t_block_hash t) \<and> t_block_hash t \<noteq> map felt_from_u64 PADDING_BLOCK_HASH"
proof -
  have nok: "note_hash_ok nh" using ok by (rule plonky2_okD)
  obtain seg where seg: "seg \<in> set (segments bundle)" "slot \<in> set (seg_slots seg)"
    "anchor_failure w seg (sys_block_number w) (BlockHashWindow cfg) = None"
    using settled_slots_flags slot(2) unfolding settling_slots_def flags_of_def by blast
  obtain b s t where b: "seg = segment_of b" "\<not> batch_is_padding b" "slot = real_slot_of s" "slot_transfer nh b s t"
    using verified_slot_transfer [OF cfg ok sound slot(1) seg(1,2)] by blast
  have t: "targets_shape t" "leaf_statement nh t" "t_block_hash t = pi_block_hash b" "slot = transfer_slot t"
    using b(3,4) by (simp_all add: slot_transfer_def transfer_slot_def)
  note at = anchor_ok [OF seg(3)]
  have hash: "sys_block_hash w (seg_block_number seg) = digest_to_bytes nh (t_block_hash t)"
    using at(3) t(3) by (simp add: b(1) segment_of_def Shielded.digest_bytes_def note_hash_okD(4) [OF nok])
  have "length (t_block_hash t) = 4" using t(1) by (simp add: targets_shape_def)
  then have "t_block_hash t \<noteq> map felt_from_u64 PADDING_BLOCK_HASH"
    using b(2) t(3) sentinel_iff by (simp add: batch_is_padding_def padding_block_hash_target_def)
  then show ?thesis
    using t(1,2,4) at hash by (intro exI [of _ t] exI [of _ "seg_block_number seg"] conjI) simp_all
qed

lemma settling_slot_backed:
  assumes cfg: "cfg = wire_pool px private_artifact public_artifact num_inner num_leaves base"
    and ok: "plonky2_ok pl nh" and sound: "verifiers_sound pl px private_artifact public_artifact num_inner num_leaves"
    and hc: "header_crypto_ok hc" "hc_hash_to_bytes hc = hash_to_bytes (nh_core nh)"
    and chain: "anchored hc (nh_core nh) (BlockHashWindow cfg) w headers trees"
    and opens: "\<forall>n. settled_leaves (trees n) = map (hash_to_bytes (nh_core nh)) (openings n) \<and> (\<forall>xs\<in>set (openings n). length xs \<noteq> 16)"
    and slot: "verified_bundle cfg call = Inr bundle" "slot \<in> set (settling_slots cfg w bundle)"
  shows "\<exists>t n. slot = transfer_slot t \<and> leaf_backed pl nh hc w (BlockHashWindow cfg) headers trees openings t n"
proof -
  have nok: "note_hash_ok nh" using ok by (rule plonky2_okD)
  obtain t n where t: "targets_shape t" "leaf_statement nh t" "slot = transfer_slot t"
    and at: "n < sys_block_number w" "sys_block_number w \<le> n + BlockHashWindow cfg" "sys_block_hash w n \<noteq> zero_hash"
    and hash: "sys_block_hash w n = digest_to_bytes nh (t_block_hash t)" "t_block_hash t \<noteq> map felt_from_u64 PADDING_BLOCK_HASH"
    using settling_slot_leaf [OF cfg ok sound slot] by (elim exE conjE)
  have h: "digest_to_bytes nh (t_block_hash t) = header_hash hc (headers n)" "header_ok (headers n)"
    "hdr_zk_tree_root (headers n) = Root (trees n)" "zk_reachable (nh_core nh) (trees n)"
    using chain at hash unfolding anchored_def by metis+
  have opens1: "settled_leaves (trees n) = map (hash_to_bytes (nh_core nh)) (openings n)" "\<forall>xs\<in>set (openings n). length xs \<noteq> 16"
    using opens by simp_all
  have tr: "tree_inv (nh_core nh) (trees n)" "\<forall>h\<in>set (settled_leaves (trees n)). digest_ok h"
    using zk_reachable_inv [OF h(4) note_hash_okD(1) [OF nok]] by (auto simp: leaves_ok_def settled_leaves_def dest: in_set_takeD)
  note real = real_input_exists [OF t(2) hash(2)]
  have "digest_to_bytes nh (input_commitment nh (t_inputs t ! k)) \<in> set (settled_leaves (trees n))
      \<or> spend_break nh (settled_leaves (trees n)) (openings n) (Depth (trees n)) (spend_preimages nh t k)
      \<or> header_collides nh hc (t_header t) (headers n)"
    if "k < NUM_INPUTS" "in_is_dummy (t_inputs t ! k) = felt_of_bool False" for k
    using anchored_root [OF nok hc h(2,3) tr t(1,2) h(1)] spent_note_settled [OF nok t(1,2) tr(1) _ opens1 that] by blast
  then have "leaf_backed pl nh hc w (BlockHashWindow cfg) headers trees openings t n"
    using t real at(1,2) hash(1) build_constraints_iff [OF ok t(1)] unfolding leaf_backed_def by (intro conjI) simp_all
  then show ?thesis using t(3) by (intro exI conjI)
qed

lemma settling_slots_backed:
  assumes each: "\<And>slot. slot \<in> set slots \<Longrightarrow> \<exists>t (n::nat). slot = transfer_slot t \<and> P t n"
  shows "\<exists>spends. map transfer_slot (map fst spends) = slots \<and> (\<forall>sp\<in>set spends. P (fst sp) (snd sp))"
  using each
proof (induction slots)
  case (Cons slot slots)
  then obtain spends where sps: "map transfer_slot (map fst spends) = slots" "\<forall>sp\<in>set spends. P (fst sp) (snd sp)" by force
  obtain t n where "slot = transfer_slot t" "P t n" using Cons.prems [of slot] by auto
  then show ?case using sps by (intro exI [of _ "(t, n) # spends"]) simp
qed simp

section \<open>Properties\<close>

text \<open>
  C2: The pool settles only spends of notes the chain holds. Take a state whose tree and amounts are within
  their widths and whose recent block hashes are those of headers that carry roots the chain reached, and a
  sound proof system. Whenever the pallet dispatches a settlement call there, private or public, there is a list of leaves, not empty, whose nullifiers are exactly what the call adds to
  the used set, fresh and without repeats, whose commitments are exactly what it appends to the tree, and whose
  fees are exactly what leaves the pool. Each of them is an assignment that satisfies the leaf circuit,
  anchored at a block inside the window whose hash the runtime holds, with at least one real input; and the
  note every real input opens is a settled leaf of the tree that block's header published. The exceptions are
  explicit breaks of the hash: a preimage of the prover's that collides with one of the tree's or gives the
  empty digest, or a second preimage of the header's hash.
\<close>

theorem settlement_spends_chain_notes:
  assumes "cfg = wire_pool px private_artifact public_artifact num_inner num_leaves base"
    and "plonky2_ok pl nh" "verifiers_sound pl px private_artifact public_artifact num_inner num_leaves"
    and "header_crypto_ok hc" "hc_hash_to_bytes hc = hash_to_bytes (nh_core nh)"
    and "anchored hc (nh_core nh) (BlockHashWindow cfg) w headers trees"
    and "\<forall>n. settled_leaves (trees n) = map (hash_to_bytes (nh_core nh)) (openings n) \<and> (\<forall>xs\<in>set (openings n). length xs \<noteq> 16)"
    and "is_settlement call" "dispatch cfg w origin call = Inr w'"
    and "tree_inv pc (tree w)" "plan_widths cfg w (call_outputs call)" "PoolValue (pool w) + PendingCoinbaseFee (pool w) < 2 ^ 128"
  shows "\<exists>spends. spends \<noteq> []
    \<and> UsedNullifiers (pool w') = UsedNullifiers (pool w) \<union> set (leaves_nullifiers (map fst spends))
    \<and> distinct (leaves_nullifiers (map fst spends)) \<and> set (leaves_nullifiers (map fst spends)) \<inter> UsedNullifiers (pool w) = {}
    \<and> all_leaves (tree w') = all_leaves (tree w) @ leaves_commitments (map fst spends)
    \<and> PoolValue (pool w') + POOL_STEP * leaves_fee (map fst spends) = PoolValue (pool w)
    \<and> (\<forall>(t, n)\<in>set spends. leaf_backed pl nh hc w (BlockHashWindow cfg) headers trees openings t n)"
proof -
  obtain b where b: "verified_bundle cfg call = Inr b" "settle cfg w b (call_outputs call) = Inr w'"
    using assms(9) by (auto simp: dispatch_settlement [OF assms(8)] ensure_ok_iff)
  have "\<exists>spends. map transfer_slot (map fst spends) = settling_slots cfg w b
      \<and> (\<forall>sp\<in>set spends. leaf_backed pl nh hc w (BlockHashWindow cfg) headers trees openings (fst sp) (snd sp))"
    by (rule settling_slots_backed) (rule settling_slot_backed [OF assms(1-7) b(1)])
  then obtain spends where sps: "map transfer_slot (map fst spends) = settling_slots cfg w b"
    "\<forall>sp\<in>set spends. leaf_backed pl nh hc w (BlockHashWindow cfg) headers trees openings (fst sp) (snd sp)" by (elim exE conjE)
  note wrote = settle_leaves [OF assms(1,10-12) b(2) sps(1)]
  show ?thesis using wrote(1,3) sps(2) unfolding settles_leaves_def by (intro exI [of _ spends] conjI) auto
qed

section \<open>A settlement that goes through\<close>

text \<open>
  A proof system that accepts exactly the public inputs of satisfied circuits, the chain that holds the sample
  note, and the spend of that note with a fee of nine steps.
\<close>

definition sound_plonky2 :: "(unit, unit, unit, byte list) plonky2" where
  "sound_plonky2 = sample_plonky2\<lparr>verify_with := \<lambda>_ p. provable_batch (map felt_from_u64 (limbs p))\<rparr>"

definition settlement_cfg :: "('b \<Rightarrow> nat \<Rightarrow> nat \<Rightarrow> ('ce, 'b) result) \<Rightarrow> (zk_tree, 'b, nat, 'ce) shielded_config" where
  "settlement_cfg burn = wire_pool sound_plonky2 (replicate 26 0) [] 1 1 (sample_params burn None)"

definition settlement_world :: "(zk_tree, nat \<Rightarrow> nat, nat) world" where
  "settlement_world =
     \<lparr>pool = genesis_pool\<lparr>PoolValue := 100 * POOL_STEP\<rparr>, tree = sample_note_tree, balances = (\<lambda>_. 0), sys_block_number = 1000002,
      sys_block_hash = (\<lambda>_. header_hash sample_wallet_crypto sample_spend_header), sys_pre_runtime = []\<rparr>"

definition settlement_ready :: "(zk_tree, 'b, nat) world \<Rightarrow> bool" where
  "settlement_ready w \<longleftrightarrow>
     tree w = sample_note_tree \<and> sys_block_number w = 1000002 \<and> sys_block_hash w = (\<lambda>_. header_hash sample_wallet_crypto sample_spend_header)
     \<and> UsedNullifiers (pool w) = {} \<and> outputs_written_this_block w = 0 \<and> 9 * POOL_STEP \<le> PoolValue (pool w) \<and> PoolValue (pool w) < 2 ^ 128"

definition settlement_call :: "spend_targets \<Rightarrow> shielded_call" where
  "settlement_call t = SubmitPrivateBatch (sample_proof (published_batch sample_note_hash (sample_slots t))) sample_outputs"

definition settlement_bundle :: "spend_targets \<Rightarrow> SettlementBundle" where
  "settlement_bundle t =
     \<lparr>segments = [\<lparr>seg_block_hash = header_hash sample_wallet_crypto sample_spend_header, seg_block_number = 1000001, seg_slots = [transfer_slot t]\<rparr>]\<rparr>"

definition settlement_spend :: "spend_targets \<Rightarrow> bool" where
  "settlement_spend t \<longleftrightarrow>
     targets_shape t \<and> build_constraints (plonky2_std sample_note_hash) t \<and> t_fee t = felt_from_u64 9
     \<and> t_ct_digest t = map felt_from_u64 (limbs sample_ct_digest) \<and> t_block_number t = felt_from_u64 1000001
     \<and> digest_to_bytes sample_note_hash (t_block_hash t) = header_hash sample_wallet_crypto sample_spend_header"

lemma settlement_spend_exists: "\<exists>t. settlement_spend t"
proof -
  let ?outs = "[\<lparr>ow_pk = felts4 7, ow_value = 1, ow_r = felts4 8\<rparr>, \<lparr>ow_pk = felts4 9, ow_value = 0, ow_r = felts4 10\<rparr>]"
  let ?ct = "map felt_from_u64 (limbs sample_ct_digest)"
  have outs: "list_all output_note_shape ?outs" "sum_list (map ow_value ?outs) + 9 = 10" "length ?ct = 4"
    by (simp_all add: output_note_shape_def length_limbs sample_ct_digest_ok)
  obtain hi path where t: "targets_shape (sample_spend_targets hi path ?outs 9 ?ct)"
    "build_constraints (plonky2_std sample_note_hash) (sample_spend_targets hi path ?outs 9 ?ct)" "hi_block_number hi = hdr_number sample_spend_header"
    "digest_to_bytes sample_note_hash (header_inputs_block_hash sample_note_hash hi) = header_hash sample_wallet_crypto sample_spend_header"
    using sample_spend_targets_ok [OF refl outs] by (elim exE conjE)
  have "hdr_number sample_spend_header = 1000001" by (simp add: sample_spend_header_def sample_header_def)
  then have "settlement_spend (sample_spend_targets hi path ?outs 9 ?ct)"
    using t by (simp add: settlement_spend_def sample_spend_targets_def Let_def fill_fields [OF refl] one_note_spend_def)
  then show ?thesis by (rule exI)
qed

lemma sound_verifier_loads: "private_verifier_from_artifact_bytes sound_plonky2 (replicate 26 0) 1 = Inr sample_verifier"
  by (simp add: private_verifier_from_artifact_bytes_def private_verifier_new_def deserialize_verifier_data_def
      ensure_batch_profile_def ensure_common_data_is_structurally_sound_def sound_plonky2_def sample_plonky2_def
      sample_common_def sample_config_def expected_private_batch_config_def validate_proof_count_def
      MAX_PROOF_COUNT_def MAX_BATCH_DEGREE_BITS_def MAX_VERIFIER_ARTIFACT_BYTES_def
      private_batch_pi_len_alt PRIVATE_BATCH_NUM_WIRES_def PRIVATE_BATCH_NUM_ROUTED_WIRES_def sample_verifier_def)

lemma settlement_sound: "verifiers_sound (plonky2_std sample_note_hash) sound_plonky2 (replicate 26 0) [] 1 1"
proof -
  have acc: "accepted_inputs sound_plonky2 common pis \<Longrightarrow> provable_batch pis" for common pis
    by (auto simp: accepted_inputs_def sound_plonky2_def sample_plonky2_def)
  have "private_batch_sound (plonky2_std sample_note_hash) provable_leaf 1 (accepted_inputs sound_plonky2 common)" for common
    using provable_sound(2) acc unfolding private_batch_sound_def by blast
  moreover have "public_verifier_from_artifact_bytes sound_plonky2 [] 1 1 \<noteq> Inr v" for v
    by (auto simp: public_verifier_from_artifact_bytes_def ensure_ok_iff split_public_batch_artifact_Inr PUBLIC_BATCH_ARTIFACT_MAGIC_def)
  ultimately show ?thesis
    using provable_sound unfolding verifiers_sound_def by blast
qed

lemma sample_digest_nonzero: "digest_to_bytes sample_note_hash (hash_felts sample_note_hash tag fs) \<noteq> zero_hash"
  using note_hash_okD(3) [OF sample_note_hash_ok, of "tag # concat fs"] sample_hash_nonzero [of "map to_canonical_u64 (tag # concat fs)"]
  by (simp add: hash_felts_def sample_core) (simp add: sample_poseidon_def)

lemma sample_digest_bytes_eq: "Shielded.digest_bytes d = digest_to_bytes sample_note_hash d"
  by (simp add: Shielded.digest_bytes_def note_hash_okD(4) [OF sample_note_hash_ok])

lemma settlement_slot:
  assumes t: "settlement_spend t"
  shows "slot_ok (settlement_cfg burn) (transfer_slot t) \<lparr>ct_1 = sample_ct, ct_2 = sample_ct\<rparr>" "distinct (slot_nullifiers (transfer_slot t))"
    "rs_fee (transfer_slot t) = 9" "rs_ct_digest (transfer_slot t) = sample_ct_digest"
proof -
  have shape: "targets_shape t" and st: "leaf_statement sample_note_hash t"
    using t build_constraints_iff [OF plonky2_std_ok [OF sample_note_hash_ok]] unfolding settlement_spend_def by blast+
  show fee: "rs_fee (transfer_slot t) = 9" and "rs_ct_digest (transfer_slot t) = sample_ct_digest"
    using t sample_digest_bytes by (simp_all add: settlement_spend_def transfer_slot_def real_slot_of_def GOLDILOCKS_P_def)
  have nf: "digest_to_bytes sample_note_hash (t_nullifiers t ! k) \<noteq> zero_hash" if "k < NUM_INPUTS" for k
  proof -
    have "input_statement sample_note_hash (to_canonical_u64 (t_depth t)) (ht_zk_tree_root (t_header t)) (t_nullifiers t ! k) (t_inputs t ! k)"
      using st that by (simp add: leaf_statement_def)
    then obtain dummy where "t_nullifiers t ! k = input_nullifier sample_note_hash dummy (t_inputs t ! k)"
      by (auto simp: input_statement_def)
    then show ?thesis using sample_digest_nonzero by (simp add: input_nullifier_def nullifier_def dummy_nullifier_def)
  qed
  have cm: "digest_to_bytes sample_note_hash (t_commitments t ! k) \<noteq> zero_hash" if "k < NUM_OUTPUTS" for k
  proof -
    have "output_statement sample_note_hash (t_nullifiers t) (t_commitments t ! k) k (t_outputs t ! k)" using st that by (simp add: leaf_statement_def)
    then show ?thesis using sample_digest_nonzero by (simp add: output_statement_def commitment_from_inner_def)
  qed
  have slots: "slot_nullifiers (transfer_slot t) = map (digest_to_bytes sample_note_hash) [t_nullifiers t ! 0, t_nullifiers t ! 1]"
    "slot_commitments (transfer_slot t) = map (digest_to_bytes sample_note_hash) [t_commitments t ! 0, t_commitments t ! 1]"
    by (simp_all add: slot_nullifiers_def slot_commitments_def transfer_slot_def real_slot_of_def sample_digest_bytes_eq)
  show "distinct (slot_nullifiers (transfer_slot t))"
  proof -
    have "t_nullifiers t ! 0 \<noteq> t_nullifiers t ! 1" using st by (simp add: leaf_statement_def)
    then have "digest_to_bytes sample_note_hash (t_nullifiers t ! 0) \<noteq> digest_to_bytes sample_note_hash (t_nullifiers t ! 1)"
      using felts_digest_to_bytes [OF sample_note_hash_ok] by metis
    then show ?thesis by (simp add: slots)
  qed
  show "slot_ok (settlement_cfg burn) (transfer_slot t) \<lparr>ct_1 = sample_ct, ct_2 = sample_ct\<rparr>"
    using nf [of 0] nf [of 1] cm [of 0] cm [of 1] sample_exact(2)
    by (auto simp: slot_ok_def fee slots sample_output_bytes fee_floor_def div_ceil_def bytes_per_fee_quantum_def settlement_cfg_def wire_pool_def
        sample_params_def sat_add_def max_u_def MAX_VALUE_def VALUE_BITS_def NUM_INPUTS_def NUM_OUTPUTS_def)
qed

lemma settlement_verified:
  assumes t: "settlement_spend t"
  shows "verified_bundle (settlement_cfg burn) (settlement_call t) = Inr (settlement_bundle t)"
proof -
  let ?b = "published_batch sample_note_hash (sample_slots t)"
  have t': "targets_shape t" "build_constraints (plonky2_std sample_note_hash) t" using t by (simp_all add: settlement_spend_def)
  note facts = sample_slots_provable [OF t']
  have "private_verify_proof_bytes sample_plonky2 sample_verifier (sample_proof ?b) = Inr ?b" by (rule sample_proof_verifies [OF facts(2)])
  moreover have "map felt_from_u64 (limbs (sample_proof ?b)) = private_batch_felts ?b"
    unfolding sample_proof_def using to_canonical_lt_2_64 by (subst limbs_digest_of_limbs) (auto simp: comp_def)
  ultimately have verify: "private_verify_proof_bytes sound_plonky2 sample_verifier (sample_proof ?b) = Inr ?b"
    using facts(1) by (simp add: private_verify_proof_bytes_def decode_canonical_proof_def sound_plonky2_def sample_plonky2_def)
  have "from_private_batch ?b = settlement_bundle t"
    using facts(3,4) t leaf_public_fields(3) [OF t'(1)]
    by (simp add: from_private_batch_def facts(5) segment_of_def settlement_bundle_def settlement_spend_def sample_digest_bytes_eq
        transfer_slot_def GOLDILOCKS_P_def try_into_u_def)
  then show ?thesis
    using verify length_sample_proof [OF facts(2)]
    by (simp add: settlement_call_def validate_private_batch_def settlement_cfg_def wire_pool_def private_batch_verifier_def
        sound_verifier_loads [simplified] private_proof_verifier_def MAX_PROOF_BYTES_def)
qed

lemma settlement_anchor: "header_hash sample_wallet_crypto sample_spend_header \<noteq> zero_hash"
  using sample_hash_nonzero by (simp add: header_hash_def sample_wallet_crypto_def sample_poseidon_def)

lemma settlement_settling:
  assumes t: "settlement_spend t" and w: "settlement_ready w"
  shows "flags_of (settlement_cfg burn) w (settlement_bundle t) = [True]"
    "settling_slots (settlement_cfg burn) w (settlement_bundle t) = [transfer_slot t]"
    "settling_fee (settlement_cfg burn) w (settlement_bundle t) = 9"
proof -
  show flags: "flags_of (settlement_cfg burn) w (settlement_bundle t) = [True]"
    using settlement_anchor w
    by (simp add: flags_of_def settlement_bundle_def seg_settles_def conflicts_iff anchor_failure_def Let_def settlement_ready_def
        settlement_cfg_def wire_pool_def sample_params_def)
  then show slots: "settling_slots (settlement_cfg burn) w (settlement_bundle t) = [transfer_slot t]"
    by (simp add: settling_slots_def) (simp add: settlement_bundle_def settled_slots_Cons)
  then show "settling_fee (settlement_cfg burn) w (settlement_bundle t) = 9" by (simp add: settling_fee_def settlement_slot(3) [OF t])
qed

lemma settlement_tree: "tree_inv sample_poseidon sample_note_tree" "3 \<le> remaining_capacity sample_note_tree"
  using zk_reachable_inv [OF sample_note_tree_reachable] sample_poseidon_ok
  by (simp_all add: sample_core remaining_capacity_def sample_note_tree_fields capacity_at_depth_def CIRCUIT_MAX_TREE_DEPTH_def ARITY_def max_u_def)

lemma settlement_check:
  assumes t: "settlement_spend t" and w: "settlement_ready w"
  shows "is_ok (check_settlement (settlement_cfg burn) w (settlement_bundle t) sample_outputs)"
proof -
  have widths: "plan_widths (settlement_cfg burn) w sample_outputs"
    using w by (simp add: plan_widths_def settlement_cfg_def wire_pool_def sample_params_def settlement_ready_def sample_outputs_def POOL_STEP_def)
  have segs: "segments_ok (settlement_cfg burn) (segments (settlement_bundle t)) [True] sample_outputs"
    using settlement_slot(1,2) [OF t] by (simp add: segments_ok_def settlement_bundle_def settled_segments_def sample_outputs_def seg_nullifiers_def)
  have exact: "is_ok (ensure_exact_outputs sample_outputs)"
    using sample_exact(1) by (simp add: is_ok_iff ensure_exact_ciphertext_Inr sample_outputs_def)
  have bound: "bind_payload (settlement_cfg burn) (settlement_bundle t) sample_outputs = Inr ()"
    using settlement_slot(4) [OF t] by (simp add: bind_payload_def real_slots_def settlement_bundle_def sample_outputs_def settlement_cfg_def
        wire_pool_def sample_params_def sample_ct_digest_def)
  have "plan_settlement (settlement_cfg burn) w (settlement_bundle t) sample_outputs
      = Inr (planned (settlement_cfg burn) w (settlement_bundle t) sample_outputs)"
    unfolding plan_settlement_Inr [OF widths] settlement_settling [OF t w] sample_output_bytes
    using segs exact settlement_tree(2) w
    by (simp add: settlement_bundle_def sample_outputs_def settlement_ready_def settlement_cfg_def wire_pool_def sample_params_def
        div_ceil_def bytes_per_fee_quantum_def POOL_STEP_def)
  then show ?thesis using bound by (simp add: is_ok_iff check_settlement_Inr)
qed

lemma settlement_dispatches:
  assumes t: "settlement_spend t" and w: "settlement_ready w"
  shows "\<exists>w'. dispatch (settlement_cfg burn) w NoOrigin (settlement_call t) = Inr w'"
proof -
  have pre: "is_settlement (settlement_call t)" "call_outputs (settlement_call t) = sample_outputs" "tree_inv sample_poseidon (tree w)"
    "plan_widths (settlement_cfg burn) w sample_outputs"
    using settlement_tree(1) w by (simp_all add: settlement_call_def settlement_ready_def plan_widths_def settlement_cfg_def wire_pool_def
        sample_params_def sample_outputs_def POOL_STEP_def)
  have "is_ok (dispatch (settlement_cfg burn) w NoOrigin (settlement_call t))"
    using wired.dispatch_iff [OF pre(1,3), of sound_plonky2 "replicate 26 0" "[]" 1 1 "sample_params burn None", folded settlement_cfg_def] pre(2,4)
      settlement_verified [OF t, of burn] settlement_check [OF t w, of burn] by auto
  then show ?thesis by (simp add: is_ok_iff)
qed

lemma settlement_world_ready: "settlement_ready settlement_world"
  by (simp add: settlement_ready_def settlement_world_def genesis_pool_def outputs_written_this_block_def POOL_STEP_def)

lemma settlement_anchored:
  "anchored sample_wallet_crypto (nh_core sample_note_hash) (BlockHashWindow (settlement_cfg sample_burn)) settlement_world (\<lambda>_. sample_spend_header) (\<lambda>_. sample_note_tree)"
  using sample_header_facts(1,3) sample_note_tree_reachable by (simp add: anchored_def settlement_world_def)

theorem settlement_spends_chain_notes_witness:
  "\<exists>t w' spends xs. dispatch (settlement_cfg sample_burn) settlement_world NoOrigin (settlement_call t) = Inr w'
     \<and> spends \<noteq> [] \<and> UsedNullifiers (pool w') = set (leaves_nullifiers (map fst spends))
     \<and> all_leaves (tree w') = all_leaves sample_note_tree @ leaves_commitments (map fst spends)
     \<and> PoolValue (pool w') + POOL_STEP * leaves_fee (map fst spends) = 100 * POOL_STEP
     \<and> list_all (\<lambda>(t, n). leaf_backed (plonky2_std sample_note_hash) sample_note_hash sample_wallet_crypto settlement_world 256
          (\<lambda>_. sample_spend_header) (\<lambda>_. sample_note_tree) (\<lambda>_. [xs]) t n) spends"
proof -
  obtain t where t: "settlement_spend t" using settlement_spend_exists by (elim exE)
  obtain w' where run: "dispatch (settlement_cfg sample_burn) settlement_world NoOrigin (settlement_call t) = Inr w'"
    using settlement_dispatches [OF t settlement_world_ready, of sample_burn] by (elim exE)
  obtain xs where xs: "settled_leaves sample_note_tree = map (hash_to_bytes (nh_core sample_note_hash)) [xs]" "length xs = 6"
    using sample_openings by (elim exE conjE)
  have opens: "\<forall>n::nat. settled_leaves sample_note_tree = map (hash_to_bytes (nh_core sample_note_hash)) [xs] \<and> (\<forall>ys\<in>set [xs]. length ys \<noteq> 16)"
    using xs by simp
  have call: "is_settlement (settlement_call t)" by (simp add: settlement_call_def)
  have pre: "tree_inv sample_poseidon (tree settlement_world)" "plan_widths (settlement_cfg sample_burn) settlement_world (call_outputs (settlement_call t))"
    "PoolValue (pool settlement_world) + PendingCoinbaseFee (pool settlement_world) < 2 ^ 128"
    using settlement_tree(1) by (simp_all add: settlement_call_def settlement_world_def plan_widths_def settlement_cfg_def wire_pool_def
        sample_params_def sample_outputs_def genesis_pool_def POOL_STEP_def)
  have start: "UsedNullifiers (pool settlement_world) = {}" "tree settlement_world = sample_note_tree" "PoolValue (pool settlement_world) = 100 * POOL_STEP"
    "BlockHashWindow (settlement_cfg sample_burn) = 256"
    by (simp_all add: settlement_world_def genesis_pool_def settlement_cfg_def wire_pool_def sample_params_def)
  obtain spends where sps: "spends \<noteq> []" "UsedNullifiers (pool w') = set (leaves_nullifiers (map fst spends))"
    "all_leaves (tree w') = all_leaves sample_note_tree @ leaves_commitments (map fst spends)"
    "PoolValue (pool w') + POOL_STEP * leaves_fee (map fst spends) = 100 * POOL_STEP"
    "\<forall>(t, n)\<in>set spends. leaf_backed (plonky2_std sample_note_hash) sample_note_hash sample_wallet_crypto settlement_world 256
          (\<lambda>_. sample_spend_header) (\<lambda>_. sample_note_tree) (\<lambda>_. [xs]) t n"
    using settlement_spends_chain_notes [OF settlement_cfg_def plonky2_std_ok [OF sample_note_hash_ok] settlement_sound sample_wallet_crypto_ok
      settlement_anchored opens call run pre, unfolded start Un_empty_left] by (elim exE conjE)
  have "list_all (\<lambda>(t, n). leaf_backed (plonky2_std sample_note_hash) sample_note_hash sample_wallet_crypto settlement_world 256
          (\<lambda>_. sample_spend_header) (\<lambda>_. sample_note_tree) (\<lambda>_. [xs]) t n) spends"
    unfolding list_all_iff by (rule sps(5))
  with run sps(1-4) show ?thesis by (intro exI conjI)
qed

end
