(* ===== verification/Ledger.thy ===== *)
theory Ledger
  imports Settlement
begin

text \<open>
  The notes behind the pool. The chain keeps commitments and nullifiers, never notes; the ledger here keeps
  beside each state of the pool what they stand for: the note every leaf of the tree was made from, and the
  satisfied leaves that were settled. A settlement is labelled by the assignments its proofs attest; soundness
  of the proof system gives them for every call the pallet accepts (\<open>call_labelled\<close>).

  The invariant accounts for every note made and spent, and the last section ties each spent note to one made,
  up to explicit breaks of the hash.
\<close>

section \<open>The ledger\<close>

text \<open>A note is its inner digest and its amount; a spend is a satisfied leaf and the index of a real input.\<close>

type_synonym ledger_note = "felt_digest \<times> nat"
type_synonym ledger_spend = "spend_targets \<times> nat"

record ('b, 'acc) ledger =
  lg_world :: "(zk_tree, 'b, 'acc) world"
  lg_notes :: "ledger_note list"
  lg_leaves :: "spend_targets list"
  lg_past :: "(header \<times> zk_tree) list"

definition note_leaf :: "note_hash \<Rightarrow> ledger_note \<Rightarrow> hash256" where
  "note_leaf nh n = digest_to_bytes nh (commitment_from_inner nh (fst n) (snd n))"

definition spent_input :: "ledger_spend \<Rightarrow> input_targets" where
  "spent_input sp = t_inputs (fst sp) ! snd sp"

definition spent_value :: "ledger_spend \<Rightarrow> nat" where
  "spent_value sp = to_canonical_u64 (in_value (spent_input sp))"

definition spent_leaf :: "note_hash \<Rightarrow> ledger_spend \<Rightarrow> hash256" where
  "spent_leaf nh sp = digest_to_bytes nh (input_commitment nh (spent_input sp))"

definition spent_nullifier :: "note_hash \<Rightarrow> ledger_spend \<Rightarrow> hash256" where
  "spent_nullifier nh sp = digest_to_bytes nh (t_nullifiers (fst sp) ! snd sp)"

text \<open>What a satisfied leaf adds: its real inputs, and the notes of its two outputs.\<close>

definition real_spends :: "spend_targets \<Rightarrow> ledger_spend list" where
  "real_spends t = map (Pair t) (filter (\<lambda>k. in_is_dummy (t_inputs t ! k) = felt_of_bool False) [0..<NUM_INPUTS])"

definition lg_spends :: "('b, 'acc) ledger \<Rightarrow> ledger_spend list" where
  "lg_spends s = concat (map real_spends (lg_leaves s))"

definition output_notes :: "note_hash \<Rightarrow> spend_targets \<Rightarrow> ledger_note list" where
  "output_notes nh t =
     map (\<lambda>k. (note_inner nh (out_pk (t_outputs t ! k)) (output_rho nh (t_nullifiers t ! 0) (t_nullifiers t ! 1) k) (out_r (t_outputs t ! k)),
               to_canonical_u64 (out_value (t_outputs t ! k)))) [0..<NUM_OUTPUTS]"

definition inner_digest :: "note_hash \<Rightarrow> byte list \<Rightarrow> felt_digest" where
  "inner_digest nh bytes = (case digest_from_slice nh bytes of Inr d \<Rightarrow> d | Inl _ \<Rightarrow> [])"

fun call_notes :: "note_hash \<Rightarrow> shielded_call \<Rightarrow> spend_targets list \<Rightarrow> ledger_note list" where
  "call_notes nh (ShieldCall v inner ciphertext) ts = [(inner_digest nh inner, v div POOL_STEP)]"
| "call_notes nh (CoinbaseCall inner ciphertext) ts = []"
| "call_notes nh (SubmitPrivateBatch bytes outputs) ts = concat (map (output_notes nh) ts)"
| "call_notes nh (SubmitPublicBatch bytes outputs) ts = concat (map (output_notes nh) ts)"

definition reward_notes ::
  "note_hash \<Rightarrow> ('t, 'b, 'acc, 'ce) shielded_config \<Rightarrow> ('t, 'b, 'acc) world \<Rightarrow> nat \<Rightarrow> ledger_note list" where
  "reward_notes nh cfg w amount =
     (case PendingCoinbase (pool w) of
        None \<Rightarrow> []
      | Some payload \<Rightarrow>
          (case coinbase_note cfg w payload amount of
             None \<Rightarrow> []
           | Some (t', index, steps, change) \<Rightarrow> [(inner_digest nh (cb_inner payload), steps)]))"

text \<open>The assignments that stand behind a call: one satisfied leaf per settling slot, anchored at a known block.\<close>

definition attests ::
  "note_hash \<Rightarrow> (zk_tree, 'b, 'acc, 'ce) shielded_config \<Rightarrow> (zk_tree, 'b, 'acc) world \<Rightarrow> shielded_call \<Rightarrow> spend_targets list \<Rightarrow> bool" where
  "attests nh cfg w call ts \<longleftrightarrow>
     (if is_settlement call then
        \<exists>b. verified_bundle cfg call = Inr b \<and> map transfer_slot ts = settling_slots cfg w b
          \<and> (\<forall>t\<in>set ts. targets_shape t \<and> leaf_statement nh t
               \<and> (\<exists>n. sys_block_hash w n \<noteq> zero_hash \<and> sys_block_hash w n = digest_to_bytes nh (t_block_hash t)))
      else ts = [])"

inductive ledger_step ::
  "note_hash \<Rightarrow> header_crypto \<Rightarrow> (zk_tree, 'b, 'acc, 'ce) shielded_config \<Rightarrow> ('b, 'acc) ledger \<Rightarrow> ('b, 'acc) ledger \<Rightarrow> bool"
  for nh hc cfg where
  ledger_call: "dispatch cfg (lg_world s) origin call = Inr w' \<Longrightarrow> length (call_outputs call) < 2 ^ 32 \<Longrightarrow> attests nh cfg (lg_world s) call ts \<Longrightarrow>
    ledger_step nh hc cfg s (s\<lparr>lg_world := w', lg_notes := lg_notes s @ call_notes nh call ts,
      lg_leaves := lg_leaves s @ ts\<rparr>)"
| ledger_reward: "deposit_coinbase cfg (lg_world s) amount = (w', r) \<Longrightarrow>
    ledger_step nh hc cfg s (s\<lparr>lg_world := w', lg_notes := lg_notes s @ reward_notes nh cfg (lg_world s) amount\<rparr>)"
| ledger_fold: "zk_on_finalize (nh_core nh) (tree (lg_world s)) = Some t' \<Longrightarrow>
    ledger_step nh hc cfg s (s\<lparr>lg_world := (lg_world s)\<lparr>tree := t'\<rparr>\<rparr>)"
| ledger_publish: "UnprocessedLeaves (tree (lg_world s)) = 0 \<Longrightarrow> header_ok head \<Longrightarrow> hdr_zk_tree_root head = Root (tree (lg_world s)) \<Longrightarrow>
    ledger_step nh hc cfg s (s\<lparr>lg_past := (head, tree (lg_world s)) # lg_past s\<rparr>)"
| ledger_block: "(\<forall>n. h n \<noteq> zero_hash \<longrightarrow> (\<exists>p\<in>set (lg_past s). h n = header_hash hc (fst p))) \<Longrightarrow>
    ledger_step nh hc cfg s (s\<lparr>lg_world := shielded_on_initialize
      ((lg_world s)\<lparr>sys_block_number := n, sys_block_hash := h, sys_pre_runtime := d\<rparr>)\<rparr>)"
| ledger_upgrade: "ledger_step nh hc cfg s (s\<lparr>lg_world := shielded_on_runtime_upgrade cfg (lg_world s)\<rparr>)"
| ledger_balances: "ledger_step nh hc cfg s (s\<lparr>lg_world := (lg_world s)\<lparr>balances := b\<rparr>\<rparr>)"

text \<open>
  Ledgers from genesis. The pool's value is a 128-bit saturating integer, and the last premise keeps every state
  below its limit; on the chain the supply cap gives it.
\<close>

definition unsaturated :: "(zk_tree, 'b, 'acc) world \<Rightarrow> bool" where
  "unsaturated w \<longleftrightarrow> PoolValue (pool w) + PendingCoinbaseFee (pool w) < 2 ^ 128 - 1"

inductive ledger_reachable ::
  "note_hash \<Rightarrow> header_crypto \<Rightarrow> (zk_tree, 'b, 'acc, 'ce) shielded_config \<Rightarrow> ('b, 'acc) ledger \<Rightarrow> bool" for nh hc cfg where
  ledger_genesis: "ledger_reachable nh hc cfg
    \<lparr>lg_world = \<lparr>pool = shielded_genesis_build cfg genesis_pool, tree = genesis_tree, balances = b, sys_block_number = 0,
       sys_block_hash = (\<lambda>_. zero_hash), sys_pre_runtime = []\<rparr>, lg_notes = [], lg_leaves = [], lg_past = []\<rparr>"
| ledger_steps: "ledger_reachable nh hc cfg s \<Longrightarrow> ledger_step nh hc cfg s s' \<Longrightarrow> unsaturated (lg_world s') \<Longrightarrow> ledger_reachable nh hc cfg s'"

section \<open>One satisfied leaf\<close>

lemma leaf_accounts:
  assumes "targets_shape t" "leaf_statement nh t"
  shows "sum_list (map spent_value (real_spends t)) = sum_list (map snd (output_notes nh t)) + rs_fee (transfer_slot t)"
proof -
  obtain i0 i1 o0 o1 where l: "t_inputs t = [i0, i1]" "t_outputs t = [o0, o1]" using assms(1) by (rule targets_shapeE)
  have "input_statement nh (to_canonical_u64 (t_depth t)) (ht_zk_tree_root (t_header t)) (t_nullifiers t ! k) (t_inputs t ! k)" if "k < 2" for k
    using assms(2) that by (simp add: leaf_statement_def NUM_INPUTS_def)
  from this [of 0] this [of 1]
  have "in_is_dummy i0 = felt_of_bool False \<or> to_canonical_u64 (in_value i0) = 0" "in_is_dummy i1 = felt_of_bool False \<or> to_canonical_u64 (in_value i1) = 0"
    by (auto simp: input_statement_def l split: if_splits)
  moreover have "to_canonical_u64 (in_value i0) + to_canonical_u64 (in_value i1)
      = to_canonical_u64 (out_value o0) + to_canonical_u64 (out_value o1) + to_canonical_u64 (t_fee t)"
    using assms(2) by (simp add: leaf_statement_def l)
  ultimately show ?thesis
    by (auto simp: real_spends_def output_notes_def spent_value_def spent_input_def l NUM_INPUTS_def NUM_OUTPUTS_def upt_two transfer_slot_def real_slot_of_def)
qed

lemma leaf_commitments:
  assumes nok: "note_hash_ok nh" and t: "leaf_statement nh t"
  shows "map (note_leaf nh) (output_notes nh t) = slot_commitments (transfer_slot t)"
    "\<forall>n\<in>set (output_notes nh t). length (fst n) = 4 \<and> snd n \<le> NOTE_MAX_VALUE"
proof -
  have out: "output_statement nh (t_nullifiers t) (t_commitments t ! k) k (t_outputs t ! k)" if "k < 2" for k
    using t that by (simp add: leaf_statement_def NUM_OUTPUTS_def)
  have bytes: "Shielded.digest_bytes d = digest_to_bytes nh d" for d by (simp add: Shielded.digest_bytes_def note_hash_okD(4) [OF nok])
  show "map (note_leaf nh) (output_notes nh t) = slot_commitments (transfer_slot t)"
    using out [of 0] out [of 1]
    by (simp add: output_notes_def note_leaf_def slot_commitments_def transfer_slot_def real_slot_of_def NUM_OUTPUTS_def upt_two bytes output_statement_def)
  show "\<forall>n\<in>set (output_notes nh t). length (fst n) = 4 \<and> snd n \<le> NOTE_MAX_VALUE"
    using out [of 0] out [of 1]
    by (simp add: output_notes_def NUM_OUTPUTS_def upt_two output_statement_def note_inner_def length_hash_felts [OF nok])
qed

lemma leaf_nullifiers:
  assumes nok: "note_hash_ok nh"
  shows "set (map (spent_nullifier nh) (real_spends t)) \<subseteq> set (slot_nullifiers (transfer_slot t))"
    "distinct (slot_nullifiers (transfer_slot t)) \<Longrightarrow> distinct (map (spent_nullifier nh) (real_spends t))"
proof -
  have bytes: "Shielded.digest_bytes d = digest_to_bytes nh d" for d by (simp add: Shielded.digest_bytes_def note_hash_okD(4) [OF nok])
  show "set (map (spent_nullifier nh) (real_spends t)) \<subseteq> set (slot_nullifiers (transfer_slot t))"
    "distinct (slot_nullifiers (transfer_slot t)) \<Longrightarrow> distinct (map (spent_nullifier nh) (real_spends t))"
    by (auto simp: real_spends_def spent_nullifier_def slot_nullifiers_def transfer_slot_def real_slot_of_def NUM_INPUTS_def upt_two bytes)
qed

lemma concat_leaf_nullifiers:
  assumes nok: "note_hash_ok nh" and "distinct (leaves_nullifiers ts)"
  shows "distinct (map (spent_nullifier nh) (concat (map real_spends ts)))"
proof -
  have sub: "set (map (spent_nullifier nh) (concat (map real_spends ts))) \<subseteq> set (concat (map slot_nullifiers (map transfer_slot ts)))" for ts
    using leaf_nullifiers(1) [OF nok] by (induction ts) (auto simp del: set_map)
  show "distinct (map (spent_nullifier nh) (concat (map real_spends ts)))"
    using assms(2) unfolding leaves_nullifiers_def
  proof (induction ts)
    case (Cons t ts)
    have "set (map (spent_nullifier nh) (real_spends t)) \<inter> set (map (spent_nullifier nh) (concat (map real_spends ts))) = {}"
      using Cons.prems sub [of ts] leaf_nullifiers(1) [OF nok, of t] by (simp del: set_map set_concat) blast
    then show ?case using Cons leaf_nullifiers(2) [OF nok, of t] by (simp del: set_map set_concat)
  qed simp
qed

section \<open>What a step adds\<close>

lemma deposited_note:
  assumes nok: "note_hash_ok nh" and "commitment (nh_core nh) inner steps = Some cm" "steps \<le> MAX_VALUE"
  shows "cm = note_leaf nh (inner_digest nh inner, steps)" "length (inner_digest nh inner) = 4" "steps \<le> NOTE_MAX_VALUE"
proof -
  obtain d where d: "digest_from_slice nh inner = Inr d" "cm = digest_to_bytes nh (commitment_from_inner nh d steps)"
    using assms(2) commitment_rules_agree [OF nok, of inner steps] by (cases "digest_from_slice nh inner") auto
  then show "cm = note_leaf nh (inner_digest nh inner, steps)" by (simp add: note_leaf_def inner_digest_def)
  have "bytes_to_digest (nh_core nh) inner = Some d" using d(1) by (simp add: digest_from_slice_def digest_from_bytes_def ensure_def split: if_splits option.splits)
  then have "length d = 4" using poseidon_okD(6) [OF note_hash_okD(1) [OF nok], of inner] by (auto simp: length_limbs split: if_splits)
  then show "length (inner_digest nh inner) = 4" using d(1) by (simp add: inner_digest_def)
  show "steps \<le> NOTE_MAX_VALUE" using assms(3) by (simp add: MAX_VALUE_def VALUE_BITS_def NOTE_MAX_VALUE_def NOTE_VALUE_BITS_def)
qed

text \<open>The leaves, notes, nullifiers and value a step from \<open>w\<close> to \<open>w'\<close> adds, where it settles the leaves \<open>ts\<close>.\<close>

definition adds :: "note_hash \<Rightarrow> (zk_tree, 'b, 'acc) world \<Rightarrow> ledger_note list \<Rightarrow> spend_targets list \<Rightarrow> (zk_tree, 'b, 'acc) world \<Rightarrow> bool" where
  "adds nh w notes ts w' \<longleftrightarrow>
     all_leaves (tree w') = all_leaves (tree w) @ map (note_leaf nh) notes
     \<and> (\<forall>n\<in>set notes. length (fst n) = 4 \<and> snd n \<le> NOTE_MAX_VALUE)
     \<and> PoolValue (pool w') + POOL_STEP * sum_list (map spent_value (concat (map real_spends ts)))
        = PoolValue (pool w) + POOL_STEP * sum_list (map snd notes)
     \<and> UsedNullifiers (pool w') = UsedNullifiers (pool w) \<union> set (leaves_nullifiers ts)
     \<and> set (leaves_nullifiers ts) \<inter> UsedNullifiers (pool w) = {} \<and> distinct (leaves_nullifiers ts)
     \<and> sys_block_hash w' = sys_block_hash w"

lemma unsaturated_add: "sat_add 128 a b < 2 ^ 128 - 1 \<Longrightarrow> sat_add 128 a b = a + b"
  by (simp add: sat_add_def max_u_def min_def split: if_splits)

lemma shield_adds:
  assumes cfg: "cfg = wire_pool px pa qa m n base" "cfg_poseidon cfg = nh_core nh" and nok: "note_hash_ok nh"
    and w: "tree_inv pc (tree w)" "unsaturated w'" and run: "shield cfg w origin v inner ciphertext = Inr w'"
  shows "adds nh w [(inner_digest nh inner, v div POOL_STEP)] [] w'"
proof -
  obtain who cm len index where s: "shield_checks cfg w v inner ciphertext = Inr (cm, len)" "shields cfg w who v cm index w'"
    by (rule shield_steps [OF run])
  note checks = shield_checks_Inr [OF s(1)]
  have cm: "commitment (nh_core nh) inner (v div POOL_STEP) = Some cm" "v div POOL_STEP \<le> MAX_VALUE" using checks cfg(2) by simp_all
  have "insert_commitment (tree w) cm = Inr (tree w', index)" using s(2) by (simp add: shields_def cfg(1) wire_pool_def)
  then have "all_leaves (tree w') = all_leaves (tree w) @ [cm]" using w(1) by (rule zk_rec.insert_leaves [rotated])
  moreover have "POOL_STEP * (v div POOL_STEP) = v" using checks by auto
  moreover have "PoolValue (pool w') = PoolValue (pool w) + v"
    using s(2) w(2) unsaturated_add [of "PoolValue (pool w)" v] by (simp add: shields_def unsaturated_def)
  ultimately show ?thesis
    using s(2) deposited_note [OF nok cm] by (simp add: adds_def shields_def)
qed

lemma reward_adds:
  assumes cfg: "cfg = wire_pool px pa qa m n base" "cfg_poseidon cfg = nh_core nh" and nok: "note_hash_ok nh"
    and w: "tree_inv pc (tree w)" "unsaturated w'" and run: "deposit_coinbase cfg w amount = (w', r)"
  shows "adds nh w (reward_notes nh cfg w amount) [] w'"
  using run [unfolded deposit_coinbase_def]
proof (cases rule: mint_coinbase_cases)
  case returned
  then have "reward_notes nh cfg w amount = []" by (auto simp: reward_notes_def)
  then show ?thesis using returned(2) by (simp add: adds_def mint_returned_def)
next
  case (taken payload cm index steps change)
  have "insert_commitment (tree w) cm = Inr (tree w', index)" using taken(8) by (simp add: cfg(1) wire_pool_def)
  then have leaves: "all_leaves (tree w') = all_leaves (tree w) @ [cm]" using w(1) by (rule zk_rec.insert_leaves [rotated])
  have steps: "steps * POOL_STEP < 2 ^ 128" using taken(3) sat_add_bound [of 128 amount "PendingCoinbaseFee (pool w)"] by linarith
  then have "PoolValue (pool w') = PoolValue (pool w) + steps * POOL_STEP"
    using taken(9) w(2) unsaturated_add [of "PoolValue (pool w)" "steps * POOL_STEP"] by (simp add: mints_def unsaturated_def sat_mul_exact)
  moreover have "reward_notes nh cfg w amount = [(inner_digest nh (cb_inner payload), steps)]"
    using taken(2,10) by (simp add: reward_notes_def)
  ultimately show ?thesis
    using leaves taken(9) deposited_note [OF nok taken(7) [unfolded cfg(2)] taken(6)] by (simp add: adds_def mints_def mult.commute)
qed

lemma leaves_account:
  assumes "note_hash_ok nh" "\<forall>t\<in>set ts. targets_shape t \<and> leaf_statement nh t"
  shows "sum_list (map spent_value (concat (map real_spends ts))) = sum_list (map snd (concat (map (output_notes nh) ts))) + leaves_fee ts"
    "map (note_leaf nh) (concat (map (output_notes nh) ts)) = leaves_commitments ts"
    "\<forall>n\<in>set (concat (map (output_notes nh) ts)). length (fst n) = 4 \<and> snd n \<le> NOTE_MAX_VALUE"
proof -
  show "sum_list (map spent_value (concat (map real_spends ts))) = sum_list (map snd (concat (map (output_notes nh) ts))) + leaves_fee ts"
    using assms(2) leaf_accounts unfolding leaves_fee_def by (induction ts) fastforce+
  show "map (note_leaf nh) (concat (map (output_notes nh) ts)) = leaves_commitments ts"
    using assms(2) leaf_commitments(1) [OF assms(1)] unfolding leaves_commitments_def by (induction ts) simp_all
  show "\<forall>n\<in>set (concat (map (output_notes nh) ts)). length (fst n) = 4 \<and> snd n \<le> NOTE_MAX_VALUE"
    using assms(2) leaf_commitments(2) [OF assms(1)] by fastforce
qed

lemma settle_adds:
  assumes cfg: "cfg = wire_pool px pa qa m n base" and nok: "note_hash_ok nh"
    and w: "tree_inv pc (tree w)" "plan_widths cfg w outputs" "unsaturated w" and run: "settle cfg w b outputs = Inr w'"
    and ts: "map transfer_slot ts = settling_slots cfg w b" "\<forall>t\<in>set ts. targets_shape t \<and> leaf_statement nh t"
  shows "adds nh w (concat (map (output_notes nh) ts)) ts w'"
proof -
  have bounded: "PoolValue (pool w) + PendingCoinbaseFee (pool w) < 2 ^ 128" using w(3) by (simp add: unsaturated_def)
  note wrote = settle_leaves [OF cfg w(1,2) bounded run ts(1)] and accounts = leaves_account [OF nok ts(2)]
  have "PoolValue (pool w') + POOL_STEP * sum_list (map spent_value (concat (map real_spends ts)))
      = PoolValue (pool w) + POOL_STEP * sum_list (map snd (concat (map (output_notes nh) ts)))"
    unfolding accounts(1) using wrote(1) by (simp add: settles_leaves_def add_mult_distrib2)
  then show ?thesis
    unfolding adds_def accounts(2) using wrote(1,2) accounts(3) unfolding settles_leaves_def by (intro conjI) simp_all
qed

lemma call_adds:
  assumes cfg: "cfg = wire_pool px pa qa m n base" "cfg_poseidon cfg = nh_core nh" and nok: "note_hash_ok nh"
    and w: "pool_inv (tree_inv pc) cfg w" "config_widths cfg" "unsaturated w" "unsaturated w'"
    and run: "dispatch cfg w origin call = Inr w'" "length (call_outputs call) < 2 ^ 32" "attests nh cfg w call ts"
  shows "adds nh w (call_notes nh call ts) ts w'"
proof -
  have inv: "tree_inv pc (tree w)" using w(1) by (simp add: pool_inv_def)
  have settlement: "adds nh w (concat (map (output_notes nh) ts)) ts w'" if settling: "is_settlement call"
  proof -
    obtain b where b: "verified_bundle cfg call = Inr b" "map transfer_slot ts = settling_slots cfg w b" "\<forall>t\<in>set ts. targets_shape t \<and> leaf_statement nh t"
      using run(3) unfolding attests_def if_P [OF settling] by (elim exE conjE) blast
    have "settle cfg w b (call_outputs call) = Inr w'" using run(1) b(1) by (simp add: dispatch_settlement [OF settling] ensure_ok_iff)
    from settle_adds [OF cfg(1) nok inv plan_widthsI [OF w(2,1) run(2)] w(3) this b(2,3)] show ?thesis .
  qed
  show ?thesis
  proof (cases call)
    case (ShieldCall v inner ciphertext)
    then have ts: "ts = []" and "shield cfg w origin v inner ciphertext = Inr w'" using run by (simp_all add: attests_def dispatch_def)
    from shield_adds [OF cfg nok inv w(4) this(2)] ShieldCall ts show ?thesis by simp
  next
    case (CoinbaseCall inner ciphertext)
    then have ts: "ts = []" and "coinbase cfg w origin inner ciphertext = Inr w'" using run by (simp_all add: attests_def dispatch_def)
    from coinbase_steps [OF this(2)] CoinbaseCall ts show ?thesis by (simp add: adds_def)
  qed (use settlement in simp_all)
qed

section \<open>The invariant of the ledger\<close>

definition past_block :: "note_hash \<Rightarrow> ledger_note list \<Rightarrow> header \<times> zk_tree \<Rightarrow> bool" where
  "past_block nh notes p \<longleftrightarrow>
     header_ok (fst p) \<and> hdr_zk_tree_root (fst p) = Root (snd p) \<and> tree_inv (nh_core nh) (snd p)
     \<and> settled_leaves (snd p) = map (note_leaf nh) (take (length (settled_leaves (snd p))) notes)"

definition known_hash :: "header_crypto \<Rightarrow> (header \<times> zk_tree) list \<Rightarrow> hash256 \<Rightarrow> bool" where
  "known_hash hc past h \<longleftrightarrow> (\<exists>p\<in>set past. h = header_hash hc (fst p))"

definition attested_spend :: "note_hash \<Rightarrow> ledger_spend \<Rightarrow> bool" where
  "attested_spend nh sp \<longleftrightarrow> targets_shape (fst sp) \<and> leaf_statement nh (fst sp) \<and> snd sp < NUM_INPUTS \<and> in_is_dummy (spent_input sp) = felt_of_bool False"

definition ledger_inv ::
  "note_hash \<Rightarrow> header_crypto \<Rightarrow> (zk_tree, 'b, 'acc, 'ce) shielded_config \<Rightarrow> ('b, 'acc) ledger \<Rightarrow> bool" where
  "ledger_inv nh hc cfg s \<longleftrightarrow>
     pool_inv (tree_inv (nh_core nh)) cfg (lg_world s) \<and> unsaturated (lg_world s)
     \<and> all_leaves (tree (lg_world s)) = map (note_leaf nh) (lg_notes s)
     \<and> (\<forall>n\<in>set (lg_notes s). length (fst n) = 4 \<and> snd n \<le> NOTE_MAX_VALUE)
     \<and> PoolValue (pool (lg_world s)) + POOL_STEP * sum_list (map spent_value (lg_spends s)) = POOL_STEP * sum_list (map snd (lg_notes s))
     \<and> UsedNullifiers (pool (lg_world s)) = set (leaves_nullifiers (lg_leaves s)) \<and> distinct (leaves_nullifiers (lg_leaves s))
     \<and> (\<forall>p\<in>set (lg_past s). past_block nh (lg_notes s) p)
     \<and> (\<forall>n. sys_block_hash (lg_world s) n = zero_hash \<or> known_hash hc (lg_past s) (sys_block_hash (lg_world s) n))
     \<and> (\<forall>t\<in>set (lg_leaves s). targets_shape t \<and> leaf_statement nh t \<and> known_hash hc (lg_past s) (digest_to_bytes nh (t_block_hash t)))"

lemma past_block_extends:
  assumes "past_block nh notes p"
  shows "past_block nh (notes @ extra) p"
proof -
  define k where "k = length (settled_leaves (snd p))"
  have eq: "settled_leaves (snd p) = map (note_leaf nh) (take k notes)" using assms unfolding past_block_def k_def by (elim conjE)
  have "k = min (length notes) k" using arg_cong [OF eq, of length] unfolding k_def [symmetric] by simp
  then have "take k (notes @ extra) = take k notes" by simp
  then show ?thesis using assms eq unfolding past_block_def k_def by simp
qed

lemma ledger_adds:
  assumes inv: "ledger_inv nh hc cfg s" and add: "adds nh (lg_world s) made ts w'" and w': "pool_inv (tree_inv (nh_core nh)) cfg w'" "unsaturated w'"
    and new: "\<forall>t\<in>set ts. targets_shape t \<and> leaf_statement nh t \<and> known_hash hc (lg_past s) (digest_to_bytes nh (t_block_hash t))"
  shows "ledger_inv nh hc cfg (s\<lparr>lg_world := w', lg_notes := lg_notes s @ made, lg_leaves := lg_leaves s @ ts\<rparr>)"
proof -
  note a = add [unfolded adds_def] and i = inv [unfolded ledger_inv_def]
  have "PoolValue (pool w') + POOL_STEP * sum_list (map spent_value (concat (map real_spends (lg_leaves s @ ts)))) = POOL_STEP * sum_list (map snd (lg_notes s @ made))"
    using i a by (simp add: add_mult_distrib2 lg_spends_def)
  moreover have "distinct (leaves_nullifiers (lg_leaves s @ ts))" using i a unfolding leaves_append distinct_append by (metis inf_commute)
  moreover have "UsedNullifiers (pool w') = set (leaves_nullifiers (lg_leaves s @ ts))" using i a unfolding leaves_append set_append by simp
  moreover have "\<forall>p\<in>set (lg_past s). past_block nh (lg_notes s @ made) p" using i past_block_extends by fast
  moreover have "sys_block_hash w' = sys_block_hash (lg_world s)" "all_leaves (tree w') = map (note_leaf nh) (lg_notes s @ made)"
    using i a by simp_all
  moreover have "\<forall>n\<in>set (lg_notes s @ made). length (fst n) = 4 \<and> snd n \<le> NOTE_MAX_VALUE"
    using i a unfolding set_append by (auto simp only: Un_iff)
  moreover have "\<forall>t\<in>set (lg_leaves s @ ts). targets_shape t \<and> leaf_statement nh t \<and> known_hash hc (lg_past s) (digest_to_bytes nh (t_block_hash t))"
    using i new unfolding set_append by (auto simp only: Un_iff)
  ultimately show ?thesis
    using i w' unfolding ledger_inv_def lg_spends_def by (simp del: map_append set_append leaves_append)
qed

lemma lg_spends_leaf: "sp \<in> set (lg_spends s) \<Longrightarrow> fst sp \<in> set (lg_leaves s) \<and> snd sp < NUM_INPUTS \<and> in_is_dummy (spent_input sp) = felt_of_bool False"
  by (auto simp: lg_spends_def real_spends_def spent_input_def)

lemma spends_attested:
  assumes "ledger_inv nh hc cfg s" "sp \<in> set (lg_spends s)"
  shows "attested_spend nh sp" "known_hash hc (lg_past s) (digest_to_bytes nh (t_block_hash (fst sp)))"
  using assms(1) lg_spends_leaf [OF assms(2)] by (simp_all add: attested_spend_def ledger_inv_def)

lemma attests_leaves:
  assumes "attests nh cfg w call ts" "\<forall>n. sys_block_hash w n = zero_hash \<or> known_hash hc past (sys_block_hash w n)"
  shows "\<forall>t\<in>set ts. targets_shape t \<and> leaf_statement nh t \<and> known_hash hc past (digest_to_bytes nh (t_block_hash t))"
proof
  fix t assume t: "t \<in> set ts"
  then have "is_settlement call" using assms(1) by (auto simp: attests_def split: if_splits)
  then have "targets_shape t \<and> leaf_statement nh t \<and> (\<exists>n. sys_block_hash w n \<noteq> zero_hash \<and> sys_block_hash w n = digest_to_bytes nh (t_block_hash t))"
    using assms(1) t unfolding attests_def by auto
  then show "targets_shape t \<and> leaf_statement nh t \<and> known_hash hc past (digest_to_bytes nh (t_block_hash t))" using assms(2) by metis
qed

lemma ledger_fold_inv:
  assumes inv: "ledger_inv nh hc cfg s" and step: "zk_on_finalize (nh_core nh) (tree (lg_world s)) = Some t'"
    and w': "pool_inv (tree_inv (nh_core nh)) cfg ((lg_world s)\<lparr>tree := t'\<rparr>)"
  shows "ledger_inv nh hc cfg (s\<lparr>lg_world := (lg_world s)\<lparr>tree := t'\<rparr>\<rparr>)"
proof -
  have "tree_inv (nh_core nh) (tree (lg_world s))" using inv by (simp add: ledger_inv_def pool_inv_def)
  from zk_on_finalize_ok [OF this] step have "all_leaves t' = map (note_leaf nh) (lg_notes s)" using inv by (auto simp: ledger_inv_def)
  then show ?thesis using inv w' by (simp add: ledger_inv_def unsaturated_def lg_spends_def)
qed

lemma ledger_publish_inv:
  assumes inv: "ledger_inv nh hc cfg s" and step: "UnprocessedLeaves (tree (lg_world s)) = 0" "header_ok head" "hdr_zk_tree_root head = Root (tree (lg_world s))"
  shows "ledger_inv nh hc cfg (s\<lparr>lg_past := (head, tree (lg_world s)) # lg_past s\<rparr>)"
proof -
  let ?t = "tree (lg_world s)"
  have t: "tree_inv (nh_core nh) ?t" "all_leaves ?t = map (note_leaf nh) (lg_notes s)" using inv by (simp_all add: ledger_inv_def pool_inv_def)
  have settled: "settled_leaves ?t = map (note_leaf nh) (lg_notes s)" using step(1) t(2) by (simp add: settled_leaves_def flip: length_all_leaves)
  then have "past_block nh (lg_notes s) (head, ?t)" using t step(2,3) arg_cong [OF settled, of length] unfolding past_block_def by simp
  then show ?thesis using inv by (auto simp: ledger_inv_def known_hash_def lg_spends_def)
qed

lemma ledger_step_inv:
  assumes cfg: "cfg = wire_pool px pa qa m n base" "cfg_poseidon cfg = nh_core nh" "config_widths cfg" and nok: "note_hash_ok nh"
    and s: "ledger_inv nh hc cfg s" "unsaturated (lg_world s')" and step: "ledger_step nh hc cfg s s'"
  shows "ledger_inv nh hc cfg s'"
proof -
  have inv: "pool_inv (tree_inv (nh_core nh)) cfg (lg_world s)" "tree_inv (nh_core nh) (tree (lg_world s))" "unsaturated (lg_world s)"
    "\<forall>n. sys_block_hash (lg_world s) n = zero_hash \<or> known_hash hc (lg_past s) (sys_block_hash (lg_world s) n)"
    using s(1) by (simp_all add: ledger_inv_def pool_inv_def)
  have pool: "pool_inv (tree_inv (nh_core nh)) cfg w'" if "pool_step (nh_core nh) cfg (lg_world s) w'" for w'
    using pool_step_inv [OF cfg(3) [unfolded cfg(1)] inv(1) [unfolded cfg(1)] that [unfolded cfg(1)]] unfolding cfg(1) .
  from step show ?thesis
  proof cases
    case (ledger_call origin call w' ts)
    have w': "unsaturated w'" using s(2) ledger_call(1) by simp
    from ledger_adds [OF s(1) call_adds [OF cfg(1,2) nok inv(1) cfg(3) inv(3) w' ledger_call(2-4)] pool [OF pool_call [OF ledger_call(2,3)]] w'
        attests_leaves [OF ledger_call(4) inv(4)]]
    show ?thesis unfolding ledger_call(1) .
  next
    case (ledger_reward amount w' r)
    have w': "unsaturated w'" using s(2) ledger_reward(1) by simp
    from ledger_adds [OF s(1) reward_adds [OF cfg(1,2) nok inv(2) w' ledger_reward(2)] pool [OF pool_reward [OF ledger_reward(2)]] w']
    show ?thesis unfolding ledger_reward(1) by simp
  next
    case (ledger_fold t')
    from ledger_fold_inv [OF s(1) ledger_fold(2) pool [OF pool_tree [OF step_finalize [OF ledger_fold(2)]]]]
    show ?thesis unfolding ledger_fold(1) .
  next
    case (ledger_publish head)
    from ledger_publish_inv [OF s(1) ledger_publish(2-4)] show ?thesis unfolding ledger_publish(1) .
  next
    case (ledger_block h n d)
    have "pool_inv (tree_inv (nh_core nh)) cfg (lg_world s')" unfolding ledger_block(1) using pool [OF pool_initialize] by simp
    then show ?thesis using s ledger_block(2) unfolding ledger_block(1) by (auto simp: ledger_inv_def shielded_on_initialize_def known_hash_def lg_spends_def)
  next
    case ledger_upgrade
    have "pool_inv (tree_inv (nh_core nh)) cfg (lg_world s')" unfolding ledger_upgrade(1) using pool [OF pool_upgrade] by simp
    then show ?thesis using s unfolding ledger_upgrade(1) by (simp add: ledger_inv_def shielded_on_runtime_upgrade_def Let_def lg_spends_def)
  next
    case (ledger_balances b)
    have "pool_inv (tree_inv (nh_core nh)) cfg (lg_world s')" unfolding ledger_balances(1) using pool [OF pool_balances] by simp
    then show ?thesis using s unfolding ledger_balances(1) by (simp add: ledger_inv_def lg_spends_def)
  qed
qed

lemma ledger_reachable_inv:
  assumes cfg: "cfg = wire_pool px pa qa m n base" "cfg_poseidon cfg = nh_core nh" "config_widths cfg" and nok: "note_hash_ok nh"
    and "ledger_reachable nh hc cfg s"
  shows "ledger_inv nh hc cfg s"
  using assms(5)
proof induction
  case (ledger_genesis b)
  let ?w = "\<lparr>pool = shielded_genesis_build cfg genesis_pool, tree = genesis_tree, balances = b, sys_block_number = 0, sys_block_hash = (\<lambda>_. zero_hash), sys_pre_runtime = []\<rparr>"
  have "pool_inv (tree_inv (nh_core nh)) cfg ?w" using pool_reachable_inv [OF cfg(3) [unfolded cfg(1)] pool_genesis] unfolding cfg(1) .
  then show ?case by (simp add: ledger_inv_def lg_spends_def unsaturated_def shielded_genesis_build_def genesis_pool_def all_leaves_def genesis_tree_def)
next
  case (ledger_steps s s')
  then show ?case using ledger_step_inv [OF cfg nok] by blast
qed

section \<open>Spent notes are notes of the ledger\<close>

definition note_rule_of :: "ledger_note \<Rightarrow> note_rule" where
  "note_rule_of n = Rule_cm (fst n) (snd n)"

definition spent_note :: "note_hash \<Rightarrow> ledger_spend \<Rightarrow> ledger_note" where
  "spent_note nh sp =
     (let i = spent_input sp in (note_inner nh (derive_pk nh (in_ask i) (in_nk i)) (in_rho i) (in_r i), spent_value sp))"

definition note_openings :: "ledger_note list \<Rightarrow> zk_tree \<Rightarrow> goldilocks list list" where
  "note_openings notes tr = map (rule_felts \<circ> note_rule_of) (take (length (settled_leaves tr)) notes)"

text \<open>
  The ways a history can cheat, each a break of the hash: a second preimage of a past header, a path into a past
  tree through a colliding or zero preimage, or two notes with one commitment.
\<close>

definition ledger_break :: "note_hash \<Rightarrow> header_crypto \<Rightarrow> ('b, 'acc) ledger \<Rightarrow> bool" where
  "ledger_break nh hc s \<longleftrightarrow>
     (\<exists>sp\<in>set (lg_spends s). \<exists>p\<in>set (lg_past s).
        header_collides nh hc (t_header (fst sp)) (fst p)
        \<or> spend_break nh (settled_leaves (snd p)) (note_openings (lg_notes s) (snd p)) (Depth (snd p)) (spend_preimages nh (fst sp) (snd sp)))
     \<or> (\<exists>sp\<in>set (lg_spends s). \<exists>n\<in>set (lg_notes s). rules_collide nh [note_rule_of n] [note_rule_of (spent_note nh sp)])
     \<or> (\<exists>sp\<in>set (lg_spends s). \<exists>sp'\<in>set (lg_spends s).
          rules_collide nh (input_rules nh (spent_input sp)) (input_rules nh (spent_input sp')))"

lemma note_leaf_rule: "note_hash_ok nh \<Longrightarrow> note_leaf nh n = hash_to_bytes (nh_core nh) (rule_felts (note_rule_of n))"
  by (simp add: note_leaf_def note_rule_of_def note_hash_okD(3) rule_hashes(4) del: rule_felts.simps)

lemma spent_leaf_note: "spent_leaf nh sp = note_leaf nh (spent_note nh sp)"
  by (simp add: spent_leaf_def note_leaf_def spent_note_def Let_def input_commitment_def spent_value_def)

lemma digest_ok_note_leaf: "note_hash_ok nh \<Longrightarrow> digest_ok (note_leaf nh n)"
  by (simp add: digest_ok_def note_leaf_def length_digest_to_bytes canonical_digest_to_bytes commitment_from_inner_def length_hash_felts)

lemma attested_spend_input:
  assumes "note_hash_ok nh" "attested_spend nh sp"
  shows "input_shape (spent_input sp)" "spent_value sp \<le> NOTE_MAX_VALUE"
    "spent_nullifier nh sp = digest_to_bytes nh (nullifier nh (in_nk (spent_input sp)) (in_rho (spent_input sp)) (in_r (spent_input sp)))"
    "length (fst (spent_note nh sp)) = 4"
proof -
  have sp: "targets_shape (fst sp)" "leaf_statement nh (fst sp)" "snd sp < NUM_INPUTS" "in_is_dummy (spent_input sp) = felt_of_bool False"
    using assms(2) by (simp_all add: attested_spend_def)
  show "input_shape (spent_input sp)" using sp by (simp add: targets_shape_def list_all_length spent_input_def)
  have "input_statement nh (to_canonical_u64 (t_depth (fst sp))) (ht_zk_tree_root (t_header (fst sp))) (t_nullifiers (fst sp) ! snd sp) (spent_input sp)"
    using sp(2,3) by (simp add: leaf_statement_def spent_input_def)
  then show "spent_value sp \<le> NOTE_MAX_VALUE"
    "spent_nullifier nh sp = digest_to_bytes nh (nullifier nh (in_nk (spent_input sp)) (in_rho (spent_input sp)) (in_r (spent_input sp)))"
    using sp(4) by (auto simp: input_statement_def spent_value_def spent_nullifier_def input_nullifier_def)
  show "length (fst (spent_note nh sp)) = 4" by (simp add: spent_note_def Let_def note_inner_def length_hash_felts [OF assms(1)])
qed

lemma spent_note_made:
  assumes nok: "note_hash_ok nh" and hc: "header_crypto_ok hc" "hc_hash_to_bytes hc = hash_to_bytes (nh_core nh)"
    and inv: "ledger_inv nh hc cfg s" and whole: "\<not> ledger_break nh hc s" and sp: "sp \<in> set (lg_spends s)"
  shows "spent_note nh sp \<in> set (lg_notes s)"
proof -
  note a = spends_attested [OF inv sp]
  obtain p where p: "p \<in> set (lg_past s)" "digest_to_bytes nh (t_block_hash (fst sp)) = header_hash hc (fst p)" using a(2) by (auto simp: known_hash_def)
  then have past: "past_block nh (lg_notes s) p" using inv by (simp add: ledger_inv_def)
  define k where "k = length (settled_leaves (snd p))"
  have tr: "header_ok (fst p)" "hdr_zk_tree_root (fst p) = Root (snd p)" "tree_inv (nh_core nh) (snd p)"
    "settled_leaves (snd p) = map (note_leaf nh) (take k (lg_notes s))"
    using past unfolding past_block_def k_def by blast+
  have opens: "settled_leaves (snd p) = map (hash_to_bytes (nh_core nh)) (note_openings (lg_notes s) (snd p))"
    unfolding note_openings_def k_def [symmetric] using tr(4) by (simp add: note_leaf_rule [OF nok])
  have lens: "\<forall>xs\<in>set (note_openings (lg_notes s) (snd p)). length xs \<noteq> 16"
    using inv by (auto simp: note_openings_def note_rule_of_def ledger_inv_def dest!: in_set_takeD)
  have ok: "\<forall>h\<in>set (settled_leaves (snd p)). digest_ok h" unfolding tr(4) using digest_ok_note_leaf [OF nok] by auto
  have t: "targets_shape (fst sp)" "leaf_statement nh (fst sp)" "snd sp < NUM_INPUTS" "in_is_dummy (t_inputs (fst sp) ! snd sp) = felt_of_bool False"
    using a(1) by (simp_all add: attested_spend_def spent_input_def)
  have root: "digest_to_bytes nh (ht_zk_tree_root (t_header (fst sp))) = Root (snd p)"
    using anchored_root [OF nok hc tr(1-3) ok t(1,2) p(2)] whole sp p(1) unfolding ledger_break_def by blast
  have "spent_leaf nh sp \<in> set (settled_leaves (snd p))"
    using spent_note_settled [OF nok t(1,2) tr(3) root opens lens t(3,4)] whole sp p(1) unfolding ledger_break_def spent_leaf_def spent_input_def by blast
  then obtain n where n: "n \<in> set (lg_notes s)" "note_leaf nh n = note_leaf nh (spent_note nh sp)" unfolding tr(4) spent_leaf_note by (auto dest: in_set_takeD)
  have "hash_to_felts nh (rule_felts (note_rule_of n)) = hash_to_felts nh (rule_felts (note_rule_of (spent_note nh sp)))"
    using digest_to_bytes_inject [OF nok] n(2) by (simp add: note_leaf_rule [OF nok] note_hash_okD(3) [OF nok] del: rule_felts.simps)
  moreover have "rule_ok (note_rule_of n)" "rule_ok (note_rule_of (spent_note nh sp))"
    using inv n(1) attested_spend_input(2,4) [OF nok a(1)] by (simp_all add: ledger_inv_def note_rule_of_def) (simp add: spent_note_def Let_def)
  ultimately have "note_rule_of n = note_rule_of (spent_note nh sp)"
    using rule_step whole sp n(1) unfolding ledger_break_def by blast
  then have "n = spent_note nh sp" by (simp add: note_rule_of_def prod_eq_iff)
  then show ?thesis using n(1) by simp
qed

lemma spent_notes_distinct:
  assumes nok: "note_hash_ok nh" and inv: "ledger_inv nh hc cfg s" and whole: "\<not> ledger_break nh hc s"
  shows "distinct (map (spent_note nh) (lg_spends s))"
proof -
  have nf: "distinct (lg_spends s)" "inj_on (spent_nullifier nh) (set (lg_spends s))"
    using inv concat_leaf_nullifiers [OF nok, of "lg_leaves s"] by (simp_all add: ledger_inv_def lg_spends_def distinct_map)
  have "inj_on (spent_note nh) (set (lg_spends s))"
  proof (rule inj_onI)
    fix a b assume ab: "a \<in> set (lg_spends s)" "b \<in> set (lg_spends s)" "spent_note nh a = spent_note nh b"
    have at: "attested_spend nh a" "attested_spend nh b" using spends_attested(1) [OF inv] ab(1,2) by blast+
    note i = attested_spend_input [OF nok at(1)] and j = attested_spend_input [OF nok at(2)]
    have "input_commitment nh (spent_input a) = input_commitment nh (spent_input b)"
      using ab(3) digest_to_bytes_inject [OF nok] spent_leaf_note [of nh a] spent_leaf_note [of nh b] by (simp add: spent_leaf_def)
    from commitment_binds_note [OF nok i(1) j(1) i(2) [unfolded spent_value_def] j(2) [unfolded spent_value_def] this]
    have "spent_nullifier nh a = spent_nullifier nh b" using whole ab(1,2) unfolding ledger_break_def i(3) j(3) by metis
    then show "a = b" using nf(2) ab(1,2) by (simp add: inj_on_def)
  qed
  then show ?thesis using nf(1) by (simp add: distinct_map)
qed

text \<open>Every settlement the pallet dispatches can be labelled, so a ledger follows every history of the pool.\<close>

lemma call_labelled:
  assumes cfg: "cfg = wire_pool px pa qa m n base" and ok: "plonky2_ok pl nh" and sound: "verifiers_sound pl px pa qa m n"
    and run: "dispatch cfg w origin call = Inr w'"
  shows "\<exists>ts. attests nh cfg w call ts"
proof (cases "is_settlement call")
  case True
  obtain b where b: "verified_bundle cfg call = Inr b" using run by (auto simp: dispatch_settlement [OF True])
  have "\<exists>ts. map transfer_slot ts = slots \<and> (\<forall>t\<in>set ts. targets_shape t \<and> leaf_statement nh t
      \<and> (\<exists>n. sys_block_hash w n \<noteq> zero_hash \<and> sys_block_hash w n = digest_to_bytes nh (t_block_hash t)))"
    if "set slots \<subseteq> set (settling_slots cfg w b)" for slots
    using that
  proof (induction slots)
    case (Cons slot slots)
    then obtain ts where ts: "map transfer_slot ts = slots" "\<forall>t\<in>set ts. targets_shape t \<and> leaf_statement nh t
        \<and> (\<exists>n. sys_block_hash w n \<noteq> zero_hash \<and> sys_block_hash w n = digest_to_bytes nh (t_block_hash t))" by auto
    have "slot \<in> set (settling_slots cfg w b)" using Cons.prems by simp
    from settling_slot_leaf [OF cfg ok sound b this] obtain t k where t: "targets_shape t" "leaf_statement nh t" "slot = transfer_slot t"
      "sys_block_hash w k \<noteq> zero_hash" "sys_block_hash w k = digest_to_bytes nh (t_block_hash t)" by (elim exE conjE)
    have "\<exists>n. sys_block_hash w n \<noteq> zero_hash \<and> sys_block_hash w n = digest_to_bytes nh (t_block_hash t)" using t(4,5) by blast
    then show ?case using ts t(1-3) by (intro exI [of _ "t # ts"]) simp
  qed simp
  then show ?thesis using b True unfolding attests_def by auto
qed (simp add: attests_def)

end
