(* ===== verification/Solvency.thy ===== *)
theory Solvency
  imports Ledger Supply "HOL-Library.Multiset"
begin

text \<open>
  The value of the pool over the histories of the whole chain. \<open>chain_history\<close> runs the steps of the chain
  from genesis and remembers the headers its blocks published; nothing in it knows of notes. The simulation
  lemma gives every such history a ledger: calls are labelled by soundness of the proof system, the reward and
  the fold at the end of a block are two steps of it, and the supply cap keeps the pool's value off its width.

  The property is that the pool's value is exactly what the notes never spent are worth.
\<close>

section \<open>Histories of the chain\<close>

text \<open>
  The block hashes the system pallet keeps are those of headers the chain published; a header carries the root
  its block's finalization leaves.
\<close>

inductive chain_history ::
  "poseidon \<Rightarrow> ('acc \<Rightarrow> bool) \<Rightarrow> header_crypto \<Rightarrow> (zk_tree, 'acc bal_state, 'acc, bal_error) shielded_config \<Rightarrow> ('acc \<times> nat) list
    \<Rightarrow> 'acc chain \<Rightarrow> (header \<times> zk_tree) list \<Rightarrow> bool"
  for pc hs hc cfg endowments where
  history_genesis: "bal_genesis runtime_accounts endowments = Some b \<Longrightarrow>
    chain_history pc hs hc cfg endowments (genesis_chain cfg b (\<lambda>_. zero_hash)) []"
| history_step: "chain_history pc hs hc cfg endowments c past \<Longrightarrow> chain_step pc hs cfg c c' \<Longrightarrow>
    (\<forall>n. sys_block_hash (ch_world c') n \<noteq> zero_hash \<longrightarrow> (\<exists>p\<in>set past. sys_block_hash (ch_world c') n = header_hash hc (fst p))) \<Longrightarrow>
    chain_history pc hs hc cfg endowments c' past"
| history_block: "chain_history pc hs hc cfg endowments c past \<Longrightarrow> ch_payer c = None \<Longrightarrow>
    chain_on_finalize pc (wire_rewards cfg) c = Some c' \<Longrightarrow>
    header_ok head \<Longrightarrow> hdr_zk_tree_root head = zk_tree_root (tree (ch_world c')) \<Longrightarrow>
    chain_history pc hs hc cfg endowments c' ((head, tree (ch_world c')) # past)"

lemma chain_history_reachable: "chain_history pc hs hc cfg endowments c past \<Longrightarrow> chain_reachable pc hs cfg endowments c"
proof (induction rule: chain_history.induct)
  case (history_genesis b)
  then show ?case by (rule chain_genesis)
next
  case (history_step c past c')
  then show ?case using chain_next by blast
next
  case (history_block c past c' head)
  then show ?case using chain_next chain_finalize by blast
qed

section \<open>Every history has a ledger\<close>

definition follows ::
  "note_hash \<Rightarrow> header_crypto \<Rightarrow> (zk_tree, 'acc bal_state, 'acc, bal_error) shielded_config \<Rightarrow> ('acc bal_state, 'acc) ledger
    \<Rightarrow> 'acc chain \<Rightarrow> (header \<times> zk_tree) list \<Rightarrow> bool" where
  "follows nh hc cfg s c past \<longleftrightarrow> ledger_reachable nh hc cfg s \<and> lg_world s = ch_world c \<and> lg_past s = past"

lemma follows_step:
  assumes "follows nh hc cfg s c past" "ledger_step nh hc cfg s s'" "unsaturated (ch_world c')" "lg_world s' = ch_world c'" "lg_past s' = past'"
  shows "follows nh hc cfg s' c' past'"
  using assms ledger_steps unfolding follows_def by metis

lemma capped_unsaturated:
  assumes "TotalIssuance (balances w) + k + (PoolValue (pool w) + PendingCoinbaseFee (pool w)) \<le> MAX_SUPPLY"
  shows "unsaturated w"
  using assms by (simp add: unsaturated_def MAX_SUPPLY_def UNIT_def)

lemma chain_inv_unsaturated: "chain_inv pc cfg c \<Longrightarrow> unsaturated (ch_world c)"
  using capped_unsaturated by (auto simp: chain_inv_def chain_supply_def)

lemma finalize_parts:
  assumes cfg: "cfg = runtime_pool px pa qa m n base" and inv: "chain_inv pc cfg c"
    and payer: "ch_payer c = None" and run: "chain_on_finalize pc (wire_rewards cfg) c = Some c'"
  obtains w t where "w = ch_world c \<or> (\<exists>q. w = fst (deposit_coinbase cfg (ch_world c) q))" "unsaturated w"
    "zk_on_finalize pc (tree w) = Some t" "ch_world c' = w\<lparr>tree := t\<rparr>" "UnprocessedLeaves t = 0" "zk_tree_root t = Root t"
proof -
  have "ch_credit c = None" using inv payer by (simp add: chain_inv_def)
  then have same: "put_fees (payment_on_finalize (fees_of c)) c = c" by (simp add: payment_on_finalize_def put_fees_def)
  obtain r w where rw: "rewards_on_finalize (wire_rewards cfg) (ch_rewards c, ch_world c) = (r, w)"
    by (cases "rewards_on_finalize (wire_rewards cfg) (ch_rewards c, ch_world c)") blast
  obtain t where t: "zk_on_finalize pc (tree w) = Some t" "ch_world c' = w\<lparr>tree := t\<rparr>"
    using run rw by (auto simp: chain_on_finalize_def same)
  note e = rewards_inv [OF cfg inv rw]
  have "tree_inv pc (tree w)" using e(1) by (simp add: pool_inv_def)
  from zk_on_finalize_ok [OF this] t(1) have "UnprocessedLeaves t = 0" "zk_tree_root t = Root t" by auto
  moreover have "w = ch_world c \<or> (\<exists>q. w = fst (deposit_coinbase cfg (ch_world c) q))"
    using rewards_world [of "wire_rewards cfg" "ch_rewards c" "ch_world c"] rw by (simp add: wire_rewards_def)
  ultimately show ?thesis using that t capped_unsaturated [OF e(3)] by blast
qed

lemma follows_finalize:
  assumes cfg: "cfg = runtime_pool px pa qa m n base" and inv: "chain_inv (nh_core nh) cfg c" "chain_inv (nh_core nh) cfg c'"
    and run: "ch_payer c = None" "chain_on_finalize (nh_core nh) (wire_rewards cfg) c = Some c'" and s: "follows nh hc cfg s c past"
  shows "\<exists>s'. follows nh hc cfg s' c' past \<and> UnprocessedLeaves (tree (ch_world c')) = 0 \<and> zk_tree_root (tree (ch_world c')) = Root (tree (ch_world c'))"
proof -
  obtain w t where w: "w = ch_world c \<or> (\<exists>q. w = fst (deposit_coinbase cfg (ch_world c) q))" "unsaturated w"
    and t: "zk_on_finalize (nh_core nh) (tree w) = Some t" "ch_world c' = w\<lparr>tree := t\<rparr>" "UnprocessedLeaves t = 0" "zk_tree_root t = Root t"
    by (rule finalize_parts [OF cfg inv(1) run])
  have at: "lg_world s = ch_world c" using s by (simp add: follows_def)
  have "\<exists>s1. follows nh hc cfg s1 (c\<lparr>ch_world := w\<rparr>) past"
    using w(1)
  proof
    assume "w = ch_world c"
    then show ?thesis using s by (intro exI [of _ s]) (simp add: follows_def)
  next
    assume "\<exists>q. w = fst (deposit_coinbase cfg (ch_world c) q)"
    then obtain q r where q: "deposit_coinbase cfg (lg_world s) q = (w, r)" unfolding at by (metis prod.collapse)
    show ?thesis
      by (rule exI, rule follows_step [OF s ledger_reward [OF q]]) (use w(2) s in \<open>simp_all add: follows_def\<close>)
  qed
  then obtain s1 where s1: "follows nh hc cfg s1 (c\<lparr>ch_world := w\<rparr>) past" by (elim exE)
  then have "zk_on_finalize (nh_core nh) (tree (lg_world s1)) = Some t" using t(1) by (simp add: follows_def)
  from follows_step [OF s1 ledger_fold [OF this], of c'] s1 t chain_inv_unsaturated [OF inv(2)]
  show ?thesis by (auto simp: follows_def)
qed

lemma chain_step_follows:
  assumes cfg: "cfg = runtime_pool px pa qa m n base" "config_widths cfg" and ok: "plonky2_ok pl nh" "verifiers_sound pl px pa qa m n"
    and inv: "chain_inv (nh_core nh) cfg c" and step: "chain_step (nh_core nh) hs cfg c c'" and s: "follows nh hc cfg s c past"
    and hashes: "\<forall>n. sys_block_hash (ch_world c') n \<noteq> zero_hash \<longrightarrow> (\<exists>p\<in>set past. sys_block_hash (ch_world c') n = header_hash hc (fst p))"
  shows "\<exists>s'. follows nh hc cfg s' c' past"
proof -
  have inv': "chain_inv (nh_core nh) cfg c'" by (rule chain_step_inv [OF cfg inv step])
  note small = chain_inv_unsaturated [OF inv']
  have at: "lg_world s = ch_world c" "lg_past s = past" using s by (simp_all add: follows_def)
  have paid: "\<exists>s'. follows nh hc cfg s' c' past" if "ch_world c' = (ch_world c)\<lparr>balances := b\<rparr>" for b
    by (rule exI, rule follows_step [OF s ledger_balances [of _ _ _ _ b] small]) (simp_all add: at that)
  from step show ?thesis
  proof cases
    case (chain_prepare who fee tip t fs)
    show ?thesis by (rule paid [of "fs_balances fs"]) (simp add: chain_prepare(1))
  next
    case (chain_post_dispatch who tip t fs fee)
    show ?thesis by (rule paid [of "fs_balances fs"]) (simp add: chain_post_dispatch(1))
  next
    case (chain_balances signer bcall b)
    show ?thesis by (rule paid [of b]) (simp add: chain_balances(1))
  next
    case (chain_shielded origin call w)
    obtain ts where ts: "attests nh cfg (lg_world s) call ts"
      using call_labelled [OF cfg(1) [unfolded runtime_pool_def] ok chain_shielded(2)] unfolding at by (elim exE)
    have run: "dispatch cfg (lg_world s) origin call = Inr w" using chain_shielded(2) by (simp add: at)
    show ?thesis
      by (rule exI, rule follows_step [OF s ledger_call [OF run chain_shielded(3) ts] small]) (simp_all add: at chain_shielded(1))
  next
    case (chain_initialize n h d)
    have w: "ch_world c' = shielded_on_initialize ((lg_world s)\<lparr>sys_block_number := n, sys_block_hash := h, sys_pre_runtime := d\<rparr>)"
      by (simp add: chain_initialize chain_on_initialize_def at)
    then have "\<forall>n. h n \<noteq> zero_hash \<longrightarrow> (\<exists>p\<in>set (lg_past s). h n = header_hash hc (fst p))"
      using hashes by (simp add: at shielded_on_initialize_def)
    then show ?thesis by (intro exI, rule follows_step [OF s ledger_block small]) (simp_all add: at w)
  next
    case chain_upgrade
    show ?thesis by (rule exI, rule follows_step [OF s ledger_upgrade small]) (simp_all add: at chain_upgrade)
  next
    case chain_finalize
    show ?thesis using follows_finalize [OF cfg(1) inv inv' chain_finalize s] by blast
  qed
qed

lemma chain_history_follows:
  assumes cfg: "cfg = runtime_pool px pa qa m n base" "config_widths cfg" and ok: "plonky2_ok pl nh" "verifiers_sound pl px pa qa m n"
    and fits: "sum_list (map snd endowments) \<le> MAX_SUPPLY" and "chain_history (nh_core nh) hs hc cfg endowments c past"
  shows "\<exists>s. follows nh hc cfg s c past"
  using assms(6)
proof (induction rule: chain_history.induct)
  case (history_genesis b)
  show ?case unfolding follows_def genesis_chain_def by (rule exI, rule conjI, rule ledger_genesis) simp
next
  case (history_step c past c')
  have "chain_inv (nh_core nh) cfg c" by (rule chain_reachable_inv [OF cfg fits chain_history_reachable [OF history_step(1)]])
  then show ?case using chain_step_follows [OF cfg ok _ history_step(2) _ history_step(3)] history_step.IH by blast
next
  case (history_block c past c' head)
  have inv: "chain_inv (nh_core nh) cfg c" by (rule chain_reachable_inv [OF cfg fits chain_history_reachable [OF history_block(1)]])
  have inv': "chain_inv (nh_core nh) cfg c'" by (rule finalize_inv [OF cfg inv history_block(2,3)])
  obtain s where "follows nh hc cfg s c past" using history_block.IH by (elim exE)
  from follows_finalize [OF cfg(1) inv inv' history_block(2,3) this]
  obtain s' where s': "follows nh hc cfg s' c' past" "UnprocessedLeaves (tree (ch_world c')) = 0" "zk_tree_root (tree (ch_world c')) = Root (tree (ch_world c'))"
    by (elim exE conjE)
  then have at: "lg_world s' = ch_world c'" "lg_past s' = past" by (simp_all add: follows_def)
  have "ledger_step nh hc cfg s' (s'\<lparr>lg_past := (head, tree (lg_world s')) # lg_past s'\<rparr>)"
    using ledger_publish [of s' head] s'(2,3) history_block(4,5) by (simp add: at)
  from follows_step [OF s'(1) this chain_inv_unsaturated [OF inv']] show ?case by (intro exI) (simp add: at)
qed

section \<open>The value of a ledger\<close>

lemma unspent_value:
  assumes "distinct spent" "set spent \<subseteq> set notes"
  shows "mset spent \<subseteq># mset notes"
    "sum_mset (image_mset snd (mset notes - mset spent)) + sum_list (map snd spent) = sum_list (map (snd :: _ \<Rightarrow> nat) notes)"
proof -
  show sub: "mset spent \<subseteq># mset notes"
  proof (rule mset_subset_eqI)
    fix n
    have "count (mset spent) n = (if n \<in> set spent then 1 else 0)" using assms(1) unfolding distinct_count_atmost_1 by (rule spec)
    moreover have "n \<in> set spent \<Longrightarrow> 0 < count (mset notes) n" using subsetD [OF assms(2), of n] by simp
    ultimately show "count (mset spent) n \<le> count (mset notes) n" by (simp split: if_splits)
  qed
  have "mset notes = (mset notes - mset spent) + mset spent" using sub by simp
  then have "image_mset snd (mset notes) = image_mset snd (mset notes - mset spent) + image_mset snd (mset spent)" by (metis image_mset_union)
  then show "sum_mset (image_mset snd (mset notes - mset spent)) + sum_list (map snd spent) = sum_list (map (snd :: _ \<Rightarrow> nat) notes)"
    by (simp flip: sum_mset_sum_list)
qed

lemma ledger_solvent:
  assumes nok: "note_hash_ok nh" and hc: "header_crypto_ok hc" "hc_hash_to_bytes hc = hash_to_bytes (nh_core nh)" and inv: "ledger_inv nh hc cfg s"
  shows "mset (map (spent_note nh) (lg_spends s)) \<subseteq># mset (lg_notes s)
      \<and> PoolValue (pool (lg_world s)) = POOL_STEP * sum_mset (image_mset snd (mset (lg_notes s) - mset (map (spent_note nh) (lg_spends s))))
     \<or> ledger_break nh hc s"
proof (rule disjCI)
  assume whole: "\<not> ledger_break nh hc s"
  have accounts: "PoolValue (pool (lg_world s)) + POOL_STEP * sum_list (map spent_value (lg_spends s)) = POOL_STEP * sum_list (map snd (lg_notes s))"
    using inv by (simp add: ledger_inv_def)
  have "set (map (spent_note nh) (lg_spends s)) \<subseteq> set (lg_notes s)" using spent_note_made [OF nok hc inv whole] by auto
  note unspent = unspent_value [OF spent_notes_distinct [OF nok inv whole] this]
  have worth: "map snd (map (spent_note nh) (lg_spends s)) = map spent_value (lg_spends s)" by (simp add: spent_note_def Let_def)
  have "sum_list (map snd (lg_notes s)) = sum_mset (image_mset snd (mset (lg_notes s) - mset (map (spent_note nh) (lg_spends s)))) + sum_list (map spent_value (lg_spends s))"
    using unspent(2) unfolding worth by simp
  then show "mset (map (spent_note nh) (lg_spends s)) \<subseteq># mset (lg_notes s)
      \<and> PoolValue (pool (lg_world s)) = POOL_STEP * sum_mset (image_mset snd (mset (lg_notes s) - mset (map (spent_note nh) (lg_spends s))))"
    using unspent(1) accounts by (simp add: add_mult_distrib2)
qed

section \<open>Properties\<close>


section \<open>A sample history\<close>

text \<open>
  The runtime with one funded account and no block author: a deposit of one note, the block that settles its
  leaf, and the batch that spends it two blocks on.
\<close>

abbreviation history_cfg :: "(zk_tree, nat bal_state, nat, bal_error) shielded_config" where
  "history_cfg \<equiv> settlement_cfg (account_burn runtime_accounts)"

abbreviation history_of :: "nat chain \<Rightarrow> (header \<times> zk_tree) list \<Rightarrow> bool" where
  "history_of \<equiv> chain_history (nh_core sample_note_hash) (\<lambda>_. False) sample_wallet_crypto history_cfg [(1, UNIT)]"

definition deposit_inner :: "byte list" where
  "deposit_inner = digest_to_bytes sample_note_hash (inner_of sample_note_hash sample_note)"

definition history_start :: "nat chain" where
  "history_start = genesis_chain history_cfg (the (bal_genesis runtime_accounts [(1, UNIT)])) (\<lambda>_. zero_hash)"

lemma history_cfg_facts:
  "history_cfg = runtime_pool sound_plonky2 (replicate 26 0) [] 1 1 (sample_params (account_burn runtime_accounts) None)"
  "config_widths history_cfg" "cfg_poseidon history_cfg = nh_core sample_note_hash" "block_author history_cfg w = None"
  by (simp_all add: config_widths_def settlement_cfg_def runtime_pool_def wire_accounts_def wire_pool_def sample_params_def sample_core block_author_def)

lemma endowed_genesis:
  "bal_genesis runtime_accounts [(1::nat, UNIT)] = Some (the (bal_genesis runtime_accounts [(1, UNIT)]))"
  by (simp add: evaluate_genesis runtime_accounts_def MILLI_UNIT_def UNIT_def)

lemma endowed_fits: "sum_list (map snd [(1::nat, UNIT)]) \<le> MAX_SUPPLY"
  by (simp add: MAX_SUPPLY_def)

lemma endowed_burns:
  "\<exists>b. account_burn runtime_accounts (the (bal_genesis runtime_accounts [(1::nat, UNIT)])) 1 (10 * POOL_STEP) = Inr b"
  by (simp add: evaluate_genesis evaluate_balances account_burn_def burn_from_def runtime_accounts_def MILLI_UNIT_def UNIT_def POOL_STEP_def)

lemma deposit_commitment: "commitment sample_poseidon deposit_inner 10 = Some (digest_to_bytes sample_note_hash sample_cm)"
proof -
  have len: "length (inner_of sample_note_hash sample_note) = 4" by (simp add: inner_of_def note_inner_def length_hash_felts [OF sample_note_hash_ok])
  then have "digest_from_slice sample_note_hash deposit_inner = Inr (inner_of sample_note_hash sample_note)"
    using digest_from_to_bytes [OF sample_note_hash_ok len]
    by (simp add: digest_from_slice_def deposit_inner_def length_digest_to_bytes [OF sample_note_hash_ok] ensure_def)
  then show ?thesis
    using commitment_rules_agree [OF sample_note_hash_ok, of deposit_inner 10] by (simp add: sample_core sample_cm_def commitment_of_def sample_note_def)
qed

lemma deposit_runs:
  "\<exists>w. dispatch history_cfg (ch_world history_start) (Signed 1) (ShieldCall (10 * POOL_STEP) deposit_inner []) = Inr w
     \<and> tree w = fst (append_leaf_hash genesis_tree (digest_to_bytes sample_note_hash sample_cm)) \<and> PoolValue (pool w) = 10 * POOL_STEP
     \<and> UsedNullifiers (pool w) = {} \<and> sys_block_hash w = (\<lambda>_. zero_hash)"
proof -
  let ?w = "ch_world history_start" and ?cm = "digest_to_bytes sample_note_hash sample_cm"
  note cfg = settlement_cfg_def wire_pool_def sample_params_def and start = history_start_def genesis_chain_def
  have "1 \<le> remaining_capacity genesis_tree" by (simp add: remaining_capacity_def capacity_CIRCUIT genesis_tree_def)
  then have checks: "shield_checks history_cfg ?w (10 * POOL_STEP) deposit_inner [] = Inr (?cm, 0)"
    using deposit_commitment
    by (simp add: shield_checks_def POOL_STEP_def try_into_u_def MAX_VALUE_def VALUE_BITS_def cfg ensure_output_capacity_def checked_add_def
        start outputs_written_this_block_def shielded_genesis_build_def genesis_pool_def)
  have cm: "insert_commitment genesis_tree ?cm = Inr (fst (append_leaf_hash genesis_tree ?cm), 0)" by (rule insert_genesis [OF sample_cm_facts(2,3)])
  obtain b where "account_burn runtime_accounts (balances ?w) 1 (10 * POOL_STEP) = Inr b"
    using endowed_burns unfolding start by auto
  then have "\<exists>w. shield history_cfg ?w (Signed 1) (10 * POOL_STEP) deposit_inner [] = Inr w"
    using checks cm by (simp add: shield_def Let_def cfg start)
  then obtain w where run: "shield history_cfg ?w (Signed 1) (10 * POOL_STEP) deposit_inner [] = Inr w" by (elim exE)
  obtain who cm' len index where "shield_checks history_cfg ?w (10 * POOL_STEP) deposit_inner [] = Inr (cm', len)" "shields history_cfg ?w who (10 * POOL_STEP) cm' index w"
    by (rule shield_steps [OF run])
  then have "shields history_cfg ?w who (10 * POOL_STEP) ?cm index w" using checks by simp
  moreover have "sat_add 128 0 (10 * POOL_STEP) = 10 * POOL_STEP" by (simp add: sat_add_def max_u_def POOL_STEP_def)
  ultimately show ?thesis
    using run cm by (intro exI [of _ w]) (simp add: dispatch_def shields_def start shielded_genesis_build_def genesis_pool_def cfg)
qed

lemma history_deposit:
  "\<exists>c. history_of c [] \<and> ch_payer c = None \<and> ch_credit c = None \<and> UsedNullifiers (pool (ch_world c)) = {}
     \<and> tree (ch_world c) = fst (append_leaf_hash genesis_tree (digest_to_bytes sample_note_hash sample_cm)) \<and> PoolValue (pool (ch_world c)) = 10 * POOL_STEP"
proof -
  obtain w where w: "dispatch history_cfg (ch_world history_start) (Signed 1) (ShieldCall (10 * POOL_STEP) deposit_inner []) = Inr w"
    "tree w = fst (append_leaf_hash genesis_tree (digest_to_bytes sample_note_hash sample_cm))" "PoolValue (pool w) = 10 * POOL_STEP"
    "UsedNullifiers (pool w) = {}" "sys_block_hash w = (\<lambda>_. zero_hash)"
    using deposit_runs by (elim exE conjE)
  have "history_of history_start []" unfolding history_start_def by (rule history_genesis [OF endowed_genesis])
  moreover have "chain_step (nh_core sample_note_hash) (\<lambda>_. False) history_cfg history_start (history_start\<lparr>ch_world := w\<rparr>)"
    by (rule chain_shielded [OF w(1)]) simp
  ultimately have "history_of (history_start\<lparr>ch_world := w\<rparr>) []" by (rule history_step) (simp add: w(5))
  then show ?thesis using w(2-4) by (intro exI conjI) (assumption, simp_all add: history_start_def genesis_chain_def)
qed

lemma authorless_finalize:
  assumes "ch_credit c = None" "zk_on_finalize pc (tree (ch_world c)) = Some t"
  shows "\<exists>c'. chain_on_finalize pc (wire_rewards history_cfg) c = Some c' \<and> ch_world c' = (ch_world c)\<lparr>tree := t\<rparr>"
proof -
  have same: "put_fees (payment_on_finalize (fees_of c)) c = c" using assms(1) by (simp add: payment_on_finalize_def put_fees_def)
  have "snd (rewards_on_finalize (wire_rewards history_cfg) (ch_rewards c, ch_world c)) = ch_world c"
    by (simp add: rewards_on_finalize_def Let_def wire_rewards_def history_cfg_facts(4))
  then show ?thesis using assms(2) by (auto simp: chain_on_finalize_def same Let_def split: prod.splits)
qed

lemma history_ready: "\<exists>c. history_of c [(sample_spend_header, sample_note_tree)] \<and> settlement_ready (ch_world c)"
proof -
  let ?hh = "header_hash sample_wallet_crypto sample_spend_header"
  obtain c where c: "history_of c []" "ch_payer c = None" "ch_credit c = None" "UsedNullifiers (pool (ch_world c)) = {}"
    "tree (ch_world c) = fst (append_leaf_hash genesis_tree (digest_to_bytes sample_note_hash sample_cm))" "PoolValue (pool (ch_world c)) = 10 * POOL_STEP"
    using history_deposit by (elim exE conjE)
  have "zk_on_finalize (nh_core sample_note_hash) (tree (ch_world c)) = Some sample_note_tree"
    unfolding c(5) sample_core sample_note_tree_def by (rule finalize_one_leaf)
  then obtain c1 where c1: "chain_on_finalize (nh_core sample_note_hash) (wire_rewards history_cfg) c = Some c1"
    "ch_world c1 = (ch_world c)\<lparr>tree := sample_note_tree\<rparr>" using authorless_finalize [OF c(3)] by blast
  have root: "zk_tree_root sample_note_tree = Root sample_note_tree" by (simp add: sample_note_tree_def one_leaf_tree_def Let_def)
  have c1_history: "history_of c1 [(sample_spend_header, sample_note_tree)]"
    using history_block [OF c(1,2) c1(1) sample_header_facts(1)] sample_header_facts(3) root by (simp add: c1(2))
  define c2 where "c2 = chain_on_initialize 1000002 (\<lambda>_. ?hh) [] c1"
  have "history_of c2 [(sample_spend_header, sample_note_tree)]"
    unfolding c2_def by (rule history_step [OF c1_history chain_initialize]) (simp add: chain_on_initialize_def shielded_on_initialize_def)
  moreover have "settlement_ready (ch_world c2)"
    using c(4,6) by (simp add: settlement_ready_def c2_def c1(2) chain_on_initialize_def shielded_on_initialize_def outputs_written_this_block_def POOL_STEP_def)
  ultimately show ?thesis by (intro exI conjI)
qed

lemma history_spends: "\<exists>c past. history_of c past \<and> UsedNullifiers (pool (ch_world c)) \<noteq> {}"
proof -
  obtain c where c: "history_of c [(sample_spend_header, sample_note_tree)]" "settlement_ready (ch_world c)" using history_ready by (elim exE conjE)
  obtain t where t: "settlement_spend t" using settlement_spend_exists by (elim exE)
  obtain w where run: "dispatch history_cfg (ch_world c) NoOrigin (settlement_call t) = Inr w"
    using settlement_dispatches [OF t c(2), of "account_burn runtime_accounts"] by (elim exE)
  have call: "is_settlement (settlement_call t)" "call_outputs (settlement_call t) = sample_outputs" by (simp_all add: settlement_call_def)
  have settle: "settle history_cfg (ch_world c) (settlement_bundle t) sample_outputs = Inr w"
    using run settlement_verified [OF t, of "account_burn runtime_accounts"] call(2) by (simp add: dispatch_settlement [OF call(1)] ensure_ok_iff)
  note inv = chain_reachable_inv [OF history_cfg_facts(1,2) endowed_fits chain_history_reachable [OF c(1)]]
  have pre: "tree_inv (nh_core sample_note_hash) (tree (ch_world c))" "plan_widths history_cfg (ch_world c) sample_outputs"
    "PoolValue (pool (ch_world c)) + PendingCoinbaseFee (pool (ch_world c)) < 2 ^ 128"
    using inv plan_widthsI [OF history_cfg_facts(2), of "tree_inv (nh_core sample_note_hash)" "ch_world c" sample_outputs] chain_inv_unsaturated [OF inv]
    by (simp_all add: chain_inv_def pool_inv_def unsaturated_def sample_outputs_def)
  note wrote = settle_leaves [OF settlement_cfg_def pre settle, of "[t]"]
  have slots: "map transfer_slot [t] = settling_slots history_cfg (ch_world c) (settlement_bundle t)" by (simp add: settlement_settling(2) [OF t c(2)])
  have "chain_step (nh_core sample_note_hash) (\<lambda>_. False) history_cfg c (c\<lparr>ch_world := w\<rparr>)"
    by (rule chain_shielded [OF run]) (simp add: call(2) sample_outputs_def)
  moreover have "sys_block_hash w = (\<lambda>_. header_hash sample_wallet_crypto sample_spend_header)"
    using wrote(2) [OF slots] c(2) by (simp add: settlement_ready_def)
  ultimately have "history_of (c\<lparr>ch_world := w\<rparr>) [(sample_spend_header, sample_note_tree)]" using history_step [OF c(1)] by simp
  moreover have "UsedNullifiers (pool w) \<noteq> {}" using wrote(1) [OF slots] by (simp add: settles_leaves_def leaves_nullifiers_def slot_nullifiers_def)
  ultimately show ?thesis by (intro exI conjI) (assumption, simp)
qed


end
