(* ===== verification/Spec2Isabelle.thy ===== *)
theory Spec2Isabelle
  imports Prelude Interfaces ZkTree ChainRules BatchVerifier Shielded ShieldedPlan ShieldedSettle ShieldedCoinbase
    ShieldedSample ShieldedSafety Operations Accounts Balances BalancesInv BalancesMoves BalancesFlow MiningRewards
    TransactionPayment Supply Difficulty RandomX Admission RandomxEngine Header PowImport
    NoteCore Gadgets SpendCircuit SpendSafety WalletTree SpendWitness BatchCircuit Settlement Ledger Solvency
begin

text \<open>
  A verification development of the Qnero chain (\<open>src/\<close>): a proof-of-work Substrate chain whose
  spendable value lives in a shielded pool of note commitments, with the circuits that prove a spend, the
  aggregation that batches proofs, and the tree both sides share.

  \<^bold>\<open>The parts and how they interact.\<close> A wallet builds a witness for a note it owns and proves the spend
  leaf. Leaf proofs are wrapped in a private batch and private batches in a public batch. The shielded pallet
  receives a batch proof as an unsigned call, verifies it with an embedded verifier, plans which segments
  settle, marks their nullifiers used, appends their output commitments to the commitment tree and takes the
  fee out of the pool. The tree is folded at the end of a block and its root is put in the header the next
  proofs are anchored at. The block reward and the author's share of the fees become a coinbase note. Beside
  the pool are transparent accounts with fees and rewards. The node verifies RandomX seals, admits side
  branches within budgets and imports blocks by cumulative work.

  \<^bold>\<open>Foundations.\<close>
  \<^item> \<open>Prelude\<close>: bytes, limbs and digests, results with early return, Rust's checked and saturating
    arithmetic at its width, the Goldilocks field, and the contract of the Poseidon library.
  \<^item> \<open>Operations\<close>: storage operations that keep what they wrote before an error.
  \<^item> \<open>Interfaces\<close>: one locale per seam between pallets (commitment recorder, proof verifier, burnable
    currency, coinbase sink). Each is interpreted on the model of the pallet that provides it; the clients'
    lemmas are proved in the locales \<open>shielded_pool\<close>, \<open>pool_currency\<close> and \<open>reward_payer\<close>.

  \<^bold>\<open>The runtime\<close> (\<open>src/chain/pallets\<close>, \<open>src/chain/runtime\<close>).
  \<^item> \<open>ZkTree\<close>: \<open>pallets/zk-tree\<close>. Inserts, the batched fold, proofs and their verification. Every
    reachable tree stores the reference Merkle tree of its settled leaves; proofs are complete and sound.
  \<^item> \<open>ChainRules\<close>, \<open>BatchVerifier\<close>: the rules and layouts the chain evaluates
    (\<open>crates/qnero-circuit/src/chain.rs\<close>, \<open>batch_layout.rs\<close>) and \<open>crates/qnero-verifier\<close>. Parsing
    inverts the documented layout; a loaded verifier is structurally sound.
  \<^item> \<open>Shielded\<close> (the model), \<open>ShieldedPlan\<close>, \<open>ShieldedSettle\<close>, \<open>ShieldedCoinbase\<close>,
    \<open>ShieldedSample\<close>, \<open>ShieldedSafety\<close>: \<open>pallets/shielded\<close>. What a plan accepts and a settlement
    writes, agreement of the three gates, no double spend over any history, the coinbase mint, deposits.
  \<^item> \<open>Accounts\<close>, \<open>Balances\<close>, \<open>BalancesInv\<close>, \<open>BalancesMoves\<close>, \<open>BalancesFlow\<close>:
    \<open>pallets/balances\<close> over the account store of \<open>pallets/frame-system\<close>. Issuance is the sum of the
    balances; a transfer moves exactly its amount.
  \<^item> \<open>TransactionPayment\<close>, \<open>MiningRewards\<close>, \<open>Supply\<close>: fees, the emission, and the pallets wired
    as the runtime wires them; this theory ends with the supply cap over all their histories.
  \<^item> \<open>Difficulty\<close>: \<open>pallets/qpow\<close>, the retarget with its saturations.

  \<^bold>\<open>The proofs\<close> (\<open>src/crates\<close>).
  \<^item> \<open>NoteCore\<close>: \<open>qnero-note-core\<close>, the hash rules of keys, notes and nullifiers and their separation.
  \<^item> \<open>Gadgets\<close>, \<open>SpendCircuit\<close>: \<open>qnero-circuit\<close>, the leaf's gadgets and constraints by evaluation
    over the field; the constraints hold exactly for transfers in the plain sense.
  \<^item> \<open>WalletTree\<close>: \<open>qnero-circuit/src/merkle.rs\<close>, the wallet's trees and paths against the pallet's.
  \<^item> \<open>SpendWitness\<close>: the witness a wallet fills in; a settled note can always be spent.
  \<^item> \<open>SpendSafety\<close>: only settled notes are spent, one nullifier per note, up to explicit hash breaks.
  \<^item> \<open>BatchCircuit\<close>: \<open>qnero-aggregator\<close>, the two batch circuits and what they publish.
  \<^item> \<open>Settlement\<close>: a dispatched settlement from the call to the notes it spends, across the pallet, the
    verifiers, the batch circuits, the leaf, the header and the tree; what it writes is the public face of
    satisfied leaves.
  \<^item> \<open>Ledger\<close>: the notes behind the pool's leaves and the satisfied leaves behind its nullifiers, kept
    beside its state, with the invariant that accounts for them.
  \<^item> \<open>Solvency\<close>: the pool's value over any history of the runtime. The history is one of \<open>chain_step\<close>
    and published headers alone; a simulation gives it a ledger, with the labels from soundness of the
    verifiers and the bound on the pool's value from the supply cap.

  \<^bold>\<open>The node\<close> (\<open>src/chain/client/consensus/randomx\<close>, \<open>src/chain/primitives/header\<close>).
  \<^item> \<open>Header\<close>: the block hash preimage and what it binds.
  \<^item> \<open>RandomX\<close>, \<open>RandomxEngine\<close>: the seed schedule, targets, blob and seal codec; the cache table and
    VM pool, also as interleaved steps of concurrent callers.
  \<^item> \<open>Admission\<close>, \<open>PowImport\<close>: budgets for side branches; verification, import and fork choice
    over any sequence of offered blocks, and what a failed import leaves behind.

  \<^bold>\<open>Conventions.\<close> A struct is a record with the source's fields, an enum a datatype, a fallible function
  returns a sum whose left side is the error, a dispatchable returns the new storage or the error. Integers are
  naturals with the width written in the operation that saturates, checks, wraps or casts; bytes are
  8-bit words and a hash is its 32 bytes. A circuit is a function from an assignment to what it publishes and
  whether its constraints hold.

  \<^bold>\<open>Parameters and hypotheses.\<close> Code outside the repository is an argument: Poseidon2
  (\<open>poseidon_ok\<close>, \<open>note_hash_ok\<close>), plonky2's circuit builder (\<open>plonky2_ok\<close>) and its verifier
  (\<open>leaf_sound\<close>, \<open>private_batch_sound\<close>, \<open>verifiers_sound\<close>), SCALE encoding (\<open>header_crypto_ok\<close>), the
  RandomX library, Blake2, the database client. No collision resistance is assumed: where a property rests on
  it, the statement names the two preimages that would collide.

  \<^bold>\<open>Bounds and termination.\<close> No model uses fuel. Every loop is structural or has a measure: the tree's
  growth loop ends at the depth that holds the leaves, at most 20; the walk to a RandomX seed is bounded by
  epoch plus lag as in the source; the fold and the paths recurse on the depth. Histories are inductive step
  relations of any length.

  \<^bold>\<open>Not modelled.\<close> Weights, benchmarks, events beyond those the properties read, logging and metrics;
  named reserves, holds, freezes and slashing of the balances pallet; the multisig, reversible-transfer,
  vesting, treasury, utility, scheduler, preimage and wormhole pallets; the node's services, stratum server
  and networking; the wallet's store, scanning and coin selection; note encryption and the post-quantum
  primitives, which wrap libraries outside the repository; the provers, which drive plonky2; the web front
  ends. They are I/O, vendored infrastructure, or drivers whose rules are the modelled functions.
\<close>

section \<open>The supply\<close>

text \<open>
  C1: No history mints beyond the cap. In every state the chain reaches from genesis, by signed and
  unsigned calls of the balances and the shielded pallet, fees charged around them, and the hooks of
  every block, the balances of all accounts with the credits in flight are exactly the total issuance,
  and issuance, pool value, the author's pending share and the fees waiting for a reward together never
  exceed \<open>MAX_SUPPLY\<close>.
\<close>

theorem supply_cap:
  assumes "cfg = runtime_pool px private_artifact public_artifact num_inner num_leaves base" "config_widths cfg"
    and "sum_list (map snd endowments) \<le> MAX_SUPPLY" "chain_reachable pc hs cfg endowments c"
  shows "held (balances (ch_world c)) + in_flight c = TotalIssuance (balances (ch_world c))
    \<and> TotalIssuance (balances (ch_world c)) + CollectedFees (ch_rewards c)
        + (PoolValue (pool (ch_world c)) + PendingCoinbaseFee (pool (ch_world c))) \<le> MAX_SUPPLY"
  using chain_reachable_inv [OF assms] by (simp add: chain_inv_def bal_inv_def chain_supply_def)

definition sample_runtime_base :: "(zk_tree, nat bal_state, nat, bal_error) shielded_config" where
  "sample_runtime_base = sample_params (account_burn runtime_accounts) None"

definition sample_runtime :: "(zk_tree, nat bal_state, nat, bal_error) shielded_config" where
  "sample_runtime = runtime_pool sample_plonky2 (replicate 26 0) sample_artifact 1 1 sample_runtime_base"

definition sample_start :: "nat chain" where
  "sample_start = genesis_chain sample_runtime (the (bal_genesis runtime_accounts [(1, UNIT)])) (\<lambda>_. zero_hash)"

lemma sample_start_issuance: "TotalIssuance (the (bal_genesis runtime_accounts [(1::nat, UNIT)])) = UNIT"
  by (simp add: evaluate_genesis runtime_accounts_def MILLI_UNIT_def UNIT_def)

text \<open>The first block has no author: its reward of 4.1999998 units waits for the next one.\<close>

lemma sample_no_author: "block_author sample_runtime w = None"
  by (simp add: block_author_def sample_runtime_def runtime_pool_def wire_pool_def wire_accounts_def sample_runtime_base_def sample_params_def)

lemma sample_start_supply: "shielded_supply (ch_world sample_start) = 0"
  by (simp add: sample_start_def genesis_chain_def shielded_supply_def shielded_genesis_build_def genesis_pool_def sat_add_def)

lemma sample_start_reward: "block_reward (wire_rewards sample_runtime) (ch_world sample_start) 0 = 4199999800000"
proof -
  have "TotalIssuance (balances (ch_world sample_start)) = UNIT"
    using sample_start_issuance by (simp add: sample_start_def genesis_chain_def)
  then show ?thesis
    using sample_start_supply
    by (simp add: block_reward_def wire_rewards_def Let_def MAX_SUPPLY_def EMISSION_DIVISOR_def sat_add_def UNIT_def)
qed

lemma sample_finalize_tree: "\<exists>t. zk_on_finalize sample_poseidon (tree (ch_world sample_start)) = Some t"
  by (simp add: zk_on_finalize_def process_pending_leaves_def sample_start_def genesis_chain_def genesis_tree_def)

lemma sample_first_block:
  "\<exists>c. chain_on_finalize sample_poseidon (wire_rewards sample_runtime) sample_start = Some c
     \<and> CollectedFees (ch_rewards c) = 4199999800000"
proof -
  have none: "ch_credit sample_start = None" "CollectedFees (ch_rewards sample_start) = 0"
    by (simp_all add: sample_start_def genesis_chain_def)
  then have same: "put_fees (payment_on_finalize (fees_of sample_start)) sample_start = sample_start"
    by (simp add: payment_on_finalize_def put_fees_def)
  obtain t where t: "zk_on_finalize sample_poseidon (tree (ch_world sample_start)) = Some t"
    using sample_finalize_tree by blast
  have author: "\<not> rw_has_author (wire_rewards sample_runtime) (ch_world sample_start)"
    by (simp add: wire_rewards_def sample_no_author)
  have w: "snd (rewards_on_finalize (wire_rewards sample_runtime) (ch_rewards sample_start, ch_world sample_start)) = ch_world sample_start"
    using author by (simp add: rewards_on_finalize_def Let_def)
  have "CollectedFees (fst (rewards_on_finalize (wire_rewards sample_runtime) (ch_rewards sample_start, ch_world sample_start))) = 4199999800000"
    using authorless_block [OF author, of "ch_rewards sample_start"] none sample_start_reward by simp
  then show ?thesis using w t by (auto simp: chain_on_finalize_def same Let_def split: prod.splits)
qed

theorem supply_cap_witness:
  "\<exists>c. chain_reachable sample_poseidon (\<lambda>_. False) sample_runtime [(1, UNIT)] c
     \<and> CollectedFees (ch_rewards c) = 4199999800000
     \<and> TotalIssuance (balances (ch_world c)) + 4199999800000
         + (PoolValue (pool (ch_world c)) + PendingCoinbaseFee (pool (ch_world c))) \<le> MAX_SUPPLY"
proof -
  obtain c where c: "chain_on_finalize sample_poseidon (wire_rewards sample_runtime) sample_start = Some c"
    "CollectedFees (ch_rewards c) = 4199999800000"
    using sample_first_block by blast
  have "ch_payer sample_start = None" by (simp add: sample_start_def genesis_chain_def)
  then have step: "chain_step sample_poseidon (\<lambda>_. False) sample_runtime sample_start c"
    using c(1) by (rule chain_finalize)
  have start: "chain_reachable sample_poseidon (\<lambda>_. False) sample_runtime [(1, UNIT)] sample_start"
    unfolding sample_start_def by (rule chain_genesis [OF endowed_genesis])
  have reach: "chain_reachable sample_poseidon (\<lambda>_. False) sample_runtime [(1, UNIT)] c"
    by (rule chain_next [OF start step])
  have widths: "config_widths sample_runtime"
    by (simp add: config_widths_def sample_runtime_def runtime_pool_def wire_pool_def wire_accounts_def sample_runtime_base_def sample_params_def)
  from supply_cap [OF sample_runtime_def widths endowed_fits reach] reach c(2) show ?thesis by auto
qed

end
